(* ===== verification/Bridge_Prelude.thy ===== *)
theory Bridge_Prelude
  imports Main "HOL-Library.Word" "HOL-Library.While_Combinator"
    "HOL-Library.Multiset" "HOL-Library.AList"
begin

text \<open>
  Shared vocabulary of the development: Go's fixed-width integers, instants and durations, the
  small part of Go's \<^verbatim>\<open>strings\<close> package the sources use, runs of a machine, and the locales that
  state the contracts several components share.

  Instants are nanoseconds since Go's zero time (January 1, year 1, UTC), so that
  \<^verbatim>\<open>Time.IsZero\<close> is \<open>t = 0\<close>; durations are nanoseconds.  \<^verbatim>\<open>Time.Sub\<close> saturates at the bounds of
  \<^verbatim>\<open>int64\<close>.  Slice lengths and byte counts of Go type \<^verbatim>\<open>int\<close> are \<open>int\<close>: every one of them is
  bounded by an explicit cap or by the size of data that is in memory, so that they stay far below
  the 64-bit bound; counters whose wrap-around is visible are words.
\<close>

section \<open>Machine integers, instants and durations\<close>

type_synonym byte = "8 word"
type_synonym u32 = "32 word"
type_synonym u64 = "64 word"
type_synonym instant = int
type_synonym duration = int

definition zeroTime :: instant where
  "zeroTime = 0"

definition isZero :: "instant \<Rightarrow> bool" where
  "isZero t \<longleftrightarrow> t = zeroTime"

definition maxDuration :: duration where
  "maxDuration = 2 ^ 63 - 1"

definition minDuration :: duration where
  "minDuration = - (2 ^ 63)"

definition timeSub :: "instant \<Rightarrow> instant \<Rightarrow> duration" where
  "timeSub t u = max minDuration (min maxDuration (t - u))"

abbreviation nanosPerMilli :: duration where
  "nanosPerMilli \<equiv> 1000000"

abbreviation nanosPerSecond :: duration where
  "nanosPerSecond \<equiv> 1000000000"

definition millis :: "u32 \<Rightarrow> duration" where
  "millis n = uint n * nanosPerMilli"

lemma timeSub_nonpos [simp]: "timeSub t u \<le> 0 \<longleftrightarrow> t \<le> u"
  by (auto simp: timeSub_def minDuration_def maxDuration_def min_def)

lemma timeSub_pos: "0 < timeSub t u \<longleftrightarrow> u < t"
  using timeSub_nonpos [of t u] by linarith

lemma timeSub_exact:
  "minDuration \<le> t - u \<Longrightarrow> t - u \<le> maxDuration \<Longrightarrow> timeSub t u = t - u"
  by (simp add: timeSub_def)

lemma timeSub_ge:
  "minDuration < d \<Longrightarrow> d \<le> maxDuration \<Longrightarrow> d \<le> timeSub t u \<longleftrightarrow> d \<le> t - u"
  by (auto simp: timeSub_def min_def max_def)

lemma timeSub_mono: "t \<le> t' \<Longrightarrow> timeSub t u \<le> timeSub t' u"
  by (simp add: timeSub_def min_def max_def)

lemma millis_nonneg [simp]: "0 \<le> millis n"
  by (simp add: millis_def)

lemma millis_bound: "millis n < 2 ^ 32 * nanosPerMilli"
proof -
  have "uint n < 2 ^ 32" using uint_lt2p [of n] by simp
  then show ?thesis by (simp add: millis_def)
qed

section \<open>Counting without wrap-around\<close>

lemma unat_plus_one: "n \<noteq> - 1 \<Longrightarrow> unat (n + 1) = Suc (unat (n :: 'a::len word))"
  by (metis Suc_eq_plus1 add.commute add.inverse_unique unatSuc)

lemma unat_less_word_len: "unat (w :: 'a::len word) < 2 ^ LENGTH('a)"
  by (rule unsigned_less)

section \<open>Association lists\<close>

lemma map_of_rev_distinct: "distinct (map fst kvs) \<Longrightarrow> map_of (rev kvs) = map_of kvs"
proof (induction kvs)
  case (Cons kv kvs)
  then have "fst kv \<notin> dom (map_of kvs)" by (simp add: dom_map_of_conv_image_fst)
  with Cons show ?case by (cases kv) (auto simp: map_add_upd_left)
qed simp

lemma set_AList_update: "x \<in> set (AList.update k v m) \<Longrightarrow> x = (k, v) \<or> x \<in> set m"
  by (induction m) (auto split: if_splits)

section \<open>Lists updated in place\<close>

lemma length_filter_update:
  "i < length xs \<Longrightarrow>
   length (filter P (xs[i := x])) + (if P (xs ! i) then 1 else 0)
     = length (filter P xs) + (if P x then 1 else 0)"
proof (induction xs arbitrary: i)
  case (Cons y ys)
  then show ?case by (cases i) auto
qed simp

lemma length_filter_update_same:
  "i < length xs \<Longrightarrow> P (xs ! i) = P x \<Longrightarrow> length (filter P (xs[i := x])) = length (filter P xs)"
  using length_filter_update [of i xs P x] by (simp split: if_splits)

lemma mset_concat_update:
  "i < length xs \<Longrightarrow>
   mset (concat (map f (xs[i := x]))) + mset (f (xs ! i)) = mset (concat (map f xs)) + mset (f x)"
proof (induction xs arbitrary: i)
  case (Cons y ys)
  then show ?case by (cases i) (auto simp: ac_simps)
qed simp

section \<open>Taking turns\<close>

lemma rotation_covers: "i < n \<Longrightarrow> \<exists>k<n. (c + k) mod n = (i :: nat)"
proof -
  assume i: "i < n"
  then have n: "0 < n" by simp
  have "(c + (n - c mod n + i) mod n) mod n = (c mod n + (n - c mod n) + i) mod n"
    by (simp add: mod_simps add.assoc)
  also have "\<dots> = i" using i n by (simp add: mod_less_divisor less_imp_le)
  finally show ?thesis using n by (intro exI [of _ "(n - c mod n + i) mod n"]) simp
qed

lemma find_rotated_None: "find P (map (\<lambda>k. (c + k) mod n) [0..<n]) = None \<longleftrightarrow> (\<forall>i<n. \<not> P (i :: nat))"
proof (cases "n = 0")
  case False
  have "(\<forall>k<n. \<not> P ((c + k) mod n)) \<longleftrightarrow> (\<forall>i<n. \<not> P i)"
  proof (intro iffI allI impI)
    fix i assume "\<forall>k<n. \<not> P ((c + k) mod n)" and "i < n"
    then show "\<not> P i" using rotation_covers [of i n c] by auto
  next
    fix k assume "\<forall>i<n. \<not> P i"
    then show "\<not> P ((c + k) mod n)" using False by simp
  qed
  moreover have "find P (map (\<lambda>k. (c + k) mod n) [0..<n]) = None \<longleftrightarrow> (\<forall>k<n. \<not> P ((c + k) mod n))"
    by (auto simp: find_None_iff)
  ultimately show ?thesis by blast
qed simp

section \<open>Results\<close>

type_synonym ('e, 'a) result = "'e + 'a"

fun rbind :: "('e, 'a) result \<Rightarrow> ('a \<Rightarrow> ('e, 'b) result) \<Rightarrow> ('e, 'b) result" where
  "rbind (Inl e) f = Inl e"
| "rbind (Inr x) f = f x"

lemma rbind_Inr: "rbind r f = Inr y \<longleftrightarrow> (\<exists>x. r = Inr x \<and> f x = Inr y)"
  by (cases r) auto

lemma rbind_Inl: "rbind r f = Inl e \<longleftrightarrow> r = Inl e \<or> (\<exists>x. r = Inr x \<and> f x = Inl e)"
  by (cases r) auto

lemma rbind_cong [fundef_cong]:
  "r = s \<Longrightarrow> (\<And>x. s = Inr x \<Longrightarrow> f x = g x) \<Longrightarrow> rbind r f = rbind s g"
  by (cases s) auto

section \<open>Strings\<close>

text \<open>
  Go strings are byte strings.  \<open>trimSpace\<close> is \<^verbatim>\<open>strings.TrimSpace\<close> on ASCII text: tab, newline,
  vertical tab, form feed, carriage return and space are trimmed at both ends.
\<close>

definition isSpace :: "char \<Rightarrow> bool" where
  "isSpace c \<longleftrightarrow> (of_char c :: nat) \<in> {9, 10, 11, 12, 13, 32}"

definition trimSpace :: "string \<Rightarrow> string" where
  "trimSpace s = rev (dropWhile isSpace (rev (dropWhile isSpace s)))"

definition hasPrefix :: "string \<Rightarrow> string \<Rightarrow> bool" where
  "hasPrefix s p \<longleftrightarrow> take (length p) s = p"

lemma dropWhile_all_not: "\<forall>c\<in>set s. \<not> P c \<Longrightarrow> dropWhile P s = s"
  by (cases s) auto

lemma trimSpace_id: "\<forall>c\<in>set s. \<not> isSpace c \<Longrightarrow> trimSpace s = s"
  by (simp add: trimSpace_def dropWhile_all_not)

lemma trimSpace_Nil [simp]: "trimSpace [] = []"
  by (simp add: trimSpace_def)

section \<open>Runs of a machine\<close>

fun run :: "('s \<Rightarrow> 'o \<Rightarrow> 's) \<Rightarrow> 's \<Rightarrow> 'o list \<Rightarrow> 's" where
  "run step s [] = s"
| "run step s (x # xs) = run step (step s x) xs"

lemma run_append [simp]: "run step s (xs @ ys) = run step (run step s xs) ys"
  by (induction xs arbitrary: s) auto

text \<open>A component whose every operation keeps an invariant.\<close>

locale guarded_machine =
  fixes step :: "'s \<Rightarrow> 'o \<Rightarrow> 's"
    and good :: "'s \<Rightarrow> bool"
  assumes step_good: "good s \<Longrightarrow> good (step s x)"
begin

lemma run_good: "good s \<Longrightarrow> good (run step s xs)"
  by (induction xs arbitrary: s) (auto intro: step_good)

end

text \<open>
  A component with a one-way door: once a state is through, no operation takes it back.  Used for
  the committed shutdown, the closed pool, the degraded health and the terminal states of a
  cancellable transfer.
\<close>

locale one_way_machine = guarded_machine +
  fixes past :: "'a \<Rightarrow> bool"
  assumes past_step: "good s \<Longrightarrow> past s \<Longrightarrow> past (step s x)"
begin

lemma past_run: "good s \<Longrightarrow> past s \<Longrightarrow> past (run step s xs)"
  by (induction xs arbitrary: s) (auto intro: step_good past_step)

lemma not_past_before: "good s \<Longrightarrow> \<not> past (run step s (xs @ ys)) \<Longrightarrow> \<not> past (run step s xs)"
  using past_run run_good by fastforce

end

text \<open>A component with a counter no operation decreases.\<close>

locale counting_machine = guarded_machine +
  fixes level :: "'a \<Rightarrow> nat"
  assumes level_step: "good s \<Longrightarrow> level s \<le> level (step s x)"
begin

lemma level_run: "good s \<Longrightarrow> level s \<le> level (run step s xs)"
  by (induction xs arbitrary: s) (auto intro: order_trans level_step step_good)

end

text \<open>Machines whose operations contain a loop: \<open>None\<close> is an operation that never returns.\<close>

fun runM :: "('s \<Rightarrow> 'o \<Rightarrow> 's option) \<Rightarrow> 's \<Rightarrow> 'o list \<Rightarrow> 's option" where
  "runM step s [] = Some s"
| "runM step s (x # xs) = Option.bind (step s x) (\<lambda>s'. runM step s' xs)"

lemma runM_append: "runM step s (xs @ ys) = Option.bind (runM step s xs) (\<lambda>t. runM step t ys)"
  by (induction xs arbitrary: s) (simp_all add: Option.bind_assoc)

locale looping_machine =
  fixes step :: "'s \<Rightarrow> 'o \<Rightarrow> 's option"
    and good :: "'s \<Rightarrow> bool"
  assumes step_returns: "good s \<Longrightarrow> \<exists>s'. step s x = Some s' \<and> good s'"
begin

lemma runM_returns: "good s \<Longrightarrow> \<exists>s'. runM step s xs = Some s' \<and> good s'"
proof (induction xs arbitrary: s)
  case (Cons x xs)
  then obtain s' where "step s x = Some s'" "good s'" using step_returns by blast
  with Cons.IH show ?case by simp
qed simp

lemma runM_good: "good s \<Longrightarrow> runM step s xs = Some s' \<Longrightarrow> good s'"
  using runM_returns [of s xs] by auto

end

section \<open>Bounded queues that evict from the front\<close>

text \<open>
  The event buffer, the live-frame buffer, the revision journal and the relay mailbox keep a list
  of records with a running total of their charged bytes and drop the oldest records while a limit
  is exceeded.  \<open>balanced\<close> says that the total is the sum of the charges; the loops are
  \<open>while_option\<close>, whose \<open>None\<close> is a loop that never ends.
\<close>

definition balanced :: "('s \<Rightarrow> 'e list) \<Rightarrow> ('s \<Rightarrow> int) \<Rightarrow> ('e \<Rightarrow> int) \<Rightarrow> 's \<Rightarrow> bool" where
  "balanced items charge cost s \<longleftrightarrow> charge s = sum_list (map cost (items s))"

definition over_limit :: "('s \<Rightarrow> 'e list) \<Rightarrow> ('s \<Rightarrow> int) \<Rightarrow> int \<Rightarrow> int \<Rightarrow> 's \<Rightarrow> bool" where
  "over_limit items charge maxItems maxCharge s \<longleftrightarrow>
     maxItems < int (length (items s)) \<or> maxCharge < charge s"

locale eviction_queue =
  fixes items :: "'s \<Rightarrow> 'e list"
    and charge :: "'s \<Rightarrow> int"
    and cost :: "'e \<Rightarrow> int"
    and evict :: "'s \<Rightarrow> 's"
  assumes items_evict: "items s \<noteq> [] \<Longrightarrow> items (evict s) = tl (items s)"
    and charge_evict: "items s \<noteq> [] \<Longrightarrow> charge (evict s) = charge s - cost (hd (items s))"
begin

lemma balanced_evict:
  "balanced items charge cost s \<Longrightarrow> items s \<noteq> [] \<Longrightarrow> balanced items charge cost (evict s)"
  by (cases "items s") (auto simp: balanced_def items_evict charge_evict)

lemma evict_loop:
  assumes "balanced items charge cost s"
    and "\<And>s. balanced items charge cost s \<Longrightarrow> go s \<Longrightarrow> items s \<noteq> []"
  shows "\<exists>k. k \<le> length (items s) \<and> while_option go evict s = Some ((evict ^^ k) s)
    \<and> items ((evict ^^ k) s) = drop k (items s)
    \<and> balanced items charge cost ((evict ^^ k) s)
    \<and> \<not> go ((evict ^^ k) s) \<and> (\<forall>j<k. go ((evict ^^ j) s))"
  using assms(1)
proof (induction "length (items s)" arbitrary: s rule: less_induct)
  case less
  show ?case
  proof (cases "go s")
    case False
    with less.prems show ?thesis
      by (intro exI [of _ 0]) (simp add: while_option_unfold)
  next
    case True
    with less.prems assms(2) have ne: "items s \<noteq> []" by blast
    then have "length (items (evict s)) < length (items s)" by (simp add: items_evict)
    from less.hyps [OF this balanced_evict [OF less.prems ne]] obtain k where k:
      "k \<le> length (items (evict s))" "while_option go evict (evict s) = Some ((evict ^^ k) (evict s))"
      "items ((evict ^^ k) (evict s)) = drop k (items (evict s))"
      "balanced items charge cost ((evict ^^ k) (evict s))" "\<not> go ((evict ^^ k) (evict s))"
      "\<forall>j<k. go ((evict ^^ j) (evict s))" by blast
    have shift: "(evict ^^ Suc j) s = (evict ^^ j) (evict s)" for j by (simp add: funpow_swap1)
    have "\<forall>j<Suc k. go ((evict ^^ j) s)"
      using True k(6) by (auto simp: less_Suc_eq_0_disj shift simp del: funpow.simps(2))
    moreover have "drop k (tl (items s)) = drop (Suc k) (items s)" by (simp add: drop_Suc)
    moreover have "Suc k \<le> length (items s)" using k(1) ne
      by (cases "items s") (simp_all add: items_evict)
    ultimately show ?thesis using True k ne
      by (intro exI [of _ "Suc k"])
        (simp add: shift while_option_unfold [of _ _ s] items_evict del: funpow.simps(2))
  qed
qed

text \<open>Trimming to the limits ends, and drops a shortest prefix that meets them.\<close>

lemma enforce_limits:
  assumes "balanced items charge cost s" and "0 \<le> maxItems" and "0 \<le> maxCharge"
  shows "\<exists>k. k \<le> length (items s)
    \<and> while_option (over_limit items charge maxItems maxCharge) evict s = Some ((evict ^^ k) s)
    \<and> items ((evict ^^ k) s) = drop k (items s)
    \<and> balanced items charge cost ((evict ^^ k) s)
    \<and> \<not> over_limit items charge maxItems maxCharge ((evict ^^ k) s)
    \<and> (\<forall>j<k. over_limit items charge maxItems maxCharge ((evict ^^ j) s))"
proof (rule evict_loop [OF assms(1)])
  fix s assume "balanced items charge cost s" and "over_limit items charge maxItems maxCharge s"
  with assms(2,3) show "items s \<noteq> []" by (auto simp: balanced_def over_limit_def)
qed

text \<open>Expiry from the front ends, and leaves the queue from its first record that is not expired.\<close>

lemma expire_front:
  assumes "balanced items charge cost s"
  shows "\<exists>k. while_option (\<lambda>s. items s \<noteq> [] \<and> old (hd (items s))) evict s = Some ((evict ^^ k) s)
    \<and> items ((evict ^^ k) s) = dropWhile old (items s)
    \<and> balanced items charge cost ((evict ^^ k) s)"
proof -
  let ?go = "\<lambda>s. items s \<noteq> [] \<and> old (hd (items s))"
  have ev: "items ((evict ^^ j) s) = drop j (items s)" if "\<forall>i<j. ?go ((evict ^^ i) s)" for j
    using that by (induction j) (auto simp: items_evict drop_Suc tl_drop)
  obtain k where k: "k \<le> length (items s)" "while_option ?go evict s = Some ((evict ^^ k) s)"
      "items ((evict ^^ k) s) = drop k (items s)" "balanced items charge cost ((evict ^^ k) s)"
      "\<not> ?go ((evict ^^ k) s)" "\<forall>j<k. ?go ((evict ^^ j) s)"
    using evict_loop [of s ?go] assms by blast
  have olds: "old (items s ! j)" if "j < k" for j
  proof -
    have "items ((evict ^^ j) s) = drop j (items s)" using k(6) that by (intro ev) auto
    then show ?thesis using k(6) that k(1) by (metis (no_types, lifting) hd_drop_conv_nth less_le_trans)
  qed
  have "dropWhile old (items s) = drop k (items s)"
  proof -
    have "dropWhile old (take k (items s) @ drop k (items s)) = dropWhile old (drop k (items s))"
      using olds k(1) by (intro dropWhile_append2) (auto simp: in_set_conv_nth)
    also have "\<dots> = drop k (items s)" using k(3,5) by (cases "drop k (items s)") auto
    finally show ?thesis by simp
  qed
  with k show ?thesis by auto
qed

end

end
