(* ===== verification/Admission.thy ===== *)
theory Admission
  imports Bridge_Prelude
begin

text \<open>
  The runtime admission machine of \<^verbatim>\<open>go-bridge/admission/admission.go\<close>: the bounded-lease
  quiesce / commit / abort protocol by which the Mac supervisor shuts a runtime down only when no
  bridge-owned turn is running.  Every exported method takes the machine's lock for its whole
  body, so one method call is one atomic step and a run is a list of calls.

  The clock and the token generator are injected functions in the source; here each clock reading
  is an argument (\<open>t\<close> the reading of \<open>expireActiveIfDue\<close>, \<open>t'\<close> the later one of the same call) and so
  is the outcome of the one possible token generation (\<open>None\<close> for its error).  The properties that
  need the clock say so (\<open>t \<le> t'\<close>).
\<close>

section \<open>Data\<close>

datatype AdmissionState = StateAccepting | StateQuiescing | StateShuttingDown

definition AdmissionState_String :: "AdmissionState \<Rightarrow> string" where
  "AdmissionState_String s = (case s of
     StateAccepting \<Rightarrow> ''accepting''
   | StateQuiescing \<Rightarrow> ''quiescing''
   | StateShuttingDown \<Rightarrow> ''shuttingDown'')"

datatype HealthState = HealthHealthy | HealthDegrading | HealthDegraded

definition HealthState_String :: "HealthState \<Rightarrow> string" where
  "HealthState_String s = (case s of
     HealthHealthy \<Rightarrow> ''healthy''
   | HealthDegrading \<Rightarrow> ''degrading''
   | HealthDegraded \<Rightarrow> ''degraded'')"

datatype terminalKind = terminalCommitted | terminalAborted | terminalExpired

text \<open>Tokens and operation ids are arrays of 16 bytes.\<close>

type_synonym Token = "byte list"
type_synonym OperationID = "byte list"

record RuntimeIdentity =
  PID :: "32 word"
  BridgeEpoch :: u64

record activeOp =
  ao_id :: OperationID
  ao_quiesceEpoch :: u64
  ao_token :: Token
  ao_expiresAt :: instant
  ao_leaseMillis :: u32

record terminalOp =
  to_id :: OperationID
  to_quiesceEpoch :: u64
  to_token :: Token
  to_kind :: terminalKind

record AdmissionMachine =
  am_state :: AdmissionState
  am_identity :: RuntimeIdentity
  am_health :: HealthState
  am_stateEpoch :: u64
  am_quiesceEpoch :: u64
  am_active :: "activeOp option"
  am_lastTerminal :: "terminalOp option"
  am_bridgeOwnedActiveTurns :: u32
  am_pendingInteractions :: u32
  am_leaseMillis :: u32

definition NewAdmissionMachine :: "RuntimeIdentity \<Rightarrow> u32 \<Rightarrow> AdmissionMachine" where
  "NewAdmissionMachine identity leaseMillis =
     \<lparr>am_state = StateAccepting, am_identity = identity, am_health = HealthHealthy,
      am_stateEpoch = 1, am_quiesceEpoch = 0, am_active = None, am_lastTerminal = None,
      am_bridgeOwnedActiveTurns = 0, am_pendingInteractions = 0, am_leaseMillis = leaseMillis\<rparr>"

section \<open>Operations on the activity counters and on health\<close>

definition expireActiveIfDue :: "instant \<Rightarrow> AdmissionMachine \<Rightarrow> AdmissionMachine" where
  "expireActiveIfDue t m =
     (case am_active m of
        Some a \<Rightarrow>
          if am_state m = StateQuiescing \<and> \<not> t < ao_expiresAt a
          then m\<lparr>am_lastTerminal := Some \<lparr>to_id = ao_id a, to_quiesceEpoch = ao_quiesceEpoch a,
                                          to_token = ao_token a, to_kind = terminalExpired\<rparr>,
                 am_active := None, am_state := StateAccepting\<rparr>
          else m
      | None \<Rightarrow> m)"

definition SetActivity :: "u32 \<Rightarrow> u32 \<Rightarrow> AdmissionMachine \<Rightarrow> AdmissionMachine" where
  "SetActivity turns pending m =
     m\<lparr>am_bridgeOwnedActiveTurns := turns, am_pendingInteractions := pending\<rparr>"

definition TryBeginBridgeTurn :: "instant \<Rightarrow> AdmissionMachine \<Rightarrow> bool \<times> AdmissionMachine" where
  "TryBeginBridgeTurn t m0 =
     (let m = expireActiveIfDue t m0 in
      if am_state m \<noteq> StateAccepting \<or> am_bridgeOwnedActiveTurns m = not 0
      then (False, m)
      else (True, m\<lparr>am_bridgeOwnedActiveTurns := am_bridgeOwnedActiveTurns m + 1\<rparr>))"

definition EndBridgeTurn :: "AdmissionMachine \<Rightarrow> AdmissionMachine" where
  "EndBridgeTurn m =
     (if am_bridgeOwnedActiveTurns m > 0
      then m\<lparr>am_bridgeOwnedActiveTurns := am_bridgeOwnedActiveTurns m - 1\<rparr> else m)"

definition SetPendingInteractions :: "u32 \<Rightarrow> AdmissionMachine \<Rightarrow> AdmissionMachine" where
  "SetPendingInteractions n m = m\<lparr>am_pendingInteractions := n\<rparr>"

definition SetHealthSnapshot :: "HealthState \<Rightarrow> u64 \<Rightarrow> AdmissionMachine \<Rightarrow> AdmissionMachine" where
  "SetHealthSnapshot state epoch m = m\<lparr>am_health := state, am_stateEpoch := epoch\<rparr>"

text \<open>
  The remaining lease: \<^verbatim>\<open>uint32(d / time.Millisecond)\<close> truncates to 32 bits before the clamp.
\<close>

definition remainingLeaseMillis :: "instant \<Rightarrow> instant \<Rightarrow> u32 \<Rightarrow> u32" where
  "remainingLeaseMillis now expiresAt leaseMillis =
     (let d = timeSub expiresAt now in
      if d \<le> 0 then 0
      else let ms = word_of_int (d div nanosPerMilli) in
           if ms > leaseMillis then leaseMillis else ms)"

section \<open>Snapshots\<close>

record RuntimeSnapshot =
  rs_State :: AdmissionState
  rs_Identity :: RuntimeIdentity
  rs_Health :: HealthState
  rs_HealthEpoch :: u64
  rs_BridgeOwnedActiveTurns :: u32
  rs_PendingInteractions :: u32
  rs_OperationID :: "OperationID option"  \<comment> \<open>\<open>None\<close>: \<^verbatim>\<open>HasOperation\<close> is false\<close>
  rs_QuiesceEpoch :: u64
  rs_LeaseRemainingMillis :: u32

definition Snapshot ::
  "instant \<Rightarrow> instant \<Rightarrow> AdmissionMachine \<Rightarrow> RuntimeSnapshot \<times> AdmissionMachine" where
  "Snapshot t t' m0 =
     (let m = expireActiveIfDue t m0;
          s = \<lparr>rs_State = am_state m, rs_Identity = am_identity m, rs_Health = am_health m,
               rs_HealthEpoch = am_stateEpoch m,
               rs_BridgeOwnedActiveTurns = am_bridgeOwnedActiveTurns m,
               rs_PendingInteractions = am_pendingInteractions m,
               rs_OperationID = None, rs_QuiesceEpoch = 0, rs_LeaseRemainingMillis = 0\<rparr>
      in ((case am_active m of
             Some a \<Rightarrow> s\<lparr>rs_OperationID := Some (ao_id a), rs_QuiesceEpoch := ao_quiesceEpoch a,
                         rs_LeaseRemainingMillis :=
                           remainingLeaseMillis t' (ao_expiresAt a) (ao_leaseMillis a)\<rparr>
           | None \<Rightarrow>
               (case am_lastTerminal m of
                  Some l \<Rightarrow>
                    if am_state m = StateShuttingDown \<and> to_kind l = terminalCommitted
                    then s\<lparr>rs_OperationID := Some (to_id l), rs_QuiesceEpoch := to_quiesceEpoch l\<rparr>
                    else s
                | None \<Rightarrow> s)), m))"

definition LastTerminalKind :: "AdmissionMachine \<Rightarrow> terminalKind option" where
  "LastTerminalKind m = map_option to_kind (am_lastTerminal m)"

section \<open>Quiesce\<close>

definition ManagementSchemaVersion :: u64 where
  "ManagementSchemaVersion = 1"

record QuiesceRequest =
  qr_ManagementSchemaVersion :: u64
  qr_OperationID :: OperationID
  qr_ExpectedRuntime :: RuntimeIdentity
  qr_ExpectedHealthEpoch :: u64

text \<open>
  Results are tagged by outcome; the fields that the source documents as set for one outcome only
  are the arguments of that constructor.
\<close>

datatype QuiesceResult =
    QuiesceSafe (qs_runtime: RuntimeIdentity) (qs_healthEpoch: u64) (qs_quiesceEpoch: u64)
      (qs_token: Token) (qs_leaseMillis: u32) (qs_leaseRemaining: u32)
  | QuiesceDeferred (qd_activeTurns: u32) (qd_pendingInteractions: u32) (qd_retryAfter: u32)
  | QuiesceIdentityMismatch
  | QuiesceEpochMismatch
  | QuiesceAlreadyCommitted
  | QuiesceAlreadyQuiescing
  | QuiesceOperationReused
  | QuiesceTokenGenerationFail

definition startLease :: "instant \<Rightarrow> Token \<Rightarrow> OperationID \<Rightarrow> AdmissionMachine \<Rightarrow> AdmissionMachine" where
  "startLease t' tok opID m =
     m\<lparr>am_quiesceEpoch := am_quiesceEpoch m + 1,
       am_active := Some \<lparr>ao_id = opID, ao_quiesceEpoch = am_quiesceEpoch m + 1, ao_token = tok,
                          ao_expiresAt = t' + millis (am_leaseMillis m),
                          ao_leaseMillis = am_leaseMillis m\<rparr>,
       am_state := StateQuiescing\<rparr>"

definition Quiesce ::
  "instant \<Rightarrow> instant \<Rightarrow> Token option \<Rightarrow> QuiesceRequest \<Rightarrow> AdmissionMachine
     \<Rightarrow> QuiesceResult \<times> AdmissionMachine" where
  "Quiesce t t' gen req m0 =
     (let m = expireActiveIfDue t m0 in
      if qr_ManagementSchemaVersion req \<noteq> ManagementSchemaVersion then (QuiesceIdentityMismatch, m)
      else if qr_ExpectedRuntime req \<noteq> am_identity m then (QuiesceIdentityMismatch, m)
      else if qr_ExpectedHealthEpoch req \<noteq> am_stateEpoch m then (QuiesceEpochMismatch, m)
      else case am_state m of
        StateShuttingDown \<Rightarrow> (QuiesceAlreadyCommitted, m)
      | StateQuiescing \<Rightarrow>
          (case am_active m of
             Some a \<Rightarrow>
               if ao_id a = qr_OperationID req
               then (QuiesceSafe (am_identity m) (am_stateEpoch m) (ao_quiesceEpoch a) (ao_token a)
                       (ao_leaseMillis a)
                       (remainingLeaseMillis t' (ao_expiresAt a) (ao_leaseMillis a)), m)
               else (QuiesceAlreadyQuiescing, m)
           | None \<Rightarrow> (QuiesceAlreadyQuiescing, m))
      | StateAccepting \<Rightarrow>
          if am_bridgeOwnedActiveTurns m > 0 \<or> am_pendingInteractions m > 0
          then (QuiesceDeferred (am_bridgeOwnedActiveTurns m) (am_pendingInteractions m) 0, m)
          else if map_option to_id (am_lastTerminal m) = Some (qr_OperationID req)
          then (QuiesceOperationReused, m)
          else (case gen of
                  None \<Rightarrow> (QuiesceTokenGenerationFail, m)
                | Some tok \<Rightarrow>
                    (let m' = startLease t' tok (qr_OperationID req) m in
                     (QuiesceSafe (am_identity m) (am_stateEpoch m) (am_quiesceEpoch m') tok
                        (am_leaseMillis m) (am_leaseMillis m), m'))))"

section \<open>Commit and abort\<close>

record CommitRequest =
  cr_ManagementSchemaVersion :: u64
  cr_OperationID :: OperationID
  cr_ExpectedRuntime :: RuntimeIdentity
  cr_ExpectedHealthEpoch :: u64
  cr_QuiesceEpoch :: u64
  cr_Token :: Token

datatype CommitResult =
    OutcomeCommitted RuntimeIdentity u64 u64
  | OutcomeAlreadyCommitted RuntimeIdentity u64 u64
  | OutcomeAborted RuntimeIdentity u64
  | OutcomeAlreadyAccepting
  | OutcomeIdentityMismatch
  | OutcomeEpochMismatch
  | OutcomeQuiesceMismatch
  | OutcomeTokenMismatch
  | OutcomeLeaseExpired

text \<open>
  \<^verbatim>\<open>subtle.ConstantTimeCompare\<close>: slices of different lengths are unequal; otherwise the bytes are
  XORed pairwise and ORed together without an early exit, and the slices are equal when the
  accumulated byte is zero.
\<close>

fun xorAccumulate :: "byte list \<Rightarrow> byte list \<Rightarrow> byte \<Rightarrow> byte" where
  "xorAccumulate (x # xs) (y # ys) v = xorAccumulate xs ys (or v (xor x y))"
| "xorAccumulate _ _ v = v"

definition ConstantTimeCompareToken :: "Token \<Rightarrow> Token \<Rightarrow> bool" where
  "ConstantTimeCompareToken a b \<longleftrightarrow> length a = length b \<and> xorAccumulate a b 0 = 0"

definition finishActive ::
  "activeOp \<Rightarrow> terminalKind \<Rightarrow> AdmissionState \<Rightarrow> AdmissionMachine \<Rightarrow> AdmissionMachine" where
  "finishActive a kind state m =
     m\<lparr>am_lastTerminal := Some \<lparr>to_id = ao_id a, to_quiesceEpoch = ao_quiesceEpoch a,
                               to_token = ao_token a, to_kind = kind\<rparr>,
       am_active := None, am_state := state\<rparr>"

definition commitAbort ::
  "instant \<Rightarrow> bool \<Rightarrow> CommitRequest \<Rightarrow> AdmissionMachine \<Rightarrow> CommitResult \<times> AdmissionMachine" where
  "commitAbort t isCommit req m0 =
     (let m = expireActiveIfDue t m0 in
      if cr_ManagementSchemaVersion req \<noteq> ManagementSchemaVersion then (OutcomeIdentityMismatch, m)
      else if cr_ExpectedRuntime req \<noteq> am_identity m then (OutcomeIdentityMismatch, m)
      else if cr_ExpectedHealthEpoch req \<noteq> am_stateEpoch m then (OutcomeEpochMismatch, m)
      else case am_state m of
        StateQuiescing \<Rightarrow>
          (case am_active m of
             None \<Rightarrow> (OutcomeQuiesceMismatch, m)
           | Some a \<Rightarrow>
               if ao_id a \<noteq> cr_OperationID req then (OutcomeQuiesceMismatch, m)
               else if cr_QuiesceEpoch req \<noteq> ao_quiesceEpoch a then (OutcomeQuiesceMismatch, m)
               else if \<not> ConstantTimeCompareToken (cr_Token req) (ao_token a)
               then (OutcomeTokenMismatch, m)
               else if isCommit
               then (OutcomeCommitted (am_identity m) (am_stateEpoch m) (ao_quiesceEpoch a),
                     finishActive a terminalCommitted StateShuttingDown m)
               else (OutcomeAborted (am_identity m) (am_stateEpoch m),
                     finishActive a terminalAborted StateAccepting m))
      | StateAccepting \<Rightarrow>
          (case am_lastTerminal m of
             None \<Rightarrow> (OutcomeQuiesceMismatch, m)
           | Some l \<Rightarrow>
               if to_id l \<noteq> cr_OperationID req then (OutcomeQuiesceMismatch, m)
               else if cr_QuiesceEpoch req \<noteq> to_quiesceEpoch l then (OutcomeQuiesceMismatch, m)
               else if \<not> ConstantTimeCompareToken (cr_Token req) (to_token l)
               then (OutcomeTokenMismatch, m)
               else (case to_kind l of
                       terminalAborted \<Rightarrow>
                         if isCommit then (OutcomeQuiesceMismatch, m)
                         else (OutcomeAlreadyAccepting, m)
                     | terminalExpired \<Rightarrow> (OutcomeLeaseExpired, m)
                     | terminalCommitted \<Rightarrow> (OutcomeQuiesceMismatch, m)))
      | StateShuttingDown \<Rightarrow>
          (case am_lastTerminal m of
             None \<Rightarrow> (OutcomeQuiesceMismatch, m)
           | Some l \<Rightarrow>
               if to_id l \<noteq> cr_OperationID req then (OutcomeQuiesceMismatch, m)
               else if cr_QuiesceEpoch req \<noteq> to_quiesceEpoch l then (OutcomeQuiesceMismatch, m)
               else if \<not> ConstantTimeCompareToken (cr_Token req) (to_token l)
               then (OutcomeTokenMismatch, m)
               else (OutcomeAlreadyCommitted (am_identity m) (am_stateEpoch m) (to_quiesceEpoch l), m)))"

definition Commit :: "instant \<Rightarrow> CommitRequest \<Rightarrow> AdmissionMachine \<Rightarrow> CommitResult \<times> AdmissionMachine" where
  "Commit t req m = commitAbort t True req m"

definition Abort :: "instant \<Rightarrow> CommitRequest \<Rightarrow> AdmissionMachine \<Rightarrow> CommitResult \<times> AdmissionMachine" where
  "Abort t req m = commitAbort t False req m"

section \<open>Runs and the invariant\<close>

text \<open>
  The calls the runtime makes.  \<^verbatim>\<open>SetActivity\<close> overwrites the turn counter from outside and is called
  by tests only, so it is no operation of a run.
\<close>

datatype AdmissionOp =
    OpQuiesce instant instant "Token option" QuiesceRequest
  | OpCommit instant CommitRequest
  | OpAbort instant CommitRequest
  | OpTryBeginBridgeTurn instant
  | OpEndBridgeTurn
  | OpSetPendingInteractions u32
  | OpSetHealthSnapshot HealthState u64
  | OpSnapshot instant instant

fun admStep :: "AdmissionMachine \<Rightarrow> AdmissionOp \<Rightarrow> AdmissionMachine" where
  "admStep m (OpQuiesce t t' gen req) = snd (Quiesce t t' gen req m)"
| "admStep m (OpCommit t req) = snd (Commit t req m)"
| "admStep m (OpAbort t req) = snd (Abort t req m)"
| "admStep m (OpTryBeginBridgeTurn t) = snd (TryBeginBridgeTurn t m)"
| "admStep m OpEndBridgeTurn = EndBridgeTurn m"
| "admStep m (OpSetPendingInteractions n) = SetPendingInteractions n m"
| "admStep m (OpSetHealthSnapshot h e) = SetHealthSnapshot h e m"
| "admStep m (OpSnapshot t t') = snd (Snapshot t t' m)"

definition adm_ok :: "AdmissionMachine \<Rightarrow> bool" where
  "adm_ok m \<longleftrightarrow>
     (am_state m = StateQuiescing \<longleftrightarrow> am_active m \<noteq> None)
   \<and> (am_state m = StateShuttingDown \<longleftrightarrow> LastTerminalKind m = Some terminalCommitted)
   \<and> (am_state m \<noteq> StateAccepting \<longrightarrow> am_bridgeOwnedActiveTurns m = 0)"

lemmas adm_splits = AdmissionState.splits option.splits terminalKind.splits if_splits

lemma adm_ok_expire: "adm_ok m \<Longrightarrow> adm_ok (expireActiveIfDue t m)"
  by (auto simp: adm_ok_def expireActiveIfDue_def LastTerminalKind_def split: adm_splits)

text \<open>The three ways a call can change the machine beyond a due expiry.\<close>

lemma adm_ok_startLease:
  "adm_ok m \<Longrightarrow> am_state m = StateAccepting \<Longrightarrow> am_bridgeOwnedActiveTurns m = 0 \<Longrightarrow>
   adm_ok (startLease t' tok i m)"
  by (simp add: adm_ok_def startLease_def LastTerminalKind_def)

lemma adm_ok_finishActive:
  "adm_ok m \<Longrightarrow> am_state m = StateQuiescing \<Longrightarrow>
   kind = terminalCommitted \<and> state = StateShuttingDown \<or> kind = terminalAborted \<and> state = StateAccepting \<Longrightarrow>
   adm_ok (finishActive a kind state m)"
  by (auto simp: adm_ok_def finishActive_def LastTerminalKind_def)

lemma Quiesce_effect:
  "snd (Quiesce t t' gen req m) = expireActiveIfDue t m
   \<or> (\<exists>tok. gen = Some tok \<and> am_state (expireActiveIfDue t m) = StateAccepting
        \<and> am_bridgeOwnedActiveTurns (expireActiveIfDue t m) = 0
        \<and> snd (Quiesce t t' gen req m)
            = startLease t' tok (qr_OperationID req) (expireActiveIfDue t m))"
  unfolding Quiesce_def Let_def
  by (simp add: word_gt_0 split: AdmissionState.split option.split)

lemma commitAbort_effect:
  "snd (commitAbort t c req m) = expireActiveIfDue t m
   \<or> (\<exists>a. am_state (expireActiveIfDue t m) = StateQuiescing
        \<and> am_active (expireActiveIfDue t m) = Some a
        \<and> snd (commitAbort t c req m)
            = finishActive a (if c then terminalCommitted else terminalAborted)
                (if c then StateShuttingDown else StateAccepting) (expireActiveIfDue t m))"
proof (cases "am_state (expireActiveIfDue t m)")
  case StateQuiescing
  then show ?thesis
    by (cases "am_active (expireActiveIfDue t m)") (simp_all add: commitAbort_def Let_def)
next
  case StateAccepting
  then have "snd (commitAbort t c req m) = expireActiveIfDue t m"
    by (simp add: commitAbort_def Let_def split: option.split terminalKind.split)
  then show ?thesis ..
next
  case StateShuttingDown
  then have "snd (commitAbort t c req m) = expireActiveIfDue t m"
    by (simp add: commitAbort_def Let_def split: option.split)
  then show ?thesis ..
qed

lemma TryBeginBridgeTurn_effect:
  "TryBeginBridgeTurn t m = (False, expireActiveIfDue t m)
   \<or> am_state (expireActiveIfDue t m) = StateAccepting
     \<and> TryBeginBridgeTurn t m = (True, expireActiveIfDue t m
         \<lparr>am_bridgeOwnedActiveTurns := am_bridgeOwnedActiveTurns (expireActiveIfDue t m) + 1\<rparr>)"
  by (auto simp: TryBeginBridgeTurn_def Let_def)

lemma adm_ok_step: "adm_ok m \<Longrightarrow> adm_ok (admStep m x)"
proof (cases x)
  assume ok: "adm_ok m"
  case (OpQuiesce t t' gen req)
  then show ?thesis
    using Quiesce_effect [of t t' gen req m] adm_ok_expire [OF ok, of t]
    by (auto simp: adm_ok_startLease)
next
  assume ok: "adm_ok m"
  case (OpCommit t req)
  then show ?thesis
    using commitAbort_effect [of t True req m] adm_ok_expire [OF ok, of t]
    by (auto simp: Commit_def adm_ok_finishActive)
next
  assume ok: "adm_ok m"
  case (OpAbort t req)
  then show ?thesis
    using commitAbort_effect [of t False req m] adm_ok_expire [OF ok, of t]
    by (auto simp: Abort_def adm_ok_finishActive)
next
  assume ok: "adm_ok m"
  case (OpTryBeginBridgeTurn t)
  then show ?thesis
    using TryBeginBridgeTurn_effect [of t m] adm_ok_expire [OF ok, of t]
    by (auto simp: adm_ok_def LastTerminalKind_def)
next
  assume ok: "adm_ok m"
  case (OpSnapshot t t')
  then show ?thesis using adm_ok_expire [OF ok, of t] by (simp add: Snapshot_def Let_def)
qed (auto simp: EndBridgeTurn_def SetPendingInteractions_def SetHealthSnapshot_def adm_ok_def
      LastTerminalKind_def)

lemma adm_ok_New: "adm_ok (NewAdmissionMachine i l)"
  by (simp add: adm_ok_def NewAdmissionMachine_def LastTerminalKind_def)

lemma expire_shutdown [simp]:
  "am_state m = StateShuttingDown \<Longrightarrow> expireActiveIfDue t m = m"
  by (simp add: expireActiveIfDue_def split: option.split)

lemma shutdown_step: "am_state m = StateShuttingDown \<Longrightarrow> am_state (admStep m x) = StateShuttingDown"
proof (cases x)
  assume "am_state m = StateShuttingDown"
  moreover case (OpQuiesce t t' gen req)
  ultimately show ?thesis using Quiesce_effect [of t t' gen req m] by auto
next
  assume "am_state m = StateShuttingDown"
  moreover case (OpCommit t req)
  ultimately show ?thesis using commitAbort_effect [of t True req m] by (auto simp: Commit_def)
next
  assume "am_state m = StateShuttingDown"
  moreover case (OpAbort t req)
  ultimately show ?thesis using commitAbort_effect [of t False req m] by (auto simp: Abort_def)
next
  assume "am_state m = StateShuttingDown"
  moreover case (OpTryBeginBridgeTurn t)
  ultimately show ?thesis using TryBeginBridgeTurn_effect [of t m] by auto
qed (simp_all add: Snapshot_def Let_def EndBridgeTurn_def SetPendingInteractions_def
      SetHealthSnapshot_def)

interpretation adm: one_way_machine admStep adm_ok "\<lambda>m. am_state m = StateShuttingDown"
  by unfold_locales (auto intro: adm_ok_step simp: shutdown_step)

lemma adm_ok_reachable: "adm_ok (run admStep (NewAdmissionMachine i l) ops)"
  by (rule adm.run_good [OF adm_ok_New])

section \<open>Token comparison\<close>

lemma xorAccumulate_or: "xorAccumulate xs ys v = or v (xorAccumulate xs ys 0)"
proof (induction xs arbitrary: ys v)
  case (Cons x xs)
  show ?case
  proof (cases ys)
    case (Cons y ys')
    then show ?thesis
      using Cons.IH [of ys' "or v (xor x y)"] Cons.IH [of ys' "xor x y"] by (simp add: or.assoc)
  qed simp
qed simp

lemma xorAccumulate_zero:
  "length xs = length ys \<Longrightarrow> xorAccumulate xs ys 0 = 0 \<longleftrightarrow> xs = ys"
proof (induction xs ys rule: list_induct2)
  case (Cons x xs y ys)
  have "xorAccumulate (x # xs) (y # ys) 0 = or (xor x y) (xorAccumulate xs ys 0)"
    by (simp add: xorAccumulate_or [of xs ys "xor x y"])
  moreover have "xor x y = 0 \<longleftrightarrow> x = y"
  proof
    assume "xor x y = 0"
    have "x = xor (xor x y) y" by (simp add: xor.assoc)
    with \<open>xor x y = 0\<close> show "x = y" by simp
  qed simp
  ultimately show ?case using Cons.IH by (metis list.inject or_eq_0_iff)
qed simp

lemma ConstantTimeCompareToken_iff [simp]: "ConstantTimeCompareToken a b \<longleftrightarrow> a = b"
  by (auto simp: ConstantTimeCompareToken_def xorAccumulate_zero)

section \<open>Leases\<close>

lemma remainingLeaseMillis_le: "remainingLeaseMillis now e l \<le> l"
  by (simp add: remainingLeaseMillis_def Let_def not_less)

lemma remainingLeaseMillis_exact:
  assumes "now \<le> e" and "e \<le> now + millis l"
  shows "uint (remainingLeaseMillis now e l) = (e - now) div nanosPerMilli"
proof -
  have l32: "millis l \<le> maxDuration"
    using millis_bound [of l] by (simp add: maxDuration_def)
  have sub: "timeSub e now = e - now"
    using assms l32 by (intro timeSub_exact) (auto simp: minDuration_def)
  let ?q = "(e - now) div nanosPerMilli"
  have q: "?q \<le> uint l"
  proof -
    have "e - now \<le> uint l * nanosPerMilli" using assms(2) by (simp add: millis_def)
    then have "?q \<le> uint l * nanosPerMilli div nanosPerMilli" by (intro zdiv_mono1) auto
    then show ?thesis by simp
  qed
  have q0: "0 \<le> ?q" using assms(1) by (simp add: pos_imp_zdiv_nonneg_iff)
  have "uint (word_of_int ?q :: u32) = ?q"
    using q q0 uint_lt2p [of l] by (simp add: uint_word_of_int)
  moreover from this have "(word_of_int ?q :: u32) \<le> l" using q by (simp add: word_le_def)
  ultimately show ?thesis
    using assms(1) sub by (auto simp: remainingLeaseMillis_def Let_def not_less)
qed

lemma expire_live:
  "am_active m = Some a \<Longrightarrow> t < ao_expiresAt a \<Longrightarrow> expireActiveIfDue t m = m"
  by (simp add: expireActiveIfDue_def)

lemma expire_due:
  "am_active m = Some a \<Longrightarrow> am_state m = StateQuiescing \<Longrightarrow> ao_expiresAt a \<le> t \<Longrightarrow>
   expireActiveIfDue t m = finishActive a terminalExpired StateAccepting m"
  by (simp add: expireActiveIfDue_def finishActive_def)

lemma expire_identity [simp]:
  "am_identity (expireActiveIfDue t m) = am_identity m"
  "am_stateEpoch (expireActiveIfDue t m) = am_stateEpoch m"
  "am_bridgeOwnedActiveTurns (expireActiveIfDue t m) = am_bridgeOwnedActiveTurns m"
  "am_pendingInteractions (expireActiveIfDue t m) = am_pendingInteractions m"
  by (simp_all add: expireActiveIfDue_def split: option.split)

lemma expire_quiescing:
  "am_state (expireActiveIfDue t m) = StateQuiescing \<and> am_active (expireActiveIfDue t m) = Some a
   \<longleftrightarrow> am_state m = StateQuiescing \<and> am_active m = Some a \<and> t < ao_expiresAt a"
  by (auto simp: expireActiveIfDue_def split: option.split)

text \<open>
  A commit request matches a live lease when it carries everything the safe answer handed out.
\<close>

definition matchesLease :: "instant \<Rightarrow> CommitRequest \<Rightarrow> AdmissionMachine \<Rightarrow> activeOp \<Rightarrow> bool" where
  "matchesLease t req m a \<longleftrightarrow>
     am_state m = StateQuiescing \<and> am_active m = Some a \<and> t < ao_expiresAt a
   \<and> cr_ManagementSchemaVersion req = ManagementSchemaVersion
   \<and> cr_ExpectedRuntime req = am_identity m \<and> cr_ExpectedHealthEpoch req = am_stateEpoch m
   \<and> cr_OperationID req = ao_id a \<and> cr_QuiesceEpoch req = ao_quiesceEpoch a
   \<and> cr_Token req = ao_token a"

lemma commitAbort_match:
  "matchesLease t req m a \<Longrightarrow> commitAbort t c req m =
     (if c then (OutcomeCommitted (am_identity m) (am_stateEpoch m) (ao_quiesceEpoch a),
                 finishActive a terminalCommitted StateShuttingDown m)
      else (OutcomeAborted (am_identity m) (am_stateEpoch m),
            finishActive a terminalAborted StateAccepting m))"
  by (simp add: matchesLease_def commitAbort_def Let_def expire_live)

lemma commitAbort_no_match:
  assumes "\<And>a. \<not> matchesLease t req m a"
  shows "snd (commitAbort t c req m) = expireActiveIfDue t m
    \<and> (\<forall>i h e. fst (commitAbort t c req m) \<noteq> OutcomeCommitted i h e)
    \<and> (\<forall>i h. fst (commitAbort t c req m) \<noteq> OutcomeAborted i h)"
proof (cases "am_state (expireActiveIfDue t m)")
  case StateQuiescing
  show ?thesis
  proof (cases "am_active (expireActiveIfDue t m)")
    case (Some a)
    then have "am_state m = StateQuiescing \<and> am_active m = Some a \<and> t < ao_expiresAt a"
      using StateQuiescing expire_quiescing by blast
    with assms [of a] StateQuiescing Some show ?thesis
      by (auto simp: commitAbort_def Let_def matchesLease_def expire_live)
  qed (use StateQuiescing in \<open>simp add: commitAbort_def Let_def\<close>)
qed (simp_all add: commitAbort_def Let_def split: option.split terminalKind.split)

lemma handshake_completes:
  assumes "Quiesce t t' gen req m = (QuiesceSafe i h e tok lease remaining, m')"
    and "am_active m' = Some a" and "tc < ao_expiresAt a"
  shows "fst (Commit tc \<lparr>cr_ManagementSchemaVersion = ManagementSchemaVersion,
             cr_OperationID = qr_OperationID req, cr_ExpectedRuntime = i, cr_ExpectedHealthEpoch = h,
             cr_QuiesceEpoch = e, cr_Token = tok\<rparr> m') = OutcomeCommitted i h e"
proof -
  let ?r = "\<lparr>cr_ManagementSchemaVersion = ManagementSchemaVersion,
             cr_OperationID = qr_OperationID req, cr_ExpectedRuntime = i, cr_ExpectedHealthEpoch = h,
             cr_QuiesceEpoch = e, cr_Token = tok\<rparr>"
  have "matchesLease tc ?r m' a \<and> i = am_identity m' \<and> h = am_stateEpoch m' \<and> e = ao_quiesceEpoch a"
    using assms
    by (auto simp: Quiesce_def Let_def matchesLease_def startLease_def split: adm_splits)
  then show ?thesis by (auto simp: Commit_def commitAbort_match)
qed

section \<open>A concrete handshake\<close>

text \<open>One runtime, one lease of five seconds and the two requests of its handshake, for the witnesses.\<close>

definition demoRuntime :: RuntimeIdentity where
  "demoRuntime = \<lparr>PID = 4242, BridgeEpoch = 7\<rparr>"

definition demoToken :: Token where
  "demoToken = replicate 16 170"

definition demoOperation :: OperationID where
  "demoOperation = replicate 16 1"

definition demoQuiesce :: QuiesceRequest where
  "demoQuiesce = \<lparr>qr_ManagementSchemaVersion = 1, qr_OperationID = demoOperation,
     qr_ExpectedRuntime = demoRuntime, qr_ExpectedHealthEpoch = 1\<rparr>"

definition demoCommit :: CommitRequest where
  "demoCommit = \<lparr>cr_ManagementSchemaVersion = 1, cr_OperationID = demoOperation,
     cr_ExpectedRuntime = demoRuntime, cr_ExpectedHealthEpoch = 1, cr_QuiesceEpoch = 1,
     cr_Token = demoToken\<rparr>"

definition demoLease :: activeOp where
  "demoLease = \<lparr>ao_id = demoOperation, ao_quiesceEpoch = 1, ao_token = demoToken,
     ao_expiresAt = 5000000100, ao_leaseMillis = 5000\<rparr>"

definition demoQuiescing :: AdmissionMachine where
  "demoQuiescing = (NewAdmissionMachine demoRuntime 5000)
     \<lparr>am_state := StateQuiescing, am_quiesceEpoch := 1, am_active := Some demoLease\<rparr>"

lemma demo_quiesce:
  "Quiesce 100 100 (Some demoToken) demoQuiesce (NewAdmissionMachine demoRuntime 5000)
     = (QuiesceSafe demoRuntime 1 1 demoToken 5000 5000, demoQuiescing)"
  by (simp add: Quiesce_def Let_def NewAdmissionMachine_def expireActiveIfDue_def demoQuiesce_def
      demoQuiescing_def demoLease_def startLease_def ManagementSchemaVersion_def millis_def)

lemmas demo_defs = demoQuiescing_def demoLease_def NewAdmissionMachine_def demoQuiesce_def
  demoCommit_def ManagementSchemaVersion_def

lemma demo_matches: "matchesLease 200 demoCommit demoQuiescing demoLease"
  by (simp add: matchesLease_def demo_defs)

lemma demo_commit: "am_state (snd (Commit 200 demoCommit demoQuiescing)) = StateShuttingDown"
  by (simp add: Commit_def commitAbort_match [OF demo_matches] finishActive_def)

section \<open>Properties\<close>

text \<open>
  C1: whatever the supervisor, the turns and the clock do, a runtime that has granted a quiesce
  lease or committed a shutdown has no bridge-owned turn running: the lease and the first turn
  exclude each other because both are decided in one atomic step.
\<close>

theorem no_turn_under_lease:
  assumes "am_state (run admStep (NewAdmissionMachine identity lease) ops) \<noteq> StateAccepting"
  shows "am_bridgeOwnedActiveTurns (run admStep (NewAdmissionMachine identity lease) ops) = 0"
  using assms adm_ok_reachable [of identity lease ops] by (simp add: adm_ok_def)

theorem no_turn_under_lease_witness:
  "am_bridgeOwnedActiveTurns (run admStep (NewAdmissionMachine demoRuntime 5000)
     [OpTryBeginBridgeTurn 50, OpEndBridgeTurn, OpQuiesce 100 100 (Some demoToken) demoQuiesce]) = 0"
proof (rule no_turn_under_lease)
  have "run admStep (NewAdmissionMachine demoRuntime 5000) [OpTryBeginBridgeTurn 50, OpEndBridgeTurn]
      = NewAdmissionMachine demoRuntime 5000"
    by (simp add: TryBeginBridgeTurn_def EndBridgeTurn_def expireActiveIfDue_def NewAdmissionMachine_def)
  then show "am_state (run admStep (NewAdmissionMachine demoRuntime 5000)
     [OpTryBeginBridgeTurn 50, OpEndBridgeTurn, OpQuiesce 100 100 (Some demoToken) demoQuiesce])
     \<noteq> StateAccepting"
    by (simp add: demo_quiesce) (simp add: demoQuiescing_def)
qed

text \<open>
  C14: a committed shutdown is final: after it no sequence of calls leaves the state, and no turn
  is ever admitted again.
\<close>

theorem shutdown_is_final:
  assumes "am_state (run admStep (NewAdmissionMachine identity lease) ops) = StateShuttingDown"
  shows "am_state (run admStep (NewAdmissionMachine identity lease) (ops @ ops')) = StateShuttingDown
    \<and> \<not> fst (TryBeginBridgeTurn t (run admStep (NewAdmissionMachine identity lease) (ops @ ops')))"
  using adm.past_run [OF adm_ok_reachable assms, of ops']
  by (simp add: TryBeginBridgeTurn_def Let_def)

theorem shutdown_is_final_witness:
  "am_state (run admStep (NewAdmissionMachine demoRuntime 5000)
     ([OpQuiesce 100 100 (Some demoToken) demoQuiesce, OpCommit 200 demoCommit]
       @ [OpAbort 300 demoCommit, OpTryBeginBridgeTurn 400])) = StateShuttingDown"
proof -
  have "am_state (run admStep (NewAdmissionMachine demoRuntime 5000)
     [OpQuiesce 100 100 (Some demoToken) demoQuiesce, OpCommit 200 demoCommit]) = StateShuttingDown"
    by (simp add: demo_quiesce demo_commit)
  from shutdown_is_final [OF this] show ?thesis by blast
qed

text \<open>
  C3: commit moves the machine to shutdown exactly when it is already there or when the request
  carries the schema version, runtime identity, health epoch, operation id, quiesce epoch and token
  of a lease that is still live at the moment of the call.  Any other request changes nothing
  beyond the expiry that was due, and reports neither a commit nor an abort.
\<close>

theorem commit_authorised:
  "(am_state (snd (Commit t req m)) = StateShuttingDown \<longleftrightarrow>
      am_state m = StateShuttingDown \<or> (\<exists>a. matchesLease t req m a))
   \<and> ((\<nexists>a. matchesLease t req m a) \<longrightarrow>
        snd (Commit t req m) = expireActiveIfDue t m \<and> snd (Abort t req m) = expireActiveIfDue t m
      \<and> (\<forall>i h e. fst (Commit t req m) \<noteq> OutcomeCommitted i h e)
      \<and> (\<forall>i h. fst (Abort t req m) \<noteq> OutcomeAborted i h))"
proof (cases "\<exists>a. matchesLease t req m a")
  case True
  then show ?thesis by (auto simp: Commit_def Abort_def commitAbort_match finishActive_def)
next
  case False
  have "am_state (expireActiveIfDue t m) = StateShuttingDown \<longleftrightarrow> am_state m = StateShuttingDown"
    by (auto simp: expireActiveIfDue_def split: option.split)
  with False commitAbort_no_match [of t req m] show ?thesis by (simp add: Commit_def Abort_def)
qed

theorem commit_authorised_witness:
  "am_state (snd (Commit 200 demoCommit demoQuiescing)) = StateShuttingDown
   \<and> am_state (snd (Commit 200 (demoCommit\<lparr>cr_Token := replicate 16 0\<rparr>) demoQuiescing)) = StateQuiescing"
proof -
  have no: "\<nexists>a. matchesLease 200 (demoCommit\<lparr>cr_Token := replicate 16 0\<rparr>) demoQuiescing a"
    by (simp add: matchesLease_def demo_defs demoToken_def)
  have "expireActiveIfDue 200 demoQuiescing = demoQuiescing"
    by (simp add: expireActiveIfDue_def demo_defs)
  then show ?thesis
    using commit_authorised [of 200 demoCommit demoQuiescing] demo_matches no
      commit_authorised [of 200 "demoCommit\<lparr>cr_Token := replicate 16 0\<rparr>" demoQuiescing]
    by (auto simp: demoQuiescing_def)
qed

text \<open>
  The handshake completes: the operation id, epochs and token of a safe quiesce answer are what
  a commit needs, so a commit that quotes them before the lease ends is accepted and reports the
  same runtime and epochs.
\<close>

theorem quiesce_then_commit:
  assumes "Quiesce t t' gen req m = (QuiesceSafe i h e tok lease remaining, m')"
    and "am_active m' = Some a" and "tc < ao_expiresAt a"
  shows "fst (Commit tc \<lparr>cr_ManagementSchemaVersion = ManagementSchemaVersion,
             cr_OperationID = qr_OperationID req, cr_ExpectedRuntime = i, cr_ExpectedHealthEpoch = h,
             cr_QuiesceEpoch = e, cr_Token = tok\<rparr> m') = OutcomeCommitted i h e"
  by (rule handshake_completes [OF assms])

theorem quiesce_then_commit_witness:
  "fst (Commit 4000000000 demoCommit demoQuiescing) = OutcomeCommitted demoRuntime 1 1"
  using quiesce_then_commit [OF demo_quiesce, of demoLease 4000000000]
  by (simp add: demo_defs)

text \<open>
  When a lease has run out, a commit for it is refused as expired, the runtime accepts turns
  again, and the operation id is spent: a later quiesce under it is refused as reused.
\<close>

theorem expired_lease_is_spent:
  assumes "am_state m = StateQuiescing" and "am_active m = Some a" and "ao_expiresAt a \<le> t"
    and "cr_ManagementSchemaVersion req = ManagementSchemaVersion"
    and "cr_ExpectedRuntime req = am_identity m" and "cr_ExpectedHealthEpoch req = am_stateEpoch m"
    and "cr_OperationID req = ao_id a" and "cr_QuiesceEpoch req = ao_quiesceEpoch a"
    and "cr_Token req = ao_token a"
    and "am_bridgeOwnedActiveTurns m = 0" and "am_pendingInteractions m = 0"
  shows "fst (Commit t req m) = OutcomeLeaseExpired
    \<and> am_state (snd (Commit t req m)) = StateAccepting
    \<and> fst (Quiesce u u' gen \<lparr>qr_ManagementSchemaVersion = ManagementSchemaVersion,
             qr_OperationID = ao_id a, qr_ExpectedRuntime = am_identity m,
             qr_ExpectedHealthEpoch = am_stateEpoch m\<rparr> (snd (Commit t req m)))
        = QuiesceOperationReused"
proof -
  have c: "Commit t req m = (OutcomeLeaseExpired, finishActive a terminalExpired StateAccepting m)"
    using assms by (simp add: Commit_def commitAbort_def Let_def expire_due finishActive_def)
  have "expireActiveIfDue u (finishActive a terminalExpired StateAccepting m)
      = finishActive a terminalExpired StateAccepting m"
    by (simp add: expireActiveIfDue_def finishActive_def)
  with c assms(10,11) show ?thesis by (simp add: Quiesce_def Let_def finishActive_def)
qed

theorem expired_lease_is_spent_witness:
  "fst (Commit 6000000000 demoCommit demoQuiescing) = OutcomeLeaseExpired
   \<and> am_state (snd (Commit 6000000000 demoCommit demoQuiescing)) = StateAccepting
   \<and> fst (Quiesce 7000000000 7000000000 (Some demoToken) demoQuiesce
            (snd (Commit 6000000000 demoCommit demoQuiescing))) = QuiesceOperationReused"
  using expired_lease_is_spent [of demoQuiescing demoLease 6000000000 demoCommit 7000000000 7000000000
      "Some demoToken"]
  by (simp add: demo_defs)

text \<open>
  Repeating a quiesce request while its lease is live is idempotent: same token and epoch, the
  machine unchanged, and the reported remaining lease is the number of whole milliseconds left.
\<close>

theorem quiesce_idempotent:
  assumes "am_state m = StateQuiescing" and "am_active m = Some a" and "t < ao_expiresAt a"
    and "qr_ManagementSchemaVersion req = ManagementSchemaVersion"
    and "qr_ExpectedRuntime req = am_identity m" and "qr_ExpectedHealthEpoch req = am_stateEpoch m"
    and "qr_OperationID req = ao_id a"
    and "t' \<le> ao_expiresAt a" and "ao_expiresAt a \<le> t' + millis (ao_leaseMillis a)"
  shows "\<exists>r. Quiesce t t' gen req m = (QuiesceSafe (am_identity m) (am_stateEpoch m)
              (ao_quiesceEpoch a) (ao_token a) (ao_leaseMillis a) r, m)
    \<and> uint r = (ao_expiresAt a - t') div nanosPerMilli"
  using assms remainingLeaseMillis_exact [of t' "ao_expiresAt a" "ao_leaseMillis a"]
  by (simp add: Quiesce_def Let_def expire_live)

theorem quiesce_idempotent_witness:
  "\<exists>r. Quiesce 2000000100 2000000100 None demoQuiesce demoQuiescing
        = (QuiesceSafe demoRuntime 1 1 demoToken 5000 r, demoQuiescing) \<and> uint r = 3000"
  using quiesce_idempotent [of demoQuiescing demoLease 2000000100 demoQuiesce 2000000100 None]
  by (simp add: demo_defs millis_def)

text \<open>
  The turn counter never wraps: an admitted turn adds exactly one to its value, a refused one
  leaves it, and ending an admitted turn restores the machine.
\<close>

theorem turn_bracket:
  "unat (am_bridgeOwnedActiveTurns (snd (TryBeginBridgeTurn t m)))
     = unat (am_bridgeOwnedActiveTurns m) + (if fst (TryBeginBridgeTurn t m) then 1 else 0)
   \<and> (fst (TryBeginBridgeTurn t m) \<longrightarrow>
        EndBridgeTurn (snd (TryBeginBridgeTurn t m)) = expireActiveIfDue t m)"
proof (cases "fst (TryBeginBridgeTurn t m)")
  case True
  then have ne: "am_bridgeOwnedActiveTurns m \<noteq> - 1"
    by (auto simp: TryBeginBridgeTurn_def Let_def split: if_splits)
  have s: "snd (TryBeginBridgeTurn t m) = expireActiveIfDue t m
      \<lparr>am_bridgeOwnedActiveTurns := am_bridgeOwnedActiveTurns m + 1\<rparr>"
    using True TryBeginBridgeTurn_effect [of t m] by auto
  have u: "unat (am_bridgeOwnedActiveTurns m + 1) = Suc (unat (am_bridgeOwnedActiveTurns m))"
    using ne by (rule unat_plus_one)
  then have "am_bridgeOwnedActiveTurns m + 1 > 0" by (metis Zero_not_Suc unat_0 word_gt_0)
  then have "EndBridgeTurn (snd (TryBeginBridgeTurn t m)) = expireActiveIfDue t m"
    unfolding s EndBridgeTurn_def by simp
  with u True s show ?thesis by simp
next
  case False
  then show ?thesis using TryBeginBridgeTurn_effect [of t m] by auto
qed

theorem turn_bracket_witness:
  "EndBridgeTurn (snd (TryBeginBridgeTurn 5 (NewAdmissionMachine demoRuntime 5000)))
     = NewAdmissionMachine demoRuntime 5000"
  using turn_bracket [of 5 "NewAdmissionMachine demoRuntime 5000"]
  by (simp add: TryBeginBridgeTurn_def expireActiveIfDue_def NewAdmissionMachine_def)

end
