(* ===== verification/Admission_Codec.thy ===== *)
theory Admission_Codec
  imports Admission "HOL-Library.Sublist"
begin

text \<open>
  The strict codec of the management interface: \<^verbatim>\<open>go-bridge/admission/codec.go\<close> and \<^verbatim>\<open>decode.go\<close>,
  with the response side of \<^verbatim>\<open>go-bridge/management_api.go\<close>.

  JSON values are trees that keep what \<^verbatim>\<open>encoding/json\<close> exposes to this code: number tokens as
  written, object members in order with duplicates.  A request body that is not JSON at all is
  \<open>None\<close>.  \<open>rawText\<close> is a rendering of a value; the codec inspects the text of number tokens and the
  first byte of everything else, which no other rendering changes.
\<close>

section \<open>JSON values\<close>

datatype json =
    JNull
  | JBool bool
  | JNumber string
  | JString string
  | JArray "json list"
  | JObject "(string \<times> json) list"

fun rawText :: "json \<Rightarrow> string" where
  "rawText JNull = ''null''"
| "rawText (JBool b) = (if b then ''true'' else ''false'')"
| "rawText (JNumber tok) = tok"
| "rawText (JString s) = CHR 0x22 # s @ [CHR 0x22]"
| "rawText (JArray _) = ''[]''"
| "rawText (JObject _) = ''{}''"

datatype codecError =
    ErrInvalidOperationID | ErrInvalidToken | ErrMissingNumber | ErrQuotedNumber | ErrNullNumber
  | ErrBoolNumber | ErrInvalidNumberToken | ErrNumberOverflow | ErrInvalidPID | ErrInvalidJSON
  | ErrUnknownField | ErrMissingField | ErrNullField | ErrDuplicateKey | ErrInvalidString
  | ErrUnknownResultGroup

section \<open>Hexadecimal ids and tokens\<close>

definition code :: "char \<Rightarrow> nat" where
  "code c = of_char c"

definition isLowerHex :: "char \<Rightarrow> bool" where
  "isLowerHex c \<longleftrightarrow> 48 \<le> code c \<and> code c \<le> 57 \<or> 97 \<le> code c \<and> code c \<le> 102"

definition isAnyHex :: "char \<Rightarrow> bool" where
  "isAnyHex c \<longleftrightarrow> isLowerHex c \<or> 65 \<le> code c \<and> code c \<le> 70"

text \<open>The regular expression \<^verbatim>\<open>^[0-9a-f]{32}$\<close>.\<close>

definition operationOrTokenRegex :: "string \<Rightarrow> bool" where
  "operationOrTokenRegex s \<longleftrightarrow> length s = 32 \<and> list_all isLowerHex s"

definition hexDigit :: "char \<Rightarrow> nat" where
  "hexDigit c = (if code c \<le> 57 then code c - 48 else code c - 87)"

fun hexDecode :: "string \<Rightarrow> byte list" where
  "hexDecode (a # b # s) = of_nat (16 * hexDigit a + hexDigit b) # hexDecode s"
| "hexDecode _ = []"

definition hexChar :: "nat \<Rightarrow> char" where
  "hexChar n = char_of (if n < 10 then 48 + n else 87 + n)"

definition EncodeHex :: "byte list \<Rightarrow> string" where
  "EncodeHex bs = concat (map (\<lambda>b. [hexChar (unat b div 16), hexChar (unat b mod 16)]) bs)"

definition DecodeOperationID :: "string \<Rightarrow> (codecError, OperationID) result" where
  "DecodeOperationID s =
     (if \<not> operationOrTokenRegex s then Inl ErrInvalidOperationID else Inr (hexDecode s))"

definition DecodeToken :: "string \<Rightarrow> (codecError, Token) result" where
  "DecodeToken s = (if \<not> operationOrTokenRegex s then Inl ErrInvalidToken else Inr (hexDecode s))"

section \<open>Numbers\<close>

definition isDigit :: "char \<Rightarrow> bool" where
  "isDigit c \<longleftrightarrow> 48 \<le> code c \<and> code c \<le> 57"

fun decimal :: "nat \<Rightarrow> string \<Rightarrow> nat" where
  "decimal n [] = n"
| "decimal n (c # s) = decimal (10 * n + (code c - 48)) s"

definition ParseStrictUInt :: "string \<Rightarrow> nat \<Rightarrow> (codecError, nat) result" where
  "ParseStrictUInt raw bits =
     (case trimSpace raw of
        [] \<Rightarrow> Inl ErrMissingNumber
      | c # s \<Rightarrow>
          if c = CHR 0x22 then Inl ErrQuotedNumber
          else if c = CHR ''n'' then Inl ErrNullNumber
          else if c = CHR ''t'' \<or> c = CHR ''f'' then Inl ErrBoolNumber
          else if \<not> list_all isDigit (c # s) then Inl ErrInvalidNumberToken
          else if decimal 0 (c # s) < 2 ^ bits then Inr (decimal 0 (c # s))
          else Inl ErrNumberOverflow)"

definition ParseStrictInt32Positive :: "string \<Rightarrow> (codecError, 32 word) result" where
  "ParseStrictInt32Positive raw =
     rbind (ParseStrictUInt raw 31) (\<lambda>v. if v < 1 then Inl ErrInvalidPID else Inr (of_nat v))"

definition parseU64 :: "json \<Rightarrow> (codecError, u64) result" where
  "parseU64 v = rbind (ParseStrictUInt (rawText v) 64) (\<lambda>n. Inr (of_nat n))"

section \<open>Strict objects\<close>

fun assertNoDuplicateKeys :: "string set \<Rightarrow> (string \<times> json) list \<Rightarrow> (codecError, unit) result" where
  "assertNoDuplicateKeys seen [] = Inr ()"
| "assertNoDuplicateKeys seen ((k, v) # kvs) =
     (if k \<in> seen then Inl ErrDuplicateKey else assertNoDuplicateKeys (insert k seen) kvs)"

text \<open>\<^verbatim>\<open>json.Unmarshal\<close> into a map: of several members with one key the last wins.\<close>

definition lastWins :: "(string \<times> json) list \<Rightarrow> string \<rightharpoonup> json" where
  "lastWins kvs = map_of (rev kvs)"

definition DecodeStrictObject ::
  "json option \<Rightarrow> string list \<Rightarrow> (codecError, string \<rightharpoonup> json) result" where
  "DecodeStrictObject raw allowed =
     (case raw of
        Some (JObject kvs) \<Rightarrow>
          let m = lastWins kvs in
          if \<not> list_all (\<lambda>(k, v). k \<in> set allowed) kvs then Inl ErrUnknownField
          else if \<not> list_all (\<lambda>k. m k \<noteq> None) allowed then Inl ErrMissingField
          else if \<not> list_all (\<lambda>(k, v). m k \<noteq> Some JNull) kvs then Inl ErrNullField
          else rbind (assertNoDuplicateKeys {} kvs) (\<lambda>_. Inr m)
      | _ \<Rightarrow> Inl ErrInvalidJSON)"

definition DecodeStrictString :: "json \<Rightarrow> (codecError, string) result" where
  "DecodeStrictString raw =
     (case raw of
        JNull \<Rightarrow> Inl ErrNullField
      | JString s \<Rightarrow> Inr s
      | _ \<Rightarrow> Inl ErrInvalidString)"

definition DecodeOperationIDmust :: "json \<Rightarrow> (codecError, OperationID) result" where
  "DecodeOperationIDmust raw = rbind (DecodeStrictString raw) DecodeOperationID"

section \<open>Requests\<close>

definition decodeRuntimeIdentity :: "json \<Rightarrow> (codecError, RuntimeIdentity) result" where
  "decodeRuntimeIdentity raw =
     rbind (DecodeStrictObject (Some raw) [''pid'', ''bridgeEpoch'']) (\<lambda>m.
     rbind (ParseStrictInt32Positive (rawText (the (m ''pid'')))) (\<lambda>pid.
     rbind (parseU64 (the (m ''bridgeEpoch''))) (\<lambda>be.
     Inr \<lparr>PID = pid, BridgeEpoch = be\<rparr>)))"

definition DecodeQuiesceRequest :: "json option \<Rightarrow> (codecError, QuiesceRequest) result" where
  "DecodeQuiesceRequest raw =
     rbind (DecodeStrictObject raw
       [''managementSchemaVersion'', ''operationId'', ''expectedRuntime'', ''expectedHealthEpoch'']) (\<lambda>m.
     rbind (parseU64 (the (m ''managementSchemaVersion''))) (\<lambda>msv.
     rbind (DecodeStrictString (the (m ''operationId''))) (\<lambda>opIDStr.
     rbind (DecodeOperationID opIDStr) (\<lambda>opID.
     rbind (decodeRuntimeIdentity (the (m ''expectedRuntime''))) (\<lambda>rt.
     rbind (parseU64 (the (m ''expectedHealthEpoch''))) (\<lambda>hep.
     Inr \<lparr>qr_ManagementSchemaVersion = msv, qr_OperationID = opID,
          qr_ExpectedRuntime = rt, qr_ExpectedHealthEpoch = hep\<rparr>))))))"

definition DecodeCommitRequest :: "json option \<Rightarrow> (codecError, CommitRequest) result" where
  "DecodeCommitRequest raw =
     rbind (DecodeStrictObject raw
       [''managementSchemaVersion'', ''operationId'', ''expectedRuntime'', ''expectedHealthEpoch'',
        ''quiesceEpoch'', ''token'']) (\<lambda>m.
     rbind (parseU64 (the (m ''managementSchemaVersion''))) (\<lambda>msv.
     rbind (DecodeStrictString (the (m ''operationId''))) (\<lambda>opIDStr.
     rbind (DecodeOperationID opIDStr) (\<lambda>opID.
     rbind (decodeRuntimeIdentity (the (m ''expectedRuntime''))) (\<lambda>rt.
     rbind (parseU64 (the (m ''expectedHealthEpoch''))) (\<lambda>hep.
     rbind (parseU64 (the (m ''quiesceEpoch''))) (\<lambda>qep.
     rbind (DecodeStrictString (the (m ''token''))) (\<lambda>tokStr.
     rbind (DecodeToken tokStr) (\<lambda>tok.
     Inr \<lparr>cr_ManagementSchemaVersion = msv, cr_OperationID = opID, cr_ExpectedRuntime = rt,
          cr_ExpectedHealthEpoch = hep, cr_QuiesceEpoch = qep, cr_Token = tok\<rparr>)))))))))"

section \<open>Result shapes\<close>

definition quiesceResultExtra :: "string \<Rightarrow> string list" where
  "quiesceResultExtra outcome =
     (if outcome = ''safe'' then [''runtimeIdentity'', ''healthEpoch'', ''quiesceEpoch'', ''token'',
        ''leaseMillis'', ''leaseRemainingMillis'']
      else if outcome = ''deferred'' then [''activeTurns'', ''pendingInteractions'', ''retryAfterMillis'']
      else [])"

definition commitResultExtra :: "string \<Rightarrow> string list" where
  "commitResultExtra outcome =
     (if outcome \<in> {''committed'', ''already_committed''}
      then [''runtimeIdentity'', ''healthEpoch'', ''quiesceEpoch''] else [])"

definition abortResultExtra :: "string \<Rightarrow> string list" where
  "abortResultExtra outcome =
     (if outcome = ''aborted'' then [''runtimeIdentity'', ''healthEpoch''] else [])"

definition isKnownOutcome :: "string \<Rightarrow> string \<Rightarrow> bool" where
  "isKnownOutcome which outcome \<longleftrightarrow>
     which = ''quiesce'' \<and> outcome \<in> {''identity_mismatch'', ''epoch_mismatch'', ''already_committed'',
        ''already_quiescing'', ''operation_reused'', ''token_generation_failed''}
   \<or> which = ''commit'' \<and> outcome \<in> {''identity_mismatch'', ''epoch_mismatch'', ''quiesce_mismatch'',
        ''token_mismatch'', ''lease_expired''}
   \<or> which = ''abort'' \<and> outcome \<in> {''already_accepting'', ''already_committed'', ''identity_mismatch'',
        ''epoch_mismatch'', ''quiesce_mismatch'', ''token_mismatch'', ''lease_expired''}"

definition checkResultField :: "string \<Rightarrow> json \<Rightarrow> (codecError, unit) result" where
  "checkResultField k v =
     (if k = ''token'' then rbind (rbind (DecodeStrictString v) DecodeToken) (\<lambda>_. Inr ())
      else if k = ''runtimeIdentity'' then rbind (decodeRuntimeIdentity v) (\<lambda>_. Inr ())
      else if k \<in> {''healthEpoch'', ''quiesceEpoch''}
      then rbind (ParseStrictUInt (rawText v) 64) (\<lambda>_. Inr ())
      else if k \<in> {''leaseMillis'', ''leaseRemainingMillis'', ''retryAfterMillis'', ''activeTurns'',
                   ''pendingInteractions''}
      then rbind (ParseStrictUInt (rawText v) 32) (\<lambda>_. Inr ())
      else Inr ())"

fun checkResultFields :: "(string \<rightharpoonup> json) \<Rightarrow> string list \<Rightarrow> (codecError, unit) result" where
  "checkResultFields m [] = Inr ()"
| "checkResultFields m (k # ks) =
     rbind (checkResultField k (the (m k))) (\<lambda>_. checkResultFields m ks)"

definition DecodeResultShape ::
  "json option \<Rightarrow> string \<Rightarrow> (codecError, string \<times> (string \<rightharpoonup> json)) result" where
  "DecodeResultShape raw which =
     (case raw of
        Some (JObject kvs) \<Rightarrow>
          (case lastWins kvs ''outcome'' of
             None \<Rightarrow> Inl ErrMissingField
           | Some outcomeRaw \<Rightarrow>
               rbind (DecodeStrictString outcomeRaw) (\<lambda>outcome.
               if which \<notin> {''quiesce'', ''commit'', ''abort''} then Inl ErrUnknownResultGroup
               else let extra = (if which = ''quiesce'' then quiesceResultExtra outcome
                                 else if which = ''commit'' then commitResultExtra outcome
                                 else abortResultExtra outcome) in
               if extra = [] \<and> \<not> isKnownOutcome which outcome then Inl ErrInvalidString
               else rbind (DecodeStrictObject raw
                      ([''managementSchemaVersion'', ''operationId'', ''outcome''] @ extra)) (\<lambda>m.
                    rbind (parseU64 (the (m ''managementSchemaVersion''))) (\<lambda>_.
                    rbind (DecodeOperationIDmust (the (m ''operationId''))) (\<lambda>_.
                    rbind (checkResultFields m extra) (\<lambda>_. Inr (outcome, m)))))))
      | Some JNull \<Rightarrow> Inl ErrMissingField
      | _ \<Rightarrow> Inl ErrInvalidJSON)"

section \<open>Redaction\<close>

text \<open>\<^verbatim>\<open>ReplaceAllString\<close> with \<^verbatim>\<open>[0-9a-fA-F]{32}\<close>: leftmost, non-overlapping matches.\<close>

definition redactedMarker :: string where
  "redactedMarker = ''[redacted]''"

function RedactLogValue :: "string \<Rightarrow> string" where
  "RedactLogValue s =
     (if s = [] then []
      else if 32 \<le> length (takeWhile isAnyHex s)
      then redactedMarker @ RedactLogValue (drop 32 s)
      else hd s # RedactLogValue (tl s))"
  by pat_completeness auto
termination
  by (relation "measure length") auto

section \<open>Responses\<close>

fun showNat :: "nat \<Rightarrow> string" where
  "showNat n = (if n < 10 then [char_of (48 + n)] else showNat (n div 10) @ [char_of (48 + n mod 10)])"

declare showNat.simps [simp del]

definition showInt :: "int \<Rightarrow> string" where
  "showInt i = (if i < 0 then CHR ''-'' # showNat (nat (- i)) else showNat (nat i))"

definition runtimeIdentityJSON :: "RuntimeIdentity \<Rightarrow> json" where
  "runtimeIdentityJSON i =
     JObject [(''pid'', JNumber (showInt (sint (PID i)))),
              (''bridgeEpoch'', JNumber (showNat (unat (BridgeEpoch i))))]"

definition managementCommon :: "OperationID \<Rightarrow> string \<Rightarrow> (string \<times> json) list" where
  "managementCommon operationID outcome =
     [(''managementSchemaVersion'', JNumber (showNat (unat ManagementSchemaVersion))),
      (''operationId'', JString (EncodeHex operationID)), (''outcome'', JString outcome)]"

definition QuiesceOutcome :: "QuiesceResult \<Rightarrow> string" where
  "QuiesceOutcome r = (case r of
     QuiesceSafe _ _ _ _ _ _ \<Rightarrow> ''safe''
   | QuiesceDeferred _ _ _ \<Rightarrow> ''deferred''
   | QuiesceIdentityMismatch \<Rightarrow> ''identity_mismatch''
   | QuiesceEpochMismatch \<Rightarrow> ''epoch_mismatch''
   | QuiesceAlreadyCommitted \<Rightarrow> ''already_committed''
   | QuiesceAlreadyQuiescing \<Rightarrow> ''already_quiescing''
   | QuiesceOperationReused \<Rightarrow> ''operation_reused''
   | QuiesceTokenGenerationFail \<Rightarrow> ''token_generation_failed'')"

definition CommitOutcome :: "CommitResult \<Rightarrow> string" where
  "CommitOutcome r = (case r of
     OutcomeCommitted _ _ _ \<Rightarrow> ''committed''
   | OutcomeAlreadyCommitted _ _ _ \<Rightarrow> ''already_committed''
   | OutcomeAborted _ _ \<Rightarrow> ''aborted''
   | OutcomeAlreadyAccepting \<Rightarrow> ''already_accepting''
   | OutcomeIdentityMismatch \<Rightarrow> ''identity_mismatch''
   | OutcomeEpochMismatch \<Rightarrow> ''epoch_mismatch''
   | OutcomeQuiesceMismatch \<Rightarrow> ''quiesce_mismatch''
   | OutcomeTokenMismatch \<Rightarrow> ''token_mismatch''
   | OutcomeLeaseExpired \<Rightarrow> ''lease_expired'')"

text \<open>The bodies the three handlers write, once the machine has answered.\<close>

definition quiesceResponse :: "OperationID \<Rightarrow> QuiesceResult \<Rightarrow> json" where
  "quiesceResponse opID r =
     JObject (managementCommon opID (QuiesceOutcome r) @
       (case r of
          QuiesceSafe i h e tok lease remaining \<Rightarrow>
            [(''runtimeIdentity'', runtimeIdentityJSON i), (''healthEpoch'', JNumber (showNat (unat h))),
             (''quiesceEpoch'', JNumber (showNat (unat e))), (''token'', JString (EncodeHex tok)),
             (''leaseMillis'', JNumber (showNat (unat lease))),
             (''leaseRemainingMillis'', JNumber (showNat (unat remaining)))]
        | QuiesceDeferred turns pending retry \<Rightarrow>
            [(''activeTurns'', JNumber (showNat (unat turns))),
             (''pendingInteractions'', JNumber (showNat (unat pending))),
             (''retryAfterMillis'', JNumber (showNat 2000))]
        | _ \<Rightarrow> []))"

definition commitResponse :: "OperationID \<Rightarrow> CommitResult \<Rightarrow> json" where
  "commitResponse opID r =
     JObject (managementCommon opID (CommitOutcome r) @
       (let extra = (\<lambda>i h e. [(''runtimeIdentity'', runtimeIdentityJSON i),
                              (''healthEpoch'', JNumber (showNat (unat h))),
                              (''quiesceEpoch'', JNumber (showNat (unat e)))]) in
        case r of OutcomeCommitted i h e \<Rightarrow> extra i h e
        | OutcomeAlreadyCommitted i h e \<Rightarrow> extra i h e
        | _ \<Rightarrow> []))"

definition abortResponse :: "OperationID \<Rightarrow> CommitResult \<Rightarrow> json" where
  "abortResponse opID r =
     JObject (managementCommon opID (CommitOutcome r) @
       (case r of OutcomeAborted i h \<Rightarrow>
            [(''runtimeIdentity'', runtimeIdentityJSON i), (''healthEpoch'', JNumber (showNat (unat h)))]
        | _ \<Rightarrow> []))"

section \<open>Numbers: printing and strict parsing\<close>

lemma code_char_of [simp]: "n < 256 \<Longrightarrow> code (char_of n) = n"
  by (simp add: code_def)

lemma decimal_snoc: "decimal n (s @ [c]) = 10 * decimal n s + (code c - 48)"
  by (induction s arbitrary: n) auto

lemma showNat_digits: "showNat n \<noteq> [] \<and> list_all isDigit (showNat n)"
proof (induction n rule: showNat.induct)
  case (1 n)
  then show ?case by (cases "n < 10") (auto simp: showNat.simps [of n] isDigit_def)
qed

lemma decimal_showNat: "decimal 0 (showNat n) = n"
proof (induction n rule: showNat.induct)
  case (1 n)
  then show ?case by (cases "n < 10") (auto simp: showNat.simps [of n] decimal_snoc)
qed

lemma isDigit_not_space: "isDigit c \<Longrightarrow> \<not> isSpace c"
  by (auto simp: isDigit_def isSpace_def code_def)

lemma isDigit_first:
  "isDigit c \<Longrightarrow> c \<noteq> CHR 0x22 \<and> c \<noteq> CHR ''n'' \<and> c \<noteq> CHR ''t'' \<and> c \<noteq> CHR ''f''"
  by (auto simp: isDigit_def code_def)

lemma ParseStrictUInt_digits:
  "trimSpace raw = s \<Longrightarrow> s \<noteq> [] \<Longrightarrow> list_all isDigit s \<Longrightarrow>
   ParseStrictUInt raw bits = (if decimal 0 s < 2 ^ bits then Inr (decimal 0 s) else Inl ErrNumberOverflow)"
  using isDigit_first by (cases s) (auto simp: ParseStrictUInt_def)

lemma ParseStrictUInt_not_digits:
  "\<not> list_all isDigit (trimSpace raw) \<or> trimSpace raw = [] \<Longrightarrow> \<exists>e. ParseStrictUInt raw bits = Inl e"
  by (cases "trimSpace raw") (auto simp: ParseStrictUInt_def)

lemma ParseStrictUInt_showNat:
  "n < 2 ^ bits \<Longrightarrow> ParseStrictUInt (showNat n) bits = Inr n"
  using showNat_digits [of n]
  by (subst ParseStrictUInt_digits [of _ "showNat n"])
    (auto simp: decimal_showNat list_all_iff isDigit_not_space intro!: trimSpace_id)

lemma ParseStrictUInt_word [simp]:
  "LENGTH('a) \<le> bits \<Longrightarrow> ParseStrictUInt (showNat (unat (w :: 'a::len word))) bits = Inr (unat w)"
  by (intro ParseStrictUInt_showNat order_less_le_trans [OF unat_less_word_len power_increasing]) auto

section \<open>Hexadecimal round trip\<close>

lemma hexChar_code: "n < 16 \<Longrightarrow> code (hexChar n) = (if n < 10 then 48 + n else 87 + n)"
  by (simp add: hexChar_def)

lemma hexChar_hexDigit: "n < 16 \<Longrightarrow> hexDigit (hexChar n) = n"
  by (simp add: hexDigit_def hexChar_code)

lemma hexDigit_hexChar: "isLowerHex c \<Longrightarrow> hexChar (hexDigit c) = c"
  by (auto simp: isLowerHex_def hexDigit_def hexChar_def code_def)

lemma hexDigit_bound: "isLowerHex c \<Longrightarrow> hexDigit c < 16"
  by (auto simp: isLowerHex_def hexDigit_def)

lemma isLowerHex_hexChar: "n < 16 \<Longrightarrow> isLowerHex (hexChar n)"
  by (auto simp: isLowerHex_def hexChar_code)

lemma byte_div: "unat (b :: byte) div 16 < 16"
  using unat_less_word_len [of b] by simp

lemma hexDecode_EncodeHex: "hexDecode (EncodeHex bs) = bs"
  by (induction bs) (auto simp: EncodeHex_def hexChar_hexDigit byte_div)

lemma length_hexDecode: "length (hexDecode s) = length s div 2"
  by (induction s rule: hexDecode.induct) auto

lemma EncodeHex_hexDecode:
  "even (length s) \<Longrightarrow> list_all isLowerHex s \<Longrightarrow> EncodeHex (hexDecode s) = s"
proof (induction s rule: hexDecode.induct)
  case (1 a b s)
  let ?n = "16 * hexDigit a + hexDigit b"
  have d: "hexDigit a < 16" "hexDigit b < 16" using 1 by (auto intro: hexDigit_bound)
  then have "unat (of_nat ?n :: byte) = ?n" 
    by (subst unat_of_nat) (simp add: take_bit_nat_eq_self)
  with d have "unat (of_nat ?n :: byte) div 16 = hexDigit a" "unat (of_nat ?n :: byte) mod 16 = hexDigit b"
    by simp_all
  with 1 show ?case by (simp add: EncodeHex_def hexDigit_hexChar)
qed (auto simp: EncodeHex_def)

lemma length_EncodeHex: "length (EncodeHex bs) = 2 * length bs"
  by (induction bs) (auto simp: EncodeHex_def)

lemma lowerHex_EncodeHex: "list_all isLowerHex (EncodeHex bs)"
  by (induction bs) (auto simp: EncodeHex_def isLowerHex_hexChar byte_div)

lemma regex_EncodeHex: "length bs = 16 \<Longrightarrow> operationOrTokenRegex (EncodeHex bs)"
  by (simp add: operationOrTokenRegex_def length_EncodeHex lowerHex_EncodeHex)

section \<open>Strict objects\<close>

lemma assertNoDuplicateKeys_iff:
  "assertNoDuplicateKeys seen kvs = Inr () \<longleftrightarrow> distinct (map fst kvs) \<and> set (map fst kvs) \<inter> seen = {}"
  by (induction seen kvs rule: assertNoDuplicateKeys.induct) auto

lemma lastWins_distinct: "distinct (map fst kvs) \<Longrightarrow> lastWins kvs = map_of kvs"
  by (simp add: lastWins_def map_of_rev_distinct)

lemma lastWins_None: "lastWins kvs k = None \<longleftrightarrow> k \<notin> set (map fst kvs)"
  by (simp add: lastWins_def map_of_eq_None_iff image_def)

lemma not_null_iff:
  "distinct (map fst kvs) \<Longrightarrow>
   list_all (\<lambda>(k, v). lastWins kvs k \<noteq> Some JNull) kvs \<longleftrightarrow> JNull \<notin> snd ` set kvs"
  by (force simp: lastWins_distinct list_all_iff)

lemma DecodeStrictObject_distinct:
  "DecodeStrictObject (Some (JObject kvs)) allowed = Inr m \<longleftrightarrow>
     distinct (map fst kvs) \<and> set (map fst kvs) = set allowed \<and> JNull \<notin> snd ` set kvs
   \<and> m = map_of kvs"
proof (cases "distinct (map fst kvs)")
  case True
  then have "assertNoDuplicateKeys {} kvs = Inr ()" by (simp add: assertNoDuplicateKeys_iff)
  moreover have "list_all (\<lambda>(k, v). k \<in> set allowed) kvs \<longleftrightarrow> set (map fst kvs) \<subseteq> set allowed"
    by (force simp: list_all_iff)
  moreover have "list_all (\<lambda>k. lastWins kvs k \<noteq> None) allowed \<longleftrightarrow> set allowed \<subseteq> set (map fst kvs)"
    using lastWins_None [of kvs] by (auto simp: list_all_iff)
  ultimately have "DecodeStrictObject (Some (JObject kvs)) allowed = Inr m \<longleftrightarrow>
      set (map fst kvs) \<subseteq> set allowed \<and> set allowed \<subseteq> set (map fst kvs) \<and> JNull \<notin> snd ` set kvs
    \<and> lastWins kvs = m"
    using True by (simp add: DecodeStrictObject_def Let_def not_null_iff)
  with True show ?thesis by (auto simp: lastWins_distinct)
next
  case False
  then have "assertNoDuplicateKeys {} kvs \<noteq> Inr ()" by (simp add: assertNoDuplicateKeys_iff)
  then obtain e where "assertNoDuplicateKeys {} kvs = Inl e" by (cases "assertNoDuplicateKeys {} kvs") auto
  with False show ?thesis by (simp add: DecodeStrictObject_def Let_def)
qed

lemma DecodeStrictObject_not_object:
  "(\<nexists>kvs. raw = Some (JObject kvs)) \<Longrightarrow> DecodeStrictObject raw allowed = Inl ErrInvalidJSON"
  by (auto simp: DecodeStrictObject_def split: option.split json.split)

section \<open>Redaction\<close>

declare RedactLogValue.simps [simp del]

lemma Redact_short:
  "s \<noteq> [] \<Longrightarrow> length (takeWhile isAnyHex s) < 32 \<Longrightarrow> RedactLogValue s = hd s # RedactLogValue (tl s)"
  by (simp add: RedactLogValue.simps [of s])

lemma Redact_long:
  "32 \<le> length (takeWhile isAnyHex s) \<Longrightarrow>
   RedactLogValue s = redactedMarker @ RedactLogValue (drop 32 s)"
  by (cases "s = []") (simp_all add: RedactLogValue.simps [of s])

lemma Redact_Nil [simp]: "RedactLogValue [] = []"
  by (simp add: RedactLogValue.simps)

lemma marker_run [simp]: "takeWhile isAnyHex (redactedMarker @ x) = []"
  by (simp add: redactedMarker_def isAnyHex_def isLowerHex_def code_def)

lemma hex_run_Redact:
  "takeWhile isAnyHex (RedactLogValue s) =
     (if 32 \<le> length (takeWhile isAnyHex s) then [] else takeWhile isAnyHex s)"
proof (induction s)
  case (Cons c s)
  show ?case
  proof (cases "32 \<le> length (takeWhile isAnyHex (c # s))")
    case True
    then show ?thesis by (simp only: Redact_long marker_run if_True)
  next
    case False
    then have "length (takeWhile isAnyHex s) < 32" if "isAnyHex c" using that by simp
    with False Cons.IH show ?thesis by (cases "isAnyHex c") (auto simp: Redact_short)
  qed
qed simp

lemma hex_window: "32 \<le> length (takeWhile isAnyHex s) \<longleftrightarrow> (\<exists>p r. s = p @ r \<and> length p = 32 \<and> list_all isAnyHex p)"
proof
  assume "32 \<le> length (takeWhile isAnyHex s)"
  then have "s = take 32 (takeWhile isAnyHex s) @ (drop 32 (takeWhile isAnyHex s) @ dropWhile isAnyHex s)
      \<and> length (take 32 (takeWhile isAnyHex s)) = 32"
    by (metis append.assoc append_take_drop_id length_take min_absorb2 takeWhile_dropWhile_id)
  moreover have "list_all isAnyHex (take 32 (takeWhile isAnyHex s))"
    by (metis in_set_takeD list_all_iff set_takeWhileD)
  ultimately show "\<exists>p r. s = p @ r \<and> length p = 32 \<and> list_all isAnyHex p" by blast
next
  assume "\<exists>p r. s = p @ r \<and> length p = 32 \<and> list_all isAnyHex p"
  then obtain p r where "s = p @ r" "length p = 32" "list_all isAnyHex p" by blast
  then have "takeWhile isAnyHex s = p @ takeWhile isAnyHex r"
    by (simp add: list_all_iff)
  with \<open>length p = 32\<close> show "32 \<le> length (takeWhile isAnyHex s)" by simp
qed

lemma marker_suffix_run:
  assumes "suffix q redactedMarker" and "q \<noteq> []"
  shows "length (takeWhile isAnyHex (q @ x)) < 32"
proof -
  have "last q = CHR '']''" using assms by (auto simp: suffix_def redactedMarker_def dest: arg_cong [of _ _ last])
  then have "CHR '']'' \<in> set q" using assms(2) last_in_set by metis
  moreover have "\<not> isAnyHex (CHR '']'')" by (simp add: isAnyHex_def isLowerHex_def code_def)
  ultimately have "takeWhile isAnyHex (q @ x) = takeWhile isAnyHex q" by (rule takeWhile_append1)
  also have "length (takeWhile isAnyHex q) \<le> length redactedMarker"
    using assms(1) length_takeWhile_le suffix_length_le le_trans by blast
  finally show ?thesis by (simp add: redactedMarker_def)
qed

lemma Redact_suffix_run: "suffix x (RedactLogValue s) \<Longrightarrow> length (takeWhile isAnyHex x) < 32"
proof (induction s arbitrary: x rule: RedactLogValue.induct)
  case (1 s)
  have hd: "length (takeWhile isAnyHex (RedactLogValue s)) < 32" by (simp add: hex_run_Redact)
  consider "s = []" | "s \<noteq> []" "32 \<le> length (takeWhile isAnyHex s)"
    | "s \<noteq> []" "length (takeWhile isAnyHex s) < 32" by linarith
  then show ?case
  proof cases
    case 2
    then have "suffix x (redactedMarker @ RedactLogValue (drop 32 s))" using 1(3) by (simp add: Redact_long)
    then consider "suffix x (RedactLogValue (drop 32 s))"
      | q where "suffix q redactedMarker" "q \<noteq> []" "x = q @ RedactLogValue (drop 32 s)"
      by (cases "suffix x (RedactLogValue (drop 32 s))") (auto simp: suffix_append)
    then show ?thesis using 1(1) [OF 2] marker_suffix_run by cases auto
  next
    case 3
    then have "x = RedactLogValue s \<or> suffix x (RedactLogValue (tl s))"
      using 1(3) by (simp add: Redact_short suffix_Cons)
    then show ?thesis using 1(2) [OF 3(1)] 3 hd by auto
  qed (use 1(3) in simp)
qed

section \<open>Responses are well-formed results\<close>

lemma DecodeStrictObject_Inr:
  "distinct (map fst kvs) \<Longrightarrow> set (map fst kvs) = set allowed \<Longrightarrow> JNull \<notin> snd ` set kvs \<Longrightarrow>
   DecodeStrictObject (Some (JObject kvs)) allowed = Inr (map_of kvs)"
  by (simp add: DecodeStrictObject_distinct)

lemma identityJSON_not_null [simp]: "runtimeIdentityJSON i \<noteq> JNull" "JNull \<noteq> runtimeIdentityJSON i"
  by (simp_all add: runtimeIdentityJSON_def)

lemma decode_identityJSON:
  "0 < sint (PID i) \<Longrightarrow> decodeRuntimeIdentity (runtimeIdentityJSON i) = Inr i"
proof -
  assume pos: "0 < sint (PID i)"
  have lt: "sint (PID i) < 2 ^ 31" using sint_lt [of "PID i"] by simp
  have "ParseStrictInt32Positive (showInt (sint (PID i))) = Inr (PID i)"
    using pos lt
    by (simp add: ParseStrictInt32Positive_def showInt_def ParseStrictUInt_showNat nat_less_iff
        of_nat_nat)
  then show ?thesis
    by (simp add: decodeRuntimeIdentity_def runtimeIdentityJSON_def DecodeStrictObject_Inr parseU64_def)
qed

lemma managementCommon_checks:
  "parseU64 (JNumber (showNat (unat ManagementSchemaVersion))) = Inr ManagementSchemaVersion"
  "length opID = 16 \<Longrightarrow> DecodeOperationIDmust (JString (EncodeHex opID)) = Inr opID"
  by (simp_all add: parseU64_def DecodeOperationIDmust_def DecodeStrictString_def DecodeOperationID_def
      regex_EncodeHex hexDecode_EncodeHex)

lemma checkResultField_simps:
  "0 < sint (PID i) \<Longrightarrow> checkResultField ''runtimeIdentity'' (runtimeIdentityJSON i) = Inr ()"
  "length tok = 16 \<Longrightarrow> checkResultField ''token'' (JString (EncodeHex tok)) = Inr ()"
  "checkResultField ''healthEpoch'' (JNumber (showNat (unat (e :: u64)))) = Inr ()"
  "checkResultField ''quiesceEpoch'' (JNumber (showNat (unat (e :: u64)))) = Inr ()"
  "checkResultField ''leaseMillis'' (JNumber (showNat (unat (n :: u32)))) = Inr ()"
  "checkResultField ''leaseRemainingMillis'' (JNumber (showNat (unat (n :: u32)))) = Inr ()"
  "checkResultField ''activeTurns'' (JNumber (showNat (unat (n :: u32)))) = Inr ()"
  "checkResultField ''pendingInteractions'' (JNumber (showNat (unat (n :: u32)))) = Inr ()"
  "checkResultField ''retryAfterMillis'' (JNumber (showNat 2000)) = Inr ()"
  by (simp_all add: checkResultField_def decode_identityJSON DecodeStrictString_def DecodeToken_def
      regex_EncodeHex ParseStrictUInt_showNat)

lemmas shape_simps = DecodeResultShape_def Let_def managementCommon_def DecodeStrictString_def
  DecodeStrictObject_Inr managementCommon_checks checkResultField_simps isKnownOutcome_def
  lastWins_def quiesceResultExtra_def commitResultExtra_def abortResultExtra_def

definition wellFormedQuiesce :: "QuiesceResult \<Rightarrow> bool" where
  "wellFormedQuiesce r = (case r of
     QuiesceSafe i _ _ tok _ _ \<Rightarrow> 0 < sint (PID i) \<and> length tok = 16 | _ \<Rightarrow> True)"

lemma quiesceResponse_shape:
  "length opID = 16 \<Longrightarrow> wellFormedQuiesce r \<Longrightarrow>
   \<exists>m. DecodeResultShape (Some (quiesceResponse opID r)) ''quiesce'' = Inr (QuiesceOutcome r, m)"
  by (cases r) (simp_all add: quiesceResponse_def QuiesceOutcome_def wellFormedQuiesce_def shape_simps)

text \<open>The outcomes each of the two calls can report.\<close>

definition commitReports :: "bool \<Rightarrow> CommitResult \<Rightarrow> bool" where
  "commitReports c r = (case r of
     OutcomeCommitted i _ _ \<Rightarrow> c \<and> 0 < sint (PID i)
   | OutcomeAlreadyCommitted i _ _ \<Rightarrow> 0 < sint (PID i)
   | OutcomeAborted i _ \<Rightarrow> \<not> c \<and> 0 < sint (PID i)
   | OutcomeAlreadyAccepting \<Rightarrow> \<not> c
   | _ \<Rightarrow> True)"

lemma commitAbort_reports:
  "0 < sint (PID (am_identity m)) \<Longrightarrow> commitReports c (fst (commitAbort t c req m))"
  by (cases "am_state (expireActiveIfDue t m)")
    (simp_all add: commitAbort_def Let_def commitReports_def split: option.split terminalKind.split)

lemma commitResponse_shape:
  "length opID = 16 \<Longrightarrow> commitReports True r \<Longrightarrow>
   \<exists>m. DecodeResultShape (Some (commitResponse opID r)) ''commit'' = Inr (CommitOutcome r, m)"
  by (cases r) (simp_all add: commitResponse_def CommitOutcome_def commitReports_def shape_simps)

lemma abortResponse_shape:
  "length opID = 16 \<Longrightarrow> commitReports False r \<Longrightarrow>
   \<exists>m. DecodeResultShape (Some (abortResponse opID r)) ''abort'' = Inr (CommitOutcome r, m)"
  by (cases r) (simp_all add: abortResponse_def CommitOutcome_def commitReports_def shape_simps)

lemma Quiesce_wellFormed:
  assumes "0 < sint (PID (am_identity m))"
    and "\<And>a. am_active m = Some a \<Longrightarrow> length (ao_token a) = 16"
    and "\<And>tok. gen = Some tok \<Longrightarrow> length tok = 16"
  shows "wellFormedQuiesce (fst (Quiesce t t' gen req m))"
proof -
  have "length (ao_token a) = 16" if "am_active (expireActiveIfDue t m) = Some a" for a
    using that assms(2) by (auto simp: expireActiveIfDue_def split: option.splits if_splits)
  with assms show ?thesis
    by (cases "am_state (expireActiveIfDue t m)")
      (simp_all add: Quiesce_def Let_def wellFormedQuiesce_def split: option.split)
qed

section \<open>Properties\<close>

text \<open>
  Hexadecimal tokens round-trip and are accepted in one spelling only: decoding succeeds with
  \<open>t\<close> exactly for the 32 lowercase digits that encoding a 16-byte \<open>t\<close> prints.
\<close>

theorem token_hex_roundtrip: "DecodeToken s = Inr t \<longleftrightarrow> length t = 16 \<and> s = EncodeHex t"
proof
  assume "DecodeToken s = Inr t"
  then have s: "length s = 32" "list_all isLowerHex s" "t = hexDecode s"
    by (auto simp: DecodeToken_def operationOrTokenRegex_def split: if_splits)
  then show "length t = 16 \<and> s = EncodeHex t" by (simp add: length_hexDecode EncodeHex_hexDecode)
next
  assume "length t = 16 \<and> s = EncodeHex t"
  then show "DecodeToken s = Inr t" by (simp add: DecodeToken_def regex_EncodeHex hexDecode_EncodeHex)
qed

text \<open>
  A management number is accepted exactly when its trimmed text is a non-empty run of decimal
  digits whose value fits the field's width, and then that value is returned: no sign, fraction,
  exponent, quotes, null, bool or overflow passes.
\<close>

theorem strict_number_exact:
  "ParseStrictUInt raw bits = Inr n \<longleftrightarrow>
     trimSpace raw \<noteq> [] \<and> list_all isDigit (trimSpace raw) \<and> decimal 0 (trimSpace raw) = n \<and> n < 2 ^ bits"
proof (cases "trimSpace raw \<noteq> [] \<and> list_all isDigit (trimSpace raw)")
  case True
  then show ?thesis by (auto simp: ParseStrictUInt_digits)
next
  case False
  then obtain e where "ParseStrictUInt raw bits = Inl e" using ParseStrictUInt_not_digits by blast
  with False show ?thesis by auto
qed

text \<open>
  A strict object is accepted exactly when it is an object whose members have distinct keys,
  the keys are the allowed set, neither fewer nor more, and no value is null; the result then maps
  each key to its one value.
\<close>

theorem strict_object_exact:
  "DecodeStrictObject raw allowed = Inr m \<longleftrightarrow>
     (\<exists>kvs. raw = Some (JObject kvs) \<and> distinct (map fst kvs) \<and> set (map fst kvs) = set allowed
        \<and> JNull \<notin> snd ` set kvs \<and> m = map_of kvs)"
proof (cases "\<exists>kvs. raw = Some (JObject kvs)")
  case True
  then obtain kvs where "raw = Some (JObject kvs)" ..
  then show ?thesis by (simp add: DecodeStrictObject_distinct)
next
  case False
  then show ?thesis by (auto simp: DecodeStrictObject_not_object)
qed

text \<open>
  Redaction removes every token: no 32 consecutive hexadecimal digits, in any mix of cases,
  remain anywhere in its output.
\<close>

theorem redaction_complete:
  "\<not> (\<exists>p q r. RedactLogValue s = p @ q @ r \<and> length q = 32 \<and> list_all isAnyHex q)"
proof
  assume "\<exists>p q r. RedactLogValue s = p @ q @ r \<and> length q = 32 \<and> list_all isAnyHex q"
  then obtain p q r where "RedactLogValue s = p @ q @ r" "length q = 32" "list_all isAnyHex q" by blast
  then have "suffix (q @ r) (RedactLogValue s)" "32 \<le> length (takeWhile isAnyHex (q @ r))"
    by (auto simp: suffix_def hex_window)
  with Redact_suffix_run [of "q @ r" s] show False by simp
qed

text \<open>
  C15: whatever the machine answers, the body each of the three handlers writes is a result the
  strict decoder of that group accepts, with the outcome the machine reported: the field sets of
  the two sides agree for every outcome.
\<close>

theorem responses_decode:
  assumes "length opID = 16" and "0 < sint (PID (am_identity m))"
    and "\<And>a. am_active m = Some a \<Longrightarrow> length (ao_token a) = 16"
    and "\<And>tok. gen = Some tok \<Longrightarrow> length tok = 16"
  shows "(\<exists>f. DecodeResultShape (Some (quiesceResponse opID (fst (Quiesce t t' gen qreq m)))) ''quiesce''
              = Inr (QuiesceOutcome (fst (Quiesce t t' gen qreq m)), f))
    \<and> (\<exists>f. DecodeResultShape (Some (commitResponse opID (fst (Commit t req m)))) ''commit''
              = Inr (CommitOutcome (fst (Commit t req m)), f))
    \<and> (\<exists>f. DecodeResultShape (Some (abortResponse opID (fst (Abort t req m)))) ''abort''
              = Inr (CommitOutcome (fst (Abort t req m)), f))"
  using assms Quiesce_wellFormed [of m gen t t' qreq]
  by (simp add: quiesceResponse_shape commitResponse_shape abortResponse_shape commitAbort_reports
      Commit_def Abort_def)

theorem responses_decode_witness:
  "\<exists>f. DecodeResultShape (Some (commitResponse demoOperation (fst (Commit 200 demoCommit demoQuiescing))))
          ''commit'' = Inr (CommitOutcome (fst (Commit 200 demoCommit demoQuiescing)), f)"
  using responses_decode [where opID = demoOperation and m = demoQuiescing and gen = None and t = 200
      and req = demoCommit]
  by (simp add: demo_defs demoOperation_def demoToken_def demoRuntime_def)

end
