(* ===== verification/Admission_Budget.thy ===== *)
theory Admission_Budget
  imports Admission
begin

text \<open>
  The management time budget (\<^verbatim>\<open>go-bridge/admission/budget.go\<close>), the resource limits and the
  three-state health machine of the file-read pool (\<^verbatim>\<open>go-bridge/admission/resource.go\<close>) and its
  locked wrapper (\<^verbatim>\<open>go-bridge/filepool/health.go\<close>).  All fields are 32-bit words; the checked
  additions and subtractions are the ones of the source.  Error values carry the check that failed;
  the formatted numbers of the messages are left out.
\<close>

section \<open>The time budget\<close>

record ManagementTimeBudget =
  QuiesceHTTPTimeout :: u32
  SafeDecodeBudget :: u32
  CommitHTTPTimeout :: u32
  AbortHTTPTimeout :: u32
  ExecutorSchedulingMargin :: u32
  MinimumCommitRemainingMillis :: u32
  LeaseMin :: u32
  LeaseMax :: u32

definition DefaultManagementTimeBudget :: ManagementTimeBudget where
  "DefaultManagementTimeBudget =
     \<lparr>QuiesceHTTPTimeout = 2000, SafeDecodeBudget = 500, CommitHTTPTimeout = 2000,
      AbortHTTPTimeout = 2000, ExecutorSchedulingMargin = 500, MinimumCommitRemainingMillis = 2500,
      LeaseMin = 30000, LeaseMax = 30000\<rparr>"

datatype budgetError =
    ErrBudgetOverflow
  | Inequality1Violated
  | Inequality2Violated
  | Inequality3Violated
  | AbortConsistencyViolated

text \<open>The sum is formed in 64 bits, compared with the largest 32-bit value and truncated.\<close>

definition addChecked :: "u32 \<Rightarrow> u32 \<Rightarrow> (budgetError, u32) result" where
  "addChecked a b =
     (let s = (ucast a :: u64) + ucast b in
      if s > ucast (not (0 :: u32)) then Inl ErrBudgetOverflow else Inr (ucast s))"

definition ManagementTimeBudget_Validate :: "ManagementTimeBudget \<Rightarrow> (budgetError, unit) result" where
  "ManagementTimeBudget_Validate b =
     rbind (addChecked (CommitHTTPTimeout b) (ExecutorSchedulingMargin b)) (\<lambda>rhs1.
     if MinimumCommitRemainingMillis b < rhs1 then Inl Inequality1Violated
     else rbind (addChecked (QuiesceHTTPTimeout b) (SafeDecodeBudget b)) (\<lambda>tmp.
     rbind (addChecked tmp (MinimumCommitRemainingMillis b)) (\<lambda>rhs2.
     if LeaseMin b < rhs2 then Inl Inequality2Violated
     else if LeaseMax b < LeaseMin b then Inl Inequality3Violated
     else rbind (addChecked (AbortHTTPTimeout b) (ExecutorSchedulingMargin b)) (\<lambda>abortNeed.
     if MinimumCommitRemainingMillis b < abortNeed then Inl AbortConsistencyViolated
     else Inr ()))))"

section \<open>Resource limits\<close>

record FileReadHealthConfig =
  fhc_PoolSize :: u32
  fhc_MinHealthyFileSlots :: u32
  fhc_DegradeAt :: u32
  fhc_StuckAgeMillis :: u32

datatype resourceError =
    PoolSizeZero
  | MinHealthyExceedsPool
  | SubUnderflow
  | DegradeAtTooLate
  | StuckAgeZero

definition subChecked :: "u32 \<Rightarrow> u32 \<Rightarrow> (resourceError, u32) result" where
  "subChecked a b = (if b > a then Inl SubUnderflow else Inr (a - b))"

definition FileReadHealthConfig_Validate :: "FileReadHealthConfig \<Rightarrow> (resourceError, unit) result" where
  "FileReadHealthConfig_Validate c =
     (if fhc_PoolSize c = 0 then Inl PoolSizeZero
      else if fhc_MinHealthyFileSlots c > fhc_PoolSize c then Inl MinHealthyExceedsPool
      else rbind (subChecked (fhc_PoolSize c) (fhc_MinHealthyFileSlots c)) (\<lambda>healthySlots.
        if fhc_DegradeAt c > healthySlots then Inl DegradeAtTooLate
        else if fhc_StuckAgeMillis c = 0 then Inl StuckAgeZero
        else Inr ()))"

section \<open>The health machine\<close>

record FileReadHealthMachine =
  fh_stateEpoch :: u64
  fh_state :: HealthState
  fh_stuck :: u32

definition NewFileReadHealthMachine :: FileReadHealthMachine where
  "NewFileReadHealthMachine = \<lparr>fh_stateEpoch = 1, fh_state = HealthHealthy, fh_stuck = 0\<rparr>"

definition MarkDegrading :: "FileReadHealthMachine \<Rightarrow> FileReadHealthMachine" where
  "MarkDegrading h =
     (if fh_state h = HealthDegraded then h
      else if fh_state h \<noteq> HealthDegrading
      then h\<lparr>fh_state := HealthDegrading, fh_stateEpoch := fh_stateEpoch h + 1\<rparr> else h)"

definition MarkDegraded :: "FileReadHealthMachine \<Rightarrow> FileReadHealthMachine" where
  "MarkDegraded h =
     (if fh_state h = HealthDegraded then h
      else h\<lparr>fh_state := HealthDegraded, fh_stateEpoch := fh_stateEpoch h + 1\<rparr>)"

text \<open>The locked wrapper: each mark returns the snapshot it leaves.\<close>

record HealthSnapshot =
  hs_State :: HealthState
  hs_Epoch :: u64

definition Health_Snapshot :: "FileReadHealthMachine option \<Rightarrow> HealthSnapshot" where
  "Health_Snapshot h = (case h of
     None \<Rightarrow> \<lparr>hs_State = HealthHealthy, hs_Epoch = 1\<rparr>
   | Some m \<Rightarrow> \<lparr>hs_State = fh_state m, hs_Epoch = fh_stateEpoch m\<rparr>)"

definition Health_IsAccepting :: "FileReadHealthMachine option \<Rightarrow> bool" where
  "Health_IsAccepting h = (case h of None \<Rightarrow> True | Some m \<Rightarrow> fh_state m = HealthHealthy)"

definition Health_MarkDegrading ::
  "FileReadHealthMachine option \<Rightarrow> HealthSnapshot \<times> FileReadHealthMachine option" where
  "Health_MarkDegrading h = (case h of
     None \<Rightarrow> (\<lparr>hs_State = HealthHealthy, hs_Epoch = 1\<rparr>, None)
   | Some m \<Rightarrow> (Health_Snapshot (Some (MarkDegrading m)), Some (MarkDegrading m)))"

definition Health_MarkDegraded ::
  "FileReadHealthMachine option \<Rightarrow> HealthSnapshot \<times> FileReadHealthMachine option" where
  "Health_MarkDegraded h = (case h of
     None \<Rightarrow> (\<lparr>hs_State = HealthHealthy, hs_Epoch = 1\<rparr>, None)
   | Some m \<Rightarrow> (Health_Snapshot (Some (MarkDegraded m)), Some (MarkDegraded m)))"

datatype healthMark = OpMarkDegrading | OpMarkDegraded

fun healthStep :: "FileReadHealthMachine \<Rightarrow> healthMark \<Rightarrow> FileReadHealthMachine" where
  "healthStep h OpMarkDegrading = MarkDegrading h"
| "healthStep h OpMarkDegraded = MarkDegraded h"

fun severity :: "HealthState \<Rightarrow> nat" where
  "severity HealthHealthy = 0"
| "severity HealthDegrading = 1"
| "severity HealthDegraded = 2"

text \<open>The epoch starts at one and each transition adds one, so it stays within three values.\<close>

definition health_ok :: "FileReadHealthMachine \<Rightarrow> bool" where
  "health_ok h \<longleftrightarrow>
     (fh_state h = HealthHealthy \<longleftrightarrow> fh_stateEpoch h = 1)
   \<and> (fh_state h = HealthDegrading \<longrightarrow> fh_stateEpoch h = 2)
   \<and> (fh_state h = HealthDegraded \<longrightarrow> fh_stateEpoch h = 2 \<or> fh_stateEpoch h = 3)"

lemmas health_defs = health_ok_def MarkDegrading_def MarkDegraded_def

lemma health_ok_new: "health_ok NewFileReadHealthMachine"
  by (simp add: health_ok_def NewFileReadHealthMachine_def)

interpretation hm: guarded_machine healthStep health_ok
proof
  fix h x assume "health_ok h"
  then show "health_ok (healthStep h x)"
    by (cases x; cases "fh_state h") (auto simp: health_defs)
qed

interpretation hm: one_way_machine healthStep health_ok "\<lambda>h. fh_state h \<noteq> HealthHealthy"
proof
  fix h x assume "health_ok h" and "fh_state h \<noteq> HealthHealthy"
  then show "fh_state (healthStep h x) \<noteq> HealthHealthy"
    by (cases x) (simp_all add: health_defs)
qed

interpretation hlevel: counting_machine healthStep health_ok "\<lambda>h. severity (fh_state h)"
proof
  fix h x
  show "severity (fh_state h) \<le> severity (fh_state (healthStep h x))"
    by (cases x; cases "fh_state h") (simp_all add: health_defs)
qed

interpretation hepoch: counting_machine healthStep health_ok "\<lambda>h. unat (fh_stateEpoch h)"
proof
  fix h x assume "health_ok h"
  then show "unat (fh_stateEpoch h) \<le> unat (fh_stateEpoch (healthStep h x))"
    by (cases x; cases "fh_state h") (auto simp: health_defs)
qed

section \<open>Checked arithmetic\<close>

lemma addChecked_nat:
  "addChecked a b = (if unat a + unat b < 2 ^ 32 then Inr (a + b) else Inl ErrBudgetOverflow)"
proof -
  have ab: "unat a < 2 ^ 32" "unat b < 2 ^ 32"
    using unat_less_word_len [of a] unat_less_word_len [of b] by simp_all
  have s: "unat ((ucast a :: u64) + ucast b) = unat a + unat b"
    using ab by (simp add: unat_word_ariths unsigned_ucast_eq take_bit_nat_eq_self)
  have top: "unat (ucast (not (0 :: u32)) :: u64) = 4294967295"
    by (simp add: unsigned_ucast_eq unsigned_minus_1_eq_mask mask_eq_exp_minus_1 take_bit_nat_def)
  have "(ucast a :: u64) + ucast b > ucast (not (0 :: u32)) \<longleftrightarrow> unat a + unat b > 4294967295"
    using s top by (simp add: word_less_nat_alt)
  moreover have "(ucast ((ucast a :: u64) + ucast b) :: u32) = a + b"
    unfolding word_unat_eq_iff by (use s in \<open>simp add: unsigned_ucast_eq unat_word_ariths take_bit_nat_def\<close>)
  ultimately show ?thesis by (simp add: addChecked_def Let_def)
qed

lemma unat_add_fits: "unat (a :: u32) + unat b < 2 ^ 32 \<Longrightarrow> unat (a + b) = unat a + unat b"
  by (simp add: unat_word_ariths)

lemma fits_le_iff:
  "(unat (a :: u32) + unat b < 2 ^ 32 \<and> a + b \<le> c) \<longleftrightarrow> unat a + unat b \<le> unat c"
  using unat_less_word_len [of c] unat_add_fits [of a b] by (auto simp: word_le_nat_alt)

lemma rbind_addChecked:
  "rbind (addChecked a b) f = Inr y \<longleftrightarrow> unat a + unat b < 2 ^ 32 \<and> f (a + b) = Inr y"
  by (simp add: addChecked_nat)

lemma budget_inequalities:
  "ManagementTimeBudget_Validate b = Inr () \<longleftrightarrow>
     unat (CommitHTTPTimeout b) + unat (ExecutorSchedulingMargin b) \<le> unat (MinimumCommitRemainingMillis b)
   \<and> unat (AbortHTTPTimeout b) + unat (ExecutorSchedulingMargin b) \<le> unat (MinimumCommitRemainingMillis b)
   \<and> unat (QuiesceHTTPTimeout b) + unat (SafeDecodeBudget b) + unat (MinimumCommitRemainingMillis b)
       \<le> unat (LeaseMin b)
   \<and> unat (LeaseMin b) \<le> unat (LeaseMax b)"
proof -
  let ?q = "QuiesceHTTPTimeout b" and ?d = "SafeDecodeBudget b" and ?n = "MinimumCommitRemainingMillis b"
  have three: "unat ?q + unat ?d < 2 ^ 32 \<and> unat (?q + ?d) + unat ?n < 2 ^ 32 \<and> ?q + ?d + ?n \<le> LeaseMin b
      \<longleftrightarrow> unat ?q + unat ?d + unat ?n \<le> unat (LeaseMin b)"
    using fits_le_iff [of "?q + ?d" ?n "LeaseMin b"] unat_add_fits [of ?q ?d]
      unat_less_word_len [of "LeaseMin b"] by auto
  have "ManagementTimeBudget_Validate b = Inr () \<longleftrightarrow>
      (unat (CommitHTTPTimeout b) + unat (ExecutorSchedulingMargin b) < 2 ^ 32
        \<and> CommitHTTPTimeout b + ExecutorSchedulingMargin b \<le> ?n)
    \<and> (unat ?q + unat ?d < 2 ^ 32 \<and> unat (?q + ?d) + unat ?n < 2 ^ 32 \<and> ?q + ?d + ?n \<le> LeaseMin b)
    \<and> LeaseMin b \<le> LeaseMax b
    \<and> (unat (AbortHTTPTimeout b) + unat (ExecutorSchedulingMargin b) < 2 ^ 32
        \<and> AbortHTTPTimeout b + ExecutorSchedulingMargin b \<le> ?n)"
    unfolding ManagementTimeBudget_Validate_def rbind_addChecked
    by (auto simp: rbind_addChecked linorder_not_less simp del: power_numeral split: if_splits)
  then show ?thesis unfolding three
    unfolding fits_le_iff word_le_nat_alt [of "LeaseMin b"] by blast
qed

lemma fresh_lease:
  "Quiesce t t' gen req m = (QuiesceSafe i h e tok lease remaining, m') \<Longrightarrow>
   am_state (expireActiveIfDue t m) = StateAccepting \<Longrightarrow>
   \<exists>a. am_active m' = Some a \<and> ao_expiresAt a = t' + millis (am_leaseMillis m)"
  by (auto simp: Quiesce_def Let_def startLease_def expireActiveIfDue_def split: adm_splits)

lemma lease_covers:
  assumes "ManagementTimeBudget_Validate b = Inr ()"
  shows "millis (QuiesceHTTPTimeout b) + millis (SafeDecodeBudget b) + millis (CommitHTTPTimeout b)
    + millis (ExecutorSchedulingMargin b) \<le> millis (LeaseMax b)"
proof -
  have "unat (QuiesceHTTPTimeout b) + unat (SafeDecodeBudget b) + unat (CommitHTTPTimeout b)
      + unat (ExecutorSchedulingMargin b) \<le> unat (LeaseMax b)"
    using assms by (simp add: budget_inequalities)
  then have "uint (QuiesceHTTPTimeout b) + uint (SafeDecodeBudget b) + uint (CommitHTTPTimeout b)
      + uint (ExecutorSchedulingMargin b) \<le> uint (LeaseMax b)"
    unfolding uint_nat by linarith
  then show ?thesis by (simp add: millis_def)
qed

section \<open>Properties\<close>

text \<open>
  A budget validates exactly when its four inequalities hold over the integers: the minimum
  remaining lease covers a commit and an abort with the scheduling margin, the shortest lease covers
  the quiesce answer, its decoding and that minimum, and the lease range is not empty.  A wrapped
  32-bit sum never makes a wrong budget pass, and none of the sums makes a right one fail.
\<close>

theorem budget_valid_exact:
  "ManagementTimeBudget_Validate b = Inr () \<longleftrightarrow>
     unat (CommitHTTPTimeout b) + unat (ExecutorSchedulingMargin b) \<le> unat (MinimumCommitRemainingMillis b)
   \<and> unat (AbortHTTPTimeout b) + unat (ExecutorSchedulingMargin b) \<le> unat (MinimumCommitRemainingMillis b)
   \<and> unat (QuiesceHTTPTimeout b) + unat (SafeDecodeBudget b) + unat (MinimumCommitRemainingMillis b)
       \<le> unat (LeaseMin b)
   \<and> unat (LeaseMin b) \<le> unat (LeaseMax b)"
  by (rule budget_inequalities)

text \<open>
  Under a valid budget whose longest lease the machine uses, a supervisor that quotes a freshly
  granted lease is never too late: a commit that reaches the runtime within the quiesce timeout, the
  decoding budget, the commit timeout and the scheduling margin after the grant is committed.
\<close>

theorem budget_covers_handshake:
  assumes "ManagementTimeBudget_Validate b = Inr ()" and "am_leaseMillis m = LeaseMax b"
    and "Quiesce t t' gen req m = (QuiesceSafe i h e tok lease remaining, m')"
    and "am_state (expireActiveIfDue t m) = StateAccepting"
    and "tc < t' + millis (QuiesceHTTPTimeout b) + millis (SafeDecodeBudget b)
                + millis (CommitHTTPTimeout b) + millis (ExecutorSchedulingMargin b)"
  shows "fst (Commit tc \<lparr>cr_ManagementSchemaVersion = ManagementSchemaVersion,
             cr_OperationID = qr_OperationID req, cr_ExpectedRuntime = i, cr_ExpectedHealthEpoch = h,
             cr_QuiesceEpoch = e, cr_Token = tok\<rparr> m') = OutcomeCommitted i h e"
proof -
  obtain a where a: "am_active m' = Some a" "ao_expiresAt a = t' + millis (LeaseMax b)"
    using fresh_lease [OF assms(3,4)] assms(2) by auto
  have "tc < ao_expiresAt a" using lease_covers [OF assms(1)] assms(5) a(2) by linarith
  from handshake_completes [OF assms(3) a(1) this] show ?thesis .
qed

theorem budget_covers_handshake_witness:
  "fst (Commit (100 + 4999 * nanosPerMilli) demoCommit
      (snd (Quiesce 100 100 (Some demoToken) demoQuiesce (NewAdmissionMachine demoRuntime 30000))))
   = OutcomeCommitted demoRuntime 1 1"
proof -
  let ?m = "NewAdmissionMachine demoRuntime 30000"
  have q: "Quiesce 100 100 (Some demoToken) demoQuiesce ?m
      = (QuiesceSafe demoRuntime 1 1 demoToken 30000 30000, snd (Quiesce 100 100 (Some demoToken) demoQuiesce ?m))"
    by (simp add: Quiesce_def Let_def expireActiveIfDue_def demo_defs startLease_def)
  have v: "ManagementTimeBudget_Validate DefaultManagementTimeBudget = Inr ()"
    by (simp add: budget_inequalities DefaultManagementTimeBudget_def)
  show ?thesis
    using budget_covers_handshake [OF v _ q, of "100 + 4999 * nanosPerMilli"]
    by (simp add: demo_defs DefaultManagementTimeBudget_def expireActiveIfDue_def millis_def)
qed

text \<open>
  Within one runtime the file-read health only gets worse and is never healthy again once it
  was not; the epoch never decreases and is one exactly while the state is healthy, so that two
  equal epochs mean the same health unless the later state is the direct jump to degraded.
\<close>

theorem health_degrades_only:
  "severity (fh_state (run healthStep NewFileReadHealthMachine xs))
     \<le> severity (fh_state (run healthStep NewFileReadHealthMachine (xs @ ys)))
   \<and> unat (fh_stateEpoch (run healthStep NewFileReadHealthMachine xs))
     \<le> unat (fh_stateEpoch (run healthStep NewFileReadHealthMachine (xs @ ys)))
   \<and> (fh_stateEpoch (run healthStep NewFileReadHealthMachine xs) = 1
      \<longleftrightarrow> fh_state (run healthStep NewFileReadHealthMachine xs) = HealthHealthy)"
  using hlevel.level_run [OF hm.run_good [OF health_ok_new], of xs ys]
    hepoch.level_run [OF hm.run_good [OF health_ok_new], of xs ys]
    hm.run_good [OF health_ok_new, of xs]
  by (auto simp: health_ok_def)

end
