(* ===== verification/File_Pool.thy ===== *)
theory File_Pool
  imports Admission_Budget "HOL-Library.AList"
begin

text \<open>
  The bounded file-read worker pool of \<^verbatim>\<open>go-bridge/filepool/pool.go\<close>.

  The first part translates the locked sections of the pool one by one (admission, the round-robin
  pop, the in-flight accounting, the watchdog scan, draining and closing).  The second part is the
  concurrent system: the workers, each at a program point of its loop, the wake channel of capacity
  one and the submitters between their locked section and their wake send, as a step relation whose
  steps are the locked sections and the channel operations.

  A pending job is identified by the address \<^verbatim>\<open>Submit\<close> allocates (\<open>pj_id\<close>); \<open>p_queues\<close> is Go's map
  from device to queue as an association list (an absent key reads as the empty queue), and
  \<open>p_inflightDev\<close> is total because an absent key reads as zero and a deleted one was zero.
\<close>

section \<open>Configuration\<close>

record Config =
  cfg_PoolSize :: u32
  cfg_PerDeviceInFlight :: u32
  cfg_PerDeviceQueued :: u32
  cfg_GlobalQueued :: u32
  cfg_ReadTimeout :: duration
  cfg_Health :: FileReadHealthConfig

datatype configError =
    CfgPoolSizeZero
  | CfgPerDeviceInFlight
  | CfgPerDeviceQueuedZero
  | CfgGlobalQueuedZero
  | CfgReadTimeout
  | CfgHealth resourceError

definition Config_Validate :: "Config \<Rightarrow> (configError, unit) result" where
  "Config_Validate c =
     (if cfg_PoolSize c = 0 then Inl CfgPoolSizeZero
      else if cfg_PerDeviceInFlight c = 0 \<or> cfg_PerDeviceInFlight c \<ge> cfg_PoolSize c
      then Inl CfgPerDeviceInFlight
      else if cfg_PerDeviceQueued c = 0 then Inl CfgPerDeviceQueuedZero
      else if cfg_GlobalQueued c = 0 then Inl CfgGlobalQueuedZero
      else if cfg_ReadTimeout c \<le> 0 then Inl CfgReadTimeout
      else case FileReadHealthConfig_Validate (cfg_Health c) of
             Inl e \<Rightarrow> Inl (CfgHealth e)
           | Inr _ \<Rightarrow> Inr ())"

definition defaultFilePoolConfig :: Config where
  "defaultFilePoolConfig =
     \<lparr>cfg_PoolSize = 4, cfg_PerDeviceInFlight = 1, cfg_PerDeviceQueued = 4, cfg_GlobalQueued = 32,
      cfg_ReadTimeout = 10 * nanosPerSecond,
      cfg_Health = \<lparr>fhc_PoolSize = 4, fhc_MinHealthyFileSlots = 3, fhc_DegradeAt = 1,
                    fhc_StuckAgeMillis = 5000\<rparr>\<rparr>"

section \<open>Jobs and the pool\<close>

text \<open>\<open>job_Work\<close> and \<open>job_OnCancel\<close> tell whether the function value is non-nil.\<close>

record Job =
  job_DeviceID :: string
  job_Work :: bool
  job_OnCancel :: bool

record pendingJob =
  pj_id :: nat
  pj_job :: Job
  pj_startedAt :: instant
  pj_cancelled :: bool

datatype poolError = ErrWorkNil | ErrFileBusy | ErrFileDegraded | ErrPoolClosed

record Pool =
  p_cfg :: Config
  p_health :: FileReadHealthMachine
  p_queues :: "(string \<times> pendingJob list) list"
  p_deviceOrder :: "string list"
  p_cursor :: nat
  p_inflightDev :: "string \<Rightarrow> u32"
  p_globalQueued :: int
  p_inflightJobs :: "pendingJob list"
  p_rejecting :: bool
  p_closed :: bool

definition queueOf :: "Pool \<Rightarrow> string \<Rightarrow> pendingJob list" where
  "queueOf p dev = (case map_of (p_queues p) dev of None \<Rightarrow> [] | Some q \<Rightarrow> q)"

definition queued :: "Pool \<Rightarrow> pendingJob list" where
  "queued p = concat (map snd (p_queues p))"

definition newPool :: "Config \<Rightarrow> Pool" where
  "newPool cfg =
     \<lparr>p_cfg = cfg, p_health = NewFileReadHealthMachine, p_queues = [], p_deviceOrder = [],
      p_cursor = 0, p_inflightDev = (\<lambda>_. 0), p_globalQueued = 0, p_inflightJobs = [],
      p_rejecting = False, p_closed = False\<rparr>"

definition Pool_Submit :: "nat \<Rightarrow> Job \<Rightarrow> Pool \<Rightarrow> (poolError, unit) result \<times> Pool" where
  "Pool_Submit a job p =
     (if \<not> job_Work job then (Inl ErrWorkNil, p)
      else if p_closed p then (Inl ErrPoolClosed, p)
      else if p_rejecting p \<or> \<not> Health_IsAccepting (Some (p_health p)) then (Inl ErrFileDegraded, p)
      else
        let dev = job_DeviceID job;
            pendingForDev = (of_nat (length (queueOf p dev)) :: u32)
        in
        if p_inflightDev p dev + pendingForDev \<ge> cfg_PerDeviceQueued (p_cfg p) then (Inl ErrFileBusy, p)
        else if p_globalQueued p \<ge> uint (cfg_GlobalQueued (p_cfg p)) then (Inl ErrFileBusy, p)
        else
          let pj = \<lparr>pj_id = a, pj_job = job, pj_startedAt = zeroTime, pj_cancelled = False\<rparr> in
          (Inr (), p\<lparr>p_queues := AList.update dev (queueOf p dev @ [pj]) (p_queues p),
                     p_deviceOrder := (if pendingForDev = 0 then p_deviceOrder p @ [dev] else p_deviceOrder p),
                     p_globalQueued := p_globalQueued p + 1\<rparr>))"

definition removeDeviceLocked :: "string \<Rightarrow> Pool \<Rightarrow> Pool" where
  "removeDeviceLocked dev p =
     (if dev \<in> set (p_deviceOrder p)
      then let order = remove1 dev (p_deviceOrder p) in
           p\<lparr>p_deviceOrder := order,
             p_cursor := (if order = [] then 0
                          else if p_cursor p \<ge> length order then 0 else p_cursor p)\<rparr>
      else p)"

text \<open>The test a device passes in the round-robin scan: neither \<^verbatim>\<open>continue\<close> is taken.\<close>

definition eligible :: "Pool \<Rightarrow> string \<Rightarrow> bool" where
  "eligible p dev \<longleftrightarrow>
     queueOf p dev \<noteq> [] \<and> \<not> p_inflightDev p dev \<ge> cfg_PerDeviceInFlight (p_cfg p)"

definition takeJob :: "nat \<Rightarrow> Pool \<Rightarrow> pendingJob \<times> Pool" where
  "takeJob idx p =
     (let n = length (p_deviceOrder p);
          dev = p_deviceOrder p ! idx;
          queue = queueOf p dev;
          p1 = p\<lparr>p_queues := AList.update dev (tl queue) (p_queues p),
                 p_globalQueued := p_globalQueued p - 1,
                 p_inflightDev := (p_inflightDev p)(dev := p_inflightDev p dev + 1),
                 p_cursor := (idx + 1) mod n\<rparr>
      in (hd queue, if tl queue = [] then removeDeviceLocked dev p1 else p1))"

definition popLocked :: "Pool \<Rightarrow> (pendingJob \<times> Pool) option" where
  "popLocked p =
     (let n = length (p_deviceOrder p) in
      case find (\<lambda>offset. eligible p (p_deviceOrder p ! ((p_cursor p + offset) mod n))) [0..<n] of
        None \<Rightarrow> None
      | Some offset \<Rightarrow> Some (takeJob ((p_cursor p + offset) mod n) p))"

text \<open>The two locked sections of a worker around \<^verbatim>\<open>Work\<close>.\<close>

definition registerJob :: "instant \<Rightarrow> pendingJob \<Rightarrow> Pool \<Rightarrow> pendingJob \<times> Pool" where
  "registerJob now pj p =
     (let pj' = pj\<lparr>pj_startedAt := now\<rparr> in
      (pj', p\<lparr>p_inflightJobs := pj' # p_inflightJobs p\<rparr>))"

definition finishJob :: "pendingJob \<Rightarrow> Pool \<Rightarrow> Pool" where
  "finishJob pj p =
     (let dev = job_DeviceID (pj_job pj) in
      p\<lparr>p_inflightJobs := filter (\<lambda>x. pj_id x \<noteq> pj_id pj) (p_inflightJobs p),
        p_inflightDev := (p_inflightDev p)(dev := p_inflightDev p dev - 1)\<rparr>)"

definition stuckTickInterval :: "u32 \<Rightarrow> duration" where
  "stuckTickInterval stuckAgeMillis =
     (let d = millis stuckAgeMillis div 4 in
      if d < 5 * nanosPerMilli then 5 * nanosPerMilli else d)"

definition isStuck :: "instant \<Rightarrow> Pool \<Rightarrow> pendingJob \<Rightarrow> bool" where
  "isStuck now p pj \<longleftrightarrow>
     \<not> isZero (pj_startedAt pj)
   \<and> timeSub now (pj_startedAt pj) \<ge> millis (fhc_StuckAgeMillis (cfg_Health (p_cfg p)))"

text \<open>
  \<open>drainLocked\<close> also returns the drained jobs: each of them has its \<^verbatim>\<open>OnCancel\<close> called with the
  error, in a goroutine of its own, when it is not nil.
\<close>

definition drainLocked :: "Pool \<Rightarrow> pendingJob list \<times> Pool" where
  "drainLocked p =
     (queued p, p\<lparr>p_globalQueued := p_globalQueued p - int (length (queued p)), p_queues := [],
                  p_deviceOrder := [], p_cursor := 0\<rparr>)"

definition scanStuck :: "instant \<Rightarrow> Pool \<Rightarrow> pendingJob list \<times> Pool" where
  "scanStuck now p =
     (if \<not> list_ex (isStuck now p) (p_inflightJobs p) \<or> p_rejecting p then ([], p)
      else let (drained, p') = drainLocked (p\<lparr>p_rejecting := True\<rparr>) in
           (drained, p'\<lparr>p_health := MarkDegrading (p_health p')\<rparr>))"

definition Pool_Close :: "Pool \<Rightarrow> pendingJob list \<times> Pool" where
  "Pool_Close p =
     (let (drained, p') = drainLocked (p\<lparr>p_closed := True\<rparr>) in
      (drained, p'\<lparr>p_inflightJobs := map (\<lambda>pj. pj\<lparr>pj_cancelled := True\<rparr>) (p_inflightJobs p')\<rparr>))"

record StatusSnapshot =
  ss_Health :: HealthSnapshot
  ss_StuckWorkers :: u32

definition Pool_StatusSnapshot :: "instant \<Rightarrow> Pool \<Rightarrow> StatusSnapshot" where
  "Pool_StatusSnapshot now p =
     \<lparr>ss_Health = Health_Snapshot (Some (p_health p)),
      ss_StuckWorkers = of_nat (length (filter (isStuck now p) (p_inflightJobs p)))\<rparr>"

section \<open>The concurrent system\<close>

text \<open>
  The program points of a worker: about to enter the locked section of \<^verbatim>\<open>pop\<close>, past it and before
  its \<^verbatim>\<open>select\<close>, parked in the \<^verbatim>\<open>select\<close>, holding a popped job, inside \<^verbatim>\<open>Work\<close>, returned.  A send on
  the wake channel goes straight to a parked worker if there is one; otherwise it fills the one
  slot of the buffer, and it is dropped when the slot is full.
\<close>

datatype worker = WLocking | WUnlocked | WWaiting | WPopped pendingJob | WRunning pendingJob | WExited

text \<open>
  \<open>ps_wakers\<close> counts the submitters that have left their locked section and not yet tried to send
  on the wake channel; \<open>ps_started\<close> and \<open>ps_cancelled\<close> record for which jobs \<^verbatim>\<open>Work\<close> was called and
  which were drained.
\<close>

record PoolSys =
  ps_pool :: Pool
  ps_workers :: "worker list"
  ps_wake :: bool
  ps_stop :: bool
  ps_wakers :: nat
  ps_accepted :: "nat list"
  ps_started :: "nat list"
  ps_cancelled :: "nat list"

definition Pool_New :: "Config \<Rightarrow> (configError, PoolSys) result" where
  "Pool_New cfg =
     rbind (Config_Validate cfg) (\<lambda>_.
       Inr \<lparr>ps_pool = newPool cfg, ps_workers = replicate (unat (cfg_PoolSize cfg)) WLocking,
            ps_wake = False, ps_stop = False, ps_wakers = 0, ps_accepted = [], ps_started = [],
            ps_cancelled = []\<rparr>)"

inductive pool_step :: "PoolSys \<Rightarrow> PoolSys \<Rightarrow> bool" where
  submit: "a \<notin> set (ps_accepted s) \<Longrightarrow> Pool_Submit a job (ps_pool s) = (Inr (), p) \<Longrightarrow>
     pool_step s (s\<lparr>ps_pool := p, ps_accepted := a # ps_accepted s, ps_wakers := ps_wakers s + 1\<rparr>)"
| send_wake: "ps_wakers s = Suc n \<Longrightarrow> WWaiting \<notin> set (ps_workers s) \<Longrightarrow>
     pool_step s (s\<lparr>ps_wakers := n, ps_wake := True\<rparr>)"
| hand_wake: "ps_wakers s = Suc n \<Longrightarrow> i < length (ps_workers s) \<Longrightarrow> ps_workers s ! i = WWaiting \<Longrightarrow>
     pool_step s (s\<lparr>ps_wakers := n, ps_workers := (ps_workers s)[i := WLocking]\<rparr>)"
| pop_job: "i < length (ps_workers s) \<Longrightarrow> ps_workers s ! i = WLocking \<Longrightarrow>
     popLocked (ps_pool s) = Some (pj, p) \<Longrightarrow>
     pool_step s (s\<lparr>ps_pool := p, ps_workers := (ps_workers s)[i := WPopped pj]\<rparr>)"
| pop_closed: "i < length (ps_workers s) \<Longrightarrow> ps_workers s ! i = WLocking \<Longrightarrow>
     popLocked (ps_pool s) = None \<Longrightarrow> p_closed (ps_pool s) \<Longrightarrow>
     pool_step s (s\<lparr>ps_workers := (ps_workers s)[i := WExited]\<rparr>)"
| pop_empty: "i < length (ps_workers s) \<Longrightarrow> ps_workers s ! i = WLocking \<Longrightarrow>
     popLocked (ps_pool s) = None \<Longrightarrow> \<not> p_closed (ps_pool s) \<Longrightarrow>
     pool_step s (s\<lparr>ps_workers := (ps_workers s)[i := WUnlocked]\<rparr>)"
| park: "i < length (ps_workers s) \<Longrightarrow> ps_workers s ! i = WUnlocked \<Longrightarrow> \<not> ps_wake s \<Longrightarrow> \<not> ps_stop s \<Longrightarrow>
     pool_step s (s\<lparr>ps_workers := (ps_workers s)[i := WWaiting]\<rparr>)"
| recv_wake: "i < length (ps_workers s) \<Longrightarrow> ps_workers s ! i = WUnlocked \<Longrightarrow> ps_wake s \<Longrightarrow>
     pool_step s (s\<lparr>ps_wake := False, ps_workers := (ps_workers s)[i := WLocking]\<rparr>)"
| recv_stop: "i < length (ps_workers s) \<Longrightarrow> ps_workers s ! i \<in> {WUnlocked, WWaiting} \<Longrightarrow> ps_stop s \<Longrightarrow>
     pool_step s (s\<lparr>ps_workers := (ps_workers s)[i := WExited]\<rparr>)"
| start: "i < length (ps_workers s) \<Longrightarrow> ps_workers s ! i = WPopped pj \<Longrightarrow>
     registerJob now pj (ps_pool s) = (pj', p) \<Longrightarrow>
     pool_step s (s\<lparr>ps_pool := p, ps_workers := (ps_workers s)[i := WRunning pj'],
                    ps_started := pj_id pj # ps_started s\<rparr>)"
| finish: "i < length (ps_workers s) \<Longrightarrow> ps_workers s ! i = WRunning pj \<Longrightarrow>
     pool_step s (s\<lparr>ps_pool := finishJob pj (ps_pool s), ps_workers := (ps_workers s)[i := WLocking]\<rparr>)"
| scan: "scanStuck now (ps_pool s) = (drained, p) \<Longrightarrow>
     pool_step s (s\<lparr>ps_pool := p, ps_cancelled := map pj_id drained @ ps_cancelled s\<rparr>)"
| close: "\<not> p_closed (ps_pool s) \<Longrightarrow> Pool_Close (ps_pool s) = (drained, p) \<Longrightarrow>
     pool_step s (s\<lparr>ps_pool := p, ps_cancelled := map pj_id drained @ ps_cancelled s,
                    ps_stop := True, ps_wake := True\<rparr>)"

section \<open>The invariant of the locked state\<close>

abbreviation jobDev :: "pendingJob \<Rightarrow> string" where
  "jobDev pj \<equiv> job_DeviceID (pj_job pj)"

definition pool_ok :: "Pool \<Rightarrow> bool" where
  "pool_ok p \<longleftrightarrow>
     distinct (p_deviceOrder p)
   \<and> (\<forall>d. d \<in> set (p_deviceOrder p) \<longleftrightarrow> queueOf p d \<noteq> [])
   \<and> p_globalQueued p = int (length (queued p))
   \<and> p_globalQueued p \<le> uint (cfg_GlobalQueued (p_cfg p))
   \<and> (\<forall>d. \<forall>pj\<in>set (queueOf p d). jobDev pj = d)
   \<and> (\<forall>d. p_inflightDev p d \<le> cfg_PerDeviceInFlight (p_cfg p))
   \<and> (\<forall>d. unat (p_inflightDev p d) + length (queueOf p d) \<le> unat (cfg_PerDeviceQueued (p_cfg p)))
   \<and> (p_closed p \<longrightarrow> queued p = [])"

lemma queueOf_update:
  "p_queues p' = AList.update d q (p_queues p) \<Longrightarrow>
   queueOf p' d' = (if d' = d then q else queueOf p d')"
  by (simp add: queueOf_def update_conv')

lemma mset_queued_update:
  "p_queues p' = AList.update d q (p_queues p) \<Longrightarrow>
   mset (queued p') + mset (queueOf p d) = mset (queued p) + mset q"
proof -
  have "mset (concat (map snd (AList.update d q al))) + mset (case map_of al d of None \<Rightarrow> [] | Some q \<Rightarrow> q)
      = mset (concat (map snd al)) + mset q" for al
    by (induction al) auto
  then show "p_queues p' = AList.update d q (p_queues p) \<Longrightarrow> ?thesis"
    by (simp add: queued_def queueOf_def)
qed

lemma length_queued_update:
  assumes "p_queues p' = AList.update d q (p_queues p)"
  shows "length (queued p') + length (queueOf p d) = length (queued p) + length q"
  using arg_cong [OF mset_queued_update [OF assms], of size] by simp

lemma pending_fits:
  assumes "pool_ok p"
  shows "unat (p_inflightDev p d + of_nat (length (queueOf p d)))
           = unat (p_inflightDev p d) + length (queueOf p d)"
    and "(of_nat (length (queueOf p d)) :: u32) = 0 \<longleftrightarrow> queueOf p d = []"
proof -
  have "unat (p_inflightDev p d) + length (queueOf p d) < 2 ^ 32"
    using assms unat_less_word_len [of "cfg_PerDeviceQueued (p_cfg p)"]
    by (auto simp: pool_ok_def intro: le_less_trans)
  moreover from this have l: "unat (of_nat (length (queueOf p d)) :: u32) = length (queueOf p d)"
    by (simp add: unat_of_nat take_bit_nat_def)
  ultimately show "unat (p_inflightDev p d + of_nat (length (queueOf p d)))
           = unat (p_inflightDev p d) + length (queueOf p d)"
    by (simp add: unat_word_ariths)
  show "(of_nat (length (queueOf p d)) :: u32) = 0 \<longleftrightarrow> queueOf p d = []"
    using l by (metis length_0_conv unat_0 unat_eq_zero)
qed

lemma Pool_Submit_accepts:
  assumes "Pool_Submit a job p = (Inr (), p')"
  shows "\<not> p_closed p \<and> \<not> p_rejecting p
    \<and> p_globalQueued p < uint (cfg_GlobalQueued (p_cfg p))
    \<and> p_inflightDev p (job_DeviceID job) + of_nat (length (queueOf p (job_DeviceID job)))
        < cfg_PerDeviceQueued (p_cfg p)
    \<and> p' = p\<lparr>p_queues := AList.update (job_DeviceID job) (queueOf p (job_DeviceID job)
                 @ [\<lparr>pj_id = a, pj_job = job, pj_startedAt = zeroTime, pj_cancelled = False\<rparr>]) (p_queues p),
             p_deviceOrder := (if (of_nat (length (queueOf p (job_DeviceID job))) :: u32) = 0
                               then p_deviceOrder p @ [job_DeviceID job] else p_deviceOrder p),
             p_globalQueued := p_globalQueued p + 1\<rparr>"
  using assms by (auto simp: Pool_Submit_def Let_def not_le split: if_splits)

lemma pool_ok_Submit:
  assumes ok: "pool_ok p" and acc: "Pool_Submit a job p = (Inr (), p')"
  shows "pool_ok p'"
proof -
  let ?d = "job_DeviceID job"
  let ?pj = "\<lparr>pj_id = a, pj_job = job, pj_startedAt = zeroTime, pj_cancelled = False\<rparr>"
  note A = Pool_Submit_accepts [OF acc]
  then have q: "p_queues p' = AList.update ?d (queueOf p ?d @ [?pj]) (p_queues p)" by simp
  note qo = queueOf_update [OF q] and fit = pending_fits [OF ok, of ?d]
  have room: "unat (p_inflightDev p ?d) + length (queueOf p ?d) < unat (cfg_PerDeviceQueued (p_cfg p))"
    using A fit(1) by (simp add: word_less_nat_alt)
  have len: "length (queued p') = length (queued p) + 1" using length_queued_update [OF q] by simp
  have F: "p_cfg p' = p_cfg p" "p_inflightDev p' = p_inflightDev p" "p_closed p' = p_closed p"
    "p_globalQueued p' = p_globalQueued p + 1"
    "p_deviceOrder p' = (if queueOf p ?d = [] then p_deviceOrder p @ [?d] else p_deviceOrder p)"
    using A fit(2) by auto
  show ?thesis
    unfolding pool_ok_def
  proof (intro conjI allI)
    show "distinct (p_deviceOrder p')" using ok F by (auto simp: pool_ok_def)
    show "p_globalQueued p' = int (length (queued p'))" using ok F len by (simp add: pool_ok_def)
    show "p_globalQueued p' \<le> uint (cfg_GlobalQueued (p_cfg p'))" using A F by simp
    show "p_closed p' \<longrightarrow> queued p' = []" using A F by simp
    fix d
    show "d \<in> set (p_deviceOrder p') \<longleftrightarrow> queueOf p' d \<noteq> []" using ok F by (auto simp: pool_ok_def qo)
    show "\<forall>pj\<in>set (queueOf p' d). jobDev pj = d" using ok by (auto simp: pool_ok_def qo)
    show "p_inflightDev p' d \<le> cfg_PerDeviceInFlight (p_cfg p')" using ok F by (simp add: pool_ok_def)
    show "unat (p_inflightDev p' d) + length (queueOf p' d) \<le> unat (cfg_PerDeviceQueued (p_cfg p'))"
      using ok room F by (auto simp: pool_ok_def qo)
  qed
qed

lemma removeDeviceLocked_fields [simp]:
  "p_queues (removeDeviceLocked d p) = p_queues p" "p_cfg (removeDeviceLocked d p) = p_cfg p"
  "p_inflightDev (removeDeviceLocked d p) = p_inflightDev p"
  "p_globalQueued (removeDeviceLocked d p) = p_globalQueued p"
  "p_closed (removeDeviceLocked d p) = p_closed p" "p_rejecting (removeDeviceLocked d p) = p_rejecting p"
  "p_inflightJobs (removeDeviceLocked d p) = p_inflightJobs p"
  "p_health (removeDeviceLocked d p) = p_health p"
  "p_deviceOrder (removeDeviceLocked d p) = remove1 d (p_deviceOrder p)"
  by (simp_all add: removeDeviceLocked_def Let_def remove1_idem)

lemma takeJob_effect:
  assumes "takeJob idx p = (pj, p')"
  defines "d \<equiv> p_deviceOrder p ! idx"
  shows "pj = hd (queueOf p d)"
    and "p_queues p' = AList.update d (tl (queueOf p d)) (p_queues p)"
    and "p_globalQueued p' = p_globalQueued p - 1" and "p_cfg p' = p_cfg p"
    and "p_inflightDev p' = (p_inflightDev p)(d := p_inflightDev p d + 1)"
    and "p_deviceOrder p' = (if tl (queueOf p d) = [] then remove1 d (p_deviceOrder p) else p_deviceOrder p)"
    and "p_closed p' = p_closed p" "p_rejecting p' = p_rejecting p" "p_inflightJobs p' = p_inflightJobs p"
    and "p_health p' = p_health p"
  using assms(1) unfolding d_def by (auto simp: takeJob_def Let_def split: if_splits)

lemma pool_ok_takeJob:
  assumes ok: "pool_ok p" and el: "eligible p (p_deviceOrder p ! idx)" and t: "takeJob idx p = (pj, p')"
  shows "pool_ok p' \<and> jobDev pj = p_deviceOrder p ! idx \<and> mset (queued p) = add_mset pj (mset (queued p'))"
proof -
  let ?d = "p_deviceOrder p ! idx"
  note E = takeJob_effect [OF t]
  note qo = queueOf_update [OF E(2)]
  from el have ne: "queueOf p ?d \<noteq> []" and lt: "p_inflightDev p ?d < cfg_PerDeviceInFlight (p_cfg p)"
    by (auto simp: eligible_def)
  then have u: "unat (p_inflightDev p ?d + 1) = Suc (unat (p_inflightDev p ?d))"
    by (metis unat_plus_one word_n1_ge not_le)
  then have le: "p_inflightDev p ?d + 1 \<le> cfg_PerDeviceInFlight (p_cfg p)"
    using lt by (simp add: word_le_nat_alt word_less_nat_alt)
  have ms: "mset (queued p) = add_mset pj (mset (queued p'))"
    using mset_queued_update [OF E(2)] ne E(1) by (cases "queueOf p ?d") auto
  then have len: "length (queued p) = length (queued p') + 1" by (metis size_add_mset size_mset add.commute plus_1_eq_Suc)
  have sub: "set (tl (queueOf p ?d)) \<subseteq> set (queueOf p ?d)" by (cases "queueOf p ?d") auto
  have dev: "jobDev pj = ?d" using ok ne E(1) by (simp add: pool_ok_def)
  have "pool_ok p'"
    unfolding pool_ok_def
  proof (intro conjI allI)
    show "distinct (p_deviceOrder p')" using ok E(6) by (auto simp: pool_ok_def)
    show "p_globalQueued p' = int (length (queued p'))" using ok E(3) len by (simp add: pool_ok_def)
    show "p_globalQueued p' \<le> uint (cfg_GlobalQueued (p_cfg p'))" using ok E(3,4) by (simp add: pool_ok_def)
    show "p_closed p' \<longrightarrow> queued p' = []" using ok E(7) ms by (auto simp: pool_ok_def)
    fix d
    show "d \<in> set (p_deviceOrder p') \<longleftrightarrow> queueOf p' d \<noteq> []"
      using ok ne E(6) by (auto simp: pool_ok_def qo)
    show "\<forall>pj\<in>set (queueOf p' d). jobDev pj = d"
      using ok sub by (auto simp: pool_ok_def qo)
    show "p_inflightDev p' d \<le> cfg_PerDeviceInFlight (p_cfg p')"
      using ok le E(4,5) by (simp add: pool_ok_def)
    show "unat (p_inflightDev p' d) + length (queueOf p' d) \<le> unat (cfg_PerDeviceQueued (p_cfg p'))"
    proof (cases "d = ?d")
      case True
      moreover have "unat (p_inflightDev p ?d) + length (queueOf p ?d) \<le> unat (cfg_PerDeviceQueued (p_cfg p))"
        using ok by (simp add: pool_ok_def)
      ultimately show ?thesis using ne u E(4,5) by (cases "queueOf p ?d") (simp_all add: qo)
    next
      case False
      then show ?thesis using ok E(4,5) by (simp add: pool_ok_def qo)
    qed
  qed
  with dev ms show ?thesis by blast
qed

text \<open>The scan visits every device once, whatever the cursor: it finds a job exactly when some
  device is eligible, and then it takes the first job of such a device.\<close>

lemma popLocked_None: "popLocked p = None \<longleftrightarrow> (\<forall>d\<in>set (p_deviceOrder p). \<not> eligible p d)"
proof -
  let ?n = "length (p_deviceOrder p)"
  have "popLocked p = None \<longleftrightarrow> (\<forall>k<?n. \<not> eligible p (p_deviceOrder p ! ((p_cursor p + k) mod ?n)))"
    by (simp add: popLocked_def Let_def option.case_eq_if find_None_iff)
  also have "\<dots> \<longleftrightarrow> (\<forall>i<?n. \<not> eligible p (p_deviceOrder p ! i))"
    by (metis rotation_covers mod_less_divisor gr_implies_not0 not_gr_zero)
  finally show ?thesis by (simp add: all_set_conv_all_nth)
qed

lemma popLocked_Some:
  assumes "popLocked p = Some (pj, p')"
  obtains idx where "idx < length (p_deviceOrder p)" "eligible p (p_deviceOrder p ! idx)"
    "takeJob idx p = (pj, p')"
  using assms
  by (auto simp: popLocked_def Let_def find_Some_iff split: option.splits)
    (metis mod_less_divisor gr_implies_not0 not_gr_zero)

section \<open>The invariant of the system\<close>

fun held :: "worker \<Rightarrow> pendingJob option" where
  "held (WPopped pj) = Some pj"
| "held (WRunning pj) = Some pj"
| "held _ = None"

fun poppedIds :: "worker \<Rightarrow> nat list" where
  "poppedIds (WPopped pj) = [pj_id pj]"
| "poppedIds _ = []"

definition busyFor :: "string \<Rightarrow> worker \<Rightarrow> bool" where
  "busyFor d w \<longleftrightarrow> map_option jobDev (held w) = Some d"

text \<open>The in-flight count of a device is the number of workers that hold one of its jobs.\<close>

definition counts_ok :: "PoolSys \<Rightarrow> bool" where
  "counts_ok s \<longleftrightarrow> pool_ok (ps_pool s)
   \<and> (\<forall>d. unat (p_inflightDev (ps_pool s) d) = length (filter (busyFor d) (ps_workers s)))"

text \<open>Every accepted job is queued, popped, started or drained: each exactly once.\<close>

definition jobs_ok :: "PoolSys \<Rightarrow> bool" where
  "jobs_ok s \<longleftrightarrow> distinct (ps_accepted s)
   \<and> mset (ps_accepted s) = mset (map pj_id (queued (ps_pool s)))
       + mset (concat (map poppedIds (ps_workers s))) + mset (ps_started s) + mset (ps_cancelled s)"

definition active :: "worker \<Rightarrow> bool" where
  "active w \<longleftrightarrow> w = WLocking \<or> held w \<noteq> None"

text \<open>
  A job that could run is not forgotten: a wake-up is on its way, or waits in the buffer for a
  worker before its \<^verbatim>\<open>select\<close>, or a worker is active.
\<close>

definition looked_after :: "PoolSys \<Rightarrow> bool" where
  "looked_after s \<longleftrightarrow> 0 < ps_wakers s \<or> list_ex active (ps_workers s)
     \<or> ps_wake s \<and> WUnlocked \<in> set (ps_workers s)"

definition awake_ok :: "PoolSys \<Rightarrow> bool" where
  "awake_ok s \<longleftrightarrow> (ps_stop s \<longleftrightarrow> p_closed (ps_pool s)) \<and> ps_workers s \<noteq> []
   \<and> (WExited \<in> set (ps_workers s) \<longrightarrow> p_closed (ps_pool s))
   \<and> (popLocked (ps_pool s) \<noteq> None \<longrightarrow> looked_after s)"

lemma queued_Nil [simp]: "queued (p\<lparr>p_queues := []\<rparr>) = []" "queueOf (p\<lparr>p_queues := []\<rparr>) d = []"
  by (simp_all add: queued_def queueOf_def)

lemma queued_cong: "p_queues p' = p_queues p \<Longrightarrow> queued p' = queued p \<and> queueOf p' = queueOf p"
  by (auto simp: queued_def queueOf_def)

lemma drained_ok:
  assumes "pool_ok p" and "p_queues p' = []" and "p_deviceOrder p' = []" and "p_cfg p' = p_cfg p"
    and "p_inflightDev p' = p_inflightDev p" and "p_globalQueued p' = p_globalQueued p - int (length (queued p))"
  shows "pool_ok p' \<and> queued p' = [] \<and> popLocked p' = None"
proof -
  have q: "queued p' = []" "queueOf p' d = []" for d using assms(2) by (simp_all add: queued_def queueOf_def)
  have "unat (p_inflightDev p d) \<le> unat (cfg_PerDeviceQueued (p_cfg p))" for d
    using assms(1) by (auto simp: pool_ok_def intro: add_leD1)
  then show ?thesis using assms q by (simp add: pool_ok_def popLocked_def)
qed

lemma scanStuck_effect:
  assumes "pool_ok p" and "scanStuck now p = (drained, p')"
  shows "(drained = [] \<and> p' = p) \<or>
    (drained = queued p \<and> pool_ok p' \<and> queued p' = [] \<and> popLocked p' = None
     \<and> p_inflightDev p' = p_inflightDev p \<and> p_closed p' = p_closed p \<and> p_rejecting p' \<and> p_cfg p' = p_cfg p)"
proof (cases "\<not> list_ex (isStuck now p) (p_inflightJobs p) \<or> p_rejecting p")
  case True
  with assms(2) show ?thesis by (simp add: scanStuck_def)
next
  case False
  with assms(2) have "drained = queued p" "p_queues p' = []" "p_deviceOrder p' = []" "p_cfg p' = p_cfg p"
    "p_inflightDev p' = p_inflightDev p" "p_globalQueued p' = p_globalQueued p - int (length (queued p))"
    "p_closed p' = p_closed p" "p_rejecting p'"
    by (auto simp: scanStuck_def drainLocked_def Let_def queued_def)
  with drained_ok [OF assms(1)] show ?thesis by blast
qed

lemma Close_effect:
  assumes "pool_ok p" and "Pool_Close p = (drained, p')"
  shows "drained = queued p \<and> pool_ok p' \<and> queued p' = [] \<and> popLocked p' = None
     \<and> p_inflightDev p' = p_inflightDev p \<and> p_closed p' \<and> p_rejecting p' = p_rejecting p \<and> p_cfg p' = p_cfg p"
proof -
  from assms(2) have "drained = queued p" "p_queues p' = []" "p_deviceOrder p' = []" "p_cfg p' = p_cfg p"
    "p_inflightDev p' = p_inflightDev p" "p_globalQueued p' = p_globalQueued p - int (length (queued p))"
    "p_closed p'" "p_rejecting p' = p_rejecting p"
    by (auto simp: Pool_Close_def drainLocked_def Let_def queued_def)
  with drained_ok [OF assms(1)] show ?thesis by blast
qed

lemma pool_ok_register: "pool_ok p \<Longrightarrow> pool_ok (p\<lparr>p_inflightJobs := js\<rparr>)"
  by (simp add: pool_ok_def queued_def queueOf_def)

lemma pool_ok_finish:
  assumes "pool_ok p" and "0 < p_inflightDev p (jobDev pj)"
  shows "pool_ok (finishJob pj p)"
proof -
  let ?w = "p_inflightDev p (jobDev pj)"
  have u: "unat (?w - 1) = unat ?w - 1" using assms(2) by (simp add: unat_minus_one word_gt_0)
  have "?w - 1 \<le> ?w" by (simp add: word_le_nat_alt u)
  moreover have "?w \<le> cfg_PerDeviceInFlight (p_cfg p)" using assms(1) by (simp add: pool_ok_def)
  ultimately have "?w - 1 \<le> cfg_PerDeviceInFlight (p_cfg p)" by (rule order_trans)
  moreover have "unat (?w - 1) + length (queueOf p (jobDev pj)) \<le> unat (cfg_PerDeviceQueued (p_cfg p))"
  proof -
    have "unat ?w + length (queueOf p (jobDev pj)) \<le> unat (cfg_PerDeviceQueued (p_cfg p))"
      using assms(1) by (simp add: pool_ok_def)
    then show ?thesis using u by linarith
  qed
  ultimately show ?thesis
    using assms(1) queued_cong [of "finishJob pj p" p] by (simp add: pool_ok_def finishJob_def Let_def)
qed

lemma counts_ok_step: "pool_step s s' \<Longrightarrow> counts_ok s \<Longrightarrow> counts_ok s'"
proof (induction rule: pool_step.induct)
  case (submit a s job p)
  then show ?case using pool_ok_Submit [of "ps_pool s" a job p] Pool_Submit_accepts [of a job "ps_pool s" p]
    by (simp add: counts_ok_def)
next
  case (pop_job i s pj p)
  obtain idx where idx: "idx < length (p_deviceOrder (ps_pool s))"
      "eligible (ps_pool s) (p_deviceOrder (ps_pool s) ! idx)" "takeJob idx (ps_pool s) = (pj, p)"
    using popLocked_Some [OF pop_job(3)] .
  let ?d = "p_deviceOrder (ps_pool s) ! idx"
  have ok: "pool_ok (ps_pool s)" using pop_job by (simp add: counts_ok_def)
  note T = pool_ok_takeJob [OF ok idx(2,3)] and E = takeJob_effect [OF idx(3)]
  have "p_inflightDev (ps_pool s) ?d < cfg_PerDeviceInFlight (p_cfg (ps_pool s))"
    using idx(2) by (auto simp: eligible_def)
  then have u: "unat (p_inflightDev (ps_pool s) ?d + 1) = Suc (unat (p_inflightDev (ps_pool s) ?d))"
    by (metis unat_plus_one word_n1_ge not_le)
  have "length (filter (busyFor d) ((ps_workers s)[i := WPopped pj]))
      = length (filter (busyFor d) (ps_workers s)) + (if d = ?d then 1 else 0)" for d
    using length_filter_update [OF pop_job(1), of "busyFor d" "WPopped pj"] pop_job(2) T
    by (auto simp: busyFor_def)
  with T E u pop_job.prems show ?case by (auto simp: counts_ok_def)
next
  case (finish i s pj)
  let ?d = "jobDev pj"
  have l: "length (filter (busyFor d) ((ps_workers s)[i := WLocking])) + (if d = ?d then 1 else 0)
      = length (filter (busyFor d) (ps_workers s))" for d
    using length_filter_update [OF finish(1), of "busyFor d" WLocking] finish(2)
    by (auto simp: busyFor_def)
  have n: "unat (p_inflightDev (ps_pool s) d) = length (filter (busyFor d) (ps_workers s))" for d
    using finish.prems by (simp add: counts_ok_def)
  have "0 < unat (p_inflightDev (ps_pool s) ?d)" using l [of ?d] n [of ?d]
    by (simp del: length_greater_0_conv)
  then have pos: "0 < p_inflightDev (ps_pool s) ?d" by (simp add: word_less_nat_alt)
  have "unat (p_inflightDev (ps_pool s) ?d - 1) = unat (p_inflightDev (ps_pool s) ?d) - 1"
    using pos by (simp add: unat_minus_one word_gt_0)
  then have "unat (p_inflightDev (finishJob pj (ps_pool s)) d)
      = length (filter (busyFor d) ((ps_workers s)[i := WLocking]))" for d
    using l [of d] n [of d] by (auto simp: finishJob_def Let_def split: if_splits)
  then show ?case using pool_ok_finish [of "ps_pool s" pj, OF _ pos] finish.prems by (simp add: counts_ok_def)
next
  case (start i s pj now pj' p)
  have "length (filter (busyFor d) ((ps_workers s)[i := WRunning pj'])) = length (filter (busyFor d) (ps_workers s))" for d
    using length_filter_update [OF start(1), of "busyFor d" "WRunning pj'"] start(2,3)
    by (auto simp: busyFor_def registerJob_def Let_def split: if_splits)
  with start show ?case by (auto simp: counts_ok_def registerJob_def Let_def pool_ok_register)
next
  case (scan now s drained p)
  then show ?case using scanStuck_effect [of "ps_pool s" now drained p] by (auto simp: counts_ok_def)
next
  case (close s drained p)
  then show ?case using Close_effect [of "ps_pool s" drained p] by (auto simp: counts_ok_def)
qed (auto simp: counts_ok_def length_filter_update_same busyFor_def)

lemma poppedIds_update:
  "i < length ws \<Longrightarrow> mset (concat (map poppedIds (ws[i := w]))) + mset (poppedIds (ws ! i))
     = mset (concat (map poppedIds ws)) + mset (poppedIds w)"
  by (rule mset_concat_update)

lemma poppedIds_same:
  "i < length ws \<Longrightarrow> poppedIds (ws ! i) = [] \<Longrightarrow> poppedIds w = [] \<Longrightarrow>
   mset (concat (map poppedIds (ws[i := w]))) = mset (concat (map poppedIds ws))"
  using poppedIds_update [of i ws w] by simp

lemma jobs_ok_step: "pool_step s s' \<Longrightarrow> counts_ok s \<Longrightarrow> jobs_ok s \<Longrightarrow> jobs_ok s'"
proof (induction rule: pool_step.induct)
  case (submit a s job p)
  note A = Pool_Submit_accepts [OF submit(2)]
  let ?pj = "\<lparr>pj_id = a, pj_job = job, pj_startedAt = zeroTime, pj_cancelled = False\<rparr>"
  have "p_queues p = AList.update (job_DeviceID job) (queueOf (ps_pool s) (job_DeviceID job) @ [?pj])
      (p_queues (ps_pool s))" using A by simp
  from mset_queued_update [OF this] have "mset (queued p) = add_mset ?pj (mset (queued (ps_pool s)))" by simp
  then have "mset (map pj_id (queued p)) = add_mset a (mset (map pj_id (queued (ps_pool s))))"
    by (metis (no_types, lifting) image_mset_add_mset mset_map pendingJob.select_convs(1))
  with submit show ?case by (simp add: jobs_ok_def)
next
  case (pop_job i s pj p)
  obtain idx where idx: "eligible (ps_pool s) (p_deviceOrder (ps_pool s) ! idx)" "takeJob idx (ps_pool s) = (pj, p)"
    using popLocked_Some [OF pop_job(3)] by blast
  have "pool_ok (ps_pool s)" using pop_job by (simp add: counts_ok_def)
  from pool_ok_takeJob [OF this idx]
  have "mset (map pj_id (queued (ps_pool s))) = add_mset (pj_id pj) (mset (map pj_id (queued p)))" by simp
  then show ?case using pop_job poppedIds_update [OF pop_job(1), of "WPopped pj"] by (simp add: jobs_ok_def)
next
  case (start i s pj now pj' p)
  have "queued p = queued (ps_pool s)" using start(3) by (auto simp: registerJob_def Let_def queued_def)
  then show ?case using start poppedIds_update [OF start(1), of "WRunning pj'"] by (simp add: jobs_ok_def)
next
  case (finish i s pj)
  have "queued (finishJob pj (ps_pool s)) = queued (ps_pool s)" by (simp add: finishJob_def Let_def queued_def)
  then show ?case using finish poppedIds_same [OF finish(1), of WLocking] by (simp add: jobs_ok_def)
next
  case (scan now s drained p)
  then show ?case using scanStuck_effect [of "ps_pool s" now drained p]
    by (auto simp: jobs_ok_def counts_ok_def)
next
  case (close s drained p)
  then show ?case using Close_effect [of "ps_pool s" drained p] by (auto simp: jobs_ok_def counts_ok_def)
next
  case (recv_stop i s)
  then have "poppedIds (ps_workers s ! i) = []" by auto
  with recv_stop show ?case by (simp add: jobs_ok_def poppedIds_same)
qed (simp_all add: jobs_ok_def poppedIds_same)

lemma pool_closed_no_job: "pool_ok p \<Longrightarrow> p_closed p \<Longrightarrow> popLocked p = None"
proof -
  assume ok: "pool_ok p" and c: "p_closed p"
  have "queueOf p d = []" for d
    using ok c by (cases "map_of (p_queues p) d") (auto simp: pool_ok_def queued_def queueOf_def dest!: map_of_SomeD)
  then show ?thesis by (simp add: popLocked_None eligible_def)
qed

lemma list_ex_length_filter: "list_ex P xs \<longleftrightarrow> 0 < length (filter P xs)"
  by (auto simp: list_ex_iff filter_empty_conv)

lemma active_update: "i < length ws \<Longrightarrow> active w \<Longrightarrow> list_ex active (ws[i := w])"
  by (meson list_ex_iff set_update_memI)

lemma exited_update: "WExited \<in> set (ws[i := w]) \<Longrightarrow> w = WExited \<or> WExited \<in> set ws"
  using set_update_subset_insert by fastforce

lemma unlocked_update: "WUnlocked \<in> set ws \<Longrightarrow> ws ! i \<noteq> WUnlocked \<Longrightarrow> WUnlocked \<in> set (ws[i := w])"
  by (metis in_set_conv_nth length_list_update nth_list_update_neq)

lemma awake_intro:
  assumes "awake_ok s" and "counts_ok s" and "p_closed (ps_pool s') = p_closed (ps_pool s)"
    and "ps_stop s' = ps_stop s" and "ps_workers s' \<noteq> []"
    and "WExited \<in> set (ps_workers s') \<Longrightarrow> WExited \<in> set (ps_workers s)"
    and "popLocked (ps_pool s') \<noteq> None \<Longrightarrow> looked_after s'"
  shows "awake_ok s'"
  using assms by (auto simp: awake_ok_def)

lemma awake_ok_worker:
  assumes "awake_ok s" and "counts_ok s" and "i < length (ps_workers s)" and "active w"
    and "p_closed (ps_pool s') = p_closed (ps_pool s)" and "ps_stop s' = ps_stop s"
    and "ps_workers s' = (ps_workers s)[i := w]"
  shows "awake_ok s'"
proof (rule awake_intro [OF assms(1,2,5,6)])
  show "ps_workers s' \<noteq> []" using assms(3,7) by auto
  show "WExited \<in> set (ps_workers s') \<Longrightarrow> WExited \<in> set (ps_workers s)"
    using assms(4,7) exited_update [of "ps_workers s" i w] by (auto simp: active_def)
  show "looked_after s'" using active_update [OF assms(3,4)] assms(7) by (simp add: looked_after_def)
qed

lemma awake_ok_step: "pool_step s s' \<Longrightarrow> counts_ok s \<Longrightarrow> awake_ok s \<Longrightarrow> awake_ok s'"
proof (induction rule: pool_step.induct)
  case (submit a s job p)
  then show ?case using Pool_Submit_accepts [OF submit(2)] by (simp add: awake_ok_def looked_after_def)
next
  case (send_wake s n)
  have "looked_after (s\<lparr>ps_wakers := n, ps_wake := True\<rparr>)" if "popLocked (ps_pool s) \<noteq> None"
  proof -
    have "\<not> p_closed (ps_pool s)" using send_wake that pool_closed_no_job by (auto simp: counts_ok_def)
    with send_wake have e: "WExited \<notin> set (ps_workers s)" "ps_workers s \<noteq> []" by (auto simp: awake_ok_def)
    then obtain w where w: "w \<in> set (ps_workers s)" and k: "w \<noteq> WExited" "w \<noteq> WWaiting"
      using send_wake(2) by (metis list.set_sel(1))
    have "active w \<or> w = WUnlocked" using k by (cases w rule: worker.exhaust) (auto simp: active_def)
    with w show ?thesis by (auto simp: looked_after_def list_ex_iff)
  qed
  with send_wake show ?case by (simp add: awake_ok_def)
next
  case (hand_wake s n i)
  show ?case by (rule awake_ok_worker [OF hand_wake.prems(2,1) hand_wake(2)]) (auto simp: active_def)
next
  case (pop_job i s pj p)
  obtain idx where "takeJob idx (ps_pool s) = (pj, p)" using popLocked_Some [OF pop_job(3)] by blast
  then have "p_closed p = p_closed (ps_pool s)" by (rule takeJob_effect)
  then show ?case by (intro awake_ok_worker [OF pop_job.prems(2,1) pop_job(1)]) (auto simp: active_def)
next
  case (pop_empty i s)
  then show ?case by (auto simp: awake_ok_def dest: exited_update)
next
  case (park i s)
  have "looked_after (s\<lparr>ps_workers := (ps_workers s)[i := WWaiting]\<rparr>)" if "looked_after s"
    using that park(1,2,3) length_filter_update_same [of i "ps_workers s" active WWaiting]
    by (auto simp: looked_after_def active_def list_ex_length_filter)
  with park show ?case by (auto simp: awake_ok_def dest: exited_update)
next
  case (recv_wake i s)
  show ?case by (rule awake_ok_worker [OF recv_wake.prems(2,1) recv_wake(1)]) (auto simp: active_def)
next
  case (recv_stop i s)
  then show ?case using pool_closed_no_job by (auto simp: awake_ok_def counts_ok_def)
next
  case (start i s pj now pj' p)
  show ?case by (rule awake_ok_worker [OF start.prems(2,1) start(1)])
      (use start(3) in \<open>auto simp: active_def registerJob_def Let_def\<close>)
next
  case (finish i s pj)
  show ?case by (rule awake_ok_worker [OF finish.prems(2,1) finish(1)])
      (auto simp: active_def finishJob_def Let_def)
next
  case (scan now s drained p)
  then show ?case using scanStuck_effect [of "ps_pool s" now drained p]
    by (auto simp: awake_ok_def counts_ok_def looked_after_def)
next
  case (close s drained p)
  then show ?case using Close_effect [of "ps_pool s" drained p] by (auto simp: awake_ok_def counts_ok_def)
qed (auto simp: awake_ok_def)

text \<open>Reachable states of a pool started under a valid configuration.\<close>

definition pool_reachable :: "Config \<Rightarrow> PoolSys \<Rightarrow> bool" where
  "pool_reachable cfg s \<longleftrightarrow> (\<exists>s0. Pool_New cfg = Inr s0 \<and> pool_step\<^sup>*\<^sup>* s0 s)"

definition sys_ok :: "Config \<Rightarrow> PoolSys \<Rightarrow> bool" where
  "sys_ok cfg s \<longleftrightarrow> counts_ok s \<and> jobs_ok s \<and> awake_ok s \<and> p_cfg (ps_pool s) = cfg
   \<and> length (ps_workers s) = unat (cfg_PoolSize cfg)"

lemma static_step: "pool_step s s' \<Longrightarrow> p_cfg (ps_pool s') = p_cfg (ps_pool s) \<and> length (ps_workers s') = length (ps_workers s)"
proof (induction rule: pool_step.induct)
  case (submit a s job p)
  then show ?case using Pool_Submit_accepts [OF submit(2)] by simp
next
  case (pop_job i s pj p)
  obtain idx where "takeJob idx (ps_pool s) = (pj, p)" using popLocked_Some [OF pop_job(3)] by blast
  then show ?case using takeJob_effect(4) by auto
qed (auto simp: registerJob_def finishJob_def scanStuck_def Pool_Close_def drainLocked_def Let_def split: if_splits)

lemma sys_ok_new:
  assumes "Pool_New cfg = Inr s"
  shows "sys_ok cfg s"
proof -
  have s: "s = \<lparr>ps_pool = newPool cfg, ps_workers = replicate (unat (cfg_PoolSize cfg)) WLocking,
            ps_wake = False, ps_stop = False, ps_wakers = 0, ps_accepted = [], ps_started = [],
            ps_cancelled = []\<rparr>"
    using assms by (auto simp: Pool_New_def rbind_Inr)
  have "cfg_PoolSize cfg \<noteq> 0" using assms by (auto simp: Pool_New_def rbind_Inr Config_Validate_def)
  moreover have "concat (map poppedIds (replicate n WLocking)) = []" for n by (induction n) auto
  ultimately show ?thesis
    by (simp add: s sys_ok_def counts_ok_def jobs_ok_def awake_ok_def pool_ok_def newPool_def queued_def
        queueOf_def busyFor_def popLocked_def unat_gt_0)
qed

lemma sys_ok_reachable: "pool_reachable cfg s \<Longrightarrow> sys_ok cfg s"
proof -
  have "pool_step\<^sup>*\<^sup>* s0 s \<Longrightarrow> sys_ok cfg s0 \<Longrightarrow> sys_ok cfg s" for s0
    by (induction rule: rtranclp_induct)
      (auto simp: sys_ok_def counts_ok_step jobs_ok_step awake_ok_step static_step)
  then show "pool_reachable cfg s \<Longrightarrow> ?thesis" by (auto simp: pool_reachable_def sys_ok_new)
qed

lemma rejecting_step: "pool_step s s' \<Longrightarrow> p_rejecting (ps_pool s) \<Longrightarrow> p_rejecting (ps_pool s')"
proof (induction rule: pool_step.induct)
  case (submit a s job p)
  then show ?case using Pool_Submit_accepts [OF submit(2)] by simp
next
  case (pop_job i s pj p)
  obtain idx where "takeJob idx (ps_pool s) = (pj, p)" using popLocked_Some [OF pop_job(3)] by blast
  then show ?case using pop_job takeJob_effect(8) by auto
qed (auto simp: registerJob_def finishJob_def scanStuck_def Pool_Close_def drainLocked_def Let_def split: if_splits)

lemma rejecting_run: "pool_step\<^sup>*\<^sup>* s s' \<Longrightarrow> p_rejecting (ps_pool s) \<Longrightarrow> p_rejecting (ps_pool s')"
  by (induction rule: rtranclp_induct) (auto intro: rejecting_step)

section \<open>A concrete run\<close>

text \<open>
  Four workers find the fresh pool empty; two devices submit one job each before any worker has
  reached its \<^verbatim>\<open>select\<close>, so that the second wake-up finds the buffer full; one worker takes the
  token, pops and starts the first job, the other three park.
\<close>

definition demoJob :: "nat \<Rightarrow> string \<Rightarrow> pendingJob" where
  "demoJob a d = \<lparr>pj_id = a, pj_job = \<lparr>job_DeviceID = d, job_Work = True, job_OnCancel = True\<rparr>,
     pj_startedAt = zeroTime, pj_cancelled = False\<rparr>"

definition demoPool :: "(string \<times> pendingJob list) list \<Rightarrow> string list \<Rightarrow> (string \<Rightarrow> u32)
    \<Rightarrow> int \<Rightarrow> pendingJob list \<Rightarrow> Pool" where
  "demoPool qs order inflight n jobs =
     (newPool defaultFilePoolConfig)\<lparr>p_queues := qs, p_deviceOrder := order, p_inflightDev := inflight,
        p_globalQueued := n, p_inflightJobs := jobs\<rparr>"

definition demoSys :: "Pool \<Rightarrow> worker list \<Rightarrow> bool \<Rightarrow> nat \<Rightarrow> nat list \<Rightarrow> nat list \<Rightarrow> PoolSys" where
  "demoSys p ws wake wakers accepted started =
     \<lparr>ps_pool = p, ps_workers = ws, ps_wake = wake, ps_stop = False, ps_wakers = wakers,
      ps_accepted = accepted, ps_started = started, ps_cancelled = []\<rparr>"

definition demoEnd :: PoolSys where
  "demoEnd = demoSys
     (demoPool [(''a'', []), (''b'', [demoJob 2 ''b''])] [''b''] ((\<lambda>_. 0)(''a'' := 1)) 1
        [(demoJob 1 ''a'')\<lparr>pj_startedAt := 100\<rparr>])
     [WRunning ((demoJob 1 ''a'')\<lparr>pj_startedAt := 100\<rparr>), WWaiting, WWaiting, WWaiting] False 0 [2, 1] [1]"

lemmas demo_pool_defs = demoPool_def demoSys_def demoJob_def newPool_def defaultFilePoolConfig_def

lemma demo_new:
  "Pool_New defaultFilePoolConfig
     = Inr (demoSys (demoPool [] [] (\<lambda>_. 0) 0 []) [WLocking, WLocking, WLocking, WLocking] False 0 [] [])"
proof -
  have r: "replicate 4 WLocking = [WLocking, WLocking, WLocking, WLocking]" by (simp add: numeral_eq_Suc)
  show ?thesis
    by (simp add: Pool_New_def Config_Validate_def FileReadHealthConfig_Validate_def subChecked_def
        demo_pool_defs r word_le_nat_alt)
qed

lemma demo_submit_a:
  "Pool_Submit 1 \<lparr>job_DeviceID = ''a'', job_Work = True, job_OnCancel = True\<rparr> (demoPool [] [] (\<lambda>_. 0) 0 [])
     = (Inr (), demoPool [(''a'', [demoJob 1 ''a''])] [''a''] (\<lambda>_. 0) 1 [])"
  by (simp add: Pool_Submit_def Let_def queueOf_def Health_IsAccepting_def NewFileReadHealthMachine_def
      demo_pool_defs)

lemma demo_submit_b:
  "Pool_Submit 2 \<lparr>job_DeviceID = ''b'', job_Work = True, job_OnCancel = True\<rparr>
      (demoPool [(''a'', [demoJob 1 ''a''])] [''a''] (\<lambda>_. 0) 1 [])
     = (Inr (), demoPool [(''a'', [demoJob 1 ''a'']), (''b'', [demoJob 2 ''b''])] [''a'', ''b''] (\<lambda>_. 0) 2 [])"
  by (simp add: Pool_Submit_def Let_def queueOf_def Health_IsAccepting_def NewFileReadHealthMachine_def
      demo_pool_defs)

lemma demo_pop_none: "popLocked (demoPool [] [] (\<lambda>_. 0) 0 []) = None"
  by (simp add: popLocked_def demo_pool_defs)

lemma demo_pop_a:
  "popLocked (demoPool [(''a'', [demoJob 1 ''a'']), (''b'', [demoJob 2 ''b''])] [''a'', ''b''] (\<lambda>_. 0) 2 [])
     = Some (demoJob 1 ''a'', (demoPool [(''a'', []), (''b'', [demoJob 2 ''b''])] [''b'']
          ((\<lambda>_. 0)(''a'' := 1)) 1 []))"
  by (simp add: popLocked_def Let_def eligible_def takeJob_def removeDeviceLocked_def queueOf_def
      demo_pool_defs upt_rec)

lemma demo_worker_steps:
  "i < length ws \<Longrightarrow> ws ! i = WLocking \<Longrightarrow> popLocked p = None \<Longrightarrow> \<not> p_closed p \<Longrightarrow>
   pool_step (demoSys p ws wk n acc st) (demoSys p (ws[i := WUnlocked]) wk n acc st)"
  "i < length ws \<Longrightarrow> ws ! i = WUnlocked \<Longrightarrow>
   pool_step (demoSys p ws False n acc st) (demoSys p (ws[i := WWaiting]) False n acc st)"
  "i < length ws \<Longrightarrow> ws ! i = WUnlocked \<Longrightarrow>
   pool_step (demoSys p ws True n acc st) (demoSys p (ws[i := WLocking]) False n acc st)"
  "i < length ws \<Longrightarrow> ws ! i = WLocking \<Longrightarrow> popLocked p = Some (pj, p') \<Longrightarrow>
   pool_step (demoSys p ws wk n acc st) (demoSys p' (ws[i := WPopped pj]) wk n acc st)"
  "i < length ws \<Longrightarrow> ws ! i = WPopped pj \<Longrightarrow> registerJob now pj p = (pj', p') \<Longrightarrow>
   pool_step (demoSys p ws wk n acc st) (demoSys p' (ws[i := WRunning pj']) wk n acc (pj_id pj # st))"
  "a \<notin> set acc \<Longrightarrow> Pool_Submit a job p = (Inr (), p') \<Longrightarrow>
   pool_step (demoSys p ws wk n acc st) (demoSys p' ws wk (Suc n) (a # acc) st)"
  "WWaiting \<notin> set ws \<Longrightarrow> pool_step (demoSys p ws wk (Suc n) acc st) (demoSys p ws True n acc st)"
  using pop_empty [of i "demoSys p ws wk n acc st"] park [of i "demoSys p ws False n acc st"]
    recv_wake [of i "demoSys p ws True n acc st"] pop_job [of i "demoSys p ws wk n acc st" pj p']
    start [of i "demoSys p ws wk n acc st" pj now pj' p']
    submit [of a "demoSys p ws wk n acc st" job p'] send_wake [of "demoSys p ws wk (Suc n) acc st" n]
  by (simp_all add: demoSys_def)

lemma demo_run: "pool_reachable defaultFilePoolConfig demoEnd"
proof -
  let ?p0 = "demoPool [] [] (\<lambda>_. 0) 0 []"
  let ?p1 = "demoPool [(''a'', [demoJob 1 ''a''])] [''a''] (\<lambda>_. 0) 1 []"
  let ?p2 = "demoPool [(''a'', [demoJob 1 ''a'']), (''b'', [demoJob 2 ''b''])] [''a'', ''b''] (\<lambda>_. 0) 2 []"
  let ?p3 = "demoPool [(''a'', []), (''b'', [demoJob 2 ''b''])] [''b''] ((\<lambda>_. 0)(''a'' := 1)) 1 []"
  let ?run = "(demoJob 1 ''a'')\<lparr>pj_startedAt := 100\<rparr>"
  let ?p4 = "demoPool [(''a'', []), (''b'', [demoJob 2 ''b''])] [''b''] ((\<lambda>_. 0)(''a'' := 1)) 1 [?run]"
  let ?u = WUnlocked and ?l = WLocking and ?w = WWaiting
  have c: "\<not> p_closed ?p0" by (simp add: demo_pool_defs)
  have r: "registerJob 100 (demoJob 1 ''a'') ?p3 = (?run, ?p4)"
    by (simp add: registerJob_def Let_def demo_pool_defs)
  have r1: "pool_step\<^sup>*\<^sup>* (demoSys ?p0 [?l, ?l, ?l, ?l] False 0 [] []) (demoSys ?p0 [?u, ?u, ?u, ?u] False 0 [] [])"
    using demo_worker_steps(1) [of 0 "[?l, ?l, ?l, ?l]" ?p0 False 0 "[]" "[]", OF _ _ demo_pop_none c]
      demo_worker_steps(1) [of 1 "[?u, ?l, ?l, ?l]" ?p0 False 0 "[]" "[]", OF _ _ demo_pop_none c]
      demo_worker_steps(1) [of 2 "[?u, ?u, ?l, ?l]" ?p0 False 0 "[]" "[]", OF _ _ demo_pop_none c]
      demo_worker_steps(1) [of 3 "[?u, ?u, ?u, ?l]" ?p0 False 0 "[]" "[]", OF _ _ demo_pop_none c]
    by (simp add: converse_rtranclp_into_rtranclp)
  have r2: "pool_step\<^sup>*\<^sup>* (demoSys ?p0 [?u, ?u, ?u, ?u] False 0 [] []) (demoSys ?p2 [?u, ?u, ?u, ?u] True 0 [2, 1] [])"
    using demo_worker_steps(6) [OF _ demo_submit_a, of "[]" "[?u, ?u, ?u, ?u]" False 0 "[]"]
      demo_worker_steps(6) [OF _ demo_submit_b, of "[1]" "[?u, ?u, ?u, ?u]" False 1 "[]"]
      demo_worker_steps(7) [of "[?u, ?u, ?u, ?u]" ?p2 False 1 "[2, 1]" "[]"]
      demo_worker_steps(7) [of "[?u, ?u, ?u, ?u]" ?p2 True 0 "[2, 1]" "[]"]
    by (simp add: converse_rtranclp_into_rtranclp)
  have r3: "pool_step\<^sup>*\<^sup>* (demoSys ?p2 [?u, ?u, ?u, ?u] True 0 [2, 1] [])
      (demoSys ?p4 [WRunning ?run, ?u, ?u, ?u] False 0 [2, 1] [1])"
    using demo_worker_steps(3) [of 0 "[?u, ?u, ?u, ?u]" ?p2 0 "[2, 1]" "[]"]
      demo_worker_steps(4) [OF _ _ demo_pop_a, of 0 "[?l, ?u, ?u, ?u]" False 0 "[2, 1]" "[]"]
      demo_worker_steps(5) [OF _ _ r, of 0 "[WPopped (demoJob 1 ''a''), ?u, ?u, ?u]" False 0 "[2, 1]" "[]"]
    by (simp add: converse_rtranclp_into_rtranclp) (simp add: demoJob_def)
  have r4: "pool_step\<^sup>*\<^sup>* (demoSys ?p4 [WRunning ?run, ?u, ?u, ?u] False 0 [2, 1] [1]) demoEnd"
    using demo_worker_steps(2) [of 1 "[WRunning ?run, ?u, ?u, ?u]" ?p4 0 "[2, 1]" "[1]"]
      demo_worker_steps(2) [of 2 "[WRunning ?run, ?w, ?u, ?u]" ?p4 0 "[2, 1]" "[1]"]
      demo_worker_steps(2) [of 3 "[WRunning ?run, ?w, ?w, ?u]" ?p4 0 "[2, 1]" "[1]"]
    unfolding demoEnd_def by (simp add: converse_rtranclp_into_rtranclp)
  note run = rtranclp_trans [OF rtranclp_trans [OF r1 r2] rtranclp_trans [OF r3 r4]]
  show ?thesis unfolding pool_reachable_def by (rule exI conjI demo_new run)+
qed

section \<open>Properties\<close>

lemma reachable_slot_reserved:
  "pool_reachable cfg s \<Longrightarrow> cfg_PerDeviceInFlight cfg < cfg_PoolSize cfg"
  by (auto simp: pool_reachable_def Pool_New_def rbind_Inr Config_Validate_def split: if_splits)

text \<open>
  C16: in every reachable state of the pool the limits hold: the workers busy for one device are at
  most the per-device limit and fewer than the pool, so that one device never holds every worker;
  its running and queued jobs together stay within its queue limit; the global counter is the
  number of queued jobs and stays within the global limit.
\<close>

theorem pool_bounded:
  assumes "pool_reachable cfg s"
  shows "length (filter (busyFor d) (ps_workers s)) \<le> unat (cfg_PerDeviceInFlight cfg)
    \<and> length (filter (busyFor d) (ps_workers s)) < length (ps_workers s)
    \<and> length (filter (busyFor d) (ps_workers s)) + length (queueOf (ps_pool s) d)
        \<le> unat (cfg_PerDeviceQueued cfg)
    \<and> p_globalQueued (ps_pool s) = int (length (queued (ps_pool s)))
    \<and> length (queued (ps_pool s)) \<le> unat (cfg_GlobalQueued cfg)"
proof -
  have ok: "counts_ok s" "p_cfg (ps_pool s) = cfg" "length (ps_workers s) = unat (cfg_PoolSize cfg)"
    using sys_ok_reachable [OF assms] by (simp_all add: sys_ok_def)
  have n: "length (filter (busyFor d) (ps_workers s)) = unat (p_inflightDev (ps_pool s) d)"
    using ok by (simp add: counts_ok_def)
  have P: "p_inflightDev (ps_pool s) d \<le> cfg_PerDeviceInFlight cfg"
    "unat (p_inflightDev (ps_pool s) d) + length (queueOf (ps_pool s) d) \<le> unat (cfg_PerDeviceQueued cfg)"
    "p_globalQueued (ps_pool s) = int (length (queued (ps_pool s)))"
    "p_globalQueued (ps_pool s) \<le> uint (cfg_GlobalQueued cfg)"
    using ok(1) unfolding counts_ok_def pool_ok_def ok(2) by blast+
  from P(1) have "unat (p_inflightDev (ps_pool s) d) \<le> unat (cfg_PerDeviceInFlight cfg)"
    by (simp add: word_le_nat_alt)
  moreover have "unat (cfg_PerDeviceInFlight cfg) < unat (cfg_PoolSize cfg)"
    using reachable_slot_reserved [OF assms] by (simp add: word_less_nat_alt)
  moreover have "length (queued (ps_pool s)) \<le> unat (cfg_GlobalQueued cfg)"
    using P(3,4) unfolding uint_nat by linarith
  ultimately show ?thesis using P(2,3) ok(3) unfolding n by linarith
qed

theorem pool_bounded_witness:
  "length (filter (busyFor ''a'') (ps_workers demoEnd)) \<le> 1
   \<and> length (filter (busyFor ''a'') (ps_workers demoEnd)) < length (ps_workers demoEnd)"
  using pool_bounded [OF demo_run, of "''a''"] by (simp add: defaultFilePoolConfig_def)

text \<open>
  C5: a job that \<^verbatim>\<open>Submit\<close> accepted is handled exactly once: at any moment the jobs that are queued,
  popped and not started, started, and drained are pairwise different and together are exactly the
  accepted ones; once the pool is closed none is left in the queues.
\<close>

theorem pool_exactly_once:
  assumes "pool_reachable cfg s"
  defines "handled \<equiv> map pj_id (queued (ps_pool s)) @ concat (map poppedIds (ps_workers s))
    @ ps_started s @ ps_cancelled s"
  shows "distinct handled \<and> set handled = set (ps_accepted s)
    \<and> (p_closed (ps_pool s) \<longrightarrow> queued (ps_pool s) = [])"
proof -
  have ok: "counts_ok s" "jobs_ok s" using sys_ok_reachable [OF assms(1)] by (simp_all add: sys_ok_def)
  then have m: "mset handled = mset (ps_accepted s)" by (simp add: jobs_ok_def handled_def)
  then have "distinct handled" using ok(2) by (metis jobs_ok_def mset_eq_imp_distinct_iff)
  then show ?thesis using mset_eq_setD [OF m] ok(1) by (simp add: counts_ok_def pool_ok_def)
qed

theorem pool_exactly_once_witness:
  "distinct (map pj_id (queued (ps_pool demoEnd)) @ concat (map poppedIds (ps_workers demoEnd))
     @ ps_started demoEnd @ ps_cancelled demoEnd)"
  using pool_exactly_once [OF demo_run] by blast

text \<open>
  A queued job that may run is never forgotten: in every reachable state in which some device
  has a job and a free in-flight slot, a submitter is about to send its wake-up, or some worker is
  before the lock or holds a job (and returns to the lock after it), or a buffered wake-up waits for
  a worker that has not parked yet.
\<close>

theorem pool_job_looked_after:
  assumes "pool_reachable cfg s" and "eligible (ps_pool s) d"
  shows "looked_after s"
proof -
  have ok: "counts_ok s" "awake_ok s" using sys_ok_reachable [OF assms(1)] by (simp_all add: sys_ok_def)
  have "d \<in> set (p_deviceOrder (ps_pool s))"
    using ok assms(2) by (auto simp: counts_ok_def pool_ok_def eligible_def)
  then have "popLocked (ps_pool s) \<noteq> None" using assms(2) by (auto simp: popLocked_None)
  with ok show ?thesis by (simp add: awake_ok_def)
qed

lemma demo_eligible: "eligible (ps_pool demoEnd) ''b''"
  by (simp add: eligible_def queueOf_def demoEnd_def demo_pool_defs)

theorem pool_job_looked_after_witness: "looked_after demoEnd"
  by (rule pool_job_looked_after [OF demo_run demo_eligible])


text \<open>
  The round-robin pop is complete and keeps the order of each device's jobs: it finds a job
  exactly when some device has one and a free in-flight slot, and it then removes the oldest job of
  one such device and leaves every other queue as it is.
\<close>

theorem pop_complete:
  assumes "pool_reachable cfg s"
  shows "(popLocked (ps_pool s) = None \<longleftrightarrow> (\<forall>d. \<not> eligible (ps_pool s) d))
    \<and> (\<forall>pj p. popLocked (ps_pool s) = Some (pj, p) \<longrightarrow>
         (\<exists>d. eligible (ps_pool s) d \<and> queueOf (ps_pool s) d = pj # queueOf p d
            \<and> (\<forall>d'. d' \<noteq> d \<longrightarrow> queueOf p d' = queueOf (ps_pool s) d')))"
proof (intro conjI allI impI)
  have ok: "pool_ok (ps_pool s)" using sys_ok_reachable [OF assms] by (simp add: sys_ok_def counts_ok_def)
  then show "popLocked (ps_pool s) = None \<longleftrightarrow> (\<forall>d. \<not> eligible (ps_pool s) d)"
    by (auto simp: popLocked_None pool_ok_def eligible_def)
  fix pj p assume "popLocked (ps_pool s) = Some (pj, p)"
  then obtain idx where el: "eligible (ps_pool s) (p_deviceOrder (ps_pool s) ! idx)"
      and t: "takeJob idx (ps_pool s) = (pj, p)" by (rule popLocked_Some)
  note E = takeJob_effect [OF t]
  show "\<exists>d. eligible (ps_pool s) d \<and> queueOf (ps_pool s) d = pj # queueOf p d
            \<and> (\<forall>d'. d' \<noteq> d \<longrightarrow> queueOf p d' = queueOf (ps_pool s) d')"
    using el E(1) queueOf_update [OF E(2)]
    by (intro exI [of _ "p_deviceOrder (ps_pool s) ! idx"]) (auto simp: eligible_def)
qed

theorem pop_complete_witness: "popLocked (ps_pool demoEnd) \<noteq> None"
  using pop_complete [OF demo_run] demo_eligible by blast

text \<open>
  The round robin is not a rotation: with one job each for three devices and the cursor at the
  first, the first device is served and leaves the order, and the cursor, which was advanced before
  the order shrank, then stands on the third device, so that the second one is served last.
\<close>

theorem round_robin_skips:
  "map (\<lambda>n. map_option (\<lambda>(pj, p). (jobDev pj, p_cursor p))
        (((\<lambda>r. Option.bind r (\<lambda>(pj, p). popLocked p)) ^^ n)
          (popLocked (demoPool [(''a'', [demoJob 1 ''a'']), (''b'', [demoJob 2 ''b'']), (''c'', [demoJob 3 ''c''])]
             [''a'', ''b'', ''c''] (\<lambda>_. 0) 3 [])))) [0, 1, 2]
   = [Some (''a'', 1), Some (''c'', 0), Some (''b'', 0)]"
  by (simp add: popLocked_def Let_def eligible_def takeJob_def removeDeviceLocked_def queueOf_def
      demo_pool_defs upt_rec numeral_2_eq_2)

text \<open>
  Degradation and closing are one-way and refuse work: once the watchdog has found a stuck job
  it empties the queues and marks the health as degrading, and from then on every submission to the
  pool is refused as degraded, or as closed after a close.
\<close>

theorem degraded_refuses:
  assumes "pool_reachable cfg s" and "pj \<in> set (p_inflightJobs (ps_pool s))"
    and "isStuck now (ps_pool s) pj" and "\<not> p_rejecting (ps_pool s)"
    and "pool_step\<^sup>*\<^sup>* (s\<lparr>ps_pool := snd (scanStuck now (ps_pool s)),
          ps_cancelled := map pj_id (fst (scanStuck now (ps_pool s))) @ ps_cancelled s\<rparr>) s'"
    and "job_Work job"
  shows "queued (snd (scanStuck now (ps_pool s))) = []
    \<and> fst (scanStuck now (ps_pool s)) = queued (ps_pool s)
    \<and> fh_state (p_health (snd (scanStuck now (ps_pool s)))) \<noteq> HealthHealthy
    \<and> fst (Pool_Submit a job (ps_pool s')) \<in> {Inl ErrFileDegraded, Inl ErrPoolClosed}"
proof -
  let ?p = "snd (scanStuck now (ps_pool s))"
  have sc: "scanStuck now (ps_pool s) = (queued (ps_pool s), ?p) \<and> p_rejecting ?p \<and> queued ?p = []
      \<and> fh_state (p_health ?p) \<noteq> HealthHealthy"
    using assms(2,3,4)
    by (auto simp: scanStuck_def drainLocked_def Let_def list_ex_iff queued_def MarkDegrading_def)
  have "p_rejecting (ps_pool s')" using assms(5) sc by (simp add: rejecting_run)
  with sc assms(6) show ?thesis by (auto simp: Pool_Submit_def prod_eq_iff)
qed

theorem degraded_refuses_witness:
  "fst (Pool_Submit 9 \<lparr>job_DeviceID = ''c'', job_Work = True, job_OnCancel = True\<rparr>
      (snd (scanStuck 6000000000 (ps_pool demoEnd)))) \<in> {Inl ErrFileDegraded, Inl ErrPoolClosed}"
proof -
  let ?pj = "(demoJob 1 ''a'')\<lparr>pj_startedAt := 100\<rparr>"
  have m: "?pj \<in> set (p_inflightJobs (ps_pool demoEnd))" by (simp add: demoEnd_def demoSys_def demoPool_def)
  have st: "isStuck 6000000000 (ps_pool demoEnd) ?pj"
    by (simp add: isStuck_def isZero_def zeroTime_def timeSub_def minDuration_def maxDuration_def millis_def
        demoEnd_def demo_pool_defs)
  have r: "\<not> p_rejecting (ps_pool demoEnd)" by (simp add: demoEnd_def demo_pool_defs)
  show ?thesis using degraded_refuses [OF demo_run m st r rtranclp.rtrancl_refl] by simp
qed

end
