(* ===== verification/Relay_Mailbox.thy ===== *)
theory Relay_Mailbox
  imports Bridge_Prelude
begin

text \<open>
  The ciphertext mailbox service of \<^verbatim>\<open>go-bridge/relay_mailbox.go\<close>: per device a list of envelopes
  with a service-wide monotone cursor, a byte budget with eviction of the oldest unacknowledged
  frames, cursor paging, acknowledgement and expiry.  Envelopes are opaque byte strings.  Clock
  readings are arguments; \<^verbatim>\<open>Enqueue\<close> reads the clock twice.  Logging is left out.
\<close>

section \<open>Data\<close>

definition defaultMailboxTTL :: duration where
  "defaultMailboxTTL = 24 * 60 * 60 * nanosPerSecond"

definition maxMailboxBytesPerDev :: int where
  "maxMailboxBytesPerDev = 50 * 1024 * 1024"

record EpochMetadata =
  epm_EpochIndex :: "u64 option"
  epm_PrekeyID :: string
  epm_KeyEpochID :: string
  epm_Counter :: u64

record mailboxEntry =
  mbe_cursor :: u64
  mbe_envelope :: "byte list"
  mbe_insertedAt :: instant
  mbe_expiresAt :: instant
  mbe_acked :: bool
  mbe_size :: int
  mbe_epochIndex :: "u64 option"
  mbe_prekeyID :: string
  mbe_keyEpochID :: string
  mbe_counter :: u64

record deviceMailbox =
  mb_routeID :: string
  mb_deviceID :: string
  mb_frames :: "mailboxEntry list"
  mb_totalBytes :: int

record MailboxService =
  ms_mailboxes :: "string \<rightharpoonup> deviceMailbox"
  ms_seq :: u64

record MailboxFetchResponse =
  mfr_Frames :: "(u64 \<times> byte list) list"
  mfr_HasMore :: bool
  mfr_NextCursor :: u64

datatype mailboxError = MailboxCapacityExceeded | MailboxNotFound

definition NewMailboxService :: MailboxService where
  "NewMailboxService = \<lparr>ms_mailboxes = Map.empty, ms_seq = 0\<rparr>"

definition mailboxKey :: "string \<Rightarrow> string \<Rightarrow> string" where
  "mailboxKey routeID deviceID = routeID @ '':'' @ deviceID"

section \<open>Operations\<close>

text \<open>
  The eviction loop marks the oldest unacknowledged frames as acknowledged until their sizes reach
  the bytes needed; the result carries the bytes evicted.
\<close>

fun evictFrames :: "int \<Rightarrow> int \<Rightarrow> mailboxEntry list \<Rightarrow> int \<times> mailboxEntry list" where
  "evictFrames needed evicted [] = (evicted, [])"
| "evictFrames needed evicted (f # fs) =
     (if mbe_acked f
      then (let (e, fs') = evictFrames needed evicted fs in (e, f # fs'))
      else
        let evicted' = evicted + mbe_size f; f' = f\<lparr>mbe_acked := True\<rparr> in
        if evicted' \<ge> needed then (evicted', f' # fs)
        else (let (e, fs') = evictFrames needed evicted' fs in (e, f' # fs')))"

definition evictOldestUnacked :: "int \<Rightarrow> deviceMailbox \<Rightarrow> deviceMailbox" where
  "evictOldestUnacked needed mb =
     (let (evicted, frames) = evictFrames needed 0 (mb_frames mb) in
      mb\<lparr>mb_frames := frames, mb_totalBytes := mb_totalBytes mb - evicted\<rparr>)"

definition MailboxService_Enqueue ::
  "instant \<Rightarrow> instant \<Rightarrow> string \<Rightarrow> string \<Rightarrow> byte list \<Rightarrow> EpochMetadata option \<Rightarrow> MailboxService
     \<Rightarrow> (mailboxError, unit) result \<times> MailboxService" where
  "MailboxService_Enqueue now now' routeID deviceID envelope meta ms =
     (let key = mailboxKey routeID deviceID;
          mb0 = (case ms_mailboxes ms key of
                   Some mb \<Rightarrow> mb
                 | None \<Rightarrow> \<lparr>mb_routeID = routeID, mb_deviceID = deviceID, mb_frames = [], mb_totalBytes = 0\<rparr>);
          frameSize = int (length envelope);
          mb = (if mb_totalBytes mb0 + frameSize > maxMailboxBytesPerDev
                then evictOldestUnacked frameSize mb0 else mb0)
      in
      if mb_totalBytes mb + frameSize > maxMailboxBytesPerDev
      then (Inl MailboxCapacityExceeded, ms\<lparr>ms_mailboxes := (ms_mailboxes ms)(key \<mapsto> mb)\<rparr>)
      else
        let entry0 = \<lparr>mbe_cursor = ms_seq ms + 1, mbe_envelope = envelope, mbe_insertedAt = now,
                      mbe_expiresAt = now' + defaultMailboxTTL, mbe_acked = False, mbe_size = frameSize,
                      mbe_epochIndex = None, mbe_prekeyID = [], mbe_keyEpochID = [], mbe_counter = 0\<rparr>;
            entry = (case meta of
                       None \<Rightarrow> entry0
                     | Some m \<Rightarrow> entry0\<lparr>mbe_epochIndex := epm_EpochIndex m, mbe_prekeyID := epm_PrekeyID m,
                                   mbe_keyEpochID := epm_KeyEpochID m, mbe_counter := epm_Counter m\<rparr>)
        in (Inr (), ms\<lparr>ms_seq := ms_seq ms + 1,
                       ms_mailboxes := (ms_mailboxes ms)(key \<mapsto>
                         mb\<lparr>mb_frames := mb_frames mb @ [entry], mb_totalBytes := mb_totalBytes mb + frameSize\<rparr>)\<rparr>))"

text \<open>The paging loop: \<open>room\<close> is what is left of the limit.\<close>

fun fetchLoop :: "u64 \<Rightarrow> nat \<Rightarrow> mailboxEntry list \<Rightarrow> (u64 \<times> byte list) list \<times> u64 option" where
  "fetchLoop after room [] = ([], None)"
| "fetchLoop after room (f # fs) =
     (if mbe_acked f \<or> mbe_cursor f \<le> after then fetchLoop after room fs
      else case room of
        0 \<Rightarrow> ([], Some (mbe_cursor f))
      | Suc room' \<Rightarrow> (let (out, next) = fetchLoop after room' fs in
                     ((mbe_cursor f, mbe_envelope f) # out, next)))"

definition MailboxService_Fetch ::
  "string \<Rightarrow> string \<Rightarrow> u64 \<Rightarrow> int \<Rightarrow> MailboxService \<Rightarrow> MailboxFetchResponse" where
  "MailboxService_Fetch routeID deviceID afterCursor limit ms =
     (case ms_mailboxes ms (mailboxKey routeID deviceID) of
        None \<Rightarrow> \<lparr>mfr_Frames = [], mfr_HasMore = False, mfr_NextCursor = 0\<rparr>
      | Some mb \<Rightarrow>
          let room = (if limit \<le> 0 then 100 else nat limit);
              (out, next) = fetchLoop afterCursor room (mb_frames mb)
          in \<lparr>mfr_Frames = out, mfr_HasMore = (next \<noteq> None),
              mfr_NextCursor = (case next of None \<Rightarrow> 0 | Some c \<Rightarrow> c)\<rparr>)"

definition ackFrame :: "u64 \<Rightarrow> mailboxEntry \<Rightarrow> mailboxEntry" where
  "ackFrame c f = (if mbe_cursor f \<le> c \<and> \<not> mbe_acked f then f\<lparr>mbe_acked := True\<rparr> else f)"

definition MailboxService_Ack ::
  "string \<Rightarrow> string \<Rightarrow> u64 \<Rightarrow> MailboxService \<Rightarrow> (mailboxError, unit) result \<times> MailboxService" where
  "MailboxService_Ack routeID deviceID c ms =
     (let key = mailboxKey routeID deviceID in
      case ms_mailboxes ms key of
        None \<Rightarrow> (Inl MailboxNotFound, ms)
      | Some mb \<Rightarrow>
          let ackedBytes = sum_list (map mbe_size
                (filter (\<lambda>f. mbe_cursor f \<le> c \<and> \<not> mbe_acked f) (mb_frames mb)))
          in (Inr (), ms\<lparr>ms_mailboxes := (ms_mailboxes ms)(key \<mapsto>
                mb\<lparr>mb_frames := map (ackFrame c) (mb_frames mb),
                   mb_totalBytes := mb_totalBytes mb - ackedBytes\<rparr>)\<rparr>))"

definition isExpired :: "instant \<Rightarrow> mailboxEntry \<Rightarrow> bool" where
  "isExpired now f \<longleftrightarrow> now > mbe_expiresAt f \<and> \<not> mbe_acked f"

definition MailboxService_Expire ::
  "instant \<Rightarrow> string \<Rightarrow> string \<Rightarrow> MailboxService \<Rightarrow> nat \<times> MailboxService" where
  "MailboxService_Expire now routeID deviceID ms =
     (let key = mailboxKey routeID deviceID in
      case ms_mailboxes ms key of
        None \<Rightarrow> (0, ms)
      | Some mb \<Rightarrow>
          let gone = filter (isExpired now) (mb_frames mb)
          in (length gone, ms\<lparr>ms_mailboxes := (ms_mailboxes ms)(key \<mapsto>
                mb\<lparr>mb_frames := filter (\<lambda>f. \<not> isExpired now f) (mb_frames mb),
                   mb_totalBytes := mb_totalBytes mb - sum_list (map mbe_size gone)\<rparr>)\<rparr>))"

definition MailboxService_ClearForDevice :: "string \<Rightarrow> string \<Rightarrow> MailboxService \<Rightarrow> MailboxService" where
  "MailboxService_ClearForDevice routeID deviceID ms =
     ms\<lparr>ms_mailboxes := (ms_mailboxes ms)(mailboxKey routeID deviceID := None)\<rparr>"

definition MailboxService_Stats :: "string \<Rightarrow> string \<Rightarrow> MailboxService \<Rightarrow> (nat \<times> nat \<times> int) option" where
  "MailboxService_Stats routeID deviceID ms =
     map_option (\<lambda>mb. (length (mb_frames mb), length (filter (\<lambda>f. \<not> mbe_acked f) (mb_frames mb)),
                      mb_totalBytes mb)) (ms_mailboxes ms (mailboxKey routeID deviceID))"

definition IsDurableMilestone :: "string \<Rightarrow> bool" where
  "IsDurableMilestone eventType \<longleftrightarrow> eventType \<in>
     {''turn_completed'', ''turn_error'', ''todos_updated'', ''session_running_signal'',
      ''delivery_reconcile_required''}"

record DeliveryReconcileRequired =
  drr_Type :: string
  drr_DeviceID :: string
  drr_Reason :: string

definition NewDeliveryReconcileRequired :: "string \<Rightarrow> string \<Rightarrow> DeliveryReconcileRequired" where
  "NewDeliveryReconcileRequired deviceID reason =
     \<lparr>drr_Type = ''delivery_reconcile_required'', drr_DeviceID = deviceID, drr_Reason = reason\<rparr>"

section \<open>Runs and the invariant\<close>

datatype MailboxOp =
    OpEnqueue instant instant string string "byte list" "EpochMetadata option"
  | OpAck string string u64
  | OpExpire instant string string
  | OpClear string string

fun mailboxStep :: "MailboxService \<Rightarrow> MailboxOp \<Rightarrow> MailboxService" where
  "mailboxStep ms (OpEnqueue now now' r d e meta) = snd (MailboxService_Enqueue now now' r d e meta ms)"
| "mailboxStep ms (OpAck r d c) = snd (MailboxService_Ack r d c ms)"
| "mailboxStep ms (OpExpire now r d) = snd (MailboxService_Expire now r d ms)"
| "mailboxStep ms (OpClear r d) = MailboxService_ClearForDevice r d ms"

definition unacked :: "mailboxEntry list \<Rightarrow> mailboxEntry list" where
  "unacked = filter (\<lambda>f. \<not> mbe_acked f)"

definition unackedBytes :: "mailboxEntry list \<Rightarrow> int" where
  "unackedBytes fs = sum_list (map mbe_size (unacked fs))"

definition mb_ok :: "deviceMailbox \<Rightarrow> bool" where
  "mb_ok mb \<longleftrightarrow> mb_totalBytes mb = unackedBytes (mb_frames mb) \<and> mb_totalBytes mb \<le> maxMailboxBytesPerDev
   \<and> (\<forall>f\<in>set (mb_frames mb). mbe_size f = int (length (mbe_envelope f)))"

definition ms_ok :: "MailboxService \<Rightarrow> bool" where
  "ms_ok ms \<longleftrightarrow> (\<forall>key mb. ms_mailboxes ms key = Some mb \<longrightarrow> mb_ok mb)"

lemma evictFrames_drops:
  "evictFrames needed e fs = (e', fs') \<Longrightarrow>
   (\<exists>k. unacked fs' = drop k (unacked fs) \<and> e' = e + sum_list (map mbe_size (take k (unacked fs))))
   \<and> (needed \<le> e' \<or> unacked fs' = [])
   \<and> map (\<lambda>f. (mbe_cursor f, mbe_envelope f, mbe_size f)) fs' = map (\<lambda>f. (mbe_cursor f, mbe_envelope f, mbe_size f)) fs"
proof (induction needed e fs arbitrary: e' fs' rule: evictFrames.induct)
  case (2 needed e f fs)
  show ?case
  proof (cases "mbe_acked f")
    case True
    with "2.prems" obtain fs1 where "evictFrames needed e fs = (e', fs1)" "fs' = f # fs1"
      by (auto split: prod.splits)
    with "2.IH"(1) [OF True] True show ?thesis by (simp add: unacked_def)
  next
    case False
    show ?thesis
    proof (cases "needed \<le> e + mbe_size f")
      case True
      with "2.prems" False have "fs' = f\<lparr>mbe_acked := True\<rparr> # fs" "e' = e + mbe_size f"
        by (auto simp: Let_def)
      then show ?thesis using False True by (auto simp: unacked_def intro!: exI [of _ 1])
    next
      case more: False
      with "2.prems" False obtain fs1 where r: "evictFrames needed (e + mbe_size f) fs = (e', fs1)"
          "fs' = f\<lparr>mbe_acked := True\<rparr> # fs1"
        by (auto simp: Let_def split: prod.splits)
      from "2.IH"(2) [OF False refl refl more r(1)] obtain k where
        "unacked fs1 = drop k (unacked fs)" "e' = e + mbe_size f + sum_list (map mbe_size (take k (unacked fs)))"
        "needed \<le> e' \<or> unacked fs1 = []"
        "map (\<lambda>f. (mbe_cursor f, mbe_envelope f, mbe_size f)) fs1 = map (\<lambda>f. (mbe_cursor f, mbe_envelope f, mbe_size f)) fs"
        by blast
      then show ?thesis using False r(2) by (auto simp: unacked_def intro!: exI [of _ "Suc k"])
    qed
  qed
qed (simp add: unacked_def)

lemma unackedBytes_drop:
  "unackedBytes fs = sum_list (map mbe_size (take k (unacked fs))) + sum_list (map mbe_size (drop k (unacked fs)))"
  unfolding unackedBytes_def by (metis append_take_drop_id map_append sum_list_append)

lemma sizes_kept:
  "map (\<lambda>f. (mbe_cursor f, mbe_envelope f, mbe_size f)) fs' = map (\<lambda>f. (mbe_cursor f, mbe_envelope f, mbe_size f)) fs \<Longrightarrow>
   (\<forall>f\<in>set fs. mbe_size f = int (length (mbe_envelope f))) \<Longrightarrow>
   (\<forall>f\<in>set fs'. mbe_size f = int (length (mbe_envelope f)))"
proof (induction fs arbitrary: fs')
  case (Cons f fs)
  then show ?case by (cases fs') auto
qed simp

lemma evictOldestUnacked_ok:
  assumes "mb_ok mb"
  shows "mb_ok (evictOldestUnacked needed mb)
    \<and> (\<exists>k. unacked (mb_frames (evictOldestUnacked needed mb)) = drop k (unacked (mb_frames mb)))
    \<and> (mb_totalBytes (evictOldestUnacked needed mb) + needed \<le> mb_totalBytes mb
       \<or> unacked (mb_frames (evictOldestUnacked needed mb)) = [])
    \<and> map mbe_cursor (mb_frames (evictOldestUnacked needed mb)) = map mbe_cursor (mb_frames mb)"
proof -
  obtain e fs where ev: "evictFrames needed 0 (mb_frames mb) = (e, fs)" by fastforce
  from evictFrames_drops [OF ev] obtain k where k: "unacked fs = drop k (unacked (mb_frames mb))"
      "e = sum_list (map mbe_size (take k (unacked (mb_frames mb))))" "needed \<le> e \<or> unacked fs = []"
      "map (\<lambda>f. (mbe_cursor f, mbe_envelope f, mbe_size f)) fs
         = map (\<lambda>f. (mbe_cursor f, mbe_envelope f, mbe_size f)) (mb_frames mb)"
    by auto
  have ub: "unackedBytes fs = unackedBytes (mb_frames mb) - e"
    using unackedBytes_drop [of "mb_frames mb" k] k(1,2) by (simp add: unackedBytes_def)
  have "0 \<le> e" unfolding k(2)
    using assms by (intro sum_list_nonneg) (auto simp: mb_ok_def unacked_def dest!: in_set_takeD)
  moreover have "\<forall>f\<in>set fs. mbe_size f = int (length (mbe_envelope f))"
    using sizes_kept [OF k(4)] assms by (simp add: mb_ok_def)
  ultimately have "mb_ok (evictOldestUnacked needed mb)"
    using assms ub by (simp add: mb_ok_def evictOldestUnacked_def ev)
  moreover have "map mbe_cursor fs = map mbe_cursor (mb_frames mb)"
    using arg_cong [OF k(4), of "map fst"] by (simp add: comp_def)
  ultimately show ?thesis using k ub by (auto simp: evictOldestUnacked_def ev)
qed

lemma unackedBytes_filter:
  "unackedBytes fs = sum_list (map mbe_size (filter (\<lambda>f. P f \<and> \<not> mbe_acked f) fs))
     + sum_list (map mbe_size (filter (\<lambda>f. \<not> P f \<and> \<not> mbe_acked f) fs))"
  by (induction fs) (auto simp: unackedBytes_def unacked_def)

lemma unackedBytes_nonneg: "mb_ok mb \<Longrightarrow> 0 \<le> unackedBytes (mb_frames mb)"
  unfolding unackedBytes_def by (intro sum_list_nonneg) (auto simp: mb_ok_def unacked_def)

lemma unackedBytes_ack:
  "unackedBytes (map (ackFrame c) fs)
     = sum_list (map mbe_size (filter (\<lambda>f. \<not> mbe_cursor f \<le> c \<and> \<not> mbe_acked f) fs))"
  by (induction fs) (auto simp: unackedBytes_def unacked_def ackFrame_def)

lemma mb_ok_append:
  "mb_ok mb \<Longrightarrow> mb_totalBytes mb + n \<le> maxMailboxBytesPerDev \<Longrightarrow> \<not> mbe_acked f \<Longrightarrow> mbe_size f = n \<Longrightarrow>
   n = int (length (mbe_envelope f)) \<Longrightarrow>
   mb_ok (mb\<lparr>mb_frames := mb_frames mb @ [f], mb_totalBytes := mb_totalBytes mb + n\<rparr>)"
  by (auto simp: mb_ok_def unackedBytes_def unacked_def)

lemma mb_ok_Ack:
  assumes "mb_ok mb"
  shows "mb_ok (mb\<lparr>mb_frames := map (ackFrame c) (mb_frames mb), mb_totalBytes := mb_totalBytes mb
    - sum_list (map mbe_size (filter (\<lambda>f. mbe_cursor f \<le> c \<and> \<not> mbe_acked f) (mb_frames mb)))\<rparr>)"
proof -
  have "0 \<le> sum_list (map mbe_size (filter (\<lambda>f. mbe_cursor f \<le> c \<and> \<not> mbe_acked f) (mb_frames mb)))"
    using assms by (intro sum_list_nonneg) (auto simp: mb_ok_def)
  then show ?thesis
    using assms unackedBytes_filter [of "mb_frames mb" "\<lambda>f. mbe_cursor f \<le> c"]
    by (auto simp: mb_ok_def unackedBytes_ack) (auto simp: ackFrame_def)
qed

lemma mb_ok_Expire:
  assumes "mb_ok mb"
  shows "mb_ok (mb\<lparr>mb_frames := filter (\<lambda>f. \<not> isExpired now f) (mb_frames mb), mb_totalBytes := mb_totalBytes mb
    - sum_list (map mbe_size (filter (isExpired now) (mb_frames mb)))\<rparr>)"
proof -
  have e: "isExpired now = (\<lambda>f. now > mbe_expiresAt f \<and> \<not> mbe_acked f)" by (simp add: fun_eq_iff isExpired_def)
  have "unackedBytes (filter (\<lambda>f. \<not> isExpired now f) (mb_frames mb))
      = sum_list (map mbe_size (filter (\<lambda>f. \<not> now > mbe_expiresAt f \<and> \<not> mbe_acked f) (mb_frames mb)))"
    unfolding unackedBytes_def unacked_def e filter_filter by (rule arg_cong [where f = "\<lambda>xs. sum_list (map mbe_size xs)"], rule filter_cong) auto
  moreover have "0 \<le> sum_list (map mbe_size (filter (isExpired now) (mb_frames mb)))"
    using assms by (intro sum_list_nonneg) (auto simp: mb_ok_def)
  ultimately show ?thesis
    using assms unackedBytes_filter [of "mb_frames mb" "\<lambda>f. now > mbe_expiresAt f"] e
    by (auto simp: mb_ok_def)
qed

text \<open>The mailbox an enqueue works on, before and after the eviction.\<close>

definition mailboxOf :: "MailboxService \<Rightarrow> string \<Rightarrow> string \<Rightarrow> deviceMailbox" where
  "mailboxOf ms r d = (case ms_mailboxes ms (mailboxKey r d) of
     Some mb \<Rightarrow> mb
   | None \<Rightarrow> \<lparr>mb_routeID = r, mb_deviceID = d, mb_frames = [], mb_totalBytes = 0\<rparr>)"

lemma mb_ok_mailboxOf: "ms_ok ms \<Longrightarrow> mb_ok (mailboxOf ms r d)"
proof -
  have "mb_ok \<lparr>mb_routeID = r, mb_deviceID = d, mb_frames = [], mb_totalBytes = 0\<rparr>"
    by (simp add: mb_ok_def unackedBytes_def unacked_def maxMailboxBytesPerDev_def)
  then show "ms_ok ms \<Longrightarrow> ?thesis" by (simp add: mailboxOf_def ms_ok_def split: option.split)
qed

lemma mailboxOf_upd [simp]:
  "mailboxOf (ms\<lparr>ms_mailboxes := (ms_mailboxes ms)(mailboxKey r d \<mapsto> mb)\<rparr>) r d = mb"
  "mailboxOf (ms\<lparr>ms_mailboxes := (ms_mailboxes ms)(mailboxKey r d \<mapsto> mb), ms_seq := n\<rparr>) r d = mb"
  by (simp_all add: mailboxOf_def)

lemma Enqueue_shape:
  fixes r d :: string
  assumes "ms_ok ms"
  defines "mb0 \<equiv> mailboxOf ms r d"
  shows "\<exists>mb k. mb_ok mb \<and> unacked (mb_frames mb) = drop k (unacked (mb_frames mb0))
    \<and> map mbe_cursor (mb_frames mb) = map mbe_cursor (mb_frames mb0)
    \<and> (mb_totalBytes mb0 + int (length e) \<le> maxMailboxBytesPerDev \<longrightarrow> mb = mb0)
    \<and> (if int (length e) > maxMailboxBytesPerDev
       then unacked (mb_frames mb) = []
          \<and> MailboxService_Enqueue now now' r d e meta ms = (Inl MailboxCapacityExceeded,
              ms\<lparr>ms_mailboxes := (ms_mailboxes ms)(mailboxKey r d \<mapsto> mb)\<rparr>)
       else mb_totalBytes mb + int (length e) \<le> maxMailboxBytesPerDev
          \<and> (\<exists>f. mbe_cursor f = ms_seq ms + 1 \<and> mbe_envelope f = e \<and> \<not> mbe_acked f \<and> mbe_size f = int (length e)
               \<and> MailboxService_Enqueue now now' r d e meta ms = (Inr (),
                   ms\<lparr>ms_seq := ms_seq ms + 1, ms_mailboxes := (ms_mailboxes ms)(mailboxKey r d \<mapsto>
                     mb\<lparr>mb_frames := mb_frames mb @ [f], mb_totalBytes := mb_totalBytes mb + int (length e)\<rparr>)\<rparr>)))"
proof -
  let ?n = "int (length e)"
  define mb where "mb = (if mb_totalBytes mb0 + ?n > maxMailboxBytesPerDev then evictOldestUnacked ?n mb0 else mb0)"
  have ok0: "mb_ok mb0" unfolding mb0_def by (rule mb_ok_mailboxOf [OF assms(1)])
  note E = evictOldestUnacked_ok [OF ok0, of ?n]
  have ok: "mb_ok mb" "\<exists>k. unacked (mb_frames mb) = drop k (unacked (mb_frames mb0))"
    "map mbe_cursor (mb_frames mb) = map mbe_cursor (mb_frames mb0)"
    using E ok0 by (auto simp: mb_def intro!: exI [of _ 0])
  have fits: "mb_totalBytes mb + ?n \<le> maxMailboxBytesPerDev \<longleftrightarrow> ?n \<le> maxMailboxBytesPerDev"
    "?n > maxMailboxBytesPerDev \<Longrightarrow> unacked (mb_frames mb) = []"
    using E ok0 ok(1) unackedBytes_nonneg [OF ok0] unackedBytes_nonneg [OF ok(1)]
    by (auto simp: mb_def mb_ok_def unackedBytes_def)
  let ?f0 = "\<lparr>mbe_cursor = ms_seq ms + 1, mbe_envelope = e, mbe_insertedAt = now,
      mbe_expiresAt = now' + defaultMailboxTTL, mbe_acked = False, mbe_size = ?n,
      mbe_epochIndex = None, mbe_prekeyID = [], mbe_keyEpochID = [], mbe_counter = 0\<rparr>"
  let ?f = "case meta of None \<Rightarrow> ?f0 | Some m \<Rightarrow> ?f0\<lparr>mbe_epochIndex := epm_EpochIndex m,
      mbe_prekeyID := epm_PrekeyID m, mbe_keyEpochID := epm_KeyEpochID m, mbe_counter := epm_Counter m\<rparr>"
  have "MailboxService_Enqueue now now' r d e meta ms
      = (if mb_totalBytes mb + ?n > maxMailboxBytesPerDev
         then (Inl MailboxCapacityExceeded, ms\<lparr>ms_mailboxes := (ms_mailboxes ms)(mailboxKey r d \<mapsto> mb)\<rparr>)
         else (Inr (), ms\<lparr>ms_seq := ms_seq ms + 1, ms_mailboxes := (ms_mailboxes ms)(mailboxKey r d \<mapsto>
             mb\<lparr>mb_frames := mb_frames mb @ [?f], mb_totalBytes := mb_totalBytes mb + ?n\<rparr>)\<rparr>))"
    unfolding MailboxService_Enqueue_def Let_def mb_def mb0_def mailboxOf_def by (rule refl)
  moreover have "mbe_cursor ?f = ms_seq ms + 1" "mbe_envelope ?f = e" "\<not> mbe_acked ?f" "mbe_size ?f = ?n"
    by (auto split: option.split)
  moreover have "mb_totalBytes mb0 + ?n \<le> maxMailboxBytesPerDev \<longrightarrow> mb = mb0" by (simp add: mb_def)
  ultimately show ?thesis using ok fits by (intro exI [of _ mb]) auto
qed

lemma Enqueue_big:
  assumes "ms_ok ms" and "int (length e) > maxMailboxBytesPerDev"
  shows "\<exists>mb. mb_ok mb \<and> map mbe_cursor (mb_frames mb) = map mbe_cursor (mb_frames (mailboxOf ms r d))
    \<and> unacked (mb_frames mb) = [] \<and> MailboxService_Enqueue now now' r d e meta ms
        = (Inl MailboxCapacityExceeded, ms\<lparr>ms_mailboxes := (ms_mailboxes ms)(mailboxKey r d \<mapsto> mb)\<rparr>)"
  using Enqueue_shape [OF assms(1), of r d e now now' meta] assms(2) by (simp only: if_True) blast

lemma Enqueue_small:
  assumes "ms_ok ms" and "\<not> int (length e) > maxMailboxBytesPerDev"
  shows "\<exists>mb k f. mb_ok mb \<and> unacked (mb_frames mb) = drop k (unacked (mb_frames (mailboxOf ms r d)))
    \<and> map mbe_cursor (mb_frames mb) = map mbe_cursor (mb_frames (mailboxOf ms r d))
    \<and> (mb_totalBytes (mailboxOf ms r d) + int (length e) \<le> maxMailboxBytesPerDev \<longrightarrow> mb = mailboxOf ms r d)
    \<and> mb_totalBytes mb + int (length e) \<le> maxMailboxBytesPerDev
    \<and> mbe_cursor f = ms_seq ms + 1 \<and> mbe_envelope f = e \<and> \<not> mbe_acked f \<and> mbe_size f = int (length e)
    \<and> MailboxService_Enqueue now now' r d e meta ms = (Inr (),
         ms\<lparr>ms_seq := ms_seq ms + 1, ms_mailboxes := (ms_mailboxes ms)(mailboxKey r d \<mapsto>
           mb\<lparr>mb_frames := mb_frames mb @ [f], mb_totalBytes := mb_totalBytes mb + int (length e)\<rparr>)\<rparr>)"
  using Enqueue_shape [OF assms(1), of r d e now now' meta] assms(2) by (simp only: if_False) blast

interpretation mbm: guarded_machine mailboxStep ms_ok
proof
  fix ms x assume ok: "ms_ok ms"
  show "ms_ok (mailboxStep ms x)"
  proof (cases x)
    case (OpEnqueue now now' r d e meta)
    show ?thesis
    proof (cases "int (length e) > maxMailboxBytesPerDev")
      case True
      then show ?thesis using Enqueue_big [OF ok True, of r d now now' meta] OpEnqueue ok
        by (auto simp: ms_ok_def split: if_splits)
    next
      case False
      then show ?thesis using Enqueue_small [OF ok False, of r d now now' meta] OpEnqueue ok
        by (auto simp: ms_ok_def mb_ok_append split: if_splits)
    qed
  next
    case (OpAck r d c)
    then show ?thesis using ok mb_ok_Ack
      by (auto simp: ms_ok_def MailboxService_Ack_def Let_def split: option.split)
  next
    case (OpExpire now r d)
    then show ?thesis using ok mb_ok_Expire
      by (auto simp: ms_ok_def MailboxService_Expire_def Let_def split: option.split)
  next
    case (OpClear r d)
    then show ?thesis using ok by (auto simp: ms_ok_def MailboxService_ClearForDevice_def)
  qed
qed

lemma ms_ok_new: "ms_ok NewMailboxService"
  by (simp add: ms_ok_def NewMailboxService_def)

section \<open>Cursor order\<close>

text \<open>As long as the 64-bit sequence has not wrapped, the cursors of a mailbox increase strictly.\<close>

definition ms_ordered :: "MailboxService \<Rightarrow> bool" where
  "ms_ordered ms \<longleftrightarrow> (\<forall>key mb. ms_mailboxes ms key = Some mb \<longrightarrow>
     sorted_wrt (<) (map mbe_cursor (mb_frames mb)) \<and> (\<forall>f\<in>set (mb_frames mb). mbe_cursor f \<le> ms_seq ms))"

lemma ackFrame_cursor: "map mbe_cursor (map (ackFrame c) fs) = map mbe_cursor fs"
  by (simp add: ackFrame_def)

lemma sorted_filter_cursor:
  "sorted_wrt (<) (map mbe_cursor fs) \<Longrightarrow> sorted_wrt (<) (map mbe_cursor (filter P fs))"
  by (simp add: sorted_wrt_map sorted_wrt_filter)

lemma ms_ordered_step:
  assumes "ms_ok ms" and "ms_ordered ms" and "ms_seq ms \<noteq> - 1"
  shows "ms_ordered (mailboxStep ms x)
    \<and> (ms_seq (mailboxStep ms x) = ms_seq ms \<or> ms_seq (mailboxStep ms x) = ms_seq ms + 1)"
proof (cases x)
  case (OpEnqueue now now' r d e meta)
  have up: "ms_seq ms < ms_seq ms + 1"
    using unat_plus_one [OF assms(3)] by (simp add: word_less_nat_alt)
  obtain mb where cur: "map mbe_cursor (mb_frames mb) = map mbe_cursor (mb_frames (mailboxOf ms r d))"
    and q: "mailboxStep ms x = ms\<lparr>ms_mailboxes := (ms_mailboxes ms)(mailboxKey r d \<mapsto> mb)\<rparr>
      \<or> (\<exists>f n. mbe_cursor f = ms_seq ms + 1 \<and> mailboxStep ms x
            = ms\<lparr>ms_seq := ms_seq ms + 1, ms_mailboxes := (ms_mailboxes ms)(mailboxKey r d \<mapsto>
                 mb\<lparr>mb_frames := mb_frames mb @ [f], mb_totalBytes := n\<rparr>)\<rparr>)"
  proof (cases "int (length e) > maxMailboxBytesPerDev")
    case True
    from Enqueue_big [OF assms(1) True, of r d now now' meta] show thesis using OpEnqueue that by auto
  next
    case False
    from Enqueue_small [OF assms(1) False, of r d now now' meta] show thesis
      using OpEnqueue that by (metis mailboxStep.simps(1) snd_conv)
  qed
  have "sorted_wrt (<) (map mbe_cursor (mb_frames (mailboxOf ms r d)))
      \<and> (\<forall>c\<in>set (map mbe_cursor (mb_frames (mailboxOf ms r d))). c \<le> ms_seq ms)"
    using assms(2) by (auto simp: ms_ordered_def mailboxOf_def split: option.split)
  then have mb: "sorted_wrt (<) (map mbe_cursor (mb_frames mb))" "\<forall>f\<in>set (mb_frames mb). mbe_cursor f \<le> ms_seq ms"
    by (simp_all flip: cur)
  from q show ?thesis
  proof (elim disjE exE conjE)
    assume "mailboxStep ms x = ms\<lparr>ms_mailboxes := (ms_mailboxes ms)(mailboxKey r d \<mapsto> mb)\<rparr>"
    then show ?thesis using assms(2) mb by (auto simp: ms_ordered_def)
  next
    fix f n assume f: "mbe_cursor f = ms_seq ms + 1" and e: "mailboxStep ms x
            = ms\<lparr>ms_seq := ms_seq ms + 1, ms_mailboxes := (ms_mailboxes ms)(mailboxKey r d \<mapsto>
                 mb\<lparr>mb_frames := mb_frames mb @ [f], mb_totalBytes := n\<rparr>)\<rparr>"
    have "c \<le> ms_seq ms \<Longrightarrow> c < ms_seq ms + 1 \<and> c \<le> ms_seq ms + 1" for c using up by auto
    then show ?thesis unfolding e ms_ordered_def
      using assms(2) mb f by (auto simp: ms_ordered_def sorted_wrt_append)
  qed
next
  case (OpAck r d c)
  have "mbe_cursor (ackFrame c f) = mbe_cursor f" for f by (simp add: ackFrame_def)
  then show ?thesis using assms(2) OpAck
    by (auto simp: ms_ordered_def MailboxService_Ack_def Let_def comp_def split: option.split)
next
  case (OpExpire now r d)
  then show ?thesis using assms(2)
    by (auto simp: ms_ordered_def MailboxService_Expire_def Let_def sorted_filter_cursor split: option.split)
next
  case (OpClear r d)
  then show ?thesis using assms(2) by (auto simp: ms_ordered_def MailboxService_ClearForDevice_def)
qed

lemma ms_ordered_run:
  "length ops < 2 ^ 64 \<Longrightarrow>
   ms_ordered (run mailboxStep NewMailboxService ops)
   \<and> unat (ms_seq (run mailboxStep NewMailboxService ops)) \<le> length ops"
proof (induction ops rule: rev_induct)
  case Nil
  then show ?case by (simp add: ms_ordered_def NewMailboxService_def)
next
  case (snoc x ops)
  let ?ms = "run mailboxStep NewMailboxService ops"
  have IH: "ms_ordered ?ms" "unat (ms_seq ?ms) \<le> length ops" using snoc by auto
  then have ne: "ms_seq ?ms \<noteq> - 1"
    using snoc.prems by (auto simp: unsigned_minus_1_eq_mask mask_eq_exp_minus_1)
  then show ?case
    using ms_ordered_step [OF mbm.run_good [OF ms_ok_new, of ops] IH(1) ne, of x] IH(2) unat_plus_one [OF ne]
    by auto
qed

section \<open>Paging\<close>

definition pendingAfter :: "u64 \<Rightarrow> mailboxEntry list \<Rightarrow> mailboxEntry list" where
  "pendingAfter after fs = filter (\<lambda>f. \<not> mbe_acked f \<and> after < mbe_cursor f) fs"

lemma fetchLoop_exact:
  "fetchLoop after room fs = (map (\<lambda>f. (mbe_cursor f, mbe_envelope f)) (take room (pendingAfter after fs)),
     if room < length (pendingAfter after fs) then Some (mbe_cursor (pendingAfter after fs ! room)) else None)"
  by (induction after room fs rule: fetchLoop.induct)
    (auto simp: pendingAfter_def not_le split: nat.split)

lemma pendingAfter_skip:
  assumes "sorted_wrt (<) (map mbe_cursor fs)" and "n < length (pendingAfter after fs)"
  shows "pendingAfter (mbe_cursor (pendingAfter after fs ! n)) fs = drop (Suc n) (pendingAfter after fs)"
proof -
  let ?p = "pendingAfter after fs" and ?c = "mbe_cursor (pendingAfter after fs ! n)"
  have s: "sorted_wrt (<) (map mbe_cursor ?p)" using assms(1) by (simp add: pendingAfter_def sorted_filter_cursor)
  have c: "after < ?c" using assms(2) nth_mem [of n ?p] by (auto simp: pendingAfter_def)
  have "pendingAfter ?c fs = filter (\<lambda>f. ?c < mbe_cursor f) ?p"
    using c unfolding pendingAfter_def by (auto intro!: filter_cong)
  also have "\<dots> = filter (\<lambda>f. ?c < mbe_cursor f) (take (Suc n) ?p) @ filter (\<lambda>f. ?c < mbe_cursor f) (drop (Suc n) ?p)"
    by (metis append_take_drop_id filter_append)
  also have "filter (\<lambda>f. ?c < mbe_cursor f) (take (Suc n) ?p) = []"
  proof -
    have "\<not> ?c < mbe_cursor (?p ! i)" if "i \<le> n" for i
      using s that assms(2) sorted_wrt_nth_less [of "(<)" "map mbe_cursor ?p" i n] by (cases "i = n") auto
    then show ?thesis by (auto simp: filter_empty_conv in_set_conv_nth)
  qed
  also have "filter (\<lambda>f. ?c < mbe_cursor f) (drop (Suc n) ?p) = drop (Suc n) ?p"
  proof (rule filter_True, rule ballI)
    fix f assume "f \<in> set (drop (Suc n) ?p)"
    then obtain i where "i < length ?p" "n < i" "f = ?p ! i"
      by (auto simp: in_set_conv_nth) (metis add.commute add_Suc_right less_add_Suc1 less_diff_conv)
    then show "?c < mbe_cursor f"
      using s sorted_wrt_nth_less [of "(<)" "map mbe_cursor ?p" n i] assms(2) by auto
  qed
  finally show ?thesis by simp
qed

section \<open>Properties\<close>

text \<open>
  C18: at any time the byte counter of every mailbox is the total size of its unacknowledged frames,
  as the envelopes have it, and does not exceed the 50 MB budget.
\<close>

theorem mailbox_accounting:
  assumes "ms_mailboxes (run mailboxStep NewMailboxService ops) key = Some mb"
  shows "mb_totalBytes mb = (\<Sum>f\<leftarrow>unacked (mb_frames mb). int (length (mbe_envelope f)))
    \<and> 0 \<le> mb_totalBytes mb \<and> mb_totalBytes mb \<le> maxMailboxBytesPerDev"
proof -
  have ok: "mb_ok mb" using mbm.run_good [OF ms_ok_new, of ops] assms by (auto simp: ms_ok_def)
  then have m: "map mbe_size (unacked (mb_frames mb)) = map (\<lambda>f. int (length (mbe_envelope f))) (unacked (mb_frames mb))"
    by (auto simp: mb_ok_def unacked_def)
  show ?thesis using ok unackedBytes_nonneg [OF ok] unfolding mb_ok_def unackedBytes_def m by simp
qed

text \<open>
  An envelope within the budget is always accepted: it becomes the newest frame with the next
  cursor, and the frames given up for it are the oldest unacknowledged ones, none when there was
  room.  An envelope beyond the budget is refused, but only after every unacknowledged frame of the
  device has been given up.
\<close>

theorem enqueue_evicts_oldest:
  fixes ops r d
  defines "ms \<equiv> run mailboxStep NewMailboxService ops"
  defines "pending \<equiv> \<lambda>ms. unacked (mb_frames (mailboxOf ms r d))"
  shows "if int (length e) \<le> maxMailboxBytesPerDev
    then fst (MailboxService_Enqueue now now' r d e meta ms) = Inr ()
       \<and> (\<exists>k f. pending (snd (MailboxService_Enqueue now now' r d e meta ms)) = drop k (pending ms) @ [f]
            \<and> mbe_envelope f = e \<and> mbe_cursor f = ms_seq ms + 1
            \<and> (k = 0 \<or> mb_totalBytes (mailboxOf ms r d) + int (length e) > maxMailboxBytesPerDev))
    else fst (MailboxService_Enqueue now now' r d e meta ms) = Inl MailboxCapacityExceeded
       \<and> pending (snd (MailboxService_Enqueue now now' r d e meta ms)) = []"
proof (cases "int (length e) > maxMailboxBytesPerDev")
  case True
  from Enqueue_big [OF _ this, of ms r d now now' meta] obtain mb where
      "unacked (mb_frames mb) = []" "MailboxService_Enqueue now now' r d e meta ms
        = (Inl MailboxCapacityExceeded, ms\<lparr>ms_mailboxes := (ms_mailboxes ms)(mailboxKey r d \<mapsto> mb)\<rparr>)"
    using mbm.run_good [OF ms_ok_new] unfolding ms_def by blast
  then show ?thesis using True by (simp add: pending_def)
next
  case False
  from Enqueue_small [OF _ this, of ms r d now now' meta] obtain mb k f where
      E: "unacked (mb_frames mb) = drop k (unacked (mb_frames (mailboxOf ms r d)))"
      "mb_totalBytes (mailboxOf ms r d) + int (length e) \<le> maxMailboxBytesPerDev \<longrightarrow> mb = mailboxOf ms r d"
      "mbe_cursor f = ms_seq ms + 1" "mbe_envelope f = e" "\<not> mbe_acked f"
      "MailboxService_Enqueue now now' r d e meta ms = (Inr (),
         ms\<lparr>ms_seq := ms_seq ms + 1, ms_mailboxes := (ms_mailboxes ms)(mailboxKey r d \<mapsto>
           mb\<lparr>mb_frames := mb_frames mb @ [f], mb_totalBytes := mb_totalBytes mb + int (length e)\<rparr>)\<rparr>)"
    using mbm.run_good [OF ms_ok_new] unfolding ms_def by blast
  have p: "pending (snd (MailboxService_Enqueue now now' r d e meta ms)) = unacked (mb_frames mb) @ [f]"
    using E(5,6) by (simp add: pending_def unacked_def mailboxOf_def)
  show ?thesis
  proof (cases "mb_totalBytes (mailboxOf ms r d) + int (length e) \<le> maxMailboxBytesPerDev")
    case True
    then show ?thesis using False E p by (auto simp: pending_def intro!: exI [of _ 0])
  next
    case over: False
    then show ?thesis using False E p by (auto simp: pending_def)
  qed
qed

text \<open>
  A fetch returns the oldest \<open>limit\<close> unacknowledged frames after the cursor, in order, and says
  whether there are more.  Continuing from the last returned frame misses nothing; continuing from
  the \<^verbatim>\<open>NextCursor\<close> of the answer skips exactly one frame, because that cursor is the first frame not
  returned and the next fetch starts strictly after it.
\<close>

theorem fetch_pages:
  fixes after :: u64 and limit :: int
  assumes "length ops < 2 ^ 64" and "0 < limit"
    and "ms_mailboxes (run mailboxStep NewMailboxService ops) (mailboxKey r d) = Some mb"
  defines "page \<equiv> MailboxService_Fetch r d after limit (run mailboxStep NewMailboxService ops)"
  defines "pending \<equiv> pendingAfter after (mb_frames mb)"
  shows "mfr_Frames page = map (\<lambda>f. (mbe_cursor f, mbe_envelope f)) (take (nat limit) pending)
    \<and> (mfr_HasMore page \<longleftrightarrow> nat limit < length pending)
    \<and> (mfr_HasMore page \<longrightarrow>
         pendingAfter (fst (last (mfr_Frames page))) (mb_frames mb) = drop (nat limit) pending
       \<and> pendingAfter (mfr_NextCursor page) (mb_frames mb) = drop (nat limit + 1) pending)"
proof -
  let ?n = "nat limit"
  have s: "sorted_wrt (<) (map mbe_cursor (mb_frames mb))"
    using ms_ordered_run [OF assms(1)] assms(3) by (auto simp: ms_ordered_def)
  have p: "page = \<lparr>mfr_Frames = map (\<lambda>f. (mbe_cursor f, mbe_envelope f)) (take ?n pending),
      mfr_HasMore = (?n < length pending),
      mfr_NextCursor = (if ?n < length pending then mbe_cursor (pending ! ?n) else 0)\<rparr>"
    using assms(2,3) by (simp add: page_def pending_def MailboxService_Fetch_def fetchLoop_exact Let_def)
  have "pendingAfter (fst (last (mfr_Frames page))) (mb_frames mb) = drop ?n pending" if "?n < length pending"
  proof -
    have "fst (last (mfr_Frames page)) = mbe_cursor (pending ! (?n - 1))"
    proof -
      have "take ?n pending \<noteq> []" using that assms(2) by auto
      then show ?thesis using that assms(2) by (simp add: p last_map last_conv_nth)
    qed
    then show ?thesis using pendingAfter_skip [OF s, of "?n - 1" after] that assms(2) by (simp add: pending_def)
  qed
  then show ?thesis using pendingAfter_skip [OF s, of ?n after] by (simp add: p pending_def)
qed

text \<open>Three one-byte envelopes for one device.\<close>

definition demoMail :: "MailboxOp list" where
  "demoMail = map (\<lambda>b. OpEnqueue 10 10 ''r'' ''d'' [b] None) [1, 2, 3]"

definition demoFrame :: "u64 \<Rightarrow> byte \<Rightarrow> mailboxEntry" where
  "demoFrame n b = \<lparr>mbe_cursor = n, mbe_envelope = [b], mbe_insertedAt = 10,
     mbe_expiresAt = 10 + defaultMailboxTTL, mbe_acked = False, mbe_size = 1, mbe_epochIndex = None,
     mbe_prekeyID = [], mbe_keyEpochID = [], mbe_counter = 0\<rparr>"

definition demoMailbox :: deviceMailbox where
  "demoMailbox = \<lparr>mb_routeID = ''r'', mb_deviceID = ''d'',
     mb_frames = [demoFrame 1 1, demoFrame 2 2, demoFrame 3 3], mb_totalBytes = 3\<rparr>"

lemma demo_mail_run:
  "ms_mailboxes (run mailboxStep NewMailboxService demoMail) (mailboxKey ''r'' ''d'') = Some demoMailbox"
  by (simp add: demoMail_def MailboxService_Enqueue_def Let_def NewMailboxService_def demoMailbox_def
      demoFrame_def maxMailboxBytesPerDev_def)

theorem mailbox_accounting_witness:
  "mb_totalBytes demoMailbox = (\<Sum>f\<leftarrow>unacked (mb_frames demoMailbox). int (length (mbe_envelope f)))"
  using mailbox_accounting [OF demo_mail_run] by blast

theorem fetch_pages_witness:
  "pendingAfter (mfr_NextCursor (MailboxService_Fetch ''r'' ''d'' 0 1 (run mailboxStep NewMailboxService demoMail)))
     (mb_frames demoMailbox) = [demoFrame 3 3]"
proof -
  have "length demoMail < 2 ^ 64" by (simp add: demoMail_def)
  from fetch_pages [OF this zero_less_one demo_mail_run, of 0] show ?thesis
    by (simp add: pendingAfter_def demoMailbox_def demoFrame_def)
qed

end
