(* ===== verification/Revision_Journal.thy ===== *)
theory Revision_Journal
  imports Bridge_Prelude
begin

text \<open>
  The revision journal of \<^verbatim>\<open>go-bridge/projection_revision_journal.go\<close>: per session a bounded suffix of
  the committed projection patches, from which a resuming client gets the patches between its
  revision and the head, or is told to take a full snapshot.

  The three maps of the source that share a key are one map to slots; an absent key is the empty
  slot.  Trimming loops are \<open>while_option\<close>; \<open>None\<close> is a loop that does not end (the source would
  index an empty slice there).  Values of types the journal only copies (turns, parts, views) are
  their JSON texts; \<^verbatim>\<open>cloneTurn\<close> and \<^verbatim>\<open>cloneProjectionPart\<close> copy such a value.  The length of
  \<^verbatim>\<open>json.Marshal(patch)\<close>, or its failure, is the argument \<open>enc\<close>.
\<close>

section \<open>Patches\<close>

record PartOp =
  po_TurnID :: string
  po_MessageID :: string
  po_Op :: string
  po_ItemID :: string
  po_Text :: string
  po_Part :: "string option"
  po_Parts :: "string list"

record ProjectionPatch =
  pp_BaseRev :: int
  pp_SyncRev :: int
  pp_Execution :: "string option"
  pp_UpsertTurns :: "string list"
  pp_PartOps :: "PartOp list"
  pp_TurnStateOps :: "string list"
  pp_ReplacesClientIDs :: "string list"
  pp_RemovedTurnIDs :: "string list"
  pp_PlanMode :: "string option"
  pp_SessionMode :: "string option"
  pp_CollaborationMode :: "string option"
  pp_CodexGoal :: "string option"
  pp_Goal :: "string option"

definition clonePartOp :: "PartOp \<Rightarrow> PartOp" where
  "clonePartOp op =
     \<lparr>po_TurnID = po_TurnID op, po_MessageID = po_MessageID op, po_Op = po_Op op, po_ItemID = [],
      po_Text = po_Text op, po_Part = po_Part op, po_Parts = po_Parts op\<rparr>"

definition cloneProjectionPatch :: "ProjectionPatch \<Rightarrow> ProjectionPatch" where
  "cloneProjectionPatch p =
     \<lparr>pp_BaseRev = pp_BaseRev p, pp_SyncRev = pp_SyncRev p, pp_Execution = pp_Execution p,
      pp_UpsertTurns = pp_UpsertTurns p, pp_PartOps = map clonePartOp (pp_PartOps p),
      pp_TurnStateOps = [], pp_ReplacesClientIDs = pp_ReplacesClientIDs p, pp_RemovedTurnIDs = [],
      pp_PlanMode = None, pp_SessionMode = None, pp_CollaborationMode = None, pp_CodexGoal = None,
      pp_Goal = None\<rparr>"

section \<open>The journal\<close>

record projectionJournalEntry =
  pje_patch :: ProjectionPatch
  pje_encodedBytes :: int
  pje_committedAt :: instant

record journalSlot =
  js_entries :: "projectionJournalEntry list"
  js_bytes :: int
  js_retainedAfter :: int

type_synonym projectionJournalKey = "string \<times> string"

record ProjectionRevisionJournal =
  prj_maxPatches :: int
  prj_maxBytes :: int
  prj_maxAge :: duration
  prj_slots :: "projectionJournalKey \<Rightarrow> journalSlot"

datatype ProjectionResumeFallbackReason = ProjectionResumeJournalGap | ProjectionResumeLimit

definition NewProjectionRevisionJournal :: "int \<Rightarrow> int \<Rightarrow> duration option \<Rightarrow> ProjectionRevisionJournal" where
  "NewProjectionRevisionJournal maxPatches maxBytes maxAge =
     \<lparr>prj_maxPatches = (if maxPatches \<le> 0 then 128 else maxPatches),
      prj_maxBytes = (if maxBytes \<le> 0 then 2097152 else maxBytes),
      prj_maxAge = (case maxAge of
                      Some a \<Rightarrow> if a > 0 then a else 30 * 60 * nanosPerSecond
                    | None \<Rightarrow> 30 * 60 * nanosPerSecond),
      prj_slots = (\<lambda>_. \<lparr>js_entries = [], js_bytes = 0, js_retainedAfter = 0\<rparr>)\<rparr>"

definition noteRetention :: "int \<Rightarrow> journalSlot \<Rightarrow> journalSlot" where
  "noteRetention throughRev s =
     (if throughRev > js_retainedAfter s then s\<lparr>js_retainedAfter := throughRev\<rparr> else s)"

text \<open>One turn of either trimming loop: the oldest entry leaves.\<close>

definition dropFirst :: "journalSlot \<Rightarrow> journalSlot" where
  "dropFirst s = (case js_entries s of
     [] \<Rightarrow> s
   | e # es \<Rightarrow> (noteRetention (pp_SyncRev (pje_patch e)) s)
                \<lparr>js_entries := es, js_bytes := js_bytes s - pje_encodedBytes e\<rparr>)"

definition purgeExpired :: "duration \<Rightarrow> instant \<Rightarrow> journalSlot \<Rightarrow> journalSlot option" where
  "purgeExpired maxAge now s =
     map_option (\<lambda>s'. if js_entries s' = [] then s'\<lparr>js_bytes := 0\<rparr> else s')
       (while_option (\<lambda>s. js_entries s \<noteq> [] \<and> timeSub now (pje_committedAt (hd (js_entries s))) > maxAge)
          dropFirst s)"

definition clearForLimit :: "int \<Rightarrow> journalSlot \<Rightarrow> journalSlot" where
  "clearForLimit throughRev s = (noteRetention throughRev s)\<lparr>js_entries := [], js_bytes := 0\<rparr>"

definition journal_clear :: "string \<Rightarrow> string \<Rightarrow> ProjectionRevisionJournal \<Rightarrow> ProjectionRevisionJournal" where
  "journal_clear backendID sessionID j =
     j\<lparr>prj_slots := (prj_slots j)((backendID, sessionID) :=
        (prj_slots j (backendID, sessionID))\<lparr>js_entries := [], js_bytes := 0\<rparr>)\<rparr>"

text \<open>The part of \<^verbatim>\<open>Record\<close> after the size check, on the slot of the key.\<close>

definition recordSlot ::
  "ProjectionRevisionJournal \<Rightarrow> projectionJournalEntry \<Rightarrow> journalSlot \<Rightarrow> (bool \<times> journalSlot) option" where
  "recordSlot j entry s0 =
     Option.bind (purgeExpired (prj_maxAge j) (pje_committedAt entry) s0) (\<lambda>s.
       let p = pje_patch entry in
       if js_entries s \<noteq> [] \<and> pp_SyncRev p \<le> pp_SyncRev (pje_patch (last (js_entries s)))
       then Some (False, s)
       else
         let s1 = (if js_entries s \<noteq> [] \<and> pp_BaseRev p \<noteq> pp_SyncRev (pje_patch (last (js_entries s)))
                   then s\<lparr>js_entries := [], js_bytes := 0\<rparr> else s);
             s2 = s1\<lparr>js_entries := js_entries s1 @ [entry], js_bytes := js_bytes s1 + pje_encodedBytes entry\<rparr>
         in map_option (Pair True)
              (while_option (over_limit js_entries js_bytes (prj_maxPatches j) (prj_maxBytes j)) dropFirst s2))"

definition Journal_Record ::
  "(ProjectionPatch \<Rightarrow> nat option) \<Rightarrow> instant \<Rightarrow> string \<Rightarrow> string \<Rightarrow> ProjectionPatch \<Rightarrow> ProjectionRevisionJournal
     \<Rightarrow> (bool \<times> ProjectionRevisionJournal) option" where
  "Journal_Record enc now backendID sessionID patch j =
     (if backendID = [] \<or> sessionID = [] \<or> pp_SyncRev patch \<le> pp_BaseRev patch then Some (False, j)
      else
        let key = (backendID, sessionID);
            cloned = cloneProjectionPatch patch;
            refuse = Some (False, j\<lparr>prj_slots := (prj_slots j)(key :=
                        clearForLimit (pp_SyncRev patch) (prj_slots j key))\<rparr>)
        in case enc cloned of
             None \<Rightarrow> refuse
           | Some n \<Rightarrow>
               if int n > prj_maxBytes j then refuse
               else map_option (\<lambda>(ok, s). (ok, j\<lparr>prj_slots := (prj_slots j)(key := s)\<rparr>))
                      (recordSlot j \<lparr>pje_patch = cloned, pje_encodedBytes = int n, pje_committedAt = now\<rparr>
                         (prj_slots j key)))"

fun contiguousLoop ::
  "int \<Rightarrow> int \<Rightarrow> bool \<Rightarrow> ProjectionPatch list \<Rightarrow> projectionJournalEntry list \<Rightarrow> ProjectionPatch list option" where
  "contiguousLoop headRev expected started patches [] = None"
| "contiguousLoop headRev expected started patches (e # es) =
     (let patch = pje_patch e in
      if \<not> started \<and> pp_BaseRev patch \<noteq> expected then contiguousLoop headRev expected started patches es
      else if pp_BaseRev patch \<noteq> expected \<or> pp_SyncRev patch > headRev then None
      else
        let patches' = patches @ [cloneProjectionPatch patch] in
        if pp_SyncRev patch = headRev then Some patches'
        else contiguousLoop headRev (pp_SyncRev patch) True patches' es)"

definition ContiguousRangeAt ::
  "string \<Rightarrow> string \<Rightarrow> int \<Rightarrow> int \<Rightarrow> instant \<Rightarrow> ProjectionRevisionJournal
     \<Rightarrow> ((ProjectionResumeFallbackReason, ProjectionPatch list) result \<times> ProjectionRevisionJournal) option" where
  "ContiguousRangeAt backendID sessionID sinceRev headRev now j =
     (if sinceRev \<le> 0 \<or> headRev \<le> sinceRev then Some (Inl ProjectionResumeJournalGap, j)
      else
        let key = (backendID, sessionID) in
        Option.bind (purgeExpired (prj_maxAge j) now (prj_slots j key)) (\<lambda>s.
          let j' = j\<lparr>prj_slots := (prj_slots j)(key := s)\<rparr> in
          if sinceRev < js_retainedAfter s then Some (Inl ProjectionResumeLimit, j')
          else case contiguousLoop headRev sinceRev False [] (js_entries s) of
                 None \<Rightarrow> Some (Inl ProjectionResumeJournalGap, j')
               | Some patches \<Rightarrow> Some (Inr patches, j')))"

section \<open>Runs\<close>

datatype JournalOp =
    OpRecord instant string string ProjectionPatch
  | OpContiguousRange string string int int instant
  | OpJournalClear string string

fun journalStep ::
  "(ProjectionPatch \<Rightarrow> nat option) \<Rightarrow> ProjectionRevisionJournal \<Rightarrow> JournalOp \<Rightarrow> ProjectionRevisionJournal option" where
  "journalStep enc j (OpRecord now b s p) = map_option snd (Journal_Record enc now b s p j)"
| "journalStep enc j (OpContiguousRange b s since head now) = map_option snd (ContiguousRangeAt b s since head now j)"
| "journalStep enc j (OpJournalClear b s) = Some (journal_clear b s j)"

text \<open>Beside the journal runs the list of all patches handed to it.\<close>

fun submittedPatch :: "JournalOp \<Rightarrow> (projectionJournalKey \<times> ProjectionPatch) list" where
  "submittedPatch (OpRecord now b s p) = [((b, s), p)]"
| "submittedPatch _ = []"

definition journalPair ::
  "(ProjectionPatch \<Rightarrow> nat option) \<Rightarrow> ProjectionRevisionJournal \<times> (projectionJournalKey \<times> ProjectionPatch) list
     \<Rightarrow> JournalOp \<Rightarrow> (ProjectionRevisionJournal \<times> (projectionJournalKey \<times> ProjectionPatch) list) option" where
  "journalPair enc s x = map_option (\<lambda>j. (j, snd s @ submittedPatch x)) (journalStep enc (fst s) x)"

text \<open>Patches that lead from one revision to another without a gap.\<close>

fun chain :: "int \<Rightarrow> ProjectionPatch list \<Rightarrow> int \<Rightarrow> bool" where
  "chain a [] b \<longleftrightarrow> a = b"
| "chain a (p # ps) b \<longleftrightarrow> pp_BaseRev p = a \<and> pp_BaseRev p < pp_SyncRev p \<and> chain (pp_SyncRev p) ps b"

definition linked :: "projectionJournalEntry list \<Rightarrow> bool" where
  "linked es \<longleftrightarrow> es = [] \<or> chain (pp_BaseRev (pje_patch (hd es))) (map pje_patch es) (pp_SyncRev (pje_patch (last es)))"

interpretation jq: eviction_queue js_entries js_bytes pje_encodedBytes dropFirst
proof
  fix s :: journalSlot assume "js_entries s \<noteq> []"
  then show "js_entries (dropFirst s) = tl (js_entries s)"
    and "js_bytes (dropFirst s) = js_bytes s - pje_encodedBytes (hd (js_entries s))"
    by (auto simp: dropFirst_def noteRetention_def split: list.split)
qed

definition slot_ok :: "int \<Rightarrow> int \<Rightarrow> journalSlot \<Rightarrow> bool" where
  "slot_ok maxPatches maxBytes s \<longleftrightarrow> balanced js_entries js_bytes pje_encodedBytes s
   \<and> (\<forall>e\<in>set (js_entries s). 0 \<le> pje_encodedBytes e)
   \<and> \<not> over_limit js_entries js_bytes maxPatches maxBytes s \<and> linked (js_entries s)"

definition journal_ok :: "ProjectionRevisionJournal \<times> (projectionJournalKey \<times> ProjectionPatch) list \<Rightarrow> bool" where
  "journal_ok s \<longleftrightarrow> 0 < prj_maxPatches (fst s) \<and> 0 < prj_maxBytes (fst s)
   \<and> (\<forall>key. slot_ok (prj_maxPatches (fst s)) (prj_maxBytes (fst s)) (prj_slots (fst s) key)
        \<and> (\<forall>e\<in>set (js_entries (prj_slots (fst s) key)).
             \<exists>p. (key, p) \<in> set (snd s) \<and> pje_patch e = cloneProjectionPatch p))"

lemma clone_revs [simp]:
  "pp_BaseRev (cloneProjectionPatch p) = pp_BaseRev p" "pp_SyncRev (cloneProjectionPatch p) = pp_SyncRev p"
  by (simp_all add: cloneProjectionPatch_def)

lemma clone_clone [simp]: "cloneProjectionPatch (cloneProjectionPatch p) = cloneProjectionPatch p"
  by (simp add: cloneProjectionPatch_def clonePartOp_def)

lemma chain_append: "chain a (ps @ qs) c \<longleftrightarrow> (\<exists>b. chain a ps b \<and> chain b qs c)"
  by (induction ps arbitrary: a) auto

lemma chain_clone: "chain a (map cloneProjectionPatch ps) b \<longleftrightarrow> chain a ps b"
  by (induction ps arbitrary: a) auto

lemma linked_tl: "linked es \<Longrightarrow> linked (tl es)"
proof (cases es)
  case (Cons e fs)
  assume "linked es"
  with Cons show ?thesis by (cases fs) (auto simp: linked_def)
qed (simp add: linked_def)

lemma linked_drop: "linked es \<Longrightarrow> linked (drop k es)"
  by (induction k) (auto simp: drop_Suc tl_drop [symmetric] linked_tl)

lemma linked_snoc:
  assumes "linked es" and "es = [] \<or> pp_BaseRev (pje_patch e) = pp_SyncRev (pje_patch (last es))"
    and "pp_BaseRev (pje_patch e) < pp_SyncRev (pje_patch e)"
  shows "linked (es @ [e])"
  using assms by (cases es) (auto simp: linked_def chain_append)

lemma slot_ok_drop:
  assumes "slot_ok n c s" and "js_entries s' = drop k (js_entries s)" and "balanced js_entries js_bytes pje_encodedBytes s'"
  shows "slot_ok n c s'"
proof -
  have "sum_list (map pje_encodedBytes (drop k (js_entries s))) \<le> sum_list (map pje_encodedBytes (js_entries s))"
    using assms(1) sum_list_nonneg [of "map pje_encodedBytes (take k (js_entries s))"]
    by (subst (2) append_take_drop_id [symmetric, of _ k], subst map_append, subst sum_list_append)
      (auto simp: slot_ok_def dest: in_set_takeD)
  with assms show ?thesis
    by (auto simp: slot_ok_def over_limit_def balanced_def linked_drop dest: in_set_dropD)
qed

lemma purge_ok:
  assumes "slot_ok n c s"
  shows "\<exists>s' k. purgeExpired age now s = Some s' \<and> slot_ok n c s' \<and> js_entries s' = drop k (js_entries s)"
proof -
  let ?old = "\<lambda>e. timeSub now (pje_committedAt e) > age"
  obtain k where k: "while_option (\<lambda>s. js_entries s \<noteq> [] \<and> ?old (hd (js_entries s))) dropFirst s = Some ((dropFirst ^^ k) s)"
      "js_entries ((dropFirst ^^ k) s) = dropWhile ?old (js_entries s)"
      "balanced js_entries js_bytes pje_encodedBytes ((dropFirst ^^ k) s)"
    using jq.expire_front [of s ?old] assms by (auto simp: slot_ok_def)
  obtain m where m: "dropWhile ?old (js_entries s) = drop m (js_entries s)" using dropWhile_eq_drop by blast
  let ?s = "if js_entries ((dropFirst ^^ k) s) = [] then ((dropFirst ^^ k) s)\<lparr>js_bytes := 0\<rparr> else (dropFirst ^^ k) s"
  have "js_entries ?s = drop m (js_entries s)" "balanced js_entries js_bytes pje_encodedBytes ?s"
    using k(2,3) m by (auto simp: balanced_def)
  with slot_ok_drop [OF assms] k(1) show ?thesis by (auto simp: purgeExpired_def)
qed

lemma record_ok:
  assumes ok: "slot_ok (prj_maxPatches j) (prj_maxBytes j) s" and pos: "0 < prj_maxPatches j" "0 < prj_maxBytes j"
    and b: "0 \<le> pje_encodedBytes e" and rev: "pp_BaseRev (pje_patch e) < pp_SyncRev (pje_patch e)"
  shows "\<exists>r s'. recordSlot j e s = Some (r, s') \<and> slot_ok (prj_maxPatches j) (prj_maxBytes j) s'
    \<and> set (js_entries s') \<subseteq> insert e (set (js_entries s))"
proof -
  obtain s1 k where s1: "purgeExpired (prj_maxAge j) (pje_committedAt e) s = Some s1"
      "slot_ok (prj_maxPatches j) (prj_maxBytes j) s1" "js_entries s1 = drop k (js_entries s)"
    using purge_ok [OF ok] by blast
  have sub: "set (js_entries s1) \<subseteq> set (js_entries s)" using s1(3) by (auto dest: in_set_dropD)
  show ?thesis
  proof (cases "js_entries s1 \<noteq> [] \<and> pp_SyncRev (pje_patch e) \<le> pp_SyncRev (pje_patch (last (js_entries s1)))")
    case True
    then show ?thesis using s1 sub by (auto simp: recordSlot_def)
  next
    case False
    define s2 where "s2 = (if js_entries s1 \<noteq> [] \<and> pp_BaseRev (pje_patch e) \<noteq> pp_SyncRev (pje_patch (last (js_entries s1)))
                   then s1\<lparr>js_entries := [], js_bytes := 0\<rparr> else s1)"
    let ?s3 = "s2\<lparr>js_entries := js_entries s2 @ [e], js_bytes := js_bytes s2 + pje_encodedBytes e\<rparr>"
    have s2: "balanced js_entries js_bytes pje_encodedBytes s2" "linked (js_entries s2)"
        "\<forall>e\<in>set (js_entries s2). 0 \<le> pje_encodedBytes e" "set (js_entries s2) \<subseteq> set (js_entries s)"
        "js_entries s2 = [] \<or> pp_BaseRev (pje_patch e) = pp_SyncRev (pje_patch (last (js_entries s2)))"
      using s1(2) sub by (auto simp: s2_def slot_ok_def balanced_def linked_def)
    have b3: "balanced js_entries js_bytes pje_encodedBytes ?s3" using s2(1) by (simp add: balanced_def)
    have l3: "linked (js_entries ?s3)" using linked_snoc [OF s2(2,5) rev] by simp
    obtain m where m: "while_option (over_limit js_entries js_bytes (prj_maxPatches j) (prj_maxBytes j)) dropFirst ?s3
          = Some ((dropFirst ^^ m) ?s3)" "js_entries ((dropFirst ^^ m) ?s3) = drop m (js_entries ?s3)"
        "balanced js_entries js_bytes pje_encodedBytes ((dropFirst ^^ m) ?s3)"
        "\<not> over_limit js_entries js_bytes (prj_maxPatches j) (prj_maxBytes j) ((dropFirst ^^ m) ?s3)"
      using jq.enforce_limits [OF b3, of "prj_maxPatches j" "prj_maxBytes j"] pos by (auto simp: less_imp_le)
    have "set (js_entries ((dropFirst ^^ m) ?s3)) \<subseteq> insert e (set (js_entries s))"
      unfolding m(2) using s2(4) by (auto dest!: in_set_dropD)
    moreover have "slot_ok (prj_maxPatches j) (prj_maxBytes j) ((dropFirst ^^ m) ?s3)"
      unfolding slot_ok_def m(2) using m(3,4) linked_drop [OF l3, of m] s2(3) b by (auto dest!: in_set_dropD)
    moreover have "recordSlot j e s = Some (True, (dropFirst ^^ m) ?s3)"
      using s1(1) False m(1) by (simp add: recordSlot_def Let_def s2_def)
    ultimately show ?thesis by blast
  qed
qed

lemma journal_upd:
  assumes "journal_ok (j, R)" and "slot_ok (prj_maxPatches j) (prj_maxBytes j) s"
    and "\<And>e. e \<in> set (js_entries s) \<Longrightarrow> \<exists>p. (key, p) \<in> set (R @ R') \<and> pje_patch e = cloneProjectionPatch p"
  shows "journal_ok (j\<lparr>prj_slots := (prj_slots j)(key := s)\<rparr>, R @ R')"
proof -
  have old: "slot_ok (prj_maxPatches j) (prj_maxBytes j) (prj_slots j k)
      \<and> (\<forall>e\<in>set (js_entries (prj_slots j k)). \<exists>p. (k, p) \<in> set (R @ R') \<and> pje_patch e = cloneProjectionPatch p)" for k
    using assms(1) unfolding journal_ok_def fst_conv snd_conv set_append by blast
  have "slot_ok (prj_maxPatches j) (prj_maxBytes j) (((prj_slots j)(key := s)) k)
      \<and> (\<forall>e\<in>set (js_entries (((prj_slots j)(key := s)) k)).
           \<exists>p. (k, p) \<in> set (R @ R') \<and> pje_patch e = cloneProjectionPatch p)" for k
    using old [of k] assms(2,3) by (cases "k = key") auto
  then show ?thesis using assms(1) by (simp add: journal_ok_def del: fun_upd_apply split_paired_All)
qed

lemma journal_grow: "journal_ok (j, R) \<Longrightarrow> journal_ok (j, R @ R')"
  unfolding journal_ok_def fst_conv snd_conv set_append by blast

lemma journal_slot: "journal_ok (j, R) \<Longrightarrow> slot_ok (prj_maxPatches j) (prj_maxBytes j) (prj_slots j key)"
  by (simp add: journal_ok_def del: split_paired_All)

lemma journal_entry:
  "journal_ok (j, R) \<Longrightarrow> e \<in> set (js_entries (prj_slots j key)) \<Longrightarrow>
   \<exists>p. (key, p) \<in> set R \<and> pje_patch e = cloneProjectionPatch p"
  by (simp add: journal_ok_def del: split_paired_All split_paired_Ex)

lemma slot_ok_empty:
  "journal_ok (j, R) \<Longrightarrow> slot_ok (prj_maxPatches j) (prj_maxBytes j) (s\<lparr>js_entries := [], js_bytes := 0\<rparr>)"
  by (simp add: journal_ok_def slot_ok_def balanced_def over_limit_def linked_def)

lemma journal_record:
  assumes ok: "journal_ok (j, R)"
  shows "\<exists>r j'. Journal_Record enc now b se p j = Some (r, j') \<and> journal_ok (j', R @ [((b, se), p)])"
proof -
  let ?key = "(b, se)"
  consider "b = [] \<or> se = [] \<or> pp_SyncRev p \<le> pp_BaseRev p"
    | "\<not> (b = [] \<or> se = [] \<or> pp_SyncRev p \<le> pp_BaseRev p)"
      "enc (cloneProjectionPatch p) = None \<or> (\<exists>n. enc (cloneProjectionPatch p) = Some n \<and> int n > prj_maxBytes j)"
    | n where "\<not> (b = [] \<or> se = [] \<or> pp_SyncRev p \<le> pp_BaseRev p)"
      "enc (cloneProjectionPatch p) = Some n" "\<not> int n > prj_maxBytes j"
    by (cases "enc (cloneProjectionPatch p)") auto
  then show ?thesis
  proof cases
    case 1
    then show ?thesis using journal_grow [OF ok] by (auto simp: Journal_Record_def)
  next
    case 2
    have "journal_ok (j\<lparr>prj_slots := (prj_slots j)(?key := clearForLimit (pp_SyncRev p) (prj_slots j ?key))\<rparr>, R @ [(?key, p)])"
      unfolding clearForLimit_def by (rule journal_upd [OF ok slot_ok_empty [OF ok]]) simp
    then show ?thesis using 2 by (auto simp: Journal_Record_def Let_def split: option.split)
  next
    case 3
    let ?e = "\<lparr>pje_patch = cloneProjectionPatch p, pje_encodedBytes = int n, pje_committedAt = now\<rparr>"
    have pos: "0 < prj_maxPatches j" "0 < prj_maxBytes j" using ok by (auto simp: journal_ok_def)
    obtain r s where r: "recordSlot j ?e (prj_slots j ?key) = Some (r, s)"
        "slot_ok (prj_maxPatches j) (prj_maxBytes j) s" "set (js_entries s) \<subseteq> insert ?e (set (js_entries (prj_slots j ?key)))"
      using record_ok [OF journal_slot [OF ok] pos, of ?e ?key] 3(1) by auto
    have "\<exists>q. (?key, q) \<in> set (R @ [(?key, p)]) \<and> pje_patch e = cloneProjectionPatch q" if "e \<in> set (js_entries s)" for e
      using that r(3) journal_entry [OF ok, of e ?key] by fastforce
    from journal_upd [OF ok r(2) this] show ?thesis using 3 r(1) by (simp add: Journal_Record_def Let_def)
  qed
qed

lemma journal_range:
  assumes ok: "journal_ok (j, R)"
  shows "\<exists>r j'. ContiguousRangeAt b se since head now j = Some (r, j') \<and> journal_ok (j', R)"
proof -
  obtain s k where p: "purgeExpired (prj_maxAge j) now (prj_slots j (b, se)) = Some s"
      "slot_ok (prj_maxPatches j) (prj_maxBytes j) s" "js_entries s = drop k (js_entries (prj_slots j (b, se)))"
    using purge_ok [OF journal_slot [OF ok]] by blast
  have "\<exists>q. ((b, se), q) \<in> set (R @ []) \<and> pje_patch e = cloneProjectionPatch q" if "e \<in> set (js_entries s)" for e
    using that p(3) journal_entry [OF ok, of e "(b, se)"] by (auto dest!: in_set_dropD)
  from journal_upd [OF ok p(2) this] show ?thesis using ok p(1)
    by (auto simp: ContiguousRangeAt_def Let_def split: option.split)
qed

lemma journal_cleared: "journal_ok (j, R) \<Longrightarrow> journal_ok (journal_clear b se j, R)"
  unfolding journal_clear_def using journal_upd [of j R _ "(b, se)" "[]", OF _ slot_ok_empty] by simp

interpretation jm: looping_machine "journalPair enc" journal_ok
proof
  fix s x assume ok: "journal_ok s"
  obtain j R where s: "s = (j, R)" by fastforce
  show "\<exists>s'. journalPair enc s x = Some s' \<and> journal_ok s'"
  proof (cases x)
    case (OpRecord now b se p)
    then show ?thesis using ok journal_record [of j R enc now b se p] by (auto simp: s journalPair_def)
  next
    case (OpContiguousRange b se since head now)
    then show ?thesis using ok journal_range [of j R b se since head now] by (auto simp: s journalPair_def)
  next
    case (OpJournalClear b se)
    then show ?thesis using ok by (simp add: s journalPair_def journal_cleared)
  qed
qed

lemma journal_ok_new: "journal_ok (NewProjectionRevisionJournal n c a, [])"
  by (simp add: journal_ok_def NewProjectionRevisionJournal_def slot_ok_def balanced_def over_limit_def linked_def)

section \<open>Resuming\<close>

lemma contiguous_sound:
  "contiguousLoop headRev expected started acc es = Some ps \<Longrightarrow>
   \<forall>e\<in>set es. pp_BaseRev (pje_patch e) < pp_SyncRev (pje_patch e) \<Longrightarrow>
   \<exists>qs. ps = acc @ map cloneProjectionPatch qs \<and> qs \<noteq> [] \<and> set qs \<subseteq> pje_patch ` set es \<and> chain expected qs headRev"
proof (induction headRev expected started acc es rule: contiguousLoop.induct)
  case (2 headRev expected started acc e es)
  let ?p = "pje_patch e"
  consider "\<not> started \<and> pp_BaseRev ?p \<noteq> expected"
    | "pp_BaseRev ?p = expected" "pp_SyncRev ?p = headRev" "ps = acc @ [cloneProjectionPatch ?p]"
    | "pp_BaseRev ?p = expected" "pp_SyncRev ?p \<noteq> headRev" "\<not> pp_SyncRev ?p > headRev"
      "contiguousLoop headRev (pp_SyncRev ?p) True (acc @ [cloneProjectionPatch ?p]) es = Some ps"
    using "2.prems"(1) by (auto simp: Let_def split: if_splits)
  then show ?case
  proof cases
    case 1
    then show ?thesis using "2.IH"(1) [OF refl 1] "2.prems" by (fastforce simp: Let_def)
  next
    case 2
    then show ?thesis using "2.prems"(2) by (intro exI [of _ "[?p]"]) auto
  next
    case 3
    have ns: "\<not> (\<not> started \<and> pp_BaseRev ?p \<noteq> expected)" "\<not> (pp_BaseRev ?p \<noteq> expected \<or> pp_SyncRev ?p > headRev)"
      using 3 by auto
    obtain qs where "ps = (acc @ [cloneProjectionPatch ?p]) @ map cloneProjectionPatch qs"
        "set qs \<subseteq> pje_patch ` set es" "chain (pp_SyncRev ?p) qs headRev"
      using "2.IH"(2) [OF refl ns refl 3(2) 3(4)] "2.prems"(2) by auto
    then show ?thesis using 3(1) "2.prems"(2) by (intro exI [of _ "?p # qs"]) auto
  qed
qed simp

lemma chain_mono: "chain a ps b \<Longrightarrow> a \<le> b"
  by (induction ps arbitrary: a) force+

lemma contiguous_tail:
  "chain expected (map pje_patch es) headRev \<Longrightarrow> es \<noteq> [] \<Longrightarrow>
   contiguousLoop headRev expected started acc es = Some (acc @ map (cloneProjectionPatch \<circ> pje_patch) es)"
proof (induction es arbitrary: expected started acc)
  case (Cons e es)
  have le: "pp_SyncRev (pje_patch e) \<le> headRev" using Cons.prems(1) chain_mono by auto
  show ?case
  proof (cases "es = []")
    case True
    then show ?thesis using Cons.prems(1) by (simp add: Let_def)
  next
    case False
    then have "pp_SyncRev (pje_patch e) \<noteq> headRev"
      using Cons.prems(1) chain_mono by (cases es) fastforce+
    then show ?thesis using Cons.prems(1) le False Cons.IH by (simp add: Let_def)
  qed
qed simp

lemma contiguous_skip:
  "\<forall>e\<in>set pre. pp_BaseRev (pje_patch e) \<noteq> expected \<Longrightarrow>
   contiguousLoop headRev expected False acc (pre @ es) = contiguousLoop headRev expected False acc es"
  by (induction pre) (auto simp: Let_def)

lemma linked_base_less:
  "linked (pre @ e # es) \<Longrightarrow> x \<in> set pre \<Longrightarrow> pp_BaseRev (pje_patch x) < pp_BaseRev (pje_patch e)"
proof -
  assume l: "linked (pre @ e # es)" and x: "x \<in> set pre"
  then obtain a b where "chain a (map pje_patch pre) b" "pp_BaseRev (pje_patch e) = b"
    by (auto simp: linked_def chain_append)
  moreover have "chain a (map pje_patch xs) b \<Longrightarrow> x \<in> set xs \<Longrightarrow> pp_BaseRev (pje_patch x) < b" for a b xs
    by (induction xs arbitrary: a) (auto dest: chain_mono)
  ultimately show ?thesis using x by blast
qed

lemma linked_revs: "linked es \<Longrightarrow> \<forall>e\<in>set es. pp_BaseRev (pje_patch e) < pp_SyncRev (pje_patch e)"
proof -
  have "chain a (map pje_patch xs) b \<Longrightarrow> \<forall>e\<in>set xs. pp_BaseRev (pje_patch e) < pp_SyncRev (pje_patch e)" for a b xs
    by (induction xs arbitrary: a) auto
  then show "linked es \<Longrightarrow> ?thesis" by (auto simp: linked_def)
qed

section \<open>A concrete journal\<close>

definition demoPatch :: "int \<Rightarrow> ProjectionPatch" where
  "demoPatch n = \<lparr>pp_BaseRev = n, pp_SyncRev = n + 1, pp_Execution = None, pp_UpsertTurns = [''t''],
     pp_PartOps = [], pp_TurnStateOps = [], pp_ReplacesClientIDs = [], pp_RemovedTurnIDs = [],
     pp_PlanMode = None, pp_SessionMode = None, pp_CollaborationMode = None, pp_CodexGoal = None, pp_Goal = None\<rparr>"

abbreviation demoPatchLen :: "ProjectionPatch \<Rightarrow> nat option" where
  "demoPatchLen p \<equiv> Some 300"

definition demoJournal :: "projectionJournalEntry list \<Rightarrow> int \<Rightarrow> ProjectionRevisionJournal" where
  "demoJournal es n = (NewProjectionRevisionJournal 0 0 None)\<lparr>prj_slots :=
     (\<lambda>_. \<lparr>js_entries = [], js_bytes = 0, js_retainedAfter = 0\<rparr>)((''codex'', ''s'') :=
        \<lparr>js_entries = es, js_bytes = n, js_retainedAfter = 0\<rparr>)\<rparr>"

definition demoEntry :: "int \<Rightarrow> projectionJournalEntry" where
  "demoEntry n = \<lparr>pje_patch = demoPatch n, pje_encodedBytes = 300, pje_committedAt = 50\<rparr>"

lemma demo_clone: "cloneProjectionPatch (demoPatch n) = demoPatch n"
  by (simp add: cloneProjectionPatch_def demoPatch_def)

lemmas demo_journal_defs = demoJournal_def demoEntry_def demoPatch_def NewProjectionRevisionJournal_def

lemma demo_record_1:
  "Journal_Record demoPatchLen 50 ''codex'' ''s'' (demoPatch 5) (NewProjectionRevisionJournal 0 0 None)
     = Some (True, demoJournal [demoEntry 5] 300)"
  unfolding Journal_Record_def demo_clone Let_def
  by (simp add: recordSlot_def purgeExpired_def while_option_unfold over_limit_def Let_def demo_journal_defs)

lemma demo_record_2:
  "Journal_Record demoPatchLen 50 ''codex'' ''s'' (demoPatch 6) (demoJournal [demoEntry 5] 300)
     = Some (True, demoJournal [demoEntry 5, demoEntry 6] 600)"
  unfolding Journal_Record_def demo_clone Let_def
  by (simp add: recordSlot_def purgeExpired_def while_option_unfold over_limit_def Let_def timeSub_def
      minDuration_def maxDuration_def demo_journal_defs)

lemma demo_journal_run:
  "runM (journalPair demoPatchLen) (NewProjectionRevisionJournal 0 0 None, [])
      [OpRecord 50 ''codex'' ''s'' (demoPatch 5), OpRecord 50 ''codex'' ''s'' (demoPatch 6)]
   = Some (demoJournal [demoEntry 5, demoEntry 6] 600,
       [((''codex'', ''s''), demoPatch 5), ((''codex'', ''s''), demoPatch 6)])"
  by (simp add: journalPair_def demo_record_1 demo_record_2)

lemma demo_range:
  "ContiguousRangeAt ''codex'' ''s'' 5 7 60 (demoJournal [demoEntry 5, demoEntry 6] 600)
     = Some (Inr [demoPatch 5, demoPatch 6], demoJournal [demoEntry 5, demoEntry 6] 600)"
  by (simp add: ContiguousRangeAt_def purgeExpired_def while_option_unfold Let_def timeSub_def
      minDuration_def maxDuration_def demo_journal_defs cloneProjectionPatch_def)

section \<open>Properties\<close>

text \<open>
  Every operation of the journal returns (no trimming loop runs off an empty slice), and each
  session's suffix stays within the limits: at most the configured number of patches, and a byte
  counter that is the sum of the encoded sizes and at most the configured bytes.
\<close>

theorem journal_bounded:
  "\<exists>j R. runM (journalPair enc) (NewProjectionRevisionJournal maxPatches maxBytes maxAge, []) ops = Some (j, R)
     \<and> int (length (js_entries (prj_slots j key))) \<le> prj_maxPatches j
     \<and> js_bytes (prj_slots j key) = sum_list (map pje_encodedBytes (js_entries (prj_slots j key)))
     \<and> js_bytes (prj_slots j key) \<le> prj_maxBytes j"
proof -
  obtain j R where r: "runM (journalPair enc) (NewProjectionRevisionJournal maxPatches maxBytes maxAge, []) ops = Some (j, R)"
      "journal_ok (j, R)" using jm.runM_returns [OF journal_ok_new] by (metis surj_pair)
  then show ?thesis using journal_slot [OF r(2), of key]
    by (auto simp: slot_ok_def over_limit_def balanced_def)
qed

lemma range_sound:
  assumes ok: "journal_ok (j, R)"
    and range: "ContiguousRangeAt backendID sessionID sinceRev headRev now j = Some (Inr patches, j')"
  shows "chain sinceRev patches headRev \<and> patches \<noteq> []
    \<and> set patches \<subseteq> cloneProjectionPatch ` {p. ((backendID, sessionID), p) \<in> set R}"
proof -
  obtain s k where p: "purgeExpired (prj_maxAge j) now (prj_slots j (backendID, sessionID)) = Some s"
      "slot_ok (prj_maxPatches j) (prj_maxBytes j) s" "js_entries s = drop k (js_entries (prj_slots j (backendID, sessionID)))"
    using purge_ok [OF journal_slot [OF ok]] by blast
  have "contiguousLoop headRev sinceRev False [] (js_entries s) = Some patches"
    using range p(1) by (auto simp: ContiguousRangeAt_def Let_def split: if_splits option.splits)
  from contiguous_sound [OF this] obtain qs where q: "patches = map cloneProjectionPatch qs" "qs \<noteq> []"
      "set qs \<subseteq> pje_patch ` set (js_entries s)" "chain sinceRev qs headRev"
    using p(2) linked_revs by (auto simp: slot_ok_def)
  have "set patches \<subseteq> cloneProjectionPatch ` {p. ((backendID, sessionID), p) \<in> set R}"
  proof
    fix x assume "x \<in> set patches"
    then obtain e where "e \<in> set (js_entries s)" "x = cloneProjectionPatch (pje_patch e)" using q(1,3) by auto
    then show "x \<in> cloneProjectionPatch ` {p. ((backendID, sessionID), p) \<in> set R}"
      using journal_entry [OF ok, of e "(backendID, sessionID)"] p(3) by (auto dest!: in_set_dropD)
  qed
  then show ?thesis using q chain_clone by auto
qed

text \<open>
  C7: a resume never skips or invents a revision: the patches returned for a range lead from the
  client's revision to the head one after the other without a gap, and each is the stored copy of a
  patch that was recorded for that very session.
\<close>

theorem resume_contiguous:
  assumes "runM (journalPair enc) (NewProjectionRevisionJournal maxPatches maxBytes maxAge, []) ops = Some (j, R)"
    and "ContiguousRangeAt backendID sessionID sinceRev headRev now j = Some (Inr patches, j')"
  shows "chain sinceRev patches headRev \<and> patches \<noteq> []
    \<and> set patches \<subseteq> cloneProjectionPatch ` {p. ((backendID, sessionID), p) \<in> set R}"
  by (rule range_sound [OF jm.runM_good [OF journal_ok_new assms(1)] assms(2)])

theorem resume_contiguous_witness: "chain 5 [demoPatch 5, demoPatch 6] 7"
  using resume_contiguous [OF demo_journal_run demo_range] by blast

text \<open>
  A resume from any revision the journal still holds is served: when an entry that has not
  expired starts at the client's revision, nothing beyond that revision was given up, and the head
  is the last recorded revision, the patches from that entry on are returned.
\<close>

theorem resume_served:
  assumes "runM (journalPair enc) (NewProjectionRevisionJournal maxPatches maxBytes maxAge, []) ops = Some (j, R)"
    and "purgeExpired (prj_maxAge j) now (prj_slots j (backendID, sessionID)) = Some s"
    and "js_entries s = pre @ e # es" and "0 < pp_BaseRev (pje_patch e)"
    and "js_retainedAfter s \<le> pp_BaseRev (pje_patch e)"
  shows "\<exists>j'. ContiguousRangeAt backendID sessionID (pp_BaseRev (pje_patch e))
            (pp_SyncRev (pje_patch (last (e # es)))) now j
      = Some (Inr (map (cloneProjectionPatch \<circ> pje_patch) (e # es)), j')"
proof -
  have ok: "journal_ok (j, R)" using jm.runM_good [OF journal_ok_new assms(1)] .
  have l: "linked (js_entries s)"
    using purge_ok [OF journal_slot [OF ok], of "prj_maxAge j" now "(backendID, sessionID)"] assms(2)
    by (auto simp: slot_ok_def)
  let ?b = "pp_BaseRev (pje_patch e)" and ?h = "pp_SyncRev (pje_patch (last (e # es)))"
  have skip: "\<forall>x\<in>set pre. pp_BaseRev (pje_patch x) \<noteq> ?b" using linked_base_less l assms(3) by force
  have "linked (e # es)" using linked_drop [OF l, of "length pre"] assms(3) by simp
  then have c: "chain ?b (map pje_patch (e # es)) ?h" by (simp add: linked_def)
  then have "?b < ?h" using chain_mono [of "pp_SyncRev (pje_patch e)"] by fastforce
  moreover have "contiguousLoop ?h ?b False [] (js_entries s) = Some (map (cloneProjectionPatch \<circ> pje_patch) (e # es))"
    using contiguous_tail [OF c, of False "[]"] contiguous_skip [OF skip] assms(3) by simp
  ultimately show ?thesis using assms(2,4,5) by (simp add: ContiguousRangeAt_def Let_def)
qed

theorem resume_served_witness:
  "\<exists>j'. ContiguousRangeAt ''codex'' ''s'' 6 7 60 (demoJournal [demoEntry 5, demoEntry 6] 600)
     = Some (Inr [demoPatch 6], j')"
proof -
  let ?j = "demoJournal [demoEntry 5, demoEntry 6] 600"
  have p: "purgeExpired (prj_maxAge ?j) 60 (prj_slots ?j (''codex'', ''s'')) = Some (prj_slots ?j (''codex'', ''s''))"
    by (simp add: purgeExpired_def while_option_unfold timeSub_def minDuration_def maxDuration_def demo_journal_defs)
  have e: "js_entries (prj_slots ?j (''codex'', ''s'')) = [demoEntry 5] @ demoEntry 6 # []"
    "js_retainedAfter (prj_slots ?j (''codex'', ''s'')) \<le> pp_BaseRev (pje_patch (demoEntry 6))"
    "0 < pp_BaseRev (pje_patch (demoEntry 6))"
    by (simp_all add: demo_journal_defs)
  show ?thesis using resume_served [OF demo_journal_run p e(1,3,2)] by (simp add: demo_clone) (simp add: demoEntry_def demoPatch_def cloneProjectionPatch_def)
qed

text \<open>
  The journal's copy of a patch is the patch only when the patch has none of the fields the
  copy leaves out: turn-state operations, removed turns, plan, session and collaboration mode, the
  two goals, and the item id of a part operation.  A patch that carries one of them is resumed
  without it.
\<close>

theorem clone_lossless_iff:
  "cloneProjectionPatch p = p \<longleftrightarrow>
     pp_TurnStateOps p = [] \<and> pp_RemovedTurnIDs p = [] \<and> pp_PlanMode p = None \<and> pp_SessionMode p = None
   \<and> pp_CollaborationMode p = None \<and> pp_CodexGoal p = None \<and> pp_Goal p = None
   \<and> list_all (\<lambda>op. po_ItemID op = []) (pp_PartOps p)"
proof -
  have "clonePartOp op = op \<longleftrightarrow> po_ItemID op = []" for op by (cases op) (auto simp: clonePartOp_def)
  then have "map clonePartOp ops = ops \<longleftrightarrow> list_all (\<lambda>op. po_ItemID op = []) ops" for ops
    by (induction ops) auto
  then show ?thesis by (cases p) (auto simp: cloneProjectionPatch_def)
qed

end
