(* ===== verification/Event_Buffer.thy ===== *)
theory Event_Buffer
  imports Bridge_Prelude
begin

text \<open>
  The replay buffer of \<^verbatim>\<open>go-bridge/event_buffer.go\<close>: a bounded log of published session events from
  which a reconnecting client replays what it missed.  Non-replayable events are kept as tombstones
  without their content; expired and excess records are evicted from the front, and the greatest
  evicted sequence number of each session is remembered so that a gap is never replayed silently.

  The eviction loops are \<open>while_option\<close>: an operation is \<open>None\<close> when a loop would not end.  The
  length of \<^verbatim>\<open>json.Marshal(message)\<close> is the argument \<open>enc\<close> of the operations.  The clock is the
  argument \<open>now\<close>.
\<close>

section \<open>Data\<close>

definition eventTombstoneMetadataCost :: int where
  "eventTombstoneMetadataCost = 96"

text \<open>\<^verbatim>\<open>Data\<close> is an arbitrary value: its JSON text, or \<open>None\<close> for \<^verbatim>\<open>nil\<close>.\<close>

record EventMessage =
  em_Type :: string
  em_EventID :: string
  em_Seq :: int
  em_PerSessionSeq :: int
  em_BridgeEpoch :: string
  em_SessionID :: string
  em_BackendID :: string
  em_Event :: string
  em_Data :: "string option"
  em_Message :: string
  em_Replayable :: bool
  em_Timestamp :: int

type_synonym SubscriptionKey = "string \<times> string"

record BridgeSessionCut =
  cut_EventID :: string
  cut_Seq :: int

record EventBufferConfig =
  ebc_MaxEvents :: int
  ebc_MaxBytes :: int
  ebc_TTL :: duration

record bufferedEvent =
  be_message :: EventMessage
  be_backendID :: string
  be_sessionID :: string
  be_seq :: int
  be_replayable :: bool
  be_createdAt :: instant
  be_payloadBytes :: int
  be_chargedBytes :: int

datatype ReplayDisposition = ReplayAvailable | ReplaySnapshotRequired

record EventReplayResult =
  er_Disposition :: ReplayDisposition
  er_Events :: "EventMessage list"
  er_Through :: BridgeSessionCut
  er_Reason :: string

record EventBuffer =
  eb_config :: EventBufferConfig
  eb_records :: "bufferedEvent list"
  eb_chargedBytes :: int
  eb_latest :: "SubscriptionKey \<rightharpoonup> BridgeSessionCut"
  eb_evictedThrough :: "SubscriptionKey \<Rightarrow> int"  \<comment> \<open>an absent key reads as zero\<close>

section \<open>Operations\<close>

definition NewEventBuffer :: "EventBufferConfig \<Rightarrow> EventBuffer" where
  "NewEventBuffer c =
     \<lparr>eb_config = \<lparr>ebc_MaxEvents = (if ebc_MaxEvents c \<le> 0 then 10000 else ebc_MaxEvents c),
                   ebc_MaxBytes = (if ebc_MaxBytes c \<le> 0 then 16777216 else ebc_MaxBytes c),
                   ebc_TTL = (if ebc_TTL c \<le> 0 then 5 * 60 * nanosPerSecond else ebc_TTL c)\<rparr>,
      eb_records = [], eb_chargedBytes = 0, eb_latest = Map.empty, eb_evictedThrough = (\<lambda>_. 0)\<rparr>"

definition evictOldestLocked :: "EventBuffer \<Rightarrow> EventBuffer" where
  "evictOldestLocked b = (case eb_records b of
     [] \<Rightarrow> b
   | record # rest \<Rightarrow>
       let key = (be_backendID record, be_sessionID record) in
       b\<lparr>eb_records := rest, eb_chargedBytes := eb_chargedBytes b - be_chargedBytes record,
         eb_evictedThrough :=
           (if be_seq record > eb_evictedThrough b key
            then (eb_evictedThrough b)(key := be_seq record) else eb_evictedThrough b)\<rparr>)"

definition enforceLimitsLocked :: "EventBuffer \<Rightarrow> EventBuffer option" where
  "enforceLimitsLocked b =
     while_option (over_limit eb_records eb_chargedBytes (ebc_MaxEvents (eb_config b))
                     (ebc_MaxBytes (eb_config b))) evictOldestLocked b"

definition evictExpiredLocked :: "instant \<Rightarrow> EventBuffer \<Rightarrow> EventBuffer option" where
  "evictExpiredLocked now b =
     while_option (\<lambda>b'. eb_records b' \<noteq> []
         \<and> timeSub now (be_createdAt (hd (eb_records b'))) \<ge> ebc_TTL (eb_config b))
       evictOldestLocked b"

definition bufferRecord :: "(EventMessage \<Rightarrow> nat) \<Rightarrow> instant \<Rightarrow> EventMessage \<Rightarrow> bufferedEvent" where
  "bufferRecord enc now m =
     \<lparr>be_message = (if em_Replayable m then m
                    else \<lparr>em_Type = em_Type m, em_EventID = em_EventID m, em_Seq = em_Seq m,
                          em_PerSessionSeq = 0, em_BridgeEpoch = em_BridgeEpoch m,
                          em_SessionID = em_SessionID m, em_BackendID = em_BackendID m,
                          em_Event = em_Event m, em_Data = None, em_Message = [],
                          em_Replayable = False, em_Timestamp = em_Timestamp m\<rparr>),
      be_backendID = em_BackendID m, be_sessionID = em_SessionID m, be_seq = em_Seq m,
      be_replayable = em_Replayable m, be_createdAt = now,
      be_payloadBytes = (if em_Replayable m then int (enc m) else 0),
      be_chargedBytes = (if em_Replayable m then int (enc m) else eventTombstoneMetadataCost)\<rparr>"

definition EventBuffer_Append ::
  "(EventMessage \<Rightarrow> nat) \<Rightarrow> instant \<Rightarrow> EventMessage \<Rightarrow> EventBuffer \<Rightarrow> EventBuffer option" where
  "EventBuffer_Append enc now m b0 =
     Option.bind (evictExpiredLocked now b0) (\<lambda>b.
       let record = bufferRecord enc now m in
       enforceLimitsLocked
         (b\<lparr>eb_records := eb_records b @ [record],
            eb_chargedBytes := eb_chargedBytes b + be_chargedBytes record,
            eb_latest := (eb_latest b)((em_BackendID m, em_SessionID m) \<mapsto>
                           \<lparr>cut_EventID = em_EventID m, cut_Seq = em_Seq m\<rparr>)\<rparr>))"

text \<open>The scan of \<^verbatim>\<open>Replay\<close>: \<open>None\<close> at the first record of the session that cannot be replayed.\<close>

fun replayScan :: "string \<Rightarrow> string \<Rightarrow> int \<Rightarrow> bufferedEvent list \<Rightarrow> EventMessage list option" where
  "replayScan backendID sessionID seq [] = Some []"
| "replayScan backendID sessionID seq (r # rs) =
     (if be_backendID r \<noteq> backendID \<or> be_sessionID r \<noteq> sessionID \<or> be_seq r \<le> seq
      then replayScan backendID sessionID seq rs
      else if \<not> be_replayable r then None
      else map_option ((#) (be_message r)) (replayScan backendID sessionID seq rs))"

definition EventBuffer_Replay ::
  "instant \<Rightarrow> string \<Rightarrow> string \<Rightarrow> BridgeSessionCut \<Rightarrow> EventBuffer
     \<Rightarrow> (EventReplayResult \<times> EventBuffer) option" where
  "EventBuffer_Replay now backendID sessionID cursor b0 =
     Option.bind (evictExpiredLocked now b0) (\<lambda>b. Some
       ((case eb_latest b (backendID, sessionID) of
           None \<Rightarrow> \<lparr>er_Disposition = ReplayAvailable, er_Events = [], er_Through = cursor, er_Reason = []\<rparr>
         | Some latest \<Rightarrow>
             if cut_Seq cursor > cut_Seq latest
             then \<lparr>er_Disposition = ReplaySnapshotRequired, er_Events = [], er_Through = latest,
                   er_Reason = ''cursor_ahead''\<rparr>
             else if eb_evictedThrough b (backendID, sessionID) > cut_Seq cursor
             then \<lparr>er_Disposition = ReplaySnapshotRequired, er_Events = [], er_Through = latest,
                   er_Reason = ''coverage_evicted''\<rparr>
             else (case replayScan backendID sessionID (cut_Seq cursor) (eb_records b) of
                     None \<Rightarrow> \<lparr>er_Disposition = ReplaySnapshotRequired, er_Events = [], er_Through = latest,
                              er_Reason = ''non_replayable_gap''\<rparr>
                   | Some events \<Rightarrow> \<lparr>er_Disposition = ReplayAvailable, er_Events = events,
                              er_Through = latest, er_Reason = []\<rparr>)), b))"

definition EventBuffer_LatestCut ::
  "instant \<Rightarrow> string \<Rightarrow> string \<Rightarrow> EventBuffer \<Rightarrow> (BridgeSessionCut option \<times> EventBuffer) option" where
  "EventBuffer_LatestCut now backendID sessionID b0 =
     map_option (\<lambda>b. (eb_latest b (backendID, sessionID), b)) (evictExpiredLocked now b0)"

definition rebindRecord :: "string \<Rightarrow> string \<Rightarrow> string \<Rightarrow> bufferedEvent \<Rightarrow> bufferedEvent" where
  "rebindRecord backendID old new r =
     (if be_backendID r = backendID \<and> be_sessionID r = old
      then r\<lparr>be_backendID := backendID, be_sessionID := new,
             be_message := (be_message r)\<lparr>em_SessionID := new\<rparr>\<rparr>
      else r)"

definition EventBuffer_Rebind :: "string \<Rightarrow> string \<Rightarrow> string \<Rightarrow> EventBuffer \<Rightarrow> EventBuffer" where
  "EventBuffer_Rebind backendID old new b =
     (if old = [] \<or> new = [] \<or> old = new then b
      else
        let oldKey = (backendID, old); newKey = (backendID, new);
            latest = (case eb_latest b oldKey of
                        None \<Rightarrow> eb_latest b
                      | Some c \<Rightarrow>
                          (case eb_latest b newKey of
                             None \<Rightarrow> (eb_latest b)(newKey \<mapsto> c)
                           | Some existing \<Rightarrow>
                               if cut_Seq c > cut_Seq existing then (eb_latest b)(newKey \<mapsto> c)
                               else eb_latest b)(oldKey := None));
            evicted = (if eb_evictedThrough b oldKey > eb_evictedThrough b newKey
                       then (eb_evictedThrough b)(newKey := eb_evictedThrough b oldKey)
                       else eb_evictedThrough b)(oldKey := 0)
        in b\<lparr>eb_records := map (rebindRecord backendID old new) (eb_records b),
             eb_latest := latest, eb_evictedThrough := evicted\<rparr>)"

definition EventBuffer_Stats :: "EventBuffer \<Rightarrow> int \<times> int" where
  "EventBuffer_Stats b = (int (length (eb_records b)), eb_chargedBytes b)"

section \<open>Runs beside the unbounded log\<close>

datatype EventBufferOp =
    OpAppend instant EventMessage
  | OpReplay instant string string BridgeSessionCut
  | OpLatestCut instant string string
  | OpRebind string string string

fun ebStep :: "(EventMessage \<Rightarrow> nat) \<Rightarrow> EventBuffer \<Rightarrow> EventBufferOp \<Rightarrow> EventBuffer option" where
  "ebStep enc b (OpAppend now m) = EventBuffer_Append enc now m b"
| "ebStep enc b (OpReplay now backendID sessionID cursor) =
     map_option snd (EventBuffer_Replay now backendID sessionID cursor b)"
| "ebStep enc b (OpLatestCut now backendID sessionID) =
     map_option snd (EventBuffer_LatestCut now backendID sessionID b)"
| "ebStep enc b (OpRebind backendID old new) = Some (EventBuffer_Rebind backendID old new b)"

text \<open>The specification: every event ever appended, with sessions renamed as rebinds say.\<close>

definition renameMessage :: "string \<Rightarrow> string \<Rightarrow> string \<Rightarrow> EventMessage \<Rightarrow> EventMessage" where
  "renameMessage backendID old new m =
     (if em_BackendID m = backendID \<and> em_SessionID m = old then m\<lparr>em_SessionID := new\<rparr> else m)"

fun logStep :: "EventMessage list \<Rightarrow> EventBufferOp \<Rightarrow> EventMessage list" where
  "logStep L (OpAppend now m) = L @ [m]"
| "logStep L (OpRebind backendID old new) =
     (if old = [] \<or> new = [] \<or> old = new then L else map (renameMessage backendID old new) L)"
| "logStep L _ = L"

definition missed :: "EventMessage list \<Rightarrow> string \<Rightarrow> string \<Rightarrow> int \<Rightarrow> EventMessage list" where
  "missed L backendID sessionID seq =
     filter (\<lambda>m. em_BackendID m = backendID \<and> em_SessionID m = sessionID \<and> em_Seq m > seq) L"

definition ebPair :: "(EventMessage \<Rightarrow> nat) \<Rightarrow> EventBuffer \<times> EventMessage list \<Rightarrow> EventBufferOp
    \<Rightarrow> (EventBuffer \<times> EventMessage list) option" where
  "ebPair enc s x = map_option (\<lambda>b. (b, logStep (snd s) x)) (ebStep enc (fst s) x)"

section \<open>Eviction\<close>

interpretation ebq: eviction_queue eb_records eb_chargedBytes be_chargedBytes evictOldestLocked
proof
  fix b :: EventBuffer assume "eb_records b \<noteq> []"
  then show "eb_records (evictOldestLocked b) = tl (eb_records b)"
    and "eb_chargedBytes (evictOldestLocked b) = eb_chargedBytes b - be_chargedBytes (hd (eb_records b))"
    by (auto simp: evictOldestLocked_def Let_def split: list.split)
qed

abbreviation eb_balanced :: "EventBuffer \<Rightarrow> bool" where
  "eb_balanced \<equiv> balanced eb_records eb_chargedBytes be_chargedBytes"

definition msgKey :: "EventMessage \<Rightarrow> SubscriptionKey" where
  "msgKey m = (em_BackendID m, em_SessionID m)"

definition evictedMax :: "EventMessage list \<Rightarrow> SubscriptionKey \<Rightarrow> int" where
  "evictedMax gone k = Max (insert 0 (em_Seq ` {m \<in> set gone. msgKey m = k}))"

definition records_message :: "EventMessage \<Rightarrow> bufferedEvent \<Rightarrow> bool" where
  "records_message m r \<longleftrightarrow> be_backendID r = em_BackendID m \<and> be_sessionID r = em_SessionID m
     \<and> be_seq r = em_Seq m \<and> be_replayable r = em_Replayable m \<and> (be_replayable r \<longrightarrow> be_message r = m)"

text \<open>The buffer holds a suffix of the log and knows how far the rest of each session reaches.\<close>

definition eb_rel :: "EventBuffer \<Rightarrow> EventMessage list \<Rightarrow> bool" where
  "eb_rel b L \<longleftrightarrow>
     (\<exists>gone rest. L = gone @ rest \<and> list_all2 records_message rest (eb_records b)
        \<and> eb_evictedThrough b = evictedMax gone)
   \<and> (\<forall>k. eb_latest b k \<noteq> None \<longleftrightarrow> k \<in> msgKey ` set L)"

definition eb_limits :: "EventBuffer \<Rightarrow> bool" where
  "eb_limits b \<longleftrightarrow> eb_balanced b \<and> (\<forall>r\<in>set (eb_records b). 0 \<le> be_chargedBytes r) \<and> 0 < ebc_MaxEvents (eb_config b) \<and> 0 < ebc_MaxBytes (eb_config b)
   \<and> \<not> over_limit eb_records eb_chargedBytes (ebc_MaxEvents (eb_config b)) (ebc_MaxBytes (eb_config b)) b"

definition eb_ok :: "EventBuffer \<times> EventMessage list \<Rightarrow> bool" where
  "eb_ok s \<longleftrightarrow> eb_limits (fst s) \<and> eb_rel (fst s) (snd s)"

lemma evict_config [simp]: "eb_config (evictOldestLocked b) = eb_config b"
  by (auto simp: evictOldestLocked_def Let_def split: list.split)

lemma evicts_config [simp]: "eb_config ((evictOldestLocked ^^ k) b) = eb_config b"
  by (induction k) auto

lemma evictedMax_snoc: "evictedMax (gone @ [m]) k = (if msgKey m = k then max (em_Seq m) (evictedMax gone k) else evictedMax gone k)"
proof -
  have "{m' \<in> set (gone @ [m]). msgKey m' = k}
      = (if msgKey m = k then insert m {m' \<in> set gone. msgKey m' = k} else {m' \<in> set gone. msgKey m' = k})"
    by auto
  then show ?thesis by (simp add: evictedMax_def insert_commute [of _ "em_Seq m"])
qed

lemma eb_rel_evict: "eb_rel b L \<Longrightarrow> eb_rel (evictOldestLocked b) L"
proof (cases "eb_records b")
  case (Cons r rs)
  assume "eb_rel b L"
  then obtain gone rest where L: "L = gone @ rest" "list_all2 records_message rest (eb_records b)"
      "eb_evictedThrough b = evictedMax gone" "\<forall>k. eb_latest b k \<noteq> None \<longleftrightarrow> k \<in> msgKey ` set L"
    by (auto simp: eb_rel_def)
  then obtain m ms where m: "rest = m # ms" "records_message m r" "list_all2 records_message ms rs"
    using Cons by (auto simp: list_all2_Cons2)
  have "eb_evictedThrough (evictOldestLocked b) = evictedMax (gone @ [m])"
    using Cons L(3) m(2)
    by (auto simp: evictOldestLocked_def Let_def evictedMax_snoc records_message_def msgKey_def fun_eq_iff)
  moreover have "eb_records (evictOldestLocked b) = rs" "eb_latest (evictOldestLocked b) = eb_latest b"
    using Cons by (simp_all add: evictOldestLocked_def Let_def)
  ultimately show ?thesis using L m unfolding eb_rel_def
    by (intro conjI exI [of _ "gone @ [m]"] exI [of _ ms]) auto
qed (simp add: evictOldestLocked_def)

lemma eb_rel_evicts: "eb_rel b L \<Longrightarrow> eb_rel ((evictOldestLocked ^^ k) b) L"
  by (induction k) (auto intro: eb_rel_evict)

lemma over_limit_drop:
  assumes "\<not> over_limit eb_records eb_chargedBytes n c b" "eb_balanced b" "\<forall>r\<in>set (eb_records b). 0 \<le> be_chargedBytes r"
    "eb_records b' = drop k (eb_records b)" "eb_balanced b'"
  shows "\<not> over_limit eb_records eb_chargedBytes n c b'"
proof -
  have "sum_list (map be_chargedBytes (drop k (eb_records b))) \<le> sum_list (map be_chargedBytes (eb_records b))"
    using assms(3) sum_list_nonneg [of "map be_chargedBytes (take k (eb_records b))"]
    by (subst (2) append_take_drop_id [symmetric, of _ k], subst map_append, subst sum_list_append)
      (auto dest: in_set_takeD)
  with assms show ?thesis by (auto simp: over_limit_def balanced_def)
qed

lemma evictExpired_ok:
  assumes "eb_limits b" and "eb_rel b L"
  shows "\<exists>b'. evictExpiredLocked now b = Some b' \<and> eb_limits b' \<and> eb_rel b' L \<and> eb_config b' = eb_config b
    \<and> eb_records b' = dropWhile (\<lambda>r. timeSub now (be_createdAt r) \<ge> ebc_TTL (eb_config b)) (eb_records b)"
proof -
  obtain k where k: "evictExpiredLocked now b = Some ((evictOldestLocked ^^ k) b)"
      "eb_records ((evictOldestLocked ^^ k) b)
        = dropWhile (\<lambda>r. timeSub now (be_createdAt r) \<ge> ebc_TTL (eb_config b)) (eb_records b)"
      "eb_balanced ((evictOldestLocked ^^ k) b)"
    using ebq.expire_front [of b "\<lambda>r. timeSub now (be_createdAt r) \<ge> ebc_TTL (eb_config b)"] assms(1)
    unfolding evictExpiredLocked_def eb_limits_def by blast
  obtain n where n: "eb_records ((evictOldestLocked ^^ k) b) = drop n (eb_records b)"
    using k(2) dropWhile_eq_drop by metis
  have "\<forall>r\<in>set (eb_records ((evictOldestLocked ^^ k) b)). 0 \<le> be_chargedBytes r"
    using assms(1) n by (auto simp: eb_limits_def dest: in_set_dropD)
  moreover have "\<not> over_limit eb_records eb_chargedBytes (ebc_MaxEvents (eb_config b)) (ebc_MaxBytes (eb_config b))
      ((evictOldestLocked ^^ k) b)"
    using over_limit_drop [OF _ _ _ n k(3)] assms(1) by (simp add: eb_limits_def)
  ultimately have "eb_limits ((evictOldestLocked ^^ k) b)" using assms(1) k(3) by (simp add: eb_limits_def)
  with k eb_rel_evicts [OF assms(2)] show ?thesis by auto
qed

lemma enforceLimits_ok:
  assumes "eb_balanced b" and "0 < ebc_MaxEvents (eb_config b)" and "0 < ebc_MaxBytes (eb_config b)"
    and "\<forall>r\<in>set (eb_records b). 0 \<le> be_chargedBytes r" and "eb_rel b L"
  shows "\<exists>b'. enforceLimitsLocked b = Some b' \<and> eb_limits b' \<and> eb_rel b' L"
proof -
  obtain k where k: "enforceLimitsLocked b = Some ((evictOldestLocked ^^ k) b)"
      "eb_records ((evictOldestLocked ^^ k) b) = drop k (eb_records b)" "eb_balanced ((evictOldestLocked ^^ k) b)"
      "\<not> over_limit eb_records eb_chargedBytes (ebc_MaxEvents (eb_config b)) (ebc_MaxBytes (eb_config b))
         ((evictOldestLocked ^^ k) b)"
    using ebq.enforce_limits [of b "ebc_MaxEvents (eb_config b)" "ebc_MaxBytes (eb_config b)"] assms
    unfolding enforceLimitsLocked_def by fastforce
  then have "eb_limits ((evictOldestLocked ^^ k) b)"
    using assms by (auto simp: eb_limits_def dest: in_set_dropD)
  with k(1) eb_rel_evicts [OF assms(5)] show ?thesis by blast
qed

lemma Append_ok:
  assumes "eb_limits b" and "eb_rel b L"
  shows "\<exists>b'. EventBuffer_Append enc now m b = Some b' \<and> eb_limits b' \<and> eb_rel b' (L @ [m])"
proof -
  obtain b1 where b1: "evictExpiredLocked now b = Some b1" "eb_limits b1" "eb_rel b1 L"
    using evictExpired_ok [OF assms] by blast
  let ?r = "bufferRecord enc now m"
  let ?b2 = "b1\<lparr>eb_records := eb_records b1 @ [?r], eb_chargedBytes := eb_chargedBytes b1 + be_chargedBytes ?r,
     eb_latest := (eb_latest b1)(msgKey m \<mapsto> \<lparr>cut_EventID = em_EventID m, cut_Seq = em_Seq m\<rparr>)\<rparr>"
  have r: "records_message m ?r" "0 \<le> be_chargedBytes ?r"
    by (simp_all add: records_message_def bufferRecord_def eventTombstoneMetadataCost_def)
  have "eb_rel ?b2 (L @ [m])"
  proof -
    obtain gone rest where "L = gone @ rest" "list_all2 records_message rest (eb_records b1)"
        "eb_evictedThrough b1 = evictedMax gone" using b1(3) by (auto simp: eb_rel_def)
    then have "\<exists>gone rest. L @ [m] = gone @ rest \<and> list_all2 records_message rest (eb_records ?b2)
        \<and> eb_evictedThrough ?b2 = evictedMax gone"
      using r(1) by (intro exI [of _ gone] exI [of _ "rest @ [m]"]) (auto intro: list_all2_appendI)
    then show ?thesis using b1(3) by (auto simp: eb_rel_def)
  qed
  moreover have "eb_balanced ?b2" "\<forall>r\<in>set (eb_records ?b2). 0 \<le> be_chargedBytes r"
    using b1(2) r(2) by (auto simp: eb_limits_def balanced_def)
  ultimately have "\<exists>b'. enforceLimitsLocked ?b2 = Some b' \<and> eb_limits b' \<and> eb_rel b' (L @ [m])"
    using b1(2) by (intro enforceLimits_ok) (simp_all add: eb_limits_def)
  with b1(1) show ?thesis by (simp add: EventBuffer_Append_def Let_def msgKey_def)
qed

lemma rename_Seq [simp]: "em_Seq (renameMessage be old new m) = em_Seq m"
  by (simp add: renameMessage_def)

lemma rename_key:
  "old \<noteq> new \<Longrightarrow> msgKey (renameMessage be old new m) = k \<longleftrightarrow>
     (if k = (be, new) then msgKey m \<in> {(be, old), (be, new)} else k \<noteq> (be, old) \<and> msgKey m = k)"
  by (auto simp: renameMessage_def msgKey_def)

lemma rename_keys:
  assumes "old \<noteq> new"
  shows "k \<in> msgKey ` set (map (renameMessage be old new) L) \<longleftrightarrow>
     (if k = (be, new) then (be, old) \<in> msgKey ` set L \<or> (be, new) \<in> msgKey ` set L
      else k \<noteq> (be, old) \<and> k \<in> msgKey ` set L)"
proof -
  have mem: "x \<in> msgKey ` S \<longleftrightarrow> (\<exists>m\<in>S. msgKey m = x)" for x S by auto
  show ?thesis unfolding mem set_map bex_simps rename_key [OF assms] by (cases "k = (be, new)") auto
qed

lemma evictedMax_rename:
  assumes "old \<noteq> new"
  shows "evictedMax (map (renameMessage be old new) gone) k
    = (if k = (be, new) then max (evictedMax gone (be, old)) (evictedMax gone (be, new))
       else if k = (be, old) then 0 else evictedMax gone k)"
proof -
  let ?S = "\<lambda>k. em_Seq ` {m \<in> set gone. msgKey m = k}"
  have "em_Seq ` {m \<in> set (map (renameMessage be old new) gone). msgKey m = k}
      = (if k = (be, new) then ?S (be, old) \<union> ?S (be, new) else if k = (be, old) then {} else ?S k)"
  proof -
    have "em_Seq ` {m \<in> set (map (renameMessage be old new) gone). msgKey m = k}
        = em_Seq ` {m \<in> set gone. msgKey (renameMessage be old new m) = k}"
      unfolding set_map Compr_image_eq image_image rename_Seq ..
    also have "\<dots> = em_Seq ` {m \<in> set gone. if k = (be, new) then msgKey m \<in> {(be, old), (be, new)}
        else k \<noteq> (be, old) \<and> msgKey m = k}" unfolding rename_key [OF assms] ..
    also have "\<dots> = (if k = (be, new) then ?S (be, old) \<union> ?S (be, new) else if k = (be, old) then {} else ?S k)"
      by (simp only: image_Un [symmetric] split: if_split) blast
    finally show ?thesis .
  qed
  moreover have "Max (insert 0 (?S a \<union> ?S c)) = max (Max (insert 0 (?S a))) (Max (insert 0 (?S c)))" for a c
    using Max_Un [of "insert 0 (?S a)" "insert 0 (?S c)"] by simp
  ultimately show ?thesis by (simp add: evictedMax_def)
qed

lemma rebind_records_message:
  "records_message m r \<Longrightarrow> records_message (renameMessage be old new m) (rebindRecord be old new r)"
  by (auto simp: records_message_def renameMessage_def rebindRecord_def)

lemma rebind_charges:
  "map be_chargedBytes (map (rebindRecord be old new) rs) = map be_chargedBytes rs"
  by (induction rs) (auto simp: rebindRecord_def)

lemma Rebind_ok:
  assumes "eb_limits b" and "eb_rel b L"
  shows "eb_limits (EventBuffer_Rebind be old new b) \<and> eb_rel (EventBuffer_Rebind be old new b) (logStep L (OpRebind be old new))"
proof (cases "old = [] \<or> new = [] \<or> old = new")
  case True
  then show ?thesis using assms by (simp add: EventBuffer_Rebind_def)
next
  case False
  let ?b = "EventBuffer_Rebind be old new b" and ?L = "map (renameMessage be old new) L"
  have rec: "eb_records ?b = map (rebindRecord be old new) (eb_records b)"
    "eb_config ?b = eb_config b" "eb_chargedBytes ?b = eb_chargedBytes b"
    using False by (simp_all add: EventBuffer_Rebind_def Let_def)
  have "\<forall>r\<in>set (eb_records ?b). 0 \<le> be_chargedBytes r"
    using assms(1) rec(1) by (auto simp: eb_limits_def rebindRecord_def)
  moreover have "eb_balanced ?b"
    using assms(1) rec rebind_charges unfolding eb_limits_def balanced_def by metis
  ultimately have lim: "eb_limits ?b" using assms(1) rec by (simp add: eb_limits_def over_limit_def)
  obtain gone rest where g: "L = gone @ rest" "list_all2 records_message rest (eb_records b)"
      "eb_evictedThrough b = evictedMax gone" "\<forall>k. eb_latest b k \<noteq> None \<longleftrightarrow> k \<in> msgKey ` set L"
    using assms(2) by (auto simp: eb_rel_def)
  have "eb_evictedThrough ?b = evictedMax (map (renameMessage be old new) gone)"
    using False g(3) by (auto simp: fun_eq_iff evictedMax_rename EventBuffer_Rebind_def Let_def)
  moreover have "list_all2 records_message (map (renameMessage be old new) rest) (eb_records ?b)"
    using g(2) rec(1) by (auto simp: list_all2_conv_all_nth rebind_records_message)
  moreover have "eb_latest ?b k \<noteq> None \<longleftrightarrow> k \<in> msgKey ` set ?L" for k
  proof -
    have "eb_latest ?b k \<noteq> None \<longleftrightarrow> (if eb_latest b (be, old) \<noteq> None
        then k = (be, new) \<or> eb_latest b k \<noteq> None \<and> k \<noteq> (be, old) else eb_latest b k \<noteq> None)"
      using False by (auto simp: EventBuffer_Rebind_def Let_def split: option.splits)
    moreover note g(4) [THEN spec, of k] g(4) [THEN spec, of "(be, old)"] g(4) [THEN spec, of "(be, new)"]
    ultimately show ?thesis unfolding rename_keys [OF False [simplified, THEN conjunct2, THEN conjunct2]]
      by (cases "k = (be, new)"; cases "k = (be, old)") (use False in \<open>simp_all split: if_splits\<close>)
  qed
  ultimately have "eb_rel ?b ?L" using g(1) unfolding eb_rel_def by (metis map_append)
  with lim False show ?thesis by simp
qed

interpretation ebm: looping_machine "ebPair enc" eb_ok
proof
  fix s x assume "eb_ok s"
  then have s: "eb_limits (fst s)" "eb_rel (fst s) (snd s)" by (simp_all add: eb_ok_def)
  show "\<exists>s'. ebPair enc s x = Some s' \<and> eb_ok s'"
  proof (cases x)
    case (OpAppend now m)
    then show ?thesis using Append_ok [OF s, of enc now m] by (auto simp: ebPair_def eb_ok_def)
  next
    case (OpReplay now backendID sessionID cursor)
    then show ?thesis using evictExpired_ok [OF s, of now]
      by (auto simp: ebPair_def eb_ok_def EventBuffer_Replay_def)
  next
    case (OpLatestCut now backendID sessionID)
    then show ?thesis using evictExpired_ok [OF s, of now]
      by (auto simp: ebPair_def eb_ok_def EventBuffer_LatestCut_def)
  next
    case (OpRebind backendID old new)
    then show ?thesis using Rebind_ok [OF s, of backendID old new] by (simp add: ebPair_def eb_ok_def)
  qed
qed

lemma eb_ok_new: "eb_ok (NewEventBuffer c, [])"
  by (auto simp: eb_ok_def eb_limits_def eb_rel_def NewEventBuffer_def balanced_def over_limit_def evictedMax_def)

lemma replayScan_exact:
  "list_all2 records_message rest rs \<Longrightarrow>
   replayScan be se seq rs = (if list_all em_Replayable (missed rest be se seq) then Some (missed rest be se seq) else None)"
  by (induction rule: list_all2_induct) (auto simp: missed_def records_message_def)

lemma evictedMax_ge: "m \<in> set gone \<Longrightarrow> msgKey m = k \<Longrightarrow> em_Seq m \<le> evictedMax gone k"
  unfolding evictedMax_def by (intro Max_ge) auto

lemma evictedMax_attained:
  "c < evictedMax gone k \<Longrightarrow> c < 0 \<or> (\<exists>m\<in>set gone. msgKey m = k \<and> c < em_Seq m)"
proof -
  assume "c < evictedMax gone k"
  moreover have "evictedMax gone k \<in> insert 0 (em_Seq ` {m \<in> set gone. msgKey m = k})"
    unfolding evictedMax_def by (rule Max_in) auto
  ultimately show ?thesis by auto
qed

text \<open>Two events of one session, the second a delta that is not replayable.\<close>

definition demoEvent :: "int \<Rightarrow> bool \<Rightarrow> EventMessage" where
  "demoEvent n replayable =
     \<lparr>em_Type = ''event'', em_EventID = ''e'', em_Seq = n, em_PerSessionSeq = n, em_BridgeEpoch = ''1'',
      em_SessionID = ''s'', em_BackendID = ''codex'', em_Event = ''turn_completed'', em_Data = None,
      em_Message = ''done'', em_Replayable = replayable, em_Timestamp = 5\<rparr>"

definition demoBuffer :: "bufferedEvent list \<Rightarrow> int \<Rightarrow> int \<Rightarrow> EventBuffer" where
  "demoBuffer rs bytes n =
     \<lparr>eb_config = \<lparr>ebc_MaxEvents = 10000, ebc_MaxBytes = 16777216, ebc_TTL = 300 * nanosPerSecond\<rparr>,
      eb_records = rs, eb_chargedBytes = bytes,
      eb_latest = [(''codex'', ''s'') \<mapsto> \<lparr>cut_EventID = ''e'', cut_Seq = n\<rparr>], eb_evictedThrough = (\<lambda>_. 0)\<rparr>"

definition demoConfig :: EventBufferConfig where
  "demoConfig = \<lparr>ebc_MaxEvents = 0, ebc_MaxBytes = 0, ebc_TTL = 0\<rparr>"

abbreviation demoLen :: "EventMessage \<Rightarrow> nat" where
  "demoLen m \<equiv> 200"

lemma demo_expire_no:
  "evictExpiredLocked 30 (demoBuffer [bufferRecord demoLen 20 m] k n) = Some (demoBuffer [bufferRecord demoLen 20 m] k n)"
  "evictExpiredLocked 40 (demoBuffer (bufferRecord demoLen 20 m # rs) k n) = Some (demoBuffer (bufferRecord demoLen 20 m # rs) k n)"
  by (simp_all add: evictExpiredLocked_def while_option_unfold demoBuffer_def bufferRecord_def timeSub_def
      minDuration_def maxDuration_def)

lemma demo_append_1:
  "EventBuffer_Append demoLen 20 (demoEvent 1 True) (NewEventBuffer demoConfig)
     = Some (demoBuffer [bufferRecord demoLen 20 (demoEvent 1 True)] 200 1)"
  by (simp add: EventBuffer_Append_def evictExpiredLocked_def enforceLimitsLocked_def while_option_unfold
      NewEventBuffer_def demoConfig_def demoBuffer_def bufferRecord_def demoEvent_def over_limit_def)

lemma demo_append_2:
  "EventBuffer_Append demoLen 30 (demoEvent 2 r) (demoBuffer [bufferRecord demoLen 20 (demoEvent 1 True)] 200 1)
     = Some (demoBuffer [bufferRecord demoLen 20 (demoEvent 1 True), bufferRecord demoLen 30 (demoEvent 2 r)]
         (200 + (if r then 200 else 96)) 2)"
  unfolding EventBuffer_Append_def demo_expire_no
  by (simp add: Let_def enforceLimitsLocked_def while_option_unfold
      demoBuffer_def bufferRecord_def demoEvent_def over_limit_def eventTombstoneMetadataCost_def)

lemma demo_buffer_run:
  "runM (ebPair demoLen) (NewEventBuffer demoConfig, []) [OpAppend 20 (demoEvent 1 True), OpAppend 30 (demoEvent 2 r)]
     = Some (demoBuffer [bufferRecord demoLen 20 (demoEvent 1 True), bufferRecord demoLen 30 (demoEvent 2 r)]
         (200 + (if r then 200 else 96)) 2, [demoEvent 1 True, demoEvent 2 r])"
  by (simp add: ebPair_def demo_append_1 demo_append_2)

lemma demo_replay:
  "EventBuffer_Replay 40 ''codex'' ''s'' \<lparr>cut_EventID = ''e'', cut_Seq = 1\<rparr>
     (demoBuffer [bufferRecord demoLen 20 (demoEvent 1 True), bufferRecord demoLen 30 (demoEvent 2 r)] k 2)
   = Some (if r then \<lparr>er_Disposition = ReplayAvailable, er_Events = [demoEvent 2 r],
                     er_Through = \<lparr>cut_EventID = ''e'', cut_Seq = 2\<rparr>, er_Reason = []\<rparr>
           else \<lparr>er_Disposition = ReplaySnapshotRequired, er_Events = [],
                     er_Through = \<lparr>cut_EventID = ''e'', cut_Seq = 2\<rparr>, er_Reason = ''non_replayable_gap''\<rparr>,
       demoBuffer [bufferRecord demoLen 20 (demoEvent 1 True), bufferRecord demoLen 30 (demoEvent 2 r)] k 2)"
  unfolding EventBuffer_Replay_def demo_expire_no
  by (simp add: demoBuffer_def bufferRecord_def demoEvent_def)

section \<open>Properties\<close>

text \<open>
  Every operation of the buffer returns, and after any sequence of appends, replays, cut
  queries and rebinds the buffer holds at most the configured number of events, its byte counter is
  the sum of the charges of the held records and does not exceed the configured bytes.
\<close>

theorem event_buffer_bounded:
  "\<exists>b L. runM (ebPair enc) (NewEventBuffer c, []) ops = Some (b, L)
     \<and> int (length (eb_records b)) \<le> ebc_MaxEvents (eb_config b)
     \<and> eb_chargedBytes b = sum_list (map be_chargedBytes (eb_records b))
     \<and> eb_chargedBytes b \<le> ebc_MaxBytes (eb_config b)"
proof -
  obtain b L where "runM (ebPair enc) (NewEventBuffer c, []) ops = Some (b, L)" "eb_ok (b, L)"
    using ebm.runM_returns [OF eb_ok_new, of enc c ops] by auto
  then show ?thesis by (auto simp: eb_ok_def eb_limits_def over_limit_def balanced_def)
qed

text \<open>
  C4: replay is complete: whenever the buffer offers a replay, the events it returns are, in order,
  exactly the events of the session that were published after the cursor, however many records were
  evicted or moved to the session by a rebind.
\<close>

theorem replay_complete:
  assumes "runM (ebPair enc) (NewEventBuffer c, []) ops = Some (b, L)"
    and "EventBuffer_Replay now backendID sessionID cursor b = Some (r, b')"
    and "er_Disposition r = ReplayAvailable"
  shows "er_Events r = missed L backendID sessionID (cut_Seq cursor)"
proof -
  have ok: "eb_limits b" "eb_rel b L" using ebm.runM_good [OF eb_ok_new assms(1)] by (simp_all add: eb_ok_def)
  obtain b1 where b1: "evictExpiredLocked now b = Some b1" "eb_rel b1 L" using evictExpired_ok [OF ok] by blast
  then obtain gone rest where g: "L = gone @ rest" "list_all2 records_message rest (eb_records b1)"
      "eb_evictedThrough b1 = evictedMax gone"
      "eb_latest b1 (backendID, sessionID) \<noteq> None \<longleftrightarrow> (backendID, sessionID) \<in> msgKey ` set L"
    by (auto simp: eb_rel_def)
  show ?thesis
  proof (cases "eb_latest b1 (backendID, sessionID)")
    case None
    then have "missed L backendID sessionID (cut_Seq cursor) = []"
      using g(4) by (auto simp: missed_def filter_empty_conv msgKey_def)
    then show ?thesis using assms(2) b1(1) None by (auto simp: EventBuffer_Replay_def)
  next
    case (Some latest)
    with assms(2,3) b1(1) g(2,3) have
      "evictedMax gone (backendID, sessionID) \<le> cut_Seq cursor"
      "er_Events r = missed rest backendID sessionID (cut_Seq cursor)"
      by (auto simp: EventBuffer_Replay_def replayScan_exact split: if_splits)
    moreover from this have "missed gone backendID sessionID (cut_Seq cursor) = []"
      using evictedMax_ge [of _ gone "(backendID, sessionID)"] by (force simp: missed_def filter_empty_conv msgKey_def)
    ultimately show ?thesis using g(1) by (simp add: missed_def)
  qed
qed

theorem replay_complete_witness:
  "er_Events (fst (the (EventBuffer_Replay 40 ''codex'' ''s'' \<lparr>cut_EventID = ''e'', cut_Seq = 1\<rparr>
      (fst (the (runM (ebPair demoLen) (NewEventBuffer demoConfig, [])
         [OpAppend 20 (demoEvent 1 True), OpAppend 30 (demoEvent 2 True)]))))))
   = missed [demoEvent 1 True, demoEvent 2 True] ''codex'' ''s'' 1"
  using replay_complete [OF demo_buffer_run [of True] demo_replay]
  unfolding demo_buffer_run option.sel fst_conv demo_replay by simp

text \<open>
  A snapshot is demanded only for cause: a cursor beyond the newest event of the session, an
  event after the cursor that cannot be replayed, or an event after the cursor that was evicted
  (a negative cursor counts as before everything evicted).
\<close>

theorem snapshot_for_cause:
  assumes "runM (ebPair enc) (NewEventBuffer c, []) ops = Some (b, L)"
    and "EventBuffer_Replay now backendID sessionID cursor b = Some (r, b')"
    and "er_Disposition r = ReplaySnapshotRequired"
  shows "cut_Seq cursor > cut_Seq (er_Through r)
    \<or> (\<exists>m\<in>set (missed L backendID sessionID (cut_Seq cursor)). \<not> em_Replayable m)
    \<or> length (missed L backendID sessionID (cut_Seq cursor))
        > length (filter (\<lambda>r. be_backendID r = backendID \<and> be_sessionID r = sessionID
                       \<and> be_seq r > cut_Seq cursor) (eb_records b'))
    \<or> cut_Seq cursor < 0"
proof -
  have ok: "eb_limits b" "eb_rel b L" using ebm.runM_good [OF eb_ok_new assms(1)] by (simp_all add: eb_ok_def)
  obtain b1 where b1: "evictExpiredLocked now b = Some b1" "eb_rel b1 L" using evictExpired_ok [OF ok] by blast
  then have b': "b' = b1" using assms(2) by (auto simp: EventBuffer_Replay_def)
  obtain gone rest where g: "L = gone @ rest" "list_all2 records_message rest (eb_records b1)"
      "eb_evictedThrough b1 = evictedMax gone" using b1(2) by (auto simp: eb_rel_def)
  have held: "length (filter (\<lambda>r. be_backendID r = backendID \<and> be_sessionID r = sessionID
      \<and> be_seq r > cut_Seq cursor) (eb_records b1)) = length (missed rest backendID sessionID (cut_Seq cursor))"
    using g(2) by (induction rule: list_all2_induct) (auto simp: missed_def records_message_def)
  show ?thesis
  proof (cases "cut_Seq cursor < evictedMax gone (backendID, sessionID)")
    case True
    then consider "cut_Seq cursor < 0" | "missed gone backendID sessionID (cut_Seq cursor) \<noteq> []"
      using evictedMax_attained by (fastforce simp: missed_def filter_empty_conv msgKey_def)
    then show ?thesis using g(1) held b' by cases (auto simp: missed_def)
  next
    case False
    with assms(2,3) b1(1) g(2,3) have "cut_Seq cursor > cut_Seq (er_Through r)
        \<or> \<not> list_all em_Replayable (missed rest backendID sessionID (cut_Seq cursor))"
      by (auto simp: EventBuffer_Replay_def replayScan_exact split: if_splits option.splits)
    then show ?thesis using g(1) by (auto simp: missed_def list_all_iff)
  qed
qed

theorem snapshot_for_cause_witness:
  "er_Disposition (fst (the (EventBuffer_Replay 40 ''codex'' ''s'' \<lparr>cut_EventID = ''e'', cut_Seq = 1\<rparr>
      (demoBuffer [bufferRecord demoLen 20 (demoEvent 1 True), bufferRecord demoLen 30 (demoEvent 2 False)] 296 2))))
     = ReplaySnapshotRequired
   \<and> (\<exists>m\<in>set (missed [demoEvent 1 True, demoEvent 2 False] ''codex'' ''s'' 1). \<not> em_Replayable m)"
  using snapshot_for_cause [OF demo_buffer_run [of False] demo_replay]
  unfolding demo_replay option.sel fst_conv
  by (simp add: missed_def demoEvent_def demoBuffer_def bufferRecord_def)

end
