(* ===== verification/Live_Frame_Buffer.thy ===== *)
theory Live_Frame_Buffer
  imports Event_Buffer "HOL-Library.AList"
begin

text \<open>
  The live-frame buffer of \<^verbatim>\<open>go-bridge/live_frame_buffer.go\<close>: a short in-memory window, per device and
  session, of live events that had no online target, replayed when the device reconnects, and the
  record of which device recently watched which session.

  Go maps are association lists (a map's iteration order is unspecified; the results below do not
  depend on it).  Clock readings are arguments.  Logging and the ticker of \<^verbatim>\<open>gcLoop\<close> are left out.
\<close>

section \<open>Data\<close>

definition liveFrameBufferMaxAge :: duration where "liveFrameBufferMaxAge = 60 * nanosPerSecond"
definition liveFrameBufferMaxFrames :: int where "liveFrameBufferMaxFrames = 200"
definition liveFrameBufferMaxBytes :: int where "liveFrameBufferMaxBytes = 1048576"
definition liveInterestMaxAge :: duration where "liveInterestMaxAge = 600 * nanosPerSecond"

record bufferedLiveFrame =
  lf_msg :: EventMessage
  lf_emittedAt :: instant
  lf_bytes :: int

record liveSessionBuffer =
  ls_frames :: "bufferedLiveFrame list"
  ls_totalBytes :: int

record LiveFrameBuffer =
  lb_buckets :: "(string \<times> (string \<times> liveSessionBuffer) list) list"
  lb_interest :: "(string \<times> (string \<times> instant) list) list"
  lb_maxAge :: duration
  lb_maxN :: int
  lb_maxB :: int

definition NewLiveFrameBuffer :: LiveFrameBuffer where
  "NewLiveFrameBuffer =
     \<lparr>lb_buckets = [], lb_interest = [], lb_maxAge = liveFrameBufferMaxAge,
      lb_maxN = liveFrameBufferMaxFrames, lb_maxB = liveFrameBufferMaxBytes\<rparr>"

definition sessionKey :: "string \<Rightarrow> string \<Rightarrow> string" where
  "sessionKey backendID sessionID = backendID @ [CHR 0x00] @ sessionID"

text \<open>Reading a Go map whose values are maps or pointers: an absent key reads as the empty one.\<close>

definition lookupL :: "(string \<times> 'a list) list \<Rightarrow> string \<Rightarrow> 'a list" where
  "lookupL m k = (case map_of m k of None \<Rightarrow> [] | Some v \<Rightarrow> v)"

definition sessionOf :: "(string \<times> liveSessionBuffer) list \<Rightarrow> string \<Rightarrow> liveSessionBuffer" where
  "sessionOf m k = (case map_of m k of None \<Rightarrow> \<lparr>ls_frames = [], ls_totalBytes = 0\<rparr> | Some s \<Rightarrow> s)"

section \<open>Operations\<close>

definition noteInterest :: "instant \<Rightarrow> string \<Rightarrow> string \<Rightarrow> LiveFrameBuffer \<Rightarrow> LiveFrameBuffer" where
  "noteInterest now deviceID key b =
     b\<lparr>lb_interest := AList.update deviceID (AList.update key now (lookupL (lb_interest b) deviceID)) (lb_interest b)\<rparr>"

definition LiveFrameBuffer_NoteInterest ::
  "instant \<Rightarrow> string \<Rightarrow> string \<Rightarrow> string \<Rightarrow> LiveFrameBuffer \<Rightarrow> LiveFrameBuffer" where
  "LiveFrameBuffer_NoteInterest now deviceID backendID sessionID b =
     (if deviceID = [] \<or> backendID = [] \<or> sessionID = [] then b
      else noteInterest now deviceID (sessionKey backendID sessionID) b)"

definition LiveFrameBuffer_InterestedDevices :: "instant \<Rightarrow> string \<Rightarrow> string \<Rightarrow> LiveFrameBuffer \<Rightarrow> string list" where
  "LiveFrameBuffer_InterestedDevices now backendID sessionID b =
     map fst (filter (\<lambda>(d, m). case map_of m (sessionKey backendID sessionID) of
                        Some at \<Rightarrow> timeSub now at \<le> liveInterestMaxAge
                      | None \<Rightarrow> False) (lb_interest b))"

definition isLiveBufferableEvent :: "string \<Rightarrow> bool" where
  "isLiveBufferableEvent e \<longleftrightarrow> e \<in>
     {''text_delta'', ''reasoning_delta'', ''tool_output_delta'', ''tool_started'', ''tool_finished'',
      ''turn_started'', ''turn_completed'', ''turn_error'', ''turn_aborted'', ''user_message'',
      ''session_state_changed'', ''assistant_message_started'', ''assistant_message_delta'',
      ''assistant_message_finished'', ''reasoning_started'', ''reasoning_finished'',
      ''context_usage_updated''}"

definition jsonMarshalLen :: "EventMessage \<Rightarrow> int" where
  "jsonMarshalLen m =
     128 + int (length (em_Event m)) + int (length (em_SessionID m)) + int (length (em_BackendID m))
     + int (length (em_EventID m)) + (if em_Message m \<noteq> [] then int (length (em_Message m)) else 0) + 512"

fun dropAged :: "duration \<Rightarrow> instant \<Rightarrow> bufferedLiveFrame list \<Rightarrow> int \<Rightarrow> bufferedLiveFrame list \<times> int" where
  "dropAged maxAge now [] tot = ([], tot)"
| "dropAged maxAge now (f # fs) tot =
     (if timeSub now (lf_emittedAt f) > maxAge then dropAged maxAge now fs (tot - lf_bytes f)
      else (f # fs, tot))"

fun dropExcess :: "int \<Rightarrow> int \<Rightarrow> bufferedLiveFrame list \<Rightarrow> int \<Rightarrow> bufferedLiveFrame list \<times> int" where
  "dropExcess maxN maxB [] tot = ([], tot)"
| "dropExcess maxN maxB (f # fs) tot =
     (if int (length (f # fs)) > maxN \<or> tot > maxB then dropExcess maxN maxB fs (tot - lf_bytes f)
      else (f # fs, tot))"

definition trimSessionLocked :: "LiveFrameBuffer \<Rightarrow> instant \<Rightarrow> liveSessionBuffer \<Rightarrow> liveSessionBuffer" where
  "trimSessionLocked b now sess =
     (let (fs1, t1) = dropAged (lb_maxAge b) now (ls_frames sess) (ls_totalBytes sess);
          (fs2, t2) = dropExcess (lb_maxN b) (lb_maxB b) fs1 t1
      in \<lparr>ls_frames = fs2, ls_totalBytes = (if t2 < 0 then 0 else t2)\<rparr>)"

definition appendFor :: "instant \<Rightarrow> EventMessage \<Rightarrow> string \<Rightarrow> LiveFrameBuffer \<Rightarrow> LiveFrameBuffer" where
  "appendFor now msg deviceID b =
     (if deviceID = [] then b
      else
        let key = sessionKey (em_BackendID msg) (em_SessionID msg);
            b1 = noteInterest now deviceID key b;
            bucket = lookupL (lb_buckets b1) deviceID;
            sess = sessionOf bucket key;
            n = jsonMarshalLen msg;
            sess1 = \<lparr>ls_frames = ls_frames sess @ [\<lparr>lf_msg = msg, lf_emittedAt = now, lf_bytes = n\<rparr>],
                     ls_totalBytes = ls_totalBytes sess + n\<rparr>
        in b1\<lparr>lb_buckets := AList.update deviceID (AList.update key (trimSessionLocked b1 now sess1) bucket)
                              (lb_buckets b1)\<rparr>)"

definition LiveFrameBuffer_Append :: "instant \<Rightarrow> string list \<Rightarrow> EventMessage \<Rightarrow> LiveFrameBuffer \<Rightarrow> LiveFrameBuffer" where
  "LiveFrameBuffer_Append now deviceIDs msg b =
     (if deviceIDs = [] then b
      else if \<not> isLiveBufferableEvent (em_Event msg) then b
      else fold (appendFor now msg) deviceIDs b)"

definition mapSessions :: "(liveSessionBuffer \<Rightarrow> liveSessionBuffer) \<Rightarrow> (string \<times> liveSessionBuffer) list
    \<Rightarrow> (string \<times> liveSessionBuffer) list" where
  "mapSessions g m = map (\<lambda>(k, s). (k, g s)) m"

definition LiveFrameBuffer_Snapshot :: "instant \<Rightarrow> string \<Rightarrow> LiveFrameBuffer \<Rightarrow> EventMessage list \<times> LiveFrameBuffer" where
  "LiveFrameBuffer_Snapshot now deviceID b =
     (if deviceID = [] then ([], b)
      else case map_of (lb_buckets b) deviceID of
        None \<Rightarrow> ([], b)
      | Some bucket \<Rightarrow>
          let bucket' = mapSessions (trimSessionLocked b now) bucket in
          (concat (map (\<lambda>(k, s). map lf_msg (ls_frames s)) bucket'),
           b\<lparr>lb_buckets := AList.update deviceID bucket' (lb_buckets b)\<rparr>))"

definition LiveFrameBuffer_FrameCount :: "string \<Rightarrow> LiveFrameBuffer \<Rightarrow> int" where
  "LiveFrameBuffer_FrameCount deviceID b =
     (\<Sum>(k, s)\<leftarrow>lookupL (lb_buckets b) deviceID. int (length (ls_frames s)))"

definition LiveFrameBuffer_gcOnce :: "instant \<Rightarrow> LiveFrameBuffer \<Rightarrow> LiveFrameBuffer" where
  "LiveFrameBuffer_gcOnce now b =
     b\<lparr>lb_buckets := filter (\<lambda>(d, m). m \<noteq> [])
          (map (\<lambda>(d, m). (d, filter (\<lambda>(k, s). ls_frames s \<noteq> []) (mapSessions (trimSessionLocked b now) m)))
             (lb_buckets b)),
       lb_interest := filter (\<lambda>(d, m). m \<noteq> [])
          (map (\<lambda>(d, m). (d, filter (\<lambda>(k, at). \<not> timeSub now at > liveInterestMaxAge) m)) (lb_interest b))\<rparr>"

section \<open>Runs\<close>

datatype LiveOp =
    OpNoteInterest instant string string string
  | OpLiveAppend instant "string list" EventMessage
  | OpLiveSnapshot instant string
  | OpGC instant

fun liveStep :: "LiveFrameBuffer \<Rightarrow> LiveOp \<Rightarrow> LiveFrameBuffer" where
  "liveStep b (OpNoteInterest now d be se) = LiveFrameBuffer_NoteInterest now d be se b"
| "liveStep b (OpLiveAppend now ds msg) = LiveFrameBuffer_Append now ds msg b"
| "liveStep b (OpLiveSnapshot now d) = snd (LiveFrameBuffer_Snapshot now d b)"
| "liveStep b (OpGC now) = LiveFrameBuffer_gcOnce now b"

text \<open>The messages appended for a device and a session key, in order.\<close>

fun appended :: "string \<Rightarrow> string \<Rightarrow> LiveOp list \<Rightarrow> EventMessage list" where
  "appended d k [] = []"
| "appended d k (OpLiveAppend now ds msg # ops) =
     (if isLiveBufferableEvent (em_Event msg) \<and> sessionKey (em_BackendID msg) (em_SessionID msg) = k
      then replicate (count_list ds d) msg else []) @ appended d k ops"
| "appended d k (_ # ops) = appended d k ops"

definition sess_ok :: "liveSessionBuffer \<Rightarrow> bool" where
  "sess_ok s \<longleftrightarrow> ls_totalBytes s = sum_list (map lf_bytes (ls_frames s))
   \<and> (\<forall>f\<in>set (ls_frames s). lf_bytes f = jsonMarshalLen (lf_msg f))
   \<and> int (length (ls_frames s)) \<le> liveFrameBufferMaxFrames \<and> ls_totalBytes s \<le> liveFrameBufferMaxBytes"

section \<open>What an operation does to one session's window\<close>

definition live_view :: "LiveFrameBuffer \<Rightarrow> string \<Rightarrow> string \<Rightarrow> liveSessionBuffer" where
  "live_view b d k = sessionOf (lookupL (lb_buckets b) d) k"

definition live_keys :: "LiveFrameBuffer \<Rightarrow> bool" where
  "live_keys b \<longleftrightarrow> distinct (map fst (lb_buckets b)) \<and> (\<forall>(d, m)\<in>set (lb_buckets b). distinct (map fst m))
   \<and> lb_maxN b = liveFrameBufferMaxFrames \<and> lb_maxB b = liveFrameBufferMaxBytes"

definition balancedSess :: "liveSessionBuffer \<Rightarrow> bool" where
  "balancedSess s \<longleftrightarrow> ls_totalBytes s = sum_list (map lf_bytes (ls_frames s))
   \<and> (\<forall>f\<in>set (ls_frames s). lf_bytes f = jsonMarshalLen (lf_msg f))"

lemma jsonMarshalLen_pos: "0 < jsonMarshalLen m"
  by (simp add: jsonMarshalLen_def)

lemma lookupL_update: "lookupL (AList.update d v m) d' = (if d' = d then v else lookupL m d')"
  by (simp add: lookupL_def update_conv')

lemma sessionOf_update: "sessionOf (AList.update k s m) k' = (if k' = k then s else sessionOf m k')"
  by (simp add: sessionOf_def update_conv')

lemma dropAged_drops:
  "dropAged maxAge now fs t = (fs', t') \<Longrightarrow>
   \<exists>n. fs' = drop n fs \<and> t' = t - sum_list (map lf_bytes (take n fs))"
proof (induction maxAge now fs t rule: dropAged.induct)
  case (2 maxAge now f fs t)
  show ?case
  proof (cases "timeSub now (lf_emittedAt f) > maxAge")
    case True
    with 2 obtain n where "fs' = drop n fs" "t' = t - lf_bytes f - sum_list (map lf_bytes (take n fs))" by auto
    then show ?thesis by (intro exI [of _ "Suc n"]) simp
  next
    case False
    with "2.prems" show ?thesis by (intro exI [of _ 0]) simp
  qed
qed simp

lemma dropExcess_drops:
  "dropExcess n c fs t = (fs', t') \<Longrightarrow>
   (\<exists>k. fs' = drop k fs \<and> t' = t - sum_list (map lf_bytes (take k fs)))
   \<and> (fs' = [] \<or> int (length fs') \<le> n \<and> t' \<le> c)"
proof (induction n c fs t rule: dropExcess.induct)
  case (2 n c f fs t)
  show ?case
  proof (cases "int (length (f # fs)) > n \<or> t > c")
    case True
    with 2 obtain k where "fs' = drop k fs" "t' = t - lf_bytes f - sum_list (map lf_bytes (take k fs))"
        "fs' = [] \<or> int (length fs') \<le> n \<and> t' \<le> c" by auto
    then show ?thesis by (auto intro!: exI [of _ "Suc k"])
  next
    case False
    with "2.prems" show ?thesis by (auto intro!: exI [of _ 0])
  qed
qed simp

lemma sum_drop_take: "sum_list (map g fs) - sum_list (map g (take n fs)) = (sum_list (map g (drop n fs)) :: int)"
proof -
  have "sum_list (map g (take n fs)) + sum_list (map g (drop n fs)) = sum_list (map g fs)"
    by (metis append_take_drop_id map_append sum_list_append)
  then show ?thesis by simp
qed

lemma trim_ok:
  assumes "live_keys b" and "balancedSess s"
  shows "sess_ok (trimSessionLocked b now s) \<and> (\<exists>n. ls_frames (trimSessionLocked b now s) = drop n (ls_frames s))"
proof -
  obtain fs1 t1 where 1: "dropAged (lb_maxAge b) now (ls_frames s) (ls_totalBytes s) = (fs1, t1)" by fastforce
  obtain fs2 t2 where 2: "dropExcess (lb_maxN b) (lb_maxB b) fs1 t1 = (fs2, t2)" by fastforce
  obtain n where n: "fs1 = drop n (ls_frames s)" "t1 = sum_list (map lf_bytes fs1)"
    using dropAged_drops [OF 1] assms(2) by (auto simp: balancedSess_def sum_drop_take)
  obtain k where k: "fs2 = drop k fs1" "t2 = sum_list (map lf_bytes fs2)"
      "fs2 = [] \<or> int (length fs2) \<le> lb_maxN b \<and> t2 \<le> lb_maxB b"
    using dropExcess_drops [OF 2] n(2) by (auto simp: sum_drop_take)
  have fr: "fs2 = drop (k + n) (ls_frames s)" using n(1) k(1) by simp
  have len: "\<forall>f\<in>set fs2. lf_bytes f = jsonMarshalLen (lf_msg f)"
    using assms(2) fr by (auto simp: balancedSess_def dest: in_set_dropD)
  then have "0 \<le> t2" unfolding k(2) using jsonMarshalLen_pos by (intro sum_list_nonneg) (auto simp: less_imp_le)
  then have t: "trimSessionLocked b now s = \<lparr>ls_frames = fs2, ls_totalBytes = t2\<rparr>"
    by (simp add: trimSessionLocked_def 1 2)
  have "int (length fs2) \<le> liveFrameBufferMaxFrames \<and> t2 \<le> liveFrameBufferMaxBytes"
    using k(2,3) assms(1) by (auto simp: live_keys_def liveFrameBufferMaxFrames_def liveFrameBufferMaxBytes_def)
  then show ?thesis using fr len k(2) by (auto simp: t sess_ok_def)
qed

lemma trim_empty [simp]:
  "trimSessionLocked b now \<lparr>ls_frames = [], ls_totalBytes = 0\<rparr> = \<lparr>ls_frames = [], ls_totalBytes = 0\<rparr>"
  by (simp add: trimSessionLocked_def)

lemma live_view_noteInterest [simp]: "live_view (noteInterest now d k b) = live_view b"
  by (simp add: live_view_def noteInterest_def fun_eq_iff)

lemma live_keys_noteInterest [simp]: "live_keys (noteInterest now d k b) = live_keys b"
  by (simp add: live_keys_def noteInterest_def)

lemma live_view_appendFor:
  "live_view (appendFor now msg d b) d' k =
     (if d \<noteq> [] \<and> d' = d \<and> k = sessionKey (em_BackendID msg) (em_SessionID msg)
      then trimSessionLocked b now
             \<lparr>ls_frames = ls_frames (live_view b d k)
                @ [\<lparr>lf_msg = msg, lf_emittedAt = now, lf_bytes = jsonMarshalLen msg\<rparr>],
              ls_totalBytes = ls_totalBytes (live_view b d k) + jsonMarshalLen msg\<rparr>
      else live_view b d' k)"
  by (simp add: appendFor_def live_view_def Let_def lookupL_update sessionOf_update noteInterest_def
      trimSessionLocked_def)

lemma live_keys_bucket: "live_keys b \<Longrightarrow> distinct (map fst (lookupL (lb_buckets b) d))"
  by (cases "map_of (lb_buckets b) d") (auto simp: live_keys_def lookupL_def dest!: map_of_SomeD)

lemma live_keys_update:
  assumes "live_keys b" and "distinct (map fst bucket)"
  shows "live_keys (b\<lparr>lb_buckets := AList.update d bucket (lb_buckets b)\<rparr>)"
  using assms by (auto simp: live_keys_def distinct_update dest!: set_AList_update)

lemma live_keys_appendFor: "live_keys b \<Longrightarrow> live_keys (appendFor now msg d b)"
  unfolding appendFor_def Let_def
  by (auto intro!: live_keys_update distinct_update live_keys_bucket)

lemma mapSessions_view: "sessionOf (mapSessions (trimSessionLocked b now) m) k = trimSessionLocked b now (sessionOf m k)"
proof -
  have "map_of (mapSessions g m) k = map_option g (map_of m k)" for g
    by (induction m) (auto simp: mapSessions_def)
  then show ?thesis by (simp add: sessionOf_def split: option.split)
qed

lemma mapSessions_Nil [simp]: "mapSessions g [] = []"
  by (simp add: mapSessions_def)

lemma fst_mapSessions: "map fst (mapSessions g m) = map fst m"
  by (induction m) (auto simp: mapSessions_def)

lemma live_view_Snapshot:
  "live_view (snd (LiveFrameBuffer_Snapshot now d b)) d' k =
     (if d \<noteq> [] \<and> d' = d then trimSessionLocked b now (live_view b d' k) else live_view b d' k)"
proof (cases "map_of (lb_buckets b) d")
  case None
  then have "live_view b d k = \<lparr>ls_frames = [], ls_totalBytes = 0\<rparr>"
    by (simp add: live_view_def lookupL_def sessionOf_def)
  then show ?thesis using None by (simp add: LiveFrameBuffer_Snapshot_def)
next
  case (Some m)
  then have "lookupL (lb_buckets b) d = m" by (simp add: lookupL_def)
  then show ?thesis using Some
    by (simp add: LiveFrameBuffer_Snapshot_def live_view_def Let_def lookupL_update mapSessions_view)
qed

lemma map_of_filter_distinct:
  "distinct (map fst m) \<Longrightarrow> map_of (filter (\<lambda>(k, v). P v) m) k
     = (case map_of m k of Some v \<Rightarrow> if P v then Some v else None | None \<Rightarrow> None)"
proof (induction m)
  case (Cons kv m)
  obtain k' v where kv: "kv = (k', v)" by fastforce
  have "k' \<notin> fst ` set m" using Cons.prems kv by auto
  then have "map_of m k' = None" by (simp add: map_of_eq_None_iff)
  with Cons kv show ?case by auto
qed simp

lemma map_of_mapSnd: "map_of (map (\<lambda>(d, m). (d, g m)) xs) d = map_option g (map_of xs d)"
  by (induction xs) auto

lemma fst_mapSnd: "map fst (map (\<lambda>(d, m). (d, g m)) xs) = map fst xs"
  by (induction xs) auto

lemma sessionOf_prune:
  assumes "distinct (map fst m)" and "ls_frames (sessionOf m k) = [] \<Longrightarrow> ls_totalBytes (sessionOf m k) = 0"
  shows "sessionOf (filter (\<lambda>(k, s). ls_frames s \<noteq> []) m) k = sessionOf m k"
  using assms(2) by (auto simp: sessionOf_def map_of_filter_distinct [OF assms(1)] split: option.splits)

lemma live_view_gc:
  assumes "live_keys b" and "\<And>d k. balancedSess (live_view b d k)"
  shows "live_view (LiveFrameBuffer_gcOnce now b) d k = trimSessionLocked b now (live_view b d k)"
proof -
  let ?g = "\<lambda>m. filter (\<lambda>(k, s). ls_frames s \<noteq> []) (mapSessions (trimSessionLocked b now) m)"
  have D: "distinct (map fst (map (\<lambda>(d, m). (d, ?g m)) (lb_buckets b)))"
    using assms(1) unfolding fst_mapSnd live_keys_def by blast
  have "lookupL (lb_buckets (LiveFrameBuffer_gcOnce now b)) d = ?g (lookupL (lb_buckets b) d)"
    unfolding LiveFrameBuffer_gcOnce_def
    by (cases "map_of (lb_buckets b) d") (simp_all add: lookupL_def map_of_filter_distinct [OF D] map_of_mapSnd)
  moreover have "sessionOf (?g (lookupL (lb_buckets b) d)) k = trimSessionLocked b now (live_view b d k)"
  proof -
    have t: "sessionOf (mapSessions (trimSessionLocked b now) (lookupL (lb_buckets b) d)) k
        = trimSessionLocked b now (live_view b d k)"
      by (simp add: mapSessions_view live_view_def)
    have "distinct (map fst (mapSessions (trimSessionLocked b now) (lookupL (lb_buckets b) d)))"
      using live_keys_bucket [OF assms(1)] by (simp add: fst_mapSessions)
    moreover have "ls_frames (trimSessionLocked b now (live_view b d k)) = [] \<Longrightarrow>
        ls_totalBytes (trimSessionLocked b now (live_view b d k)) = 0"
      using trim_ok [OF assms(1,2)] by (auto simp: sess_ok_def)
    ultimately show ?thesis using sessionOf_prune t by metis
  qed
  ultimately show ?thesis by (simp add: live_view_def)
qed

lemma live_keys_gc: "live_keys b \<Longrightarrow> live_keys (LiveFrameBuffer_gcOnce now b)"
proof -
  assume ok: "live_keys b"
  have "distinct (map fst (filter P (map (\<lambda>(d, m). (d, g m)) (lb_buckets b))))" for P g
    by (rule distinct_map_filter) (use ok in \<open>unfold fst_mapSnd live_keys_def, blast\<close>)
  moreover have "distinct (map fst (filter P (mapSessions (trimSessionLocked b now) m)))" if "(d, m) \<in> set (lb_buckets b)" for P d m
    using ok that by (intro distinct_map_filter) (auto simp: fst_mapSessions live_keys_def)
  ultimately show ?thesis using ok by (auto simp: live_keys_def LiveFrameBuffer_gcOnce_def)
qed

lemma live_keys_Snapshot: "live_keys b \<Longrightarrow> live_keys (snd (LiveFrameBuffer_Snapshot now d b))"
proof -
  assume ok: "live_keys b"
  have "distinct (map fst (mapSessions g m))" if "map_of (lb_buckets b) d = Some m" for g m
    using ok map_of_SomeD [OF that] by (auto simp: live_keys_def fst_mapSessions)
  then show ?thesis using ok
    by (auto simp: LiveFrameBuffer_Snapshot_def Let_def split: option.split intro!: live_keys_update)
qed

section \<open>The window is a suffix of what was appended\<close>

definition live_ok :: "(string \<Rightarrow> string \<Rightarrow> EventMessage list) \<Rightarrow> LiveFrameBuffer \<Rightarrow> bool" where
  "live_ok A b \<longleftrightarrow> live_keys b \<and> (\<forall>d k. sess_ok (live_view b d k)
   \<and> (\<exists>n. map lf_msg (ls_frames (live_view b d k)) = drop n (A d k)))"

lemma sess_balanced: "sess_ok s \<Longrightarrow> balancedSess s"
  by (simp add: sess_ok_def balancedSess_def)

lemma live_ok_trim:
  assumes "live_ok A b" and "live_keys b'"
    and "\<And>d k. live_view b' d k = live_view b d k \<or> live_view b' d k = trimSessionLocked b now (live_view b d k)"
  shows "live_ok A b'"
  unfolding live_ok_def
proof (intro conjI allI)
  show "live_keys b'" by fact
  fix d k
  have v: "sess_ok (live_view b d k)" "\<exists>n. map lf_msg (ls_frames (live_view b d k)) = drop n (A d k)" "live_keys b"
    using assms(1) by (auto simp: live_ok_def)
  note T = trim_ok [OF v(3) sess_balanced [OF v(1)], of now]
  show "sess_ok (live_view b' d k)" using assms(3) [of d k] v(1) T by auto
  show "\<exists>n. map lf_msg (ls_frames (live_view b' d k)) = drop n (A d k)"
    using assms(3) [of d k] v(2) T by (auto simp: drop_map [symmetric])
qed

lemma live_ok_appendFor:
  assumes "live_ok A b"
  shows "live_ok (\<lambda>d' k. A d' k @ (if d' = d \<and> sessionKey (em_BackendID msg) (em_SessionID msg) = k \<and> d \<noteq> [] then [msg] else []))
    (appendFor now msg d b)"
  unfolding live_ok_def
proof (intro conjI allI)
  let ?key = "sessionKey (em_BackendID msg) (em_SessionID msg)"
  have K: "live_keys b" using assms by (simp add: live_ok_def)
  then show "live_keys (appendFor now msg d b)" by (rule live_keys_appendFor)
  fix d' k
  let ?s = "\<lparr>ls_frames = ls_frames (live_view b d k) @ [\<lparr>lf_msg = msg, lf_emittedAt = now, lf_bytes = jsonMarshalLen msg\<rparr>],
              ls_totalBytes = ls_totalBytes (live_view b d k) + jsonMarshalLen msg\<rparr>"
  have v: "sess_ok (live_view b x y)" "\<exists>n. map lf_msg (ls_frames (live_view b x y)) = drop n (A x y)" for x y
    using assms by (auto simp: live_ok_def)
  have "balancedSess ?s" using sess_balanced [OF v(1) [of d k]] by (auto simp: balancedSess_def)
  note T = trim_ok [OF K this, of now]
  show "sess_ok (live_view (appendFor now msg d b) d' k)" using T v(1) by (auto simp: live_view_appendFor)
  obtain n where n: "map lf_msg (ls_frames (live_view b d' k)) = drop n (A d' k)" using v(2) by blast
  have le: "\<exists>m. drop n xs @ ys = drop m (xs @ ys)" for xs ys :: "EventMessage list"
    by (rule exI [of _ "min n (length xs)"]) (cases "n \<le> length xs"; simp)
  show "\<exists>n. map lf_msg (ls_frames (live_view (appendFor now msg d b) d' k))
      = drop n (A d' k @ (if d' = d \<and> ?key = k \<and> d \<noteq> [] then [msg] else []))"
  proof (cases "d \<noteq> [] \<and> d' = d \<and> k = ?key")
    case True
    obtain m where "ls_frames (trimSessionLocked b now ?s) = drop m (ls_frames ?s)" using T by blast
    moreover obtain j where "map lf_msg (ls_frames ?s) = drop j (A d k @ [msg])" using le n True by auto
    ultimately have "map lf_msg (ls_frames (trimSessionLocked b now ?s)) = drop (m + j) (A d k @ [msg])"
      by (metis drop_drop drop_map)
    then show ?thesis using True by (auto simp: live_view_appendFor)
  next
    case False
    then show ?thesis using n by (auto simp: live_view_appendFor)
  qed
qed

lemma live_ok_cong: "live_ok A b \<Longrightarrow> (\<And>d k. A d k = A' d k) \<Longrightarrow> live_ok A' b"
  by (simp add: live_ok_def)

lemma live_ok_fold:
  "live_ok A b \<Longrightarrow> live_ok (\<lambda>d k. A d k @ (if sessionKey (em_BackendID msg) (em_SessionID msg) = k \<and> d \<noteq> []
      then replicate (count_list ds d) msg else [])) (fold (appendFor now msg) ds b)"
proof (induction ds arbitrary: A b)
  case Nil
  then show ?case by (auto elim!: live_ok_cong)
next
  case (Cons d ds)
  from Cons.IH [OF live_ok_appendFor [OF Cons.prems, of d msg now]] show ?case
    by (simp, elim live_ok_cong) auto
qed

definition appendedFor :: "LiveOp list \<Rightarrow> string \<Rightarrow> string \<Rightarrow> EventMessage list" where
  "appendedFor ops d k = (if d = [] then [] else appended d k ops)"

lemma appended_snoc: "appended d k (ops @ [x]) = appended d k ops @ appended d k [x]"
proof (induction ops)
  case (Cons y ops)
  then show ?case by (cases y) simp_all
qed simp

lemma live_ok_step:
  assumes "live_ok (appendedFor ops) b"
  shows "live_ok (appendedFor (ops @ [x])) (liveStep b x)"
proof -
  have K: "live_keys b" and B: "\<And>d k. balancedSess (live_view b d k)"
    using assms sess_balanced by (auto simp: live_ok_def)
  show ?thesis
  proof (cases x)
    case (OpNoteInterest now d be se)
    then show ?thesis using live_ok_trim [OF assms, of "liveStep b x"] K
      by (auto simp: LiveFrameBuffer_NoteInterest_def appendedFor_def appended_snoc elim!: live_ok_cong)
  next
    case (OpLiveAppend now ds msg)
    show ?thesis
    proof (cases "isLiveBufferableEvent (em_Event msg)")
      case True
      then have "liveStep b x = fold (appendFor now msg) ds b"
        using OpLiveAppend by (simp add: LiveFrameBuffer_Append_def)
      then show ?thesis using live_ok_fold [OF assms, of msg ds now] True OpLiveAppend
        by (auto simp: appendedFor_def appended_snoc elim!: live_ok_cong)
    next
      case False
      then show ?thesis using assms OpLiveAppend
        by (auto simp: LiveFrameBuffer_Append_def appendedFor_def appended_snoc elim!: live_ok_cong)
    qed
  next
    case (OpLiveSnapshot now d)
    have "live_ok (appendedFor ops) (liveStep b x)"
      by (rule live_ok_trim [OF assms, where now = now])
        (use OpLiveSnapshot K in \<open>auto simp: live_keys_Snapshot live_view_Snapshot\<close>)
    then show ?thesis using OpLiveSnapshot by (auto simp: appendedFor_def appended_snoc elim!: live_ok_cong)
  next
    case (OpGC now)
    have "live_ok (appendedFor ops) (liveStep b x)"
      by (rule live_ok_trim [OF assms, where now = now])
        (use OpGC K B in \<open>auto simp: live_keys_gc live_view_gc\<close>)
    then show ?thesis using OpGC by (auto simp: appendedFor_def appended_snoc elim!: live_ok_cong)
  qed
qed

lemma live_ok_run: "live_ok (appendedFor ops) (run liveStep NewLiveFrameBuffer ops)"
proof (induction ops rule: rev_induct)
  case Nil
  show ?case
    by (auto simp: live_ok_def live_keys_def live_view_def lookupL_def sessionOf_def sess_ok_def NewLiveFrameBuffer_def
        liveFrameBufferMaxFrames_def liveFrameBufferMaxBytes_def appendedFor_def)
next
  case (snoc x ops)
  then show ?case using live_ok_step by simp
qed

section \<open>Properties\<close>

text \<open>
  C19: after any sequence of interest notes, appends, snapshots and collections, the window of a
  device and session is a suffix, in order, of the bufferable events appended for that device and
  session, holds at most 200 frames, and its byte counter is the sum of the estimated sizes of its
  frames and at most one megabyte.
\<close>

theorem live_window:
  fixes ops d k
  defines "w \<equiv> live_view (run liveStep NewLiveFrameBuffer ops) d k"
  shows "(\<exists>n. map lf_msg (ls_frames w) = drop n (if d = [] then [] else appended d k ops))
    \<and> length (ls_frames w) \<le> 200
    \<and> ls_totalBytes w = (\<Sum>f\<leftarrow>ls_frames w. jsonMarshalLen (lf_msg f)) \<and> ls_totalBytes w \<le> 1048576"
proof -
  have ok: "sess_ok w" "\<exists>n. map lf_msg (ls_frames w) = drop n (appendedFor ops d k)"
    using live_ok_run [of ops] by (auto simp: live_ok_def w_def)
  then have "map lf_bytes (ls_frames w) = map (\<lambda>f. jsonMarshalLen (lf_msg f)) (ls_frames w)"
    by (auto simp: sess_ok_def)
  with ok show ?thesis
    by (simp add: sess_ok_def appendedFor_def liveFrameBufferMaxFrames_def liveFrameBufferMaxBytes_def)
qed

text \<open>
  The size estimate leaves the payload out: it is the same whatever the data of the event, so that
  the byte limit above does not bound the memory the frames hold.
\<close>

lemma live_size_ignores_data: "jsonMarshalLen (m\<lparr>em_Data := x\<rparr>) = jsonMarshalLen m"
  by (simp add: jsonMarshalLen_def)

end
