(* ===== verification/Rate_Limiter.thy ===== *)
theory Rate_Limiter
  imports Bridge_Prelude "HOL-Library.AList"
begin

text \<open>
  The fixed-window rate limiter of the relay server (\<^verbatim>\<open>relay-server/internal/relay/limiter.go\<close>): one
  bucket per key, a bounded number of buckets, and a periodic removal of stale ones.  The bucket map
  is an association list with distinct keys.
\<close>

record rateBucket =
  rb_window :: instant
  rb_count :: int

record RateLimiter =
  rl_limit :: int
  rl_interval :: duration
  rl_bucketTTL :: duration
  rl_maxBuckets :: int
  rl_lastCleanup :: instant
  rl_buckets :: "(string \<times> rateBucket) list"
  rl_rateDenied :: u64
  rl_capacityDenied :: u64
  rl_cleaned :: u64

definition NewBoundedRateLimiter :: "int \<Rightarrow> duration \<Rightarrow> int \<Rightarrow> duration \<Rightarrow> RateLimiter" where
  "NewBoundedRateLimiter limit interval maxBuckets bucketTTL =
     \<lparr>rl_limit = limit, rl_interval = interval,
      rl_bucketTTL = (if bucketTTL < interval then 2 * interval else bucketTTL),
      rl_maxBuckets = (if maxBuckets \<le> 0 then 4096 else maxBuckets),
      rl_lastCleanup = zeroTime, rl_buckets = [], rl_rateDenied = 0, rl_capacityDenied = 0, rl_cleaned = 0\<rparr>"

definition NewRateLimiter :: "int \<Rightarrow> duration \<Rightarrow> RateLimiter" where
  "NewRateLimiter limit interval = NewBoundedRateLimiter limit interval 4096 (2 * interval)"

definition cleanupLocked :: "instant \<Rightarrow> RateLimiter \<Rightarrow> RateLimiter" where
  "cleanupLocked now l =
     (let stale = filter (\<lambda>(k, b). timeSub now (rb_window b) \<ge> rl_bucketTTL l) (rl_buckets l) in
      l\<lparr>rl_buckets := filter (\<lambda>(k, b). \<not> timeSub now (rb_window b) \<ge> rl_bucketTTL l) (rl_buckets l),
        rl_cleaned := rl_cleaned l + of_nat (length stale), rl_lastCleanup := now\<rparr>)"

definition RateLimiter_Allow :: "string \<Rightarrow> instant \<Rightarrow> RateLimiter \<Rightarrow> bool \<times> RateLimiter" where
  "RateLimiter_Allow key now l0 =
     (if rl_limit l0 \<le> 0 then (True, l0)
      else
        let l = (if isZero (rl_lastCleanup l0) \<or> timeSub now (rl_lastCleanup l0) \<ge> rl_interval l0
                 then cleanupLocked now l0 else l0)
        in
        if map_of (rl_buckets l) key = None \<and> int (length (rl_buckets l)) \<ge> rl_maxBuckets l
        then (False, l\<lparr>rl_capacityDenied := rl_capacityDenied l + 1\<rparr>)
        else
          let bucket0 = (case map_of (rl_buckets l) key of
                           None \<Rightarrow> \<lparr>rb_window = zeroTime, rb_count = 0\<rparr> | Some b \<Rightarrow> b);
              bucket = (if isZero (rb_window bucket0) \<or> timeSub now (rb_window bucket0) \<ge> rl_interval l
                        then \<lparr>rb_window = now, rb_count = 0\<rparr> else bucket0)
          in
          if rb_count bucket \<ge> rl_limit l
          then (False, l\<lparr>rl_buckets := AList.update key bucket (rl_buckets l),
                         rl_rateDenied := rl_rateDenied l + 1\<rparr>)
          else (True, l\<lparr>rl_buckets := AList.update key (bucket\<lparr>rb_count := rb_count bucket + 1\<rparr>) (rl_buckets l)\<rparr>))"

record RateLimiterStats =
  rls_Buckets :: int
  rls_RateDenied :: u64
  rls_CapacityDenied :: u64
  rls_Cleaned :: u64

definition RateLimiter_Stats :: "RateLimiter \<Rightarrow> RateLimiterStats" where
  "RateLimiter_Stats l = \<lparr>rls_Buckets = int (length (rl_buckets l)), rls_RateDenied = rl_rateDenied l,
     rls_CapacityDenied = rl_capacityDenied l, rls_Cleaned = rl_cleaned l\<rparr>"

section \<open>Runs beside the list of admitted calls\<close>

text \<open>
  A call is a key and the clock reading; the state of a run is the limiter and the admitted calls,
  newest first.
\<close>

fun limitStep :: "RateLimiter \<times> (string \<times> instant) list \<Rightarrow> string \<times> instant \<Rightarrow> RateLimiter \<times> (string \<times> instant) list" where
  "limitStep (l, admitted) (key, now) =
     (let (ok, l') = RateLimiter_Allow key now l in (l', if ok then (key, now) # admitted else admitted))"

text \<open>The calls of a key admitted at or after an instant.\<close>

definition admittedSince :: "(string \<times> instant) list \<Rightarrow> string \<Rightarrow> instant \<Rightarrow> nat" where
  "admittedSince admitted key w = length (filter (\<lambda>(k, t). k = key \<and> w \<le> t) admitted)"

definition limiter_ok :: "RateLimiter \<times> (string \<times> instant) list \<Rightarrow> bool" where
  "limiter_ok s \<longleftrightarrow> 0 < rl_limit (fst s) \<and> 0 < rl_maxBuckets (fst s) \<and> distinct (map fst (rl_buckets (fst s)))
   \<and> int (length (rl_buckets (fst s))) \<le> rl_maxBuckets (fst s)
   \<and> (\<forall>k b. map_of (rl_buckets (fst s)) k = Some b \<longrightarrow> 0 \<le> rb_count b \<and> rb_count b \<le> rl_limit (fst s))"

lemma cleanup_fields [simp]:
  "rl_limit (cleanupLocked now l) = rl_limit l" "rl_maxBuckets (cleanupLocked now l) = rl_maxBuckets l"
  "rl_interval (cleanupLocked now l) = rl_interval l" "rl_bucketTTL (cleanupLocked now l) = rl_bucketTTL l"
  by (simp_all add: cleanupLocked_def Let_def)

lemma length_update_alist:
  "length (AList.update k v m) = (if k \<in> fst ` set m then length m else Suc (length m))"
  by (induction m) auto

lemma map_of_filter_sub: "distinct (map fst m) \<Longrightarrow> map_of (filter P m) k = Some b \<Longrightarrow> map_of m k = Some b"
  using map_of_SomeD [of "filter P m" k b] by (auto intro: map_of_is_SomeI)

lemma limiter_ok_cleanup: "limiter_ok (l, a) \<Longrightarrow> limiter_ok (cleanupLocked now l, a)"
proof -
  assume ok: "limiter_ok (l, a)"
  let ?m = "rl_buckets (cleanupLocked now l)"
  have m: "?m = filter (\<lambda>(k, b). \<not> timeSub now (rb_window b) \<ge> rl_bucketTTL l) (rl_buckets l)"
    by (simp add: cleanupLocked_def Let_def)
  have "length ?m \<le> length (rl_buckets l)" unfolding m by (rule length_filter_le)
  moreover have "distinct (map fst ?m)" unfolding m using ok by (intro distinct_map_filter) (simp add: limiter_ok_def)
  moreover have "map_of (rl_buckets l) k = Some b" if "map_of ?m k = Some b" for k b
    using that ok map_of_filter_sub unfolding m limiter_ok_def fst_conv by metis
  moreover have "\<forall>k b. map_of (rl_buckets l) k = Some b \<longrightarrow> 0 \<le> rb_count b \<and> rb_count b \<le> rl_limit l"
    using ok by (simp add: limiter_ok_def)
  ultimately have "\<forall>k b. map_of ?m k = Some b \<longrightarrow> 0 \<le> rb_count b \<and> rb_count b \<le> rl_limit l" by blast
  with \<open>length ?m \<le> length (rl_buckets l)\<close> \<open>distinct (map fst ?m)\<close> ok show ?thesis
    unfolding limiter_ok_def by simp
qed

lemma limiter_ok_update:
  assumes "limiter_ok (l, a)" and "map_of (rl_buckets l) key \<noteq> None \<or> int (length (rl_buckets l)) < rl_maxBuckets l"
    and "0 \<le> rb_count b" and "rb_count b \<le> rl_limit l"
  shows "limiter_ok (l\<lparr>rl_buckets := AList.update key b (rl_buckets l)\<rparr>, a')"
  using assms by (auto simp: limiter_ok_def distinct_update length_update_alist update_conv' map_of_eq_None_iff)

text \<open>The bucket a call works on, after the cleanup that was due and the window reset.\<close>

definition cleaned :: "instant \<Rightarrow> RateLimiter \<Rightarrow> RateLimiter" where
  "cleaned now l = (if isZero (rl_lastCleanup l) \<or> timeSub now (rl_lastCleanup l) \<ge> rl_interval l
     then cleanupLocked now l else l)"

definition currentBucket :: "string \<Rightarrow> instant \<Rightarrow> RateLimiter \<Rightarrow> rateBucket" where
  "currentBucket key now l = (case map_of (rl_buckets l) key of
     None \<Rightarrow> \<lparr>rb_window = now, rb_count = 0\<rparr>
   | Some b \<Rightarrow> if isZero (rb_window b) \<or> timeSub now (rb_window b) \<ge> rl_interval l
               then \<lparr>rb_window = now, rb_count = 0\<rparr> else b)"

lemma Allow_cases:
  fixes now :: instant and key :: string
  assumes "0 < rl_limit l0"
  defines "l \<equiv> cleaned now l0"
  defines "b \<equiv> currentBucket key now l"
  shows "RateLimiter_Allow key now l0 =
     (if map_of (rl_buckets l) key = None \<and> int (length (rl_buckets l)) \<ge> rl_maxBuckets l
      then (False, l\<lparr>rl_capacityDenied := rl_capacityDenied l + 1\<rparr>)
      else if rb_count b \<ge> rl_limit l
      then (False, l\<lparr>rl_buckets := AList.update key b (rl_buckets l), rl_rateDenied := rl_rateDenied l + 1\<rparr>)
      else (True, l\<lparr>rl_buckets := AList.update key (b\<lparr>rb_count := rb_count b + 1\<rparr>) (rl_buckets l)\<rparr>))"
  using assms(1) unfolding RateLimiter_Allow_def Let_def cleaned_def [symmetric] l_def b_def currentBucket_def
  by (simp add: isZero_def split: option.split)

lemma cleaned_fields [simp]:
  "rl_limit (cleaned now l) = rl_limit l" "rl_maxBuckets (cleaned now l) = rl_maxBuckets l"
  "rl_interval (cleaned now l) = rl_interval l" "rl_bucketTTL (cleaned now l) = rl_bucketTTL l"
  by (simp_all add: cleaned_def)

lemma cleaned_ok: "limiter_ok (l, a) \<Longrightarrow> limiter_ok (cleaned now l, a)"
  by (simp add: cleaned_def limiter_ok_cleanup)

lemma currentBucket_count:
  "limiter_ok (l, a) \<Longrightarrow> 0 \<le> rb_count (currentBucket key now l) \<and> rb_count (currentBucket key now l) \<le> rl_limit l"
  by (cases "map_of (rl_buckets l) key") (auto simp: currentBucket_def limiter_ok_def)

lemma limiter_ok_counters:
  "limiter_ok (l\<lparr>rl_rateDenied := u\<rparr>, a) = limiter_ok (l, a)" "limiter_ok (l\<lparr>rl_capacityDenied := u\<rparr>, a) = limiter_ok (l, a)"
  by (simp_all add: limiter_ok_def)

lemma limiter_ok_log: "limiter_ok (l, a) \<Longrightarrow> limiter_ok (l, a')"
  by (simp add: limiter_ok_def)

interpretation lm: guarded_machine limitStep limiter_ok
proof
  fix s and x :: "string \<times> instant" assume ok: "limiter_ok s"
  obtain l a key now where s: "s = (l, a)" and x: "x = (key, now)" by (metis surj_pair)
  let ?l = "cleaned now l" and ?b = "currentBucket key now (cleaned now l)"
  have ok1: "limiter_ok (?l, a')" for a' using limiter_ok_log [OF cleaned_ok] ok unfolding s .
  note step = Allow_cases [of l key now] and b = currentBucket_count [OF ok1, of key now]
  have pos: "0 < rl_limit l" using ok by (simp add: s limiter_ok_def)
  show "limiter_ok (limitStep s x)"
  proof (cases "map_of (rl_buckets ?l) key = None \<and> int (length (rl_buckets ?l)) \<ge> rl_maxBuckets ?l")
    case True
    then show ?thesis using ok1 pos by (simp add: s x step limiter_ok_counters)
  next
    case False
    then have room: "map_of (rl_buckets ?l) key \<noteq> None \<or> int (length (rl_buckets ?l)) < rl_maxBuckets ?l" by auto
    have "limiter_ok (?l\<lparr>rl_buckets := AList.update key ?b (rl_buckets ?l), rl_rateDenied := u\<rparr>, a')" for u a'
      using limiter_ok_update [OF ok1 room, of ?b a'] b by (simp add: limiter_ok_counters limiter_ok_def)
    moreover have "limiter_ok (?l\<lparr>rl_buckets := AList.update key (?b\<lparr>rb_count := rb_count ?b + 1\<rparr>) (rl_buckets ?l)\<rparr>, a')"
      if "\<not> rb_count ?b \<ge> rl_limit ?l" for a'
      using that b by (intro limiter_ok_update [OF ok1 room]) auto
    ultimately show ?thesis using False pos ok1 by (simp add: s x step limiter_ok_counters)
  qed
qed

section \<open>The window of a key\<close>

text \<open>
  With a clock that does not run backwards: every admitted call of a key is counted in its bucket
  or lies before the bucket's window, and no call of a key without a bucket is as late as the last
  call.
\<close>

definition window_ok :: "(string \<times> instant) list \<Rightarrow> RateLimiter \<times> (string \<times> instant) list \<Rightarrow> bool" where
  "window_ok calls s \<longleftrightarrow>
     (\<forall>k t. (k, t) \<in> set (snd s) \<longrightarrow>
        (case map_of (rl_buckets (fst s)) k of
           Some b \<Rightarrow> t < rb_window b + rl_interval (fst s)
         | None \<Rightarrow> \<exists>y\<in>set calls. t < snd y))
   \<and> (\<forall>k b. map_of (rl_buckets (fst s)) k = Some b \<longrightarrow>
        0 < rb_window b \<and> (\<exists>y\<in>set calls. rb_window b = snd y)
      \<and> int (admittedSince (snd s) k (rb_window b)) = rb_count b)"

lemmas window_ok_pair = window_ok_def [of _ "(l, a)" for l a, unfolded fst_conv snd_conv]

definition durations_ok :: "RateLimiter \<Rightarrow> bool" where
  "durations_ok l \<longleftrightarrow> 0 < rl_interval l \<and> rl_interval l \<le> rl_bucketTTL l \<and> rl_bucketTTL l \<le> maxDuration"

lemma durations_ge:
  "durations_ok l \<Longrightarrow> timeSub t u \<ge> rl_interval l \<longleftrightarrow> t - u \<ge> rl_interval l"
  "durations_ok l \<Longrightarrow> timeSub t u \<ge> rl_bucketTTL l \<longleftrightarrow> t - u \<ge> rl_bucketTTL l"
  by (rule timeSub_ge; simp add: durations_ok_def minDuration_def)+

lemma window_cleanup:
  assumes W: "window_ok calls (l, a)" and D: "durations_ok l" and K: "distinct (map fst (rl_buckets l))"
  shows "window_ok (calls @ [(key, now)]) (cleaned now l, a)"
proof -
  let ?m = "rl_buckets (cleaned now l)"
  have sub: "map_of (rl_buckets l) k = Some b" if "map_of ?m k = Some b" for k b
    using that map_of_filter_sub [OF K] by (auto simp: cleaned_def cleanupLocked_def Let_def split: if_splits)
  have gone: "now - rb_window b \<ge> rl_bucketTTL l" if "map_of (rl_buckets l) k = Some b" "map_of ?m k = None" for k b
  proof (rule ccontr)
    assume "\<not> ?thesis"
    then have "(k, b) \<in> set ?m" using map_of_SomeD [OF that(1)] durations_ge(2) [OF D]
      by (auto simp: cleaned_def cleanupLocked_def Let_def)
    then show False using that(2) by (auto simp: map_of_eq_None_iff image_iff)
  qed
  have old: "t < rb_window b + rl_interval l" if "(k, t) \<in> set a" "map_of (rl_buckets l) k = Some b" for k t b
    using W [unfolded window_ok_pair, THEN conjunct1, rule_format, OF that(1)] that(2) by simp
  have none: "\<exists>y\<in>set calls. t < snd y" if "(k, t) \<in> set a" "map_of (rl_buckets l) k = None" for k t
    using W [unfolded window_ok_pair, THEN conjunct1, rule_format, OF that(1)] that(2) by simp
  have "case map_of ?m k of Some b \<Rightarrow> t < rb_window b + rl_interval l | None \<Rightarrow> \<exists>y\<in>set (calls @ [(key, now)]). t < snd y"
    if kt: "(k, t) \<in> set a" for k t
  proof (cases "map_of ?m k")
    case (Some b)
    then show ?thesis using old [OF kt] sub by auto
  next
    case None
    have "t < now" if "map_of (rl_buckets l) k = Some b" for b
      using old [OF kt that] gone [OF that None] D by (auto simp: durations_ok_def)
    then show ?thesis using none [OF kt] None by (cases "map_of (rl_buckets l) k") auto
  qed
  moreover have "0 < rb_window b \<and> (\<exists>y\<in>set (calls @ [(key, now)]). rb_window b = snd y)
      \<and> int (admittedSince a k (rb_window b)) = rb_count b" if "map_of ?m k = Some b" for k b
  proof -
    have "0 < rb_window b \<and> (\<exists>y\<in>set calls. rb_window b = snd y) \<and> int (admittedSince a k (rb_window b)) = rb_count b"
      using W sub [OF that] unfolding window_ok_def by simp
    then show ?thesis by auto
  qed
  ultimately show ?thesis unfolding window_ok_pair cleaned_fields by simp
qed

text \<open>The bucket a call works on counts the admitted calls of its window.\<close>

lemma currentBucket_window:
  assumes W: "window_ok calls (l, a)" and D: "durations_ok l" and now: "0 < now" "\<forall>y\<in>set calls. snd y \<le> now"
  shows "int (admittedSince a key (rb_window (currentBucket key now l))) = rb_count (currentBucket key now l)
    \<and> 0 < rb_window (currentBucket key now l)
    \<and> (\<exists>y\<in>set (calls @ [(key, now)]). rb_window (currentBucket key now l) = snd y)
    \<and> now < rb_window (currentBucket key now l) + rl_interval l
    \<and> (\<forall>t. (key, t) \<in> set a \<longrightarrow> t < rb_window (currentBucket key now l) + rl_interval l)"
proof -
  have fresh: "admittedSince a key now = 0" if "\<forall>t. (key, t) \<in> set a \<longrightarrow> t < now"
    using that by (auto simp: admittedSince_def filter_empty_conv)
  show ?thesis
  proof (cases "map_of (rl_buckets l) key")
    case None
    then have "\<forall>t. (key, t) \<in> set a \<longrightarrow> t < now" using W now(2) by (fastforce simp: window_ok_def)
    then show ?thesis using fresh None now D by (fastforce simp: currentBucket_def durations_ok_def)
  next
    case (Some b)
    then have b: "0 < rb_window b" "\<exists>y\<in>set calls. rb_window b = snd y" "int (admittedSince a key (rb_window b)) = rb_count b"
      using W by (auto simp: window_ok_def)
    have t: "\<forall>t. (key, t) \<in> set a \<longrightarrow> t < rb_window b + rl_interval l"
      using W Some by (fastforce simp: window_ok_def)
    show ?thesis
    proof (cases "now - rb_window b \<ge> rl_interval l")
      case True
      then have "\<forall>t. (key, t) \<in> set a \<longrightarrow> t < now" using t by force
      then show ?thesis using fresh True Some now D
        by (fastforce simp: currentBucket_def durations_ge durations_ok_def)
    next
      case False
      then show ?thesis using Some b t D by (auto simp: currentBucket_def durations_ge isZero_def zeroTime_def)
    qed
  qed
qed

lemma admittedSince_Cons:
  "admittedSince ((k, t) # a) key w = (if k = key \<and> w \<le> t then 1 else 0) + admittedSince a key w"
  by (simp add: admittedSince_def)

lemma window_store:
  assumes W: "window_ok calls (l, a)" and b: "int (admittedSince a' key (rb_window b)) = rb_count b" "0 < rb_window b"
      "\<exists>y\<in>set calls. rb_window b = snd y" "\<forall>t. (key, t) \<in> set a' \<longrightarrow> t < rb_window b + rl_interval l"
    and a': "\<And>k t. k \<noteq> key \<Longrightarrow> (k, t) \<in> set a' \<longleftrightarrow> (k, t) \<in> set a"
      "\<And>k w. k \<noteq> key \<Longrightarrow> admittedSince a' k w = admittedSince a k w"
  shows "window_ok calls (l\<lparr>rl_buckets := AList.update key b (rl_buckets l)\<rparr>, a')"
proof -
  have "case map_of (AList.update key b (rl_buckets l)) k of
      Some b \<Rightarrow> t < rb_window b + rl_interval l | None \<Rightarrow> \<exists>y\<in>set calls. t < snd y" if "(k, t) \<in> set a'" for k t
    using W [unfolded window_ok_pair, THEN conjunct1, rule_format, of k t] b(4) a'(1) [of k t] that
    by (cases "k = key") (auto simp: update_conv')
  moreover have "0 < rb_window c \<and> (\<exists>y\<in>set calls. rb_window c = snd y) \<and> int (admittedSince a' k (rb_window c)) = rb_count c"
    if "map_of (AList.update key b (rl_buckets l)) k = Some c" for k c
    using W [unfolded window_ok_pair, THEN conjunct2, rule_format, of k c] b a'(2) [of k] that
    by (cases "k = key") (auto simp: update_conv')
  ultimately show ?thesis unfolding window_ok_pair by (simp cong: option.case_cong)
qed

lemma window_step:
  assumes W: "window_ok calls s" and D: "durations_ok (fst s)" and ok: "limiter_ok s"
    and now: "0 < now" "\<forall>y\<in>set calls. snd y \<le> now"
  shows "window_ok (calls @ [(key, now)]) (limitStep s (key, now))
    \<and> rl_interval (fst (limitStep s (key, now))) = rl_interval (fst s)
    \<and> rl_bucketTTL (fst (limitStep s (key, now))) = rl_bucketTTL (fst s)"
proof -
  obtain l a where s: "s = (l, a)" by fastforce
  let ?l = "cleaned now l" and ?c = "calls @ [(key, now)]"
  let ?b = "currentBucket key now ?l"
  have W1: "window_ok ?c (?l, a)" using window_cleanup [of calls l a] W D ok by (auto simp: s limiter_ok_def)
  have D1: "durations_ok ?l" using D by (simp add: s durations_ok_def)
  have now1: "\<forall>y\<in>set ?c. snd y \<le> now" using now(2) by auto
  have B: "int (admittedSince a key (rb_window ?b)) = rb_count ?b" "0 < rb_window ?b" "\<exists>y\<in>set ?c. rb_window ?b = snd y"
      "now < rb_window ?b + rl_interval ?l" "\<forall>t. (key, t) \<in> set a \<longrightarrow> t < rb_window ?b + rl_interval ?l"
    using currentBucket_window [OF W1 D1 now(1) now1, of key] by auto
  have le: "rb_window ?b \<le> now" using B(3) now1 by auto
  have cnt: "window_ok ?c (m\<lparr>rl_rateDenied := u\<rparr>, a') = window_ok ?c (m, a')"
    "window_ok ?c (m\<lparr>rl_capacityDenied := u\<rparr>, a') = window_ok ?c (m, a')" for m u a'
    by (simp_all add: window_ok_pair cong: option.case_cong)
  have "window_ok ?c (?l\<lparr>rl_buckets := AList.update key ?b (rl_buckets ?l)\<rparr>, a)"
    by (rule window_store [OF W1 B(1,2,3,5)]) simp_all
  moreover have "window_ok ?c (?l\<lparr>rl_buckets := AList.update key (?b\<lparr>rb_count := rb_count ?b + 1\<rparr>) (rl_buckets ?l)\<rparr>, (key, now) # a)"
    by (rule window_store [OF W1]) (use B le in \<open>auto simp: admittedSince_Cons\<close>)
  moreover have "0 < rl_limit l" using ok by (simp add: s limiter_ok_def)
  ultimately show ?thesis using W1 Allow_cases [of l key now] by (auto simp: s cnt)
qed

lemma window_run:
  assumes "limiter_ok (l, [])" and "durations_ok l" and "rl_buckets l = []"
  shows "sorted (map snd calls) \<Longrightarrow> \<forall>y\<in>set calls. 0 < snd y \<Longrightarrow>
    window_ok calls (run limitStep (l, []) calls) \<and> durations_ok (fst (run limitStep (l, []) calls))"
proof (induction calls rule: rev_induct)
  case Nil
  show ?case using assms by (simp add: window_ok_def)
next
  case (snoc x calls)
  obtain key now where x: "x = (key, now)" by fastforce
  have IH: "window_ok calls (run limitStep (l, []) calls)" "durations_ok (fst (run limitStep (l, []) calls))"
    using snoc by (auto simp: sorted_append)
  have "\<forall>y\<in>set calls. snd y \<le> now" "0 < now" using snoc.prems x by (auto simp: sorted_append)
  from window_step [OF IH lm.run_good [OF assms(1)] this(2,1), of key] IH(2) show ?case
    by (simp add: x durations_ok_def)
qed

section \<open>Properties\<close>

text \<open>
  C20: on a clock that does not run backwards the limiter counts exactly: after any sequence of calls
  the count of a bucket is the number of calls of that key admitted since the bucket's window began,
  it never exceeds the limit, every admitted call lies less than one interval after the window of
  its key began, and there are never more buckets than allowed.
\<close>

theorem limiter_counts_window:
  fixes limit maxBuckets :: int and interval :: duration
  assumes "0 < limit" and "0 < interval" and "2 * interval \<le> maxDuration"
    and "sorted (map snd calls)" and "\<forall>y\<in>set calls. 0 < snd y"
    and "run limitStep (NewBoundedRateLimiter limit interval maxBuckets (2 * interval), []) calls = (l, admitted)"
  shows "int (length (rl_buckets l)) \<le> (if maxBuckets \<le> 0 then 4096 else maxBuckets)
    \<and> (\<forall>k b. map_of (rl_buckets l) k = Some b \<longrightarrow>
         int (admittedSince admitted k (rb_window b)) = rb_count b \<and> rb_count b \<le> limit
       \<and> (\<forall>t. (k, t) \<in> set admitted \<longrightarrow> t < rb_window b + interval))"
proof -
  let ?l = "NewBoundedRateLimiter limit interval maxBuckets (2 * interval)"
  have ok: "limiter_ok (?l, [])" "durations_ok ?l" "rl_buckets ?l = []"
    using assms(1-3) by (simp_all add: NewBoundedRateLimiter_def limiter_ok_def durations_ok_def)
  have S: "rl_limit (fst s) = limit \<and> rl_interval (fst s) = interval
      \<and> rl_maxBuckets (fst s) = (if maxBuckets \<le> 0 then 4096 else maxBuckets)"
    if "s = run limitStep (?l, []) cs" for s cs
    using that
  proof (induction cs arbitrary: s rule: rev_induct)
    case Nil
    then show ?case by (simp add: NewBoundedRateLimiter_def)
  next
    case (snoc x cs)
    then show ?case using assms(1) Allow_cases
      by (cases "run limitStep (?l, []) cs"; cases x) (auto simp: Let_def)
  qed
  have W: "window_ok calls (l, admitted)" using window_run [OF ok assms(4,5)] assms(6) by simp
  have L: "limiter_ok (l, admitted)" using lm.run_good [OF ok(1), of calls] assms(6) by simp
  note F = S [OF assms(6) [symmetric]]
  show ?thesis
  proof (intro conjI allI impI)
    show "int (length (rl_buckets l)) \<le> (if maxBuckets \<le> 0 then 4096 else maxBuckets)"
      using L F by (simp add: limiter_ok_def)
    fix k b assume b: "map_of (rl_buckets l) k = Some b"
    show "int (admittedSince admitted k (rb_window b)) = rb_count b" using W b by (simp add: window_ok_def)
    show "rb_count b \<le> limit" using L F b by (auto simp: limiter_ok_def)
    fix t assume "(k, t) \<in> set admitted"
    from W [unfolded window_ok_pair, THEN conjunct1, rule_format, OF this] b F
    show "t < rb_window b + interval" by simp
  qed
qed

definition demoCalls :: "(string \<times> instant) list" where
  "demoCalls = [(''a'', 5), (''a'', 7), (''b'', 8), (''a'', 16)]"

lemma demoCalls_run:
  "run limitStep (NewBoundedRateLimiter 1 10 8 (2 * 10), []) demoCalls =
     (\<lparr>rl_limit = 1, rl_interval = 10, rl_bucketTTL = 20, rl_maxBuckets = 8, rl_lastCleanup = 16,
       rl_buckets = [(''a'', \<lparr>rb_window = 16, rb_count = 1\<rparr>), (''b'', \<lparr>rb_window = 8, rb_count = 1\<rparr>)],
       rl_rateDenied = 1, rl_capacityDenied = 0, rl_cleaned = 0\<rparr>, [(''a'', 16), (''b'', 8), (''a'', 5)])"
  unfolding demoCalls_def by code_simp

theorem limiter_counts_window_witness:
  "sorted (map snd demoCalls) \<and> list_all (\<lambda>y. 0 < snd y) demoCalls
   \<and> admittedSince (snd (run limitStep (NewBoundedRateLimiter 1 10 8 (2 * 10), []) demoCalls)) ''a'' 16 = 1"
proof -
  have "sorted (map snd demoCalls)" "\<forall>y\<in>set demoCalls. 0 < snd y" by (simp_all add: demoCalls_def)
  with limiter_counts_window [of 1 10 demoCalls 8, OF _ _ _ _ _ demoCalls_run] show ?thesis
    unfolding demoCalls_run by (simp add: maxDuration_def admittedSince_def list_all_iff)
qed

end
