(* ===== verification/Relay_Store.thy ===== *)
theory Relay_Store
  imports Bridge_Prelude "HOL-Library.List_Lexorder" "HOL-Library.Char_ord"
begin

text \<open>
  The relay server's database (\<^verbatim>\<open>relay-server/internal/relay/store.go\<close>): routes, activations,
  devices, mailbox frames and pairing claims.  A table is the list of its rows; a primary key or a
  unique column that a statement would violate makes the operation fail with its transaction rolled
  back.  Failures of the database file itself are not modelled.  The credential digest (SHA-256) is
  the argument \<open>digest\<close> of the operations that use it; the random bytes drawn by an operation are an
  argument of it, \<open>None\<close> when the generator fails.  Row numbers and sizes are SQLite integers,
  written as \<open>int\<close>: a cursor counts the frames of a device and a size is a number of bytes in memory.
\<close>

section \<open>Rows\<close>

record routeRow =
  rt_route_id :: string
  rt_bridge_auth_hash :: "byte list"
  rt_created_at :: int
  rt_revoked_at :: "int option"
  rt_last_bridge_seen_at :: "int option"

record activationRow =
  ac_install_id :: string
  ac_signing_public_key :: "byte list"
  ac_route_id :: string
  ac_activated_at :: int

record deviceRow =
  dv_route_id :: string
  dv_device_id :: string
  dv_device_auth_hash :: "byte list"
  dv_created_at :: int
  dv_revoked_at :: "int option"
  dv_last_seen_at :: "int option"
  dv_next_cursor :: int

record frameRow =
  fr_route_id :: string
  fr_device_id :: string
  fr_cursor :: int
  fr_envelope :: "byte list"
  fr_envelope_size :: int
  fr_inserted_at :: int
  fr_expires_at :: int
  fr_acked_at :: "int option"

record claimRow =
  cl_route_id :: string
  cl_claim_id :: string
  cl_capability_hash :: "byte list"
  cl_sealed_claim :: "byte list"
  cl_sealed_result :: "byte list"
  cl_state :: string
  cl_expires_at :: int
  cl_consumed_at :: "int option"

record Store =
  st_routes :: "routeRow list"
  st_activations :: "activationRow list"
  st_devices :: "deviceRow list"
  st_frames :: "frameRow list"
  st_claims :: "claimRow list"

record MailboxFrame =
  mf_Cursor :: int
  mf_Envelope :: "byte list"
  mf_ExpiresAt :: int

record RouteStatus =
  rs_DeviceCount :: int
  rs_PendingFrameCount :: int
  rs_PendingMailboxSize :: int

record PairingClaim =
  pc_ClaimID :: string
  pc_SealedClaim :: "byte list"
  pc_SealedResult :: "byte list"
  pc_State :: string

datatype storeError = GenerateIdentifier | GenerateCredential | InsertRoute | ActivationIdentityMismatch
  | InsertActivatedRoute | BindActivationIdentity | RouteNotFound | ActiveDeviceNotFound
  | FrameExceedsCapacity | InactiveDestination | EvictMailboxFrame | AppendMailboxFrame
  | ErrPairingClaimConflict | InvalidPairingClaimState | PendingClaimNotFound | ErrNoRows

definition migrate :: Store where
  "migrate = \<lparr>st_routes = [], st_activations = [], st_devices = [], st_frames = [], st_claims = []\<rparr>"

section \<open>Credentials and identifiers\<close>

text \<open>\<open>rawURLEncode\<close> is \<^verbatim>\<open>base64.RawURLEncoding.EncodeToString\<close>.\<close>

definition urlAlphabet :: string where
  "urlAlphabet = ''ABCDEFGHIJKLMNOPQRSTUVWXYZabcdefghijklmnopqrstuvwxyz0123456789-_''"

fun rawURLEncode :: "byte list \<Rightarrow> string" where
  "rawURLEncode [] = []"
| "rawURLEncode [a] = [urlAlphabet ! (unat a div 4), urlAlphabet ! (unat a mod 4 * 16)]"
| "rawURLEncode [a, b] = [urlAlphabet ! (unat a div 4), urlAlphabet ! (unat a mod 4 * 16 + unat b div 16),
     urlAlphabet ! (unat b mod 16 * 4)]"
| "rawURLEncode (a # b # c # bs) = [urlAlphabet ! (unat a div 4), urlAlphabet ! (unat a mod 4 * 16 + unat b div 16),
     urlAlphabet ! (unat b mod 16 * 4 + unat c div 64), urlAlphabet ! (unat c mod 64)] @ rawURLEncode bs"

definition VerifyCredential :: "(string \<Rightarrow> byte list) \<Rightarrow> byte list \<Rightarrow> string \<Rightarrow> bool" where
  "VerifyCredential digest want credential \<longleftrightarrow> want = digest credential"

definition NewCredential :: "byte list option \<Rightarrow> (storeError, string) result" where
  "NewCredential random = (case random of None \<Rightarrow> Inl GenerateCredential | Some value \<Rightarrow> Inr (rawURLEncode value))"

definition NewID :: "string \<Rightarrow> byte list option \<Rightarrow> (storeError, string) result" where
  "NewID prefix random =
     (case random of None \<Rightarrow> Inl GenerateIdentifier | Some value \<Rightarrow> Inr (prefix @ ''_'' @ rawURLEncode value))"

text \<open>\<open>unixSeconds\<close> is \<^verbatim>\<open>Time.Unix\<close>: whole seconds since 1970.\<close>

definition unixSeconds :: "instant \<Rightarrow> int" where
  "unixSeconds t = t div nanosPerSecond - 62135596800"

section \<open>Routes\<close>

definition newRoute :: "string \<Rightarrow> byte list \<Rightarrow> int \<Rightarrow> routeRow" where
  "newRoute routeID hash created = \<lparr>rt_route_id = routeID, rt_bridge_auth_hash = hash, rt_created_at = created,
     rt_revoked_at = None, rt_last_bridge_seen_at = None\<rparr>"

definition CreateRoute ::
  "(string \<Rightarrow> byte list) \<Rightarrow> byte list option \<Rightarrow> byte list option \<Rightarrow> instant \<Rightarrow> Store \<Rightarrow>
   (storeError, string \<times> string) result \<times> Store" where
  "CreateRoute digest random1 random2 now st =
     (case NewID ''rt'' random1 of
        Inl e \<Rightarrow> (Inl e, st)
      | Inr routeID \<Rightarrow>
          (case NewCredential random2 of
             Inl e \<Rightarrow> (Inl e, st)
           | Inr auth \<Rightarrow>
               if routeID \<in> rt_route_id ` set (st_routes st) then (Inl InsertRoute, st)
               else (Inr (routeID, auth),
                     st\<lparr>st_routes := st_routes st @ [newRoute routeID (digest auth) (unixSeconds now)]\<rparr>)))"

definition ActivateRoute ::
  "(string \<Rightarrow> byte list) \<Rightarrow> byte list option \<Rightarrow> string \<Rightarrow> byte list \<Rightarrow> string \<Rightarrow> instant \<Rightarrow> Store \<Rightarrow>
   (storeError, string) result \<times> Store" where
  "ActivateRoute digest random installID publicKey bridgeAuth now st =
     (case find (\<lambda>a. ac_install_id a = installID) (st_activations st) of
        Some a \<Rightarrow>
          if ac_signing_public_key a \<noteq> publicKey then (Inl ActivationIdentityMismatch, st)
          else (Inr (ac_route_id a),
                st\<lparr>st_routes := map (\<lambda>r. if rt_route_id r = ac_route_id a \<and> rt_revoked_at r = None
                                       then r\<lparr>rt_bridge_auth_hash := digest bridgeAuth\<rparr> else r) (st_routes st)\<rparr>)
      | None \<Rightarrow>
          (case NewID ''rt'' random of
             Inl e \<Rightarrow> (Inl e, st)
           | Inr routeID \<Rightarrow>
               if routeID \<in> rt_route_id ` set (st_routes st) then (Inl InsertActivatedRoute, st)
               else if publicKey \<in> ac_signing_public_key ` set (st_activations st)
                    \<or> routeID \<in> ac_route_id ` set (st_activations st)
               then (Inl BindActivationIdentity, st)
               else (Inr routeID,
                     st\<lparr>st_routes := st_routes st @ [newRoute routeID (digest bridgeAuth) (unixSeconds now)],
                        st_activations := st_activations st @
                          [\<lparr>ac_install_id = installID, ac_signing_public_key = publicKey, ac_route_id = routeID,
                            ac_activated_at = unixSeconds now\<rparr>]\<rparr>)))"

definition AuthenticateBridge ::
  "(string \<Rightarrow> byte list) \<Rightarrow> string \<Rightarrow> string \<Rightarrow> instant \<Rightarrow> Store \<Rightarrow> bool \<times> Store" where
  "AuthenticateBridge digest routeID credential now st =
     (case find (\<lambda>r. rt_route_id r = routeID \<and> rt_revoked_at r = None) (st_routes st) of
        None \<Rightarrow> (False, st)
      | Some r \<Rightarrow>
          if \<not> VerifyCredential digest (rt_bridge_auth_hash r) credential then (False, st)
          else (True, st\<lparr>st_routes := map (\<lambda>r. if rt_route_id r = routeID
                          then r\<lparr>rt_last_bridge_seen_at := Some (unixSeconds now)\<rparr> else r) (st_routes st)\<rparr>))"

section \<open>Devices\<close>

text \<open>The join of a device row with its route, both not revoked.\<close>

definition isDevice :: "string \<Rightarrow> string \<Rightarrow> deviceRow \<Rightarrow> bool" where
  "isDevice routeID deviceID d \<longleftrightarrow> dv_route_id d = routeID \<and> dv_device_id d = deviceID"

definition routeActive :: "string \<Rightarrow> Store \<Rightarrow> bool" where
  "routeActive routeID st \<longleftrightarrow> list_ex (\<lambda>r. rt_route_id r = routeID \<and> rt_revoked_at r = None) (st_routes st)"

definition activeDevice :: "string \<Rightarrow> string \<Rightarrow> Store \<Rightarrow> deviceRow option" where
  "activeDevice routeID deviceID st =
     (if routeActive routeID st
      then find (\<lambda>d. isDevice routeID deviceID d \<and> dv_revoked_at d = None) (st_devices st) else None)"

definition RegisterDevice ::
  "(string \<Rightarrow> byte list) \<Rightarrow> byte list option \<Rightarrow> string \<Rightarrow> string \<Rightarrow> instant \<Rightarrow> Store \<Rightarrow>
   (storeError, string) result \<times> Store" where
  "RegisterDevice digest random routeID deviceID now st =
     (case NewCredential random of
        Inl e \<Rightarrow> (Inl e, st)
      | Inr auth \<Rightarrow>
          if \<not> routeActive routeID st then (Inl RouteNotFound, st)
          else if list_ex (isDevice routeID deviceID) (st_devices st)
          then (Inr auth, st\<lparr>st_devices := map (\<lambda>d. if isDevice routeID deviceID d
                  then d\<lparr>dv_device_auth_hash := digest auth, dv_revoked_at := None, dv_created_at := unixSeconds now\<rparr>
                  else d) (st_devices st)\<rparr>)
          else (Inr auth, st\<lparr>st_devices := st_devices st @
                  [\<lparr>dv_route_id = routeID, dv_device_id = deviceID, dv_device_auth_hash = digest auth,
                    dv_created_at = unixSeconds now, dv_revoked_at = None, dv_last_seen_at = None,
                    dv_next_cursor = 1\<rparr>]\<rparr>))"

definition AuthenticateDevice ::
  "(string \<Rightarrow> byte list) \<Rightarrow> string \<Rightarrow> string \<Rightarrow> string \<Rightarrow> instant \<Rightarrow> Store \<Rightarrow> bool \<times> Store" where
  "AuthenticateDevice digest routeID deviceID credential now st =
     (case activeDevice routeID deviceID st of
        None \<Rightarrow> (False, st)
      | Some d \<Rightarrow>
          if \<not> VerifyCredential digest (dv_device_auth_hash d) credential then (False, st)
          else (True, st\<lparr>st_devices := map (\<lambda>d. if isDevice routeID deviceID d
                          then d\<lparr>dv_last_seen_at := Some (unixSeconds now)\<rparr> else d) (st_devices st)\<rparr>))"

definition DeviceActive :: "string \<Rightarrow> string \<Rightarrow> Store \<Rightarrow> bool" where
  "DeviceActive routeID deviceID st \<longleftrightarrow> activeDevice routeID deviceID st \<noteq> None"

definition isFrame :: "string \<Rightarrow> string \<Rightarrow> frameRow \<Rightarrow> bool" where
  "isFrame routeID deviceID f \<longleftrightarrow> fr_route_id f = routeID \<and> fr_device_id f = deviceID"

definition RevokeDevice ::
  "string \<Rightarrow> string \<Rightarrow> instant \<Rightarrow> Store \<Rightarrow> (storeError, unit) result \<times> Store" where
  "RevokeDevice routeID deviceID now st =
     (if \<not> list_ex (\<lambda>d. isDevice routeID deviceID d \<and> dv_revoked_at d = None) (st_devices st)
      then (Inl ActiveDeviceNotFound, st)
      else (Inr (), st\<lparr>st_devices := map (\<lambda>d. if isDevice routeID deviceID d \<and> dv_revoked_at d = None
                          then d\<lparr>dv_revoked_at := Some (unixSeconds now)\<rparr> else d) (st_devices st),
                       st_frames := filter (\<lambda>f. \<not> isFrame routeID deviceID f) (st_frames st)\<rparr>))"

section \<open>Mailbox frames\<close>

text \<open>The unacknowledged frames of a device in the order of their cursors.\<close>

definition pendingFrames :: "string \<Rightarrow> string \<Rightarrow> Store \<Rightarrow> frameRow list" where
  "pendingFrames routeID deviceID st =
     sort_key fr_cursor (filter (\<lambda>f. isFrame routeID deviceID f \<and> fr_acked_at f = None) (st_frames st))"

definition deleteFrame :: "string \<Rightarrow> string \<Rightarrow> int \<Rightarrow> Store \<Rightarrow> Store" where
  "deleteFrame routeID deviceID c st =
     st\<lparr>st_frames := filter (\<lambda>f. \<not> (isFrame routeID deviceID f \<and> fr_cursor f = c)) (st_frames st)\<rparr>"

function evictLoop ::
  "string \<Rightarrow> string \<Rightarrow> int \<Rightarrow> int \<Rightarrow> Store \<Rightarrow> int \<Rightarrow> int \<Rightarrow> (storeError, Store \<times> int) result" where
  "evictLoop routeID deviceID bytes maxBytes st current evicted =
     (if current + bytes > maxBytes
      then (case pendingFrames routeID deviceID st of
              [] \<Rightarrow> Inl EvictMailboxFrame
            | f # _ \<Rightarrow> evictLoop routeID deviceID bytes maxBytes (deleteFrame routeID deviceID (fr_cursor f) st)
                        (current - fr_envelope_size f) (evicted + 1))
      else Inr (st, evicted))"
  by pat_completeness auto

lemma pendingFrames_set:
  "set (pendingFrames routeID deviceID st) =
     {f \<in> set (st_frames st). isFrame routeID deviceID f \<and> fr_acked_at f = None}"
  by (auto simp: pendingFrames_def)

termination evictLoop
proof (relation "measure (\<lambda>(_, _, _, _, st, _, _). length (st_frames st))")
  fix r d bytes maxBytes st and current evicted :: int and f fs
  assume "pendingFrames r d st = f # fs"
  then have "f \<in> set (pendingFrames r d st)" by simp
  then have "f \<in> set (st_frames st)" "isFrame r d f" by (auto simp: pendingFrames_set)
  then have "length (st_frames (deleteFrame r d (fr_cursor f) st)) < length (st_frames st)"
    by (auto simp: deleteFrame_def intro!: length_filter_less)
  then show "((r, d, bytes, maxBytes, deleteFrame r d (fr_cursor f) st, current - fr_envelope_size f, evicted + 1),
      r, d, bytes, maxBytes, st, current, evicted) \<in> measure (\<lambda>(_, _, _, _, st, _, _). length (st_frames st))"
    by simp
qed simp

definition AppendFrame ::
  "string \<Rightarrow> string \<Rightarrow> byte list \<Rightarrow> instant \<Rightarrow> duration \<Rightarrow> int \<Rightarrow> Store \<Rightarrow>
   (storeError, int \<times> int) result \<times> Store" where
  "AppendFrame routeID deviceID envelope now ttl maxBytes st =
     (if int (length envelope) > maxBytes then (Inl FrameExceedsCapacity, st)
      else
        case activeDevice routeID deviceID st of
          None \<Rightarrow> (Inl InactiveDestination, st)
        | Some d \<Rightarrow>
            let cursor = dv_next_cursor d;
                st1 = st\<lparr>st_frames := filter (\<lambda>f. \<not> (isFrame routeID deviceID f
                        \<and> (fr_expires_at f \<le> unixSeconds now \<or> fr_acked_at f \<noteq> None))) (st_frames st)\<rparr>;
                current = sum_list (map fr_envelope_size (pendingFrames routeID deviceID st1))
            in
            case evictLoop routeID deviceID (int (length envelope)) maxBytes st1 current 0 of
              Inl e \<Rightarrow> (Inl e, st)
            | Inr (st2, evicted) \<Rightarrow>
                if list_ex (\<lambda>f. isFrame routeID deviceID f \<and> fr_cursor f = cursor) (st_frames st2)
                then (Inl AppendMailboxFrame, st)
                else (Inr (cursor, evicted),
                      st2\<lparr>st_frames := st_frames st2 @
                            [\<lparr>fr_route_id = routeID, fr_device_id = deviceID, fr_cursor = cursor, fr_envelope = envelope,
                              fr_envelope_size = int (length envelope), fr_inserted_at = unixSeconds now,
                              fr_expires_at = unixSeconds (now + ttl), fr_acked_at = None\<rparr>],
                          st_devices := map (\<lambda>d. if isDevice routeID deviceID d
                            then d\<lparr>dv_next_cursor := dv_next_cursor d + 1\<rparr> else d) (st_devices st2)\<rparr>))"

definition toFrame :: "frameRow \<Rightarrow> MailboxFrame" where
  "toFrame f = \<lparr>mf_Cursor = fr_cursor f, mf_Envelope = fr_envelope f, mf_ExpiresAt = fr_expires_at f\<rparr>"

definition FetchFrames ::
  "string \<Rightarrow> string \<Rightarrow> int \<Rightarrow> int \<Rightarrow> instant \<Rightarrow> Store \<Rightarrow> MailboxFrame list \<times> Store" where
  "FetchFrames routeID deviceID after limit0 now st =
     (let limit = (if limit0 \<le> 0 \<or> limit0 > 200 then 100 else limit0);
          st1 = st\<lparr>st_frames := filter (\<lambda>f. \<not> (isFrame routeID deviceID f \<and> fr_expires_at f \<le> unixSeconds now))
                    (st_frames st)\<rparr>
      in (map toFrame (take (nat limit)
            (filter (\<lambda>f. fr_cursor f > after \<and> fr_expires_at f > unixSeconds now) (pendingFrames routeID deviceID st1))),
          st1))"

definition AckFrames :: "string \<Rightarrow> string \<Rightarrow> int \<Rightarrow> instant \<Rightarrow> Store \<Rightarrow> Store" where
  "AckFrames routeID deviceID through now st =
     st\<lparr>st_frames := map (\<lambda>f. if isFrame routeID deviceID f \<and> fr_cursor f \<le> through \<and> fr_acked_at f = None
                           then f\<lparr>fr_acked_at := Some (unixSeconds now)\<rparr> else f) (st_frames st)\<rparr>"

definition ExpireFrames :: "instant \<Rightarrow> Store \<Rightarrow> int \<times> Store" where
  "ExpireFrames now st =
     (let gone = (\<lambda>f. fr_expires_at f \<le> unixSeconds now \<or> fr_acked_at f \<noteq> None)
      in (int (length (filter gone (st_frames st))), st\<lparr>st_frames := filter (\<lambda>f. \<not> gone f) (st_frames st)\<rparr>))"

text \<open>
  The status query aggregates without grouping: a route that does not exist or is revoked still
  yields one row, with no frames.
\<close>

definition Store_Status :: "string \<Rightarrow> instant \<Rightarrow> Store \<Rightarrow> RouteStatus" where
  "Store_Status routeID now st =
     (let pending = (if routeActive routeID st
            then filter (\<lambda>f. fr_route_id f = routeID \<and> fr_acked_at f = None \<and> fr_expires_at f > unixSeconds now) (st_frames st)
            else [])
      in \<lparr>rs_DeviceCount = int (length (filter (\<lambda>d. dv_route_id d = routeID \<and> dv_revoked_at d = None) (st_devices st))),
          rs_PendingFrameCount = int (length pending),
          rs_PendingMailboxSize = sum_list (map fr_envelope_size pending)\<rparr>)"

section \<open>Pairing claims\<close>

definition isClaim :: "string \<Rightarrow> string \<Rightarrow> claimRow \<Rightarrow> bool" where
  "isClaim routeID claimID c \<longleftrightarrow> cl_route_id c = routeID \<and> cl_claim_id c = claimID"

definition expireClaims :: "string \<Rightarrow> instant \<Rightarrow> Store \<Rightarrow> Store" where
  "expireClaims routeID now st =
     st\<lparr>st_claims := filter (\<lambda>c. \<not> (cl_route_id c = routeID \<and> cl_expires_at c \<le> unixSeconds now)) (st_claims st)\<rparr>"

definition SubmitPairingClaim ::
  "string \<Rightarrow> string \<Rightarrow> byte list \<Rightarrow> byte list \<Rightarrow> instant \<Rightarrow> duration \<Rightarrow> Store \<Rightarrow>
   (storeError, unit) result \<times> Store" where
  "SubmitPairingClaim routeID claimID capabilityHash sealedClaim now ttl st =
     (let st1 = expireClaims routeID now st in
      case find (isClaim routeID claimID) (st_claims st1) of
        Some c \<Rightarrow>
          if cl_capability_hash c = capabilityHash \<and> cl_sealed_claim c = sealedClaim then (Inr (), st1)
          else (Inl ErrPairingClaimConflict, st)
      | None \<Rightarrow>
          (Inr (), if routeActive routeID st1
                   then st1\<lparr>st_claims := st_claims st1 @
                          [\<lparr>cl_route_id = routeID, cl_claim_id = claimID, cl_capability_hash = capabilityHash,
                            cl_sealed_claim = sealedClaim, cl_sealed_result = [], cl_state = ''pending'',
                            cl_expires_at = unixSeconds (now + ttl), cl_consumed_at = None\<rparr>]\<rparr>
                   else st1))"

definition VerifyPairingCapability ::
  "(string \<Rightarrow> byte list) \<Rightarrow> string \<Rightarrow> string \<Rightarrow> string \<Rightarrow> Store \<Rightarrow> bool" where
  "VerifyPairingCapability digest routeID claimID capability st =
     (case find (\<lambda>c. isClaim routeID claimID c
                   \<and> cl_state c \<in> {''pending'', ''approved'', ''rejected'', ''consumed''}) (st_claims st) of
        None \<Rightarrow> False
      | Some c \<Rightarrow> VerifyCredential digest (cl_capability_hash c) capability)"

definition PendingClaims :: "string \<Rightarrow> instant \<Rightarrow> Store \<Rightarrow> PairingClaim list \<times> Store" where
  "PendingClaims routeID now st =
     (let st1 = expireClaims routeID now st in
      (map (\<lambda>c. \<lparr>pc_ClaimID = cl_claim_id c, pc_SealedClaim = cl_sealed_claim c,
                 pc_SealedResult = cl_sealed_result c, pc_State = cl_state c\<rparr>)
         (sort_key cl_claim_id (filter (\<lambda>c. cl_route_id c = routeID \<and> cl_expires_at c > unixSeconds now
            \<and> cl_state c \<noteq> ''consumed'') (st_claims st1))),
       st1))"

definition CompletePairingClaim ::
  "string \<Rightarrow> string \<Rightarrow> string \<Rightarrow> byte list \<Rightarrow> instant \<Rightarrow> Store \<Rightarrow> (storeError, unit) result \<times> Store" where
  "CompletePairingClaim routeID claimID newState sealedResult now st =
     (if newState \<noteq> ''approved'' \<and> newState \<noteq> ''rejected'' then (Inl InvalidPairingClaimState, st)
      else if \<not> list_ex (\<lambda>c. isClaim routeID claimID c \<and> cl_state c = ''pending'') (st_claims st)
      then (Inl PendingClaimNotFound, st)
      else (Inr (), st\<lparr>st_claims := map (\<lambda>c. if isClaim routeID claimID c \<and> cl_state c = ''pending''
                          then c\<lparr>cl_sealed_result := sealedResult, cl_state := newState\<rparr> else c) (st_claims st)\<rparr>))"

definition GetPairingResult ::
  "string \<Rightarrow> string \<Rightarrow> instant \<Rightarrow> Store \<Rightarrow> (storeError, PairingClaim) result" where
  "GetPairingResult routeID claimID now st =
     (case find (\<lambda>c. isClaim routeID claimID c \<and> cl_expires_at c > unixSeconds now \<and> cl_consumed_at c = None)
             (st_claims st) of
        None \<Rightarrow> Inl ErrNoRows
      | Some c \<Rightarrow> Inr \<lparr>pc_ClaimID = cl_claim_id c, pc_SealedClaim = [], pc_SealedResult = cl_sealed_result c,
                       pc_State = cl_state c\<rparr>)"

definition ConsumePairingResult :: "string \<Rightarrow> string \<Rightarrow> instant \<Rightarrow> Store \<Rightarrow> Store" where
  "ConsumePairingResult routeID claimID now st =
     st\<lparr>st_claims := map (\<lambda>c. if isClaim routeID claimID c \<and> cl_state c \<in> {''approved'', ''rejected''}
                           \<and> cl_consumed_at c = None
                         then c\<lparr>cl_consumed_at := Some (unixSeconds now), cl_state := ''consumed''\<rparr> else c) (st_claims st)\<rparr>"

section \<open>Runs\<close>

datatype storeOp =
    OCreateRoute "byte list option" "byte list option" instant
  | OActivateRoute "byte list option" string "byte list" string instant
  | OAuthenticateBridge string string instant
  | ORegisterDevice "byte list option" string string instant
  | OAuthenticateDevice string string string instant
  | ORevokeDevice string string instant
  | OAppendFrame string string "byte list" instant duration int
  | OFetchFrames string string int int instant
  | OAckFrames string string int instant
  | OExpireFrames instant
  | OSubmitPairingClaim string string "byte list" "byte list" instant duration
  | OPendingClaims string instant
  | OCompletePairingClaim string string string "byte list" instant
  | OConsumePairingResult string string instant

fun storeStep :: "(string \<Rightarrow> byte list) \<Rightarrow> Store \<Rightarrow> storeOp \<Rightarrow> Store" where
  "storeStep digest st (OCreateRoute r1 r2 now) = snd (CreateRoute digest r1 r2 now st)"
| "storeStep digest st (OActivateRoute r i k b now) = snd (ActivateRoute digest r i k b now st)"
| "storeStep digest st (OAuthenticateBridge r c now) = snd (AuthenticateBridge digest r c now st)"
| "storeStep digest st (ORegisterDevice rnd r d now) = snd (RegisterDevice digest rnd r d now st)"
| "storeStep digest st (OAuthenticateDevice r d c now) = snd (AuthenticateDevice digest r d c now st)"
| "storeStep digest st (ORevokeDevice r d now) = snd (RevokeDevice r d now st)"
| "storeStep digest st (OAppendFrame r d e now ttl m) = snd (AppendFrame r d e now ttl m st)"
| "storeStep digest st (OFetchFrames r d a l now) = snd (FetchFrames r d a l now st)"
| "storeStep digest st (OAckFrames r d t now) = AckFrames r d t now st"
| "storeStep digest st (OExpireFrames now) = snd (ExpireFrames now st)"
| "storeStep digest st (OSubmitPairingClaim r c h s now ttl) = snd (SubmitPairingClaim r c h s now ttl st)"
| "storeStep digest st (OPendingClaims r now) = snd (PendingClaims r now st)"
| "storeStep digest st (OCompletePairingClaim r c n s now) = snd (CompletePairingClaim r c n s now st)"
| "storeStep digest st (OConsumePairingResult r c now) = ConsumePairingResult r c now st"

section \<open>Invariant\<close>

text \<open>
  The keys of the tables are unique, a frame belongs to a device whose next cursor is above it, and
  a claim is consumed exactly when it has a consumption time.
\<close>

definition devKey :: "deviceRow \<Rightarrow> string \<times> string" where
  "devKey d = (dv_route_id d, dv_device_id d)"

definition frKey :: "frameRow \<Rightarrow> string \<times> string \<times> int" where
  "frKey f = (fr_route_id f, fr_device_id f, fr_cursor f)"

definition clKey :: "claimRow \<Rightarrow> string \<times> string" where
  "clKey c = (cl_route_id c, cl_claim_id c)"

definition devices_ok :: "deviceRow list \<Rightarrow> bool" where
  "devices_ok ds \<longleftrightarrow> distinct (map devKey ds) \<and> (\<forall>d\<in>set ds. 1 \<le> dv_next_cursor d)"

definition frames_ok :: "deviceRow list \<Rightarrow> frameRow list \<Rightarrow> bool" where
  "frames_ok ds fs \<longleftrightarrow> distinct (map frKey fs)
   \<and> (\<forall>f\<in>set fs. fr_envelope_size f = int (length (fr_envelope f))
        \<and> (\<exists>d\<in>set ds. isDevice (fr_route_id f) (fr_device_id f) d \<and> fr_cursor f < dv_next_cursor d))"

definition claim_ok :: "claimRow \<Rightarrow> bool" where
  "claim_ok c \<longleftrightarrow> cl_state c \<in> {''pending'', ''approved'', ''rejected'', ''consumed''}
   \<and> (cl_state c = ''consumed'' \<longleftrightarrow> cl_consumed_at c \<noteq> None)"

definition claims_ok :: "claimRow list \<Rightarrow> bool" where
  "claims_ok cs \<longleftrightarrow> distinct (map clKey cs) \<and> (\<forall>c\<in>set cs. claim_ok c)"

definition store_ok :: "Store \<Rightarrow> bool" where
  "store_ok st \<longleftrightarrow> distinct (map rt_route_id (st_routes st)) \<and> devices_ok (st_devices st)
   \<and> frames_ok (st_devices st) (st_frames st) \<and> claims_ok (st_claims st)"

lemma distinct_map_same: "(\<And>x. k (g x) = k x) \<Longrightarrow> distinct (map k xs) \<Longrightarrow> distinct (map k (map g xs))"
  by (simp add: o_def)

lemma frames_ok_filter: "frames_ok ds fs \<Longrightarrow> frames_ok ds (filter P fs)"
  by (auto simp: frames_ok_def distinct_map_filter)

lemma frames_ok_devices:
  assumes "frames_ok ds fs"
    and "\<And>d. d \<in> set ds \<Longrightarrow> \<exists>d'\<in>set ds'. devKey d' = devKey d \<and> dv_next_cursor d \<le> dv_next_cursor d'"
  shows "frames_ok ds' fs"
  using assms unfolding frames_ok_def isDevice_def devKey_def by (metis (no_types, lifting) Pair_inject order_less_le_trans)

lemma frames_ok_append: "frames_ok ds fs \<Longrightarrow> frames_ok (ds @ es) fs"
  by (rule frames_ok_devices) auto

lemma frames_ok_map_devices:
  assumes "frames_ok ds fs" and "\<And>d. devKey (g d) = devKey d \<and> dv_next_cursor d \<le> dv_next_cursor (g d)"
  shows "frames_ok (map g ds) fs"
  using assms by (intro frames_ok_devices [OF assms(1)]) auto

lemma frames_ok_map:
  assumes "frames_ok ds fs" and "\<And>f. frKey (g f) = frKey f \<and> fr_envelope (g f) = fr_envelope f \<and> fr_envelope_size (g f) = fr_envelope_size f"
  shows "frames_ok ds (map g fs)"
proof -
  have k: "fr_route_id (g f) = fr_route_id f \<and> fr_device_id (g f) = fr_device_id f \<and> fr_cursor (g f) = fr_cursor f" for f
    using assms(2) [of f] by (simp add: frKey_def)
  show ?thesis using assms by (simp add: frames_ok_def o_def k)
qed

lemma devices_ok_map:
  assumes "devices_ok ds" and "\<And>d. devKey (g d) = devKey d \<and> dv_next_cursor d \<le> dv_next_cursor (g d)"
  shows "devices_ok (map g ds)"
proof -
  have "1 \<le> dv_next_cursor (g d)" if "d \<in> set ds" for d
    using assms that order_trans unfolding devices_ok_def by blast
  then show ?thesis using assms by (simp add: devices_ok_def o_def)
qed

lemma claims_ok_filter: "claims_ok cs \<Longrightarrow> claims_ok (filter P cs)"
  by (auto simp: claims_ok_def distinct_map_filter)

lemma claims_ok_map:
  assumes "claims_ok cs" and "\<And>c. clKey (g c) = clKey c" and "\<And>c. claim_ok c \<Longrightarrow> claim_ok (g c)"
  shows "claims_ok (map g cs)"
  using assms by (auto simp: claims_ok_def o_def)

subsection \<open>The eviction loop\<close>

declare evictLoop.simps [simp del]

lemma isFrame_key: "isFrame r d f \<and> fr_cursor f = c \<longleftrightarrow> frKey f = (r, d, c)"
  by (auto simp: isFrame_def frKey_def)

lemma pending_distinct: "distinct (map frKey (st_frames st)) \<Longrightarrow> distinct (map fr_cursor (pendingFrames r d st))"
proof -
  assume D: "distinct (map frKey (st_frames st))"
  have "inj_on fr_cursor {f \<in> set (st_frames st). isFrame r d f \<and> fr_acked_at f = None}"
    using D unfolding distinct_map inj_on_def by (auto simp: isFrame_def frKey_def)
  moreover have "distinct (pendingFrames r d st)"
    using D by (simp add: pendingFrames_def distinct_map)
  ultimately show ?thesis by (simp add: distinct_map pendingFrames_set)
qed

lemma pending_sorted: "sorted (map fr_cursor (pendingFrames r d st))"
  by (simp add: pendingFrames_def)

lemma pending_delete:
  assumes "distinct (map frKey (st_frames st))" and P: "pendingFrames r d st = f # fs"
  shows "pendingFrames r d (deleteFrame r d (fr_cursor f) st) = fs"
proof -
  have "pendingFrames r d (deleteFrame r d (fr_cursor f) st)
      = filter (\<lambda>g. fr_cursor g \<noteq> fr_cursor f) (pendingFrames r d st)"
    by (auto simp: pendingFrames_def deleteFrame_def filter_sort intro!: arg_cong [of _ _ "sort_key fr_cursor"] filter_cong)
  also have "\<dots> = fs"
    using pending_distinct [OF assms(1), of r d] unfolding P by (simp add: filter_id_conv) (metis imageI)
  finally show ?thesis .
qed

lemma evictLoop_exact:
  assumes "distinct (map frKey (st_frames st))" and "current = sum_list (map fr_envelope_size (pendingFrames r d st))"
    and "bytes \<le> maxBytes"
  shows "\<exists>k Q. k \<le> length (pendingFrames r d st) \<and> (\<forall>f. \<not> isFrame r d f \<longrightarrow> Q f)
    \<and> evictLoop r d bytes maxBytes st current evicted = Inr (st\<lparr>st_frames := filter Q (st_frames st)\<rparr>, evicted + int k)
    \<and> pendingFrames r d (st\<lparr>st_frames := filter Q (st_frames st)\<rparr>) = drop k (pendingFrames r d st)
    \<and> sum_list (map fr_envelope_size (drop k (pendingFrames r d st))) + bytes \<le> maxBytes
    \<and> (\<forall>j<k. sum_list (map fr_envelope_size (drop j (pendingFrames r d st))) + bytes > maxBytes)"
  using assms(1,2)
proof (induction "length (pendingFrames r d st)" arbitrary: st current evicted)
  case 0
  then have "pendingFrames r d st = []" by simp
  with 0 assms(3) show ?case by (intro exI [of _ 0] exI [of _ "\<lambda>_. True"]) (simp add: evictLoop.simps)
next
  case (Suc n)
  then obtain f fs where P: "pendingFrames r d st = f # fs" by (metis length_Suc_conv)
  show ?case
  proof (cases "current + bytes > maxBytes")
    case False
    then show ?thesis using Suc.prems
      by (intro exI [of _ 0] exI [of _ "\<lambda>_. True"]) (simp add: evictLoop.simps)
  next
    case True
    let ?st = "deleteFrame r d (fr_cursor f) st"
    have P': "pendingFrames r d ?st = fs" by (rule pending_delete [OF Suc.prems(1) P])
    have "distinct (map frKey (st_frames ?st))" using Suc.prems(1) by (simp add: deleteFrame_def distinct_map_filter)
    moreover have "current - fr_envelope_size f = sum_list (map fr_envelope_size (pendingFrames r d ?st))"
      using Suc.prems(2) by (simp add: P P')
    moreover have "n = length (pendingFrames r d ?st)" using Suc.hyps(2) by (simp add: P P')
    ultimately obtain k Q where k: "k \<le> length fs" "\<forall>f. \<not> isFrame r d f \<longrightarrow> Q f"
      "evictLoop r d bytes maxBytes ?st (current - fr_envelope_size f) (evicted + 1)
         = Inr (?st\<lparr>st_frames := filter Q (st_frames ?st)\<rparr>, evicted + 1 + int k)"
      "pendingFrames r d (?st\<lparr>st_frames := filter Q (st_frames ?st)\<rparr>) = drop k fs"
      "sum_list (map fr_envelope_size (drop k fs)) + bytes \<le> maxBytes"
      "\<forall>j<k. sum_list (map fr_envelope_size (drop j fs)) + bytes > maxBytes"
      using Suc.hyps(1) [of ?st] unfolding P' by blast
    let ?Q = "\<lambda>g. Q g \<and> \<not> (isFrame r d g \<and> fr_cursor g = fr_cursor f)"
    have st: "?st\<lparr>st_frames := filter Q (st_frames ?st)\<rparr> = st\<lparr>st_frames := filter ?Q (st_frames st)\<rparr>"
      by (simp add: deleteFrame_def conj_commute)
    have "\<forall>j<Suc k. sum_list (map fr_envelope_size (drop j (f # fs))) + bytes > maxBytes"
      using k(6) True Suc.prems(2) by (auto simp: less_Suc_eq_0_disj P)
    with k True st P show ?thesis
      by (intro exI [of _ "Suc k"] exI [of _ ?Q]) (simp add: evictLoop.simps [of _ _ _ _ st])
  qed
qed

subsection \<open>Operations keep the invariant\<close>

lemma store_ok_routes: "store_ok st \<Longrightarrow> distinct (map rt_route_id rs) \<Longrightarrow> store_ok (st\<lparr>st_routes := rs\<rparr>)"
  by (simp add: store_ok_def)

lemma store_ok_activations: "store_ok (st\<lparr>st_activations := as\<rparr>) = store_ok st"
  by (simp add: store_ok_def)

lemma store_ok_filter_frames: "store_ok st \<Longrightarrow> store_ok (st\<lparr>st_frames := filter P (st_frames st)\<rparr>)"
  by (simp add: store_ok_def frames_ok_filter)

lemma store_ok_claims: "store_ok st \<Longrightarrow> claims_ok cs \<Longrightarrow> store_ok (st\<lparr>st_claims := cs\<rparr>)"
  by (simp add: store_ok_def)

lemma store_ok_map_devices:
  assumes "store_ok st" and "\<And>d. devKey (g d) = devKey d \<and> dv_next_cursor d \<le> dv_next_cursor (g d)"
  shows "store_ok (st\<lparr>st_devices := map g (st_devices st)\<rparr>)"
  using assms by (auto simp: store_ok_def intro!: devices_ok_map frames_ok_map_devices)

lemma isDevice_key: "isDevice r d x \<longleftrightarrow> devKey x = (r, d)"
  by (auto simp: isDevice_def devKey_def)

lemma isClaim_key: "isClaim r i c \<longleftrightarrow> clKey c = (r, i)"
  by (auto simp: isClaim_def clKey_def)

lemma CreateRoute_ok: "store_ok st \<Longrightarrow> store_ok (snd (CreateRoute digest r1 r2 now st))"
  by (auto simp: CreateRoute_def store_ok_def newRoute_def split: sum.split)

lemma store_ok_map_routes:
  assumes "store_ok st" and "\<And>x. rt_route_id (g x) = rt_route_id x"
  shows "store_ok (st\<lparr>st_routes := map g (st_routes st)\<rparr>)"
  using assms by (simp add: store_ok_def o_def)

lemma ActivateRoute_ok: "store_ok st \<Longrightarrow> store_ok (snd (ActivateRoute digest r i k b now st))"
proof -
  assume ok: "store_ok st"
  have "store_ok (st\<lparr>st_routes := map (\<lambda>x. if rt_route_id x = y \<and> rt_revoked_at x = None
      then x\<lparr>rt_bridge_auth_hash := h\<rparr> else x) (st_routes st)\<rparr>)" for y h
    by (rule store_ok_map_routes [OF ok]) simp
  moreover have "store_ok (st\<lparr>st_routes := st_routes st @ [newRoute y h t], st_activations := as\<rparr>)"
    if "y \<notin> rt_route_id ` set (st_routes st)" for y h t as
    using ok that by (simp add: store_ok_def newRoute_def)
  ultimately show ?thesis using ok by (simp add: ActivateRoute_def split: sum.split option.split)
qed

lemma AuthenticateBridge_ok: "store_ok st \<Longrightarrow> store_ok (snd (AuthenticateBridge digest r c now st))"
  by (auto simp: AuthenticateBridge_def intro!: store_ok_map_routes split: option.split)

lemma RegisterDevice_ok:
  assumes ok: "store_ok st"
  shows "store_ok (snd (RegisterDevice digest rnd r d now st))"
proof -
  let ?new = "\<lambda>auth. \<lparr>dv_route_id = r, dv_device_id = d, dv_device_auth_hash = digest auth, dv_created_at = unixSeconds now,
    dv_revoked_at = None, dv_last_seen_at = None, dv_next_cursor = 1\<rparr>"
  have "store_ok (st\<lparr>st_devices := st_devices st @ [?new auth]\<rparr>)"
    if "\<not> list_ex (isDevice r d) (st_devices st)" for auth
  proof -
    have "(r, d) \<notin> devKey ` set (st_devices st)" using that by (auto simp: list_ex_iff isDevice_key)
    then have "devices_ok (st_devices st @ [?new auth])" using ok
      by (auto simp: store_ok_def devices_ok_def devKey_def)
    moreover have "frames_ok (st_devices st @ [?new auth]) (st_frames st)" using ok
      by (simp add: store_ok_def frames_ok_append)
    ultimately show ?thesis using ok by (simp add: store_ok_def)
  qed
  moreover have "store_ok (st\<lparr>st_devices := map (\<lambda>x. if isDevice r d x
      then x\<lparr>dv_device_auth_hash := h, dv_revoked_at := None, dv_created_at := t\<rparr> else x) (st_devices st)\<rparr>)" for h t
    by (rule store_ok_map_devices [OF ok]) (simp add: devKey_def)
  ultimately show ?thesis using ok by (simp add: RegisterDevice_def split: sum.split)
qed

lemma AuthenticateDevice_ok: "store_ok st \<Longrightarrow> store_ok (snd (AuthenticateDevice digest r d c now st))"
  unfolding AuthenticateDevice_def
  by (auto intro!: store_ok_map_devices simp: devKey_def split: option.split)

lemma RevokeDevice_ok:
  assumes ok: "store_ok st"
  shows "store_ok (snd (RevokeDevice r d now st))"
proof -
  have "store_ok (st\<lparr>st_devices := map (\<lambda>x. if isDevice r d x \<and> dv_revoked_at x = None
      then x\<lparr>dv_revoked_at := t\<rparr> else x) (st_devices st)\<rparr>)" for t
    by (rule store_ok_map_devices [OF ok]) (simp add: devKey_def)
  from store_ok_filter_frames [OF this] ok show ?thesis by (simp add: RevokeDevice_def)
qed

lemma FetchFrames_ok: "store_ok st \<Longrightarrow> store_ok (snd (FetchFrames r d a l now st))"
  by (simp add: FetchFrames_def Let_def store_ok_filter_frames)

lemma ExpireFrames_ok: "store_ok st \<Longrightarrow> store_ok (snd (ExpireFrames now st))"
  by (simp add: ExpireFrames_def Let_def store_ok_filter_frames)

lemma AckFrames_ok: "store_ok st \<Longrightarrow> store_ok (AckFrames r d t now st)"
  by (auto simp: AckFrames_def store_ok_def frKey_def intro!: frames_ok_map)

lemma expireClaims_ok: "store_ok st \<Longrightarrow> store_ok (expireClaims r now st)"
  unfolding expireClaims_def by (rule store_ok_claims) (auto simp: store_ok_def claims_ok_filter)

lemma SubmitPairingClaim_ok:
  assumes ok: "store_ok st"
  shows "store_ok (snd (SubmitPairingClaim r i h s now ttl st))"
proof -
  let ?st = "expireClaims r now st"
  have ok1: "store_ok ?st" by (rule expireClaims_ok [OF ok])
  have "claims_ok (st_claims ?st @ [\<lparr>cl_route_id = r, cl_claim_id = i, cl_capability_hash = h, cl_sealed_claim = s,
      cl_sealed_result = [], cl_state = ''pending'', cl_expires_at = e, cl_consumed_at = None\<rparr>])"
    if "find (isClaim r i) (st_claims ?st) = None" for e
  proof -
    have "(r, i) \<notin> clKey ` set (st_claims ?st)" using that by (auto simp: find_None_iff isClaim_key)
    then show ?thesis using ok1 by (auto simp: store_ok_def claims_ok_def claim_ok_def clKey_def)
  qed
  with ok ok1 show ?thesis
    by (auto simp: SubmitPairingClaim_def Let_def intro!: store_ok_claims split: option.split)
qed

lemma PendingClaims_ok: "store_ok st \<Longrightarrow> store_ok (snd (PendingClaims r now st))"
  by (simp add: PendingClaims_def Let_def expireClaims_ok)

lemma CompletePairingClaim_ok: "store_ok st \<Longrightarrow> store_ok (snd (CompletePairingClaim r i n s now st))"
proof -
  assume ok: "store_ok st"
  have "claims_ok (map (\<lambda>c. if isClaim r i c \<and> cl_state c = ''pending''
      then c\<lparr>cl_sealed_result := s, cl_state := n\<rparr> else c) (st_claims st))" if "n = ''approved'' \<or> n = ''rejected''"
    using ok that by (intro claims_ok_map) (auto simp: store_ok_def clKey_def claim_ok_def)
  with ok show ?thesis by (auto simp: CompletePairingClaim_def intro!: store_ok_claims)
qed

lemma ConsumePairingResult_ok: "store_ok st \<Longrightarrow> store_ok (ConsumePairingResult r i now st)"
  unfolding ConsumePairingResult_def
  by (intro store_ok_claims claims_ok_map) (auto simp: store_ok_def clKey_def claim_ok_def)

text \<open>Appending to an active device within the capacity always succeeds.\<close>

definition liveFrames :: "string \<Rightarrow> string \<Rightarrow> instant \<Rightarrow> Store \<Rightarrow> frameRow list" where
  "liveFrames r d now st = filter (\<lambda>f. fr_expires_at f > unixSeconds now) (pendingFrames r d st)"

definition storedBytes :: "frameRow list \<Rightarrow> int" where
  "storedBytes fs = sum_list (map fr_envelope_size fs)"

definition newFrame :: "string \<Rightarrow> string \<Rightarrow> byte list \<Rightarrow> instant \<Rightarrow> duration \<Rightarrow> int \<Rightarrow> frameRow" where
  "newFrame r d envelope now ttl c = \<lparr>fr_route_id = r, fr_device_id = d, fr_cursor = c, fr_envelope = envelope,
     fr_envelope_size = int (length envelope), fr_inserted_at = unixSeconds now,
     fr_expires_at = unixSeconds (now + ttl), fr_acked_at = None\<rparr>"

definition bumpCursor :: "string \<Rightarrow> string \<Rightarrow> deviceRow \<Rightarrow> deviceRow" where
  "bumpCursor r d x = (if isDevice r d x then x\<lparr>dv_next_cursor := dv_next_cursor x + 1\<rparr> else x)"

lemma cursor_fresh:
  assumes "store_ok st" and "x \<in> set (st_devices st)" and "isDevice r d x" and "f \<in> set (st_frames st)" and "isFrame r d f"
  shows "fr_cursor f < dv_next_cursor x"
proof -
  obtain y where y: "y \<in> set (st_devices st)" "isDevice r d y" "fr_cursor f < dv_next_cursor y"
    using assms(1,4,5) by (auto simp: store_ok_def frames_ok_def isFrame_def)
  have "x = y" using assms y inj_onD [of devKey "set (st_devices st)" x y]
    by (auto simp: store_ok_def devices_ok_def distinct_map isDevice_key)
  with y show ?thesis by simp
qed

lemma activeDevice_Some:
  "activeDevice r d st = Some x \<Longrightarrow> x \<in> set (st_devices st) \<and> isDevice r d x \<and> dv_revoked_at x = None \<and> routeActive r st"
  by (auto simp: activeDevice_def find_Some_iff split: if_splits)

lemma AppendFrame_succeeds:
  assumes ok: "store_ok st" and x: "activeDevice r d st = Some x" and len: "int (length envelope) \<le> maxBytes"
  shows "\<exists>k Q. k \<le> length (liveFrames r d now st) \<and> (\<forall>f. \<not> isFrame r d f \<longrightarrow> Q f)
    \<and> AppendFrame r d envelope now ttl maxBytes st =
        (Inr (dv_next_cursor x, int k),
         st\<lparr>st_frames := filter Q (st_frames st) @ [newFrame r d envelope now ttl (dv_next_cursor x)],
            st_devices := map (bumpCursor r d) (st_devices st)\<rparr>)
    \<and> pendingFrames r d (st\<lparr>st_frames := filter Q (st_frames st)\<rparr>) = drop k (liveFrames r d now st)
    \<and> storedBytes (drop k (liveFrames r d now st)) + int (length envelope) \<le> maxBytes
    \<and> (\<forall>j<k. storedBytes (drop j (liveFrames r d now st)) + int (length envelope) > maxBytes)"
proof -
  let ?P = "\<lambda>f. \<not> (isFrame r d f \<and> (fr_expires_at f \<le> unixSeconds now \<or> fr_acked_at f \<noteq> None))"
  let ?st = "st\<lparr>st_frames := filter ?P (st_frames st)\<rparr>"
  have live: "pendingFrames r d ?st = liveFrames r d now st"
    by (auto simp: pendingFrames_def liveFrames_def filter_sort intro!: arg_cong [of _ _ "sort_key fr_cursor"] filter_cong)
  have "distinct (map frKey (st_frames ?st))" using ok by (simp add: store_ok_def frames_ok_def distinct_map_filter)
  from evictLoop_exact [OF this refl len, of r d 0, unfolded live] obtain k Q where k: "k \<le> length (liveFrames r d now st)"
      "\<forall>f. \<not> isFrame r d f \<longrightarrow> Q f"
      "evictLoop r d (int (length envelope)) maxBytes ?st (sum_list (map fr_envelope_size (liveFrames r d now st))) 0
         = Inr (?st\<lparr>st_frames := filter Q (st_frames ?st)\<rparr>, int k)"
      "pendingFrames r d (?st\<lparr>st_frames := filter Q (st_frames ?st)\<rparr>) = drop k (liveFrames r d now st)"
      "storedBytes (drop k (liveFrames r d now st)) + int (length envelope) \<le> maxBytes"
      "\<forall>j<k. storedBytes (drop j (liveFrames r d now st)) + int (length envelope) > maxBytes"
    unfolding storedBytes_def by auto
  let ?Q = "\<lambda>f. Q f \<and> ?P f"
  have st: "?st\<lparr>st_frames := filter Q (st_frames ?st)\<rparr> = st\<lparr>st_frames := filter ?Q (st_frames st)\<rparr>"
    by (simp add: conj_commute)
  have fresh: "\<not> list_ex (\<lambda>f. isFrame r d f \<and> fr_cursor f = dv_next_cursor x) (filter ?Q (st_frames st))"
    using cursor_fresh [OF ok, of x r d] activeDevice_Some [OF x] by (fastforce simp: list_ex_iff)
  have "AppendFrame r d envelope now ttl maxBytes st =
      (Inr (dv_next_cursor x, int k),
       st\<lparr>st_frames := filter ?Q (st_frames st) @ [newFrame r d envelope now ttl (dv_next_cursor x)],
          st_devices := map (bumpCursor r d) (st_devices st)\<rparr>)"
    using len fresh unfolding AppendFrame_def Let_def live k(3) st
    by (simp add: x newFrame_def bumpCursor_def [abs_def])
  with k(1,2,4,5,6) st show ?thesis by (intro exI [of _ k] exI [of _ ?Q]) simp
qed

lemma AppendFrame_fails:
  "activeDevice r d st = None \<or> int (length envelope) > maxBytes \<Longrightarrow>
   \<exists>e. AppendFrame r d envelope now ttl maxBytes st = (Inl e, st)"
  by (auto simp: AppendFrame_def)

lemma AppendFrame_cases:
  assumes "store_ok st"
  obtains (fail) e where "AppendFrame r d envelope now ttl maxBytes st = (Inl e, st)"
  | (stored) x k Q where "activeDevice r d st = Some x" "\<forall>f. \<not> isFrame r d f \<longrightarrow> Q f"
      "AppendFrame r d envelope now ttl maxBytes st = (Inr (dv_next_cursor x, int k),
         st\<lparr>st_frames := filter Q (st_frames st) @ [newFrame r d envelope now ttl (dv_next_cursor x)],
            st_devices := map (bumpCursor r d) (st_devices st)\<rparr>)"
proof (cases "activeDevice r d st")
  case None
  then show ?thesis using AppendFrame_fails fail by metis
next
  case (Some x)
  show ?thesis
  proof (cases "int (length envelope) \<le> maxBytes")
    case True
    from AppendFrame_succeeds [OF assms Some this, of now ttl] obtain k Q where "\<forall>f. \<not> isFrame r d f \<longrightarrow> Q f"
      "AppendFrame r d envelope now ttl maxBytes st = (Inr (dv_next_cursor x, int k),
         st\<lparr>st_frames := filter Q (st_frames st) @ [newFrame r d envelope now ttl (dv_next_cursor x)],
            st_devices := map (bumpCursor r d) (st_devices st)\<rparr>)" by blast
    then show ?thesis by (rule stored [OF Some])
  next
    case False
    then obtain e where "AppendFrame r d envelope now ttl maxBytes st = (Inl e, st)"
      using AppendFrame_fails [of r d st maxBytes envelope now ttl] by auto
    then show ?thesis by (rule fail)
  qed
qed

lemma AppendFrame_ok:
  assumes ok: "store_ok st"
  shows "store_ok (snd (AppendFrame r d envelope now ttl maxBytes st))"
  using ok
proof (cases rule: AppendFrame_cases [where r = r and d = d and envelope = envelope and now = now and ttl = ttl and maxBytes = maxBytes])
  case (fail e)
  then show ?thesis using ok by simp
next
  case (stored x k Q)
  let ?f = "newFrame r d envelope now ttl (dv_next_cursor x)" and ?ds = "map (bumpCursor r d) (st_devices st)"
  have x: "x \<in> set (st_devices st)" "isDevice r d x" using activeDevice_Some [OF stored(1)] by auto
  have bump: "devKey (bumpCursor r d y) = devKey y \<and> dv_next_cursor y \<le> dv_next_cursor (bumpCursor r d y)" for y
    by (simp add: bumpCursor_def devKey_def)
  have "frames_ok ?ds (filter Q (st_frames st))"
    using ok by (intro frames_ok_map_devices frames_ok_filter bump) (simp add: store_ok_def)
  moreover have "frKey ?f \<notin> frKey ` set (filter Q (st_frames st))"
    using cursor_fresh [OF ok x] by (force simp: newFrame_def frKey_def isFrame_def)
  moreover have "bumpCursor r d x \<in> set ?ds" "isDevice r d (bumpCursor r d x)"
      "dv_next_cursor (bumpCursor r d x) = dv_next_cursor x + 1"
    using x by (auto simp: bumpCursor_def isDevice_def)
  then have "\<exists>y\<in>set ?ds. isDevice r d y \<and> dv_next_cursor x < dv_next_cursor y" by (metis zless_add1_eq)
  ultimately have "frames_ok ?ds (filter Q (st_frames st) @ [?f])"
    by (simp add: frames_ok_def newFrame_def)
  moreover have "devices_ok ?ds" using ok bump by (intro devices_ok_map) (simp_all add: store_ok_def)
  ultimately show ?thesis using ok stored(3) by (simp add: store_ok_def)
qed

lemmas store_op_ok = CreateRoute_ok ActivateRoute_ok AuthenticateBridge_ok RegisterDevice_ok AuthenticateDevice_ok
  RevokeDevice_ok AppendFrame_ok FetchFrames_ok AckFrames_ok ExpireFrames_ok SubmitPairingClaim_ok PendingClaims_ok
  CompletePairingClaim_ok ConsumePairingResult_ok

interpretation sm: guarded_machine "storeStep digest" store_ok for digest
proof
  fix st op assume "store_ok st"
  then show "store_ok (storeStep digest st op)" by (cases op) (simp_all add: store_op_ok)
qed

lemma migrate_ok: "store_ok migrate"
  by (simp add: migrate_def store_ok_def devices_ok_def frames_ok_def claims_ok_def)

lemmas reachable_ok = sm.run_good [OF migrate_ok]

section \<open>Cursors\<close>

text \<open>The next cursor of a device; device rows are never removed, so it only grows.\<close>

definition nextCursor :: "string \<Rightarrow> string \<Rightarrow> Store \<Rightarrow> nat" where
  "nextCursor r d st = (case find (isDevice r d) (st_devices st) of None \<Rightarrow> 0 | Some x \<Rightarrow> nat (dv_next_cursor x))"

lemma find_map_same: "(\<And>x. P (g x) = P x) \<Longrightarrow> find P (map g xs) = map_option g (find P xs)"
  by (induction xs) auto

lemma nextCursor_map:
  assumes "\<And>x. isDevice r d (g x) = isDevice r d x \<and> dv_next_cursor x \<le> dv_next_cursor (g x)"
  shows "nextCursor r d st \<le> nextCursor r d (st\<lparr>st_devices := map g (st_devices st)\<rparr>)"
  using assms by (auto simp: nextCursor_def find_map_same split: option.split intro!: nat_mono)

lemma nextCursor_devices: "st_devices st' = st_devices st \<Longrightarrow> nextCursor r d st' = nextCursor r d st"
  by (simp add: nextCursor_def)

lemma find_append: "find P (xs @ ys) = (case find P xs of None \<Rightarrow> find P ys | Some x \<Rightarrow> Some x)"
  by (induction xs) auto

lemma sort_key_snoc:
  "\<forall>x\<in>set xs. k x \<le> k y \<Longrightarrow> sort_key k (xs @ [y]) = sort_key k xs @ [y]" for k :: "'a \<Rightarrow> 'b::linorder"
proof (intro properties_for_sort_key)
  have "filter (\<lambda>x. k z = k x) (sort_key k xs) = filter (\<lambda>x. k z = k x) xs" for z
    using sort_key_stable [of k "k z" xs] by (simp add: eq_commute [of "k z"])
  then show "\<And>z. z \<in> set (sort_key k xs @ [y]) \<Longrightarrow> filter (\<lambda>x. k z = k x) (sort_key k xs @ [y]) = filter (\<lambda>x. k z = k x) (xs @ [y])"
    by simp
qed (auto simp: sorted_append)

lemma page_continues:
  fixes k :: "'a \<Rightarrow> 'b::linorder"
  assumes "sorted_wrt (\<lambda>f g. k f < k g) (filter (\<lambda>f. k f > a) xs)" and "take n (filter (\<lambda>f. k f > a) xs) \<noteq> []"
  shows "filter (\<lambda>f. k f > k (last (take n (filter (\<lambda>f. k f > a) xs)))) xs = drop n (filter (\<lambda>f. k f > a) xs)"
proof -
  let ?ys = "filter (\<lambda>f. k f > a) xs"
  let ?c = "k (last (take n ?ys))"
  have c: "last (take n ?ys) \<in> set (take n ?ys)" using assms(2) by (rule last_in_set)
  then have "a < ?c" by (auto dest!: in_set_takeD)
  then have "filter (\<lambda>f. k f > ?c) xs = filter (\<lambda>f. k f > ?c) ?ys" by (auto intro!: filter_cong)
  also have "\<dots> = filter (\<lambda>f. k f > ?c) (take n ?ys @ drop n ?ys)" by simp
  also have "\<dots> = drop n ?ys"
  proof -
    have ss: "sorted_wrt (\<lambda>f g. k f < k g) (take n ?ys @ drop n ?ys)" using assms(1) by simp
    then have "\<forall>f\<in>set (drop n ?ys). k f > ?c" using c unfolding sorted_wrt_append by blast
    moreover have "\<forall>f\<in>set (take n ?ys). k f \<le> ?c"
    proof
      fix f assume f: "f \<in> set (take n ?ys)"
      obtain zs z where z: "take n ?ys = zs @ [z]" using assms(2) by (metis rev_exhaust)
      have "sorted_wrt (\<lambda>f g. k f < k g) (zs @ [z])" using ss z by (simp add: sorted_wrt_append)
      then show "k f \<le> ?c" using f unfolding z by (auto simp: sorted_wrt_append)
    qed
    ultimately show ?thesis unfolding filter_append by (simp add: filter_empty_conv filter_id_conv leD del: filter_filter)
  qed
  finally show ?thesis .
qed

text \<open>What each operation does to the device table.\<close>

lemma devices_kept:
  "st_devices (snd (CreateRoute digest r1 r2 now st)) = st_devices st"
  "st_devices (snd (ActivateRoute digest rnd i k b now st)) = st_devices st"
  "st_devices (snd (AuthenticateBridge digest r c now st)) = st_devices st"
  "st_devices (snd (FetchFrames r d a l now st)) = st_devices st"
  "st_devices (AckFrames r d t now st) = st_devices st"
  "st_devices (snd (ExpireFrames now st)) = st_devices st"
  "st_devices (snd (SubmitPairingClaim r i h s now ttl st)) = st_devices st"
  "st_devices (snd (PendingClaims r now st)) = st_devices st"
  "st_devices (snd (CompletePairingClaim r i n s now st)) = st_devices st"
  "st_devices (ConsumePairingResult r i now st) = st_devices st"
  by (simp_all add: CreateRoute_def ActivateRoute_def AuthenticateBridge_def FetchFrames_def AckFrames_def
      ExpireFrames_def SubmitPairingClaim_def PendingClaims_def CompletePairingClaim_def ConsumePairingResult_def
      expireClaims_def Let_def split: sum.split option.split)

lemma nextCursor_Register: "nextCursor r d st \<le> nextCursor r d (snd (RegisterDevice digest rnd r' d' now st))"
proof -
  have "nextCursor r d st \<le> nextCursor r d (st\<lparr>st_devices := map (\<lambda>x. if isDevice r' d' x
      then x\<lparr>dv_device_auth_hash := h, dv_revoked_at := None, dv_created_at := t\<rparr> else x) (st_devices st)\<rparr>)" for h t
    by (rule nextCursor_map) (simp add: isDevice_def)
  moreover have "nextCursor r d st \<le> nextCursor r d (st\<lparr>st_devices := st_devices st @ [x]\<rparr>)" for x
    by (auto simp: nextCursor_def find_append split: option.split)
  ultimately show ?thesis by (simp add: RegisterDevice_def split: sum.split)
qed

lemma nextCursor_Authenticate: "nextCursor r d st \<le> nextCursor r d (snd (AuthenticateDevice digest r' d' c now st))"
  by (auto simp: AuthenticateDevice_def isDevice_def intro!: nextCursor_map split: option.split)

lemma nextCursor_Revoke: "nextCursor r d st \<le> nextCursor r d (snd (RevokeDevice r' d' now st))"
proof -
  have "nextCursor r d st \<le> nextCursor r d (st\<lparr>st_devices := map (\<lambda>x. if isDevice r' d' x \<and> dv_revoked_at x = None
      then x\<lparr>dv_revoked_at := t\<rparr> else x) (st_devices st)\<rparr>)" for t
    by (rule nextCursor_map) (simp add: isDevice_def)
  then show ?thesis by (simp add: RevokeDevice_def nextCursor_def)
qed

lemma nextCursor_Append:
  assumes "store_ok st"
  shows "nextCursor r d st \<le> nextCursor r d (snd (AppendFrame r' d' e now ttl m st))"
proof -
  have "nextCursor r d st \<le> nextCursor r d (st\<lparr>st_devices := map (bumpCursor r' d') (st_devices st)\<rparr>)"
    by (rule nextCursor_map) (simp add: bumpCursor_def isDevice_def)
  then have "nextCursor r d st \<le> nextCursor r d (st\<lparr>st_frames := fs, st_devices := map (bumpCursor r' d') (st_devices st)\<rparr>)" for fs
    by (simp add: nextCursor_def)
  then show ?thesis
    by (rule_tac AppendFrame_cases [OF assms, of r' d' e now ttl m]) simp_all
qed

interpretation cursors: counting_machine "storeStep digest" store_ok "nextCursor r d" for digest r d
proof
  fix st op assume "store_ok st"
  then show "nextCursor r d st \<le> nextCursor r d (storeStep digest st op)"
    by (cases op) (simp_all add: devices_kept [THEN nextCursor_devices] nextCursor_Register nextCursor_Authenticate
        nextCursor_Revoke nextCursor_Append)
qed

text \<open>A successful append hands out the device's next cursor and moves it on.\<close>

lemma find_device:
  assumes "store_ok st" and "x \<in> set (st_devices st)" and "isDevice r d x"
  shows "find (isDevice r d) (st_devices st) = Some x"
proof -
  from assms(2,3) obtain y where y: "find (isDevice r d) (st_devices st) = Some y"
    by (metis find_None_iff not_Some_eq)
  then have "y \<in> set (st_devices st)" "isDevice r d y" by (auto simp: find_Some_iff)
  then have "y = x" using assms inj_onD [of devKey "set (st_devices st)" x y]
    by (auto simp: store_ok_def devices_ok_def distinct_map isDevice_key)
  with y show ?thesis by simp
qed

lemma AppendFrame_cursor:
  assumes ok: "store_ok st" and A: "AppendFrame r d e now ttl m st = (Inr (c, k), st')"
  shows "int (nextCursor r d st) = c \<and> int (nextCursor r d st') = c + 1"
  using ok
proof (cases rule: AppendFrame_cases [where r = r and d = d and envelope = e and now = now and ttl = ttl and maxBytes = m])
  case (fail e)
  then show ?thesis using A by simp
next
  case (stored x k' Q)
  have x: "x \<in> set (st_devices st)" "isDevice r d x" using activeDevice_Some [OF stored(1)] by auto
  have "find (isDevice r d) (st_devices st) = Some x" by (rule find_device [OF ok x])
  moreover have "1 \<le> dv_next_cursor x" using ok x by (simp add: store_ok_def devices_ok_def)
  moreover have "find (isDevice r d) (map (bumpCursor r d) (st_devices st)) = map_option (bumpCursor r d) (find (isDevice r d) (st_devices st))"
    by (rule find_map_same) (simp add: bumpCursor_def isDevice_def)
  ultimately show ?thesis using A stored(3) x(2) by (auto simp: nextCursor_def bumpCursor_def)
qed

section \<open>Closed devices\<close>

definition closedDevice :: "string \<Rightarrow> string \<Rightarrow> Store \<Rightarrow> bool" where
  "closedDevice r d st \<longleftrightarrow>
     (\<forall>x\<in>set (st_devices st). isDevice r d x \<longrightarrow> dv_revoked_at x \<noteq> None) \<and> (\<forall>f\<in>set (st_frames st). \<not> isFrame r d f)"

definition reopens :: "string \<Rightarrow> string \<Rightarrow> storeOp \<Rightarrow> bool" where
  "reopens r d op \<longleftrightarrow> (case op of ORegisterDevice _ r' d' _ \<Rightarrow> r' = r \<and> d' = d | _ \<Rightarrow> False)"

lemma closed_inactive: "closedDevice r d st \<Longrightarrow> activeDevice r d st = None"
  by (auto simp: closedDevice_def activeDevice_def find_None_iff)

lemma frames_kept:
  "st_frames (snd (CreateRoute digest r1 r2 now st)) = st_frames st"
  "st_frames (snd (ActivateRoute digest rnd i k b now st)) = st_frames st"
  "st_frames (snd (AuthenticateBridge digest r c now st)) = st_frames st"
  "st_frames (snd (RegisterDevice digest rnd r d now st)) = st_frames st"
  "st_frames (snd (AuthenticateDevice digest r d c now st)) = st_frames st"
  "st_frames (snd (SubmitPairingClaim r i h s now ttl st)) = st_frames st"
  "st_frames (snd (PendingClaims r now st)) = st_frames st"
  "st_frames (snd (CompletePairingClaim r i n s now st)) = st_frames st"
  "st_frames (ConsumePairingResult r i now st) = st_frames st"
  by (simp_all add: CreateRoute_def ActivateRoute_def AuthenticateBridge_def RegisterDevice_def AuthenticateDevice_def
      SubmitPairingClaim_def PendingClaims_def CompletePairingClaim_def ConsumePairingResult_def
      expireClaims_def Let_def split: sum.split option.split)

lemma closed_Register:
  "closedDevice r d st \<Longrightarrow> (r', d') \<noteq> (r, d) \<Longrightarrow> closedDevice r d (snd (RegisterDevice digest rnd r' d' now st))"
  by (auto simp: RegisterDevice_def closedDevice_def isDevice_def split: sum.split)

lemma closed_Authenticate: "closedDevice r d st \<Longrightarrow> closedDevice r d (snd (AuthenticateDevice digest r' d' c now st))"
  by (auto simp: AuthenticateDevice_def closedDevice_def isDevice_def split: option.split)

lemma closed_Revoke: "closedDevice r d st \<Longrightarrow> closedDevice r d (snd (RevokeDevice r' d' now st))"
  by (auto simp: RevokeDevice_def closedDevice_def isDevice_def)

lemma closed_Append:
  assumes ok: "store_ok st" and C: "closedDevice r d st"
  shows "closedDevice r d (snd (AppendFrame r' d' e now ttl m st))"
  using ok
proof (cases rule: AppendFrame_cases [where r = r' and d = d' and envelope = e and now = now and ttl = ttl and maxBytes = m])
  case (fail e)
  then show ?thesis using C by simp
next
  case (stored x k Q)
  have "(r', d') \<noteq> (r, d)" using stored(1) closed_inactive [OF C] by auto
  then show ?thesis using C stored(3)
    by (auto simp: closedDevice_def bumpCursor_def isDevice_def newFrame_def isFrame_def)
qed

lemma closed_step:
  assumes ok: "store_ok st" and C: "closedDevice r d st" and "\<not> reopens r d op"
  shows "closedDevice r d (storeStep digest st op)"
proof (cases op)
  case (OFetchFrames r' d' a l now)
  then show ?thesis using C by (auto simp: closedDevice_def FetchFrames_def Let_def)
next
  case (OAckFrames r' d' t now)
  then show ?thesis using C by (auto simp: closedDevice_def AckFrames_def isFrame_def)
next
  case (OExpireFrames now)
  then show ?thesis using C by (auto simp: closedDevice_def ExpireFrames_def Let_def)
next
  case (ORegisterDevice rnd r' d' now)
  then show ?thesis using assms by (auto simp: reopens_def intro!: closed_Register)
next
  case (OAuthenticateDevice r' d' c now)
  then show ?thesis using closed_Authenticate [OF C] by simp
next
  case (ORevokeDevice r' d' now)
  then show ?thesis using closed_Revoke [OF C] by simp
next
  case (OAppendFrame r' d' e now ttl m)
  then show ?thesis using closed_Append [OF ok C] by simp
qed (use C in \<open>simp_all add: closedDevice_def devices_kept frames_kept\<close>)

lemma closed_run:
  "store_ok st \<Longrightarrow> closedDevice r d st \<Longrightarrow> \<forall>op\<in>set ops. \<not> reopens r d op \<Longrightarrow> closedDevice r d (run (storeStep digest) st ops)"
  by (induction ops arbitrary: st) (auto intro: closed_step sm.step_good)

lemma Revoke_closes:
  assumes "RevokeDevice r d now st = (Inr (), st')"
  shows "closedDevice r d st'"
proof -
  let ?g = "\<lambda>x. if isDevice r d x \<and> dv_revoked_at x = None then x\<lparr>dv_revoked_at := Some (unixSeconds now)\<rparr> else x"
  have "st_devices st' = map ?g (st_devices st)" "st_frames st' = filter (\<lambda>f. \<not> isFrame r d f) (st_frames st)"
    using assms by (auto simp: RevokeDevice_def split: if_splits)
  moreover have "isDevice r d (?g x) \<longrightarrow> dv_revoked_at (?g x) \<noteq> None" for x by simp
  ultimately show ?thesis unfolding closedDevice_def by (simp only: list.set_map ball_simps set_filter) simp
qed

section \<open>Claims\<close>

text \<open>A claim keeps what was submitted, is decided once, and is delivered once.\<close>

definition claimRank :: "claimRow \<Rightarrow> nat" where
  "claimRank c = (if cl_state c = ''pending'' then 0 else if cl_state c = ''consumed'' then 2 else 1)"

definition claimAdvances :: "claimRow \<Rightarrow> claimRow \<Rightarrow> bool" where
  "claimAdvances c c' \<longleftrightarrow> clKey c' = clKey c \<and> cl_capability_hash c' = cl_capability_hash c
   \<and> cl_sealed_claim c' = cl_sealed_claim c \<and> cl_expires_at c' = cl_expires_at c
   \<and> (cl_state c' = cl_state c \<or> claimRank c < claimRank c')
   \<and> (cl_state c \<noteq> ''pending'' \<longrightarrow> cl_sealed_result c' = cl_sealed_result c)"

definition submits :: "string \<Rightarrow> string \<Rightarrow> storeOp \<Rightarrow> bool" where
  "submits r i op \<longleftrightarrow> (case op of OSubmitPairingClaim r' i' _ _ _ _ \<Rightarrow> r' = r \<and> i' = i | _ \<Rightarrow> False)"

lemma claimAdvances_refl: "claimAdvances c c"
  by (simp add: claimAdvances_def)

lemma claimAdvances_trans: "claimAdvances a b \<Longrightarrow> claimAdvances b c \<Longrightarrow> claimAdvances a c"
  by (auto simp: claimAdvances_def claimRank_def split: if_splits)

lemma claims_kept:
  "st_claims (snd (CreateRoute digest r1 r2 now st)) = st_claims st"
  "st_claims (snd (ActivateRoute digest rnd i k b now st)) = st_claims st"
  "st_claims (snd (AuthenticateBridge digest r c now st)) = st_claims st"
  "st_claims (snd (RegisterDevice digest rnd r d now st)) = st_claims st"
  "st_claims (snd (AuthenticateDevice digest r d c now st)) = st_claims st"
  "st_claims (snd (RevokeDevice r d now st)) = st_claims st"
  "st_claims (snd (FetchFrames r d a l now st)) = st_claims st"
  "st_claims (AckFrames r d t now st) = st_claims st"
  "st_claims (snd (ExpireFrames now st)) = st_claims st"
  by (simp_all add: CreateRoute_def ActivateRoute_def AuthenticateBridge_def RegisterDevice_def AuthenticateDevice_def
      RevokeDevice_def FetchFrames_def AckFrames_def ExpireFrames_def Let_def split: sum.split option.split)

lemma claims_Append: "store_ok st \<Longrightarrow> st_claims (snd (AppendFrame r d e now ttl m st)) = st_claims st"
  by (rule AppendFrame_cases [of st r d e now ttl m]) simp_all

lemma back_map: "c' \<in> set (map g cs) \<Longrightarrow> (\<And>c. R c (g c)) \<Longrightarrow> \<exists>c\<in>set cs. R c c'"
  by auto

text \<open>Every claim of a later state without a new submission comes from an earlier one.\<close>

lemma claim_back:
  assumes ok: "store_ok st" and "\<not> submits r i op" and c': "c' \<in> set (st_claims (storeStep digest st op))" "clKey c' = (r, i)"
  shows "\<exists>c\<in>set (st_claims st). claimAdvances c c'"
proof (cases op)
  case (OSubmitPairingClaim r' i' h s now ttl)
  then have "(r', i') \<noteq> (r, i)" using assms(2) by (auto simp: submits_def)
  then have "c' \<in> set (st_claims st)" using c' OSubmitPairingClaim
    by (auto simp: SubmitPairingClaim_def expireClaims_def Let_def clKey_def split: option.splits if_splits)
  then show ?thesis using claimAdvances_refl by blast
next
  case (OPendingClaims r' now)
  then have "c' \<in> set (st_claims st)" using c' by (auto simp: PendingClaims_def expireClaims_def Let_def)
  then show ?thesis using claimAdvances_refl by blast
next
  case (OCompletePairingClaim r' i' n s now)
  let ?g = "\<lambda>c. if isClaim r' i' c \<and> cl_state c = ''pending'' then c\<lparr>cl_sealed_result := s, cl_state := n\<rparr> else c"
  let ?go = "(n = ''approved'' \<or> n = ''rejected'') \<and> list_ex (\<lambda>c. isClaim r' i' c \<and> cl_state c = ''pending'') (st_claims st)"
  have m: "st_claims (storeStep digest st op) = (if ?go then map ?g (st_claims st) else st_claims st)"
    by (simp add: OCompletePairingClaim CompletePairingClaim_def)
  show ?thesis
  proof (cases ?go)
    case False
    then show ?thesis using c'(1) claimAdvances_refl unfolding m by (simp split: if_splits) blast+
  next
    case True
    show ?thesis
    proof (rule back_map [OF c'(1) [unfolded m if_P [OF True]]])
      show "claimAdvances c (?g c)" for c using True by (auto simp: claimAdvances_def claimRank_def clKey_def)
    qed
  qed
next
  case (OConsumePairingResult r' i' now)
  let ?g = "\<lambda>c. if isClaim r' i' c \<and> cl_state c \<in> {''approved'', ''rejected''} \<and> cl_consumed_at c = None
      then c\<lparr>cl_consumed_at := Some (unixSeconds now), cl_state := ''consumed''\<rparr> else c"
  have m: "st_claims (storeStep digest st op) = map ?g (st_claims st)"
    by (simp add: OConsumePairingResult ConsumePairingResult_def)
  show ?thesis
  proof (rule back_map [OF c'(1) [unfolded m]])
    show "claimAdvances c (?g c)" for c by (auto simp: claimAdvances_def claimRank_def clKey_def)
  qed
qed (use c' ok claimAdvances_refl in \<open>auto simp: claims_kept claims_Append\<close>)

lemma claim_run:
  assumes "store_ok st" and "\<forall>op\<in>set ops. \<not> submits r i op"
    and "c' \<in> set (st_claims (run (storeStep digest) st ops))" and "clKey c' = (r, i)"
  shows "\<exists>c\<in>set (st_claims st). claimAdvances c c'"
  using assms
proof (induction ops arbitrary: c' rule: rev_induct)
  case Nil
  then show ?case using claimAdvances_refl by auto
next
  case (snoc op ops)
  let ?st = "run (storeStep digest) st ops"
  have "\<exists>b\<in>set (st_claims ?st). claimAdvances b c'"
    using snoc.prems sm.run_good [OF snoc.prems(1)] by (intro claim_back [of ?st]) auto
  then obtain b where b: "b \<in> set (st_claims ?st)" "claimAdvances b c'" by blast
  moreover have "clKey b = (r, i)" using b(2) snoc.prems(4) by (simp add: claimAdvances_def)
  ultimately obtain c where "c \<in> set (st_claims st)" "claimAdvances c b" using snoc by auto
  with b(2) show ?case using claimAdvances_trans by blast
qed

section \<open>A concrete store\<close>

definition demoDigest :: "string \<Rightarrow> byte list" where
  "demoDigest s = map of_char s"

abbreviation demoTTL :: duration where
  "demoTTL \<equiv> 60 * nanosPerSecond"

definition demoOps :: "storeOp list" where
  "demoOps = [OCreateRoute (Some []) (Some [7]) 0, ORegisterDevice (Some [1]) ''rt_'' ''d'' 0,
     OAppendFrame ''rt_'' ''d'' [1, 2] 0 demoTTL 4, OAppendFrame ''rt_'' ''d'' [3] 0 demoTTL 4,
     OSubmitPairingClaim ''rt_'' ''c'' [9] [8] 0 demoTTL]"

definition demoReopen :: "storeOp list" where
  "demoReopen = [ORevokeDevice ''rt_'' ''d'' 0, ORegisterDevice (Some [2]) ''rt_'' ''d'' 0]"

definition demoDecide :: "storeOp list" where
  "demoDecide = [OCompletePairingClaim ''rt_'' ''c'' ''approved'' [5] 0, OConsumePairingResult ''rt_'' ''c'' 0]"

definition demoStore :: Store where
  "demoStore = run (storeStep demoDigest) migrate demoOps"

definition demoAppended :: Store where
  "demoAppended = snd (AppendFrame ''rt_'' ''d'' [4, 5] 0 demoTTL 4 demoStore)"

definition demoRevoked :: Store where
  "demoRevoked = snd (RevokeDevice ''rt_'' ''d'' 0 demoStore)"

lemma demo_append: "AppendFrame ''rt_'' ''d'' [4, 5] 0 demoTTL 4 demoStore = (Inr (3, 1), demoAppended)"
proof -
  have "fst (AppendFrame ''rt_'' ''d'' [4, 5] 0 demoTTL 4 demoStore) = Inr (3, 1)" by code_simp
  then show ?thesis by (simp add: demoAppended_def prod_eq_iff)
qed

lemma demo_append_again:
  "AppendFrame ''rt_'' ''d'' [6] 0 demoTTL 4 (run (storeStep demoDigest) demoAppended demoReopen)
     = (Inr (4, 0), snd (AppendFrame ''rt_'' ''d'' [6] 0 demoTTL 4 (run (storeStep demoDigest) demoAppended demoReopen)))"
proof -
  have "fst (AppendFrame ''rt_'' ''d'' [6] 0 demoTTL 4 (run (storeStep demoDigest) demoAppended demoReopen)) = Inr (4, 0)"
    by code_simp
  then show ?thesis by (simp add: prod_eq_iff)
qed

lemma demo_revoke: "RevokeDevice ''rt_'' ''d'' 0 demoStore = (Inr (), demoRevoked)"
proof -
  have "fst (RevokeDevice ''rt_'' ''d'' 0 demoStore) = Inr ()" by code_simp
  then show ?thesis by (simp add: demoRevoked_def prod_eq_iff)
qed

lemma demo_active: "DeviceActive ''rt_'' ''d'' demoStore"
  by code_simp

lemma demo_page:
  "fst (FetchFrames ''rt_'' ''d'' 0 (int 1) 0 demoStore) = [\<lparr>mf_Cursor = 1, mf_Envelope = [1, 2], mf_ExpiresAt = -62135596740\<rparr>]"
  by code_simp

definition demoClaim :: claimRow where
  "demoClaim = \<lparr>cl_route_id = ''rt_'', cl_claim_id = ''c'', cl_capability_hash = [9], cl_sealed_claim = [8],
     cl_sealed_result = [5], cl_state = ''consumed'', cl_expires_at = -62135596740, cl_consumed_at = Some (-62135596800)\<rparr>"

lemma demo_claims: "st_claims (run (storeStep demoDigest) migrate (demoOps @ demoDecide)) = [demoClaim]"
  by code_simp

section \<open>Properties\<close>

text \<open>
  C6: within a device of a route every stored frame gets a cursor of its own and later frames get
  larger ones: between two successful appends the cursor grows strictly, whatever other operations
  run in between, including the removal of the frames and the revocation and the new registration of
  the device.
\<close>

theorem store_cursors_increase:
  assumes "AppendFrame r d e now ttl m (run (storeStep digest) migrate ops) = (Inr (c, k), st1)"
    and "AppendFrame r d e' now' ttl' m' (run (storeStep digest) st1 ops') = (Inr (c', k'), st2)"
  shows "c < c'"
proof -
  have ok: "store_ok (run (storeStep digest) migrate ops)" by (rule reachable_ok)
  then have ok1: "store_ok st1" using AppendFrame_ok [OF ok, of r d e now ttl m] assms(1) by simp
  show ?thesis
    using AppendFrame_cursor [OF ok assms(1)] AppendFrame_cursor [OF sm.run_good [OF ok1] assms(2)]
      cursors.level_run [OF ok1, of r d digest ops'] by linarith
qed

theorem store_cursors_increase_witness:
  "fst (AppendFrame ''rt_'' ''d'' [4, 5] 0 demoTTL 4 demoStore) = Inr (3, 1)
   \<and> fst (AppendFrame ''rt_'' ''d'' [6] 0 demoTTL 4 (run (storeStep demoDigest) demoAppended demoReopen)) = Inr (4, 0)
   \<and> (3 :: int) < 4"
  using store_cursors_increase [OF demo_append [unfolded demoStore_def] demo_append_again]
  by (metis demo_append demo_append_again fst_conv)

text \<open>
  Appending a frame that fits the capacity to an active device always succeeds.  Afterwards the
  pending frames of the device are its unexpired pending frames without a shortest prefix of the
  oldest ones, followed by the new frame; their sizes add up to at most the capacity; the number of
  evicted frames is reported; and the frames of every other device are untouched.
\<close>

theorem store_append_exact:
  assumes "DeviceActive r d (run (storeStep digest) migrate ops)" and "int (length envelope) \<le> maxBytes"
  shows "\<exists>c k st'. AppendFrame r d envelope now ttl maxBytes (run (storeStep digest) migrate ops) = (Inr (c, int k), st')
    \<and> pendingFrames r d st' = drop k (liveFrames r d now (run (storeStep digest) migrate ops)) @ [newFrame r d envelope now ttl c]
    \<and> storedBytes (pendingFrames r d st') \<le> maxBytes
    \<and> (\<forall>j<k. storedBytes (drop j (liveFrames r d now (run (storeStep digest) migrate ops))) + int (length envelope) > maxBytes)
    \<and> filter (\<lambda>f. \<not> isFrame r d f) (st_frames st')
        = filter (\<lambda>f. \<not> isFrame r d f) (st_frames (run (storeStep digest) migrate ops))"
proof -
  let ?st = "run (storeStep digest) migrate ops"
  have ok: "store_ok ?st" by (rule reachable_ok)
  obtain x where x: "activeDevice r d ?st = Some x" using assms(1) by (auto simp: DeviceActive_def)
  obtain k Q where k: "\<forall>f. \<not> isFrame r d f \<longrightarrow> Q f"
      "AppendFrame r d envelope now ttl maxBytes ?st = (Inr (dv_next_cursor x, int k),
         ?st\<lparr>st_frames := filter Q (st_frames ?st) @ [newFrame r d envelope now ttl (dv_next_cursor x)],
            st_devices := map (bumpCursor r d) (st_devices ?st)\<rparr>)"
      "pendingFrames r d (?st\<lparr>st_frames := filter Q (st_frames ?st)\<rparr>) = drop k (liveFrames r d now ?st)"
      "storedBytes (drop k (liveFrames r d now ?st)) + int (length envelope) \<le> maxBytes"
      "\<forall>j<k. storedBytes (drop j (liveFrames r d now ?st)) + int (length envelope) > maxBytes"
    using AppendFrame_succeeds [OF ok x assms(2), of now ttl] by blast
  let ?f = "newFrame r d envelope now ttl (dv_next_cursor x)"
  let ?st' = "?st\<lparr>st_frames := filter Q (st_frames ?st) @ [?f], st_devices := map (bumpCursor r d) (st_devices ?st)\<rparr>"
  have f: "isFrame r d ?f" "fr_acked_at ?f = None" by (simp_all add: newFrame_def isFrame_def)
  have below: "\<forall>f\<in>set (filter (\<lambda>f. isFrame r d f \<and> fr_acked_at f = None) (filter Q (st_frames ?st))). fr_cursor f \<le> fr_cursor ?f"
    using cursor_fresh [OF ok, of x r d] activeDevice_Some [OF x] by (fastforce simp: newFrame_def)
  have "pendingFrames r d ?st' = pendingFrames r d (?st\<lparr>st_frames := filter Q (st_frames ?st)\<rparr>) @ [?f]"
    using sort_key_snoc [OF below] f by (simp add: pendingFrames_def)
  then have P: "pendingFrames r d ?st' = drop k (liveFrames r d now ?st) @ [?f]" using k(3) by simp
  moreover have "storedBytes (pendingFrames r d ?st') \<le> maxBytes"
    using k(4) unfolding P by (simp add: storedBytes_def newFrame_def)
  moreover have "filter (\<lambda>f. \<not> isFrame r d f) (st_frames ?st') = filter (\<lambda>f. \<not> isFrame r d f) (st_frames ?st)"
    using k(1) f(1) by (auto intro!: filter_cong)
  ultimately show ?thesis using k(2,5) by blast
qed

theorem store_append_exact_witness:
  "DeviceActive ''rt_'' ''d'' demoStore \<and> (\<exists>c k st'. AppendFrame ''rt_'' ''d'' [4, 5] 0 demoTTL 4 demoStore = (Inr (c, int k), st')
     \<and> storedBytes (pendingFrames ''rt_'' ''d'' st') \<le> 4)"
  using store_append_exact [of "''rt_''" "''d''" demoDigest demoOps "[4, 5]" 4 0 demoTTL, folded demoStore_def] demo_active
  by auto

text \<open>
  Paging through a mailbox misses nothing and repeats nothing: a page asked for after the last
  cursor of a page that was not empty continues it, so that both together are the oldest live frames
  of the device after the starting cursor, in the order of their cursors.
\<close>

theorem store_pages:
  assumes "st = run (storeStep digest) migrate ops"
    and "0 < n" and "n \<le> 200" and "0 < n'" and "n' \<le> 200"
    and "FetchFrames r d after (int n) now st = (page, st1)" and "page \<noteq> []"
    and "FetchFrames r d (mf_Cursor (last page)) (int n') now st1 = (page', st2)"
  shows "page @ page' = map toFrame (take (n + n') (filter (\<lambda>f. fr_cursor f > after) (liveFrames r d now st)))
    \<and> sorted_wrt (<) (map mf_Cursor (page @ page')) \<and> st_frames st2 = st_frames st1"
proof -
  have ok: "store_ok st" unfolding assms(1) by (rule reachable_ok)
  let ?live = "liveFrames r d now st" and ?all = "filter (\<lambda>f. fr_cursor f > after) (liveFrames r d now st)"
  have F: "FetchFrames r d a (int l) now s = (map toFrame (take l (filter (\<lambda>f. fr_cursor f > a) (liveFrames r d now s))),
      s\<lparr>st_frames := filter (\<lambda>f. \<not> (isFrame r d f \<and> fr_expires_at f \<le> unixSeconds now)) (st_frames s)\<rparr>)"
    if "0 < l" "l \<le> 200" for a l s
    using that by (auto simp: FetchFrames_def Let_def liveFrames_def pendingFrames_def filter_sort
        intro!: arg_cong [of _ _ "sort_key fr_cursor"] arg_cong [of _ _ "map toFrame"] arg_cong [of _ _ "take l"] filter_cong)
  have st1: "st1 = st\<lparr>st_frames := filter (\<lambda>f. \<not> (isFrame r d f \<and> fr_expires_at f \<le> unixSeconds now)) (st_frames st)\<rparr>"
    and page: "page = map toFrame (take n ?all)" using F [OF assms(2,3), of after st] assms(6) by auto
  have live1: "liveFrames r d now st1 = ?live"
    by (auto simp: st1 liveFrames_def pendingFrames_def filter_sort intro!: arg_cong [of _ _ "sort_key fr_cursor"] filter_cong)
  have st2: "st_frames st2 = st_frames st1" and page': "page' = map toFrame (take n' (filter (\<lambda>f. fr_cursor f > mf_Cursor (last page)) ?live))"
    using F [OF assms(4,5), of "mf_Cursor (last page)" st1, unfolded live1] assms(8) unfolding st1 by auto
  have "sorted_wrt (<) (map fr_cursor (pendingFrames r d st))"
    using pending_sorted pending_distinct [of st r d] ok by (simp add: strict_sorted_iff store_ok_def frames_ok_def)
  then have ss: "sorted_wrt (\<lambda>f g. fr_cursor f < fr_cursor g) ?all"
    by (simp add: liveFrames_def sorted_wrt_filter sorted_wrt_map)
  have "page' = map toFrame (take n' (drop n ?all))"
    using page_continues [OF ss] assms(7) page unfolding page' by (simp add: toFrame_def last_map)
  then have all: "page @ page' = map toFrame (take (n + n') ?all)" by (simp add: page take_add)
  moreover have "sorted_wrt (<) (map mf_Cursor (page @ page'))"
    unfolding all using sorted_wrt_take [OF ss, of "n + n'"] by (simp add: sorted_wrt_map toFrame_def)
  ultimately show ?thesis using st2 by simp
qed

theorem store_pages_witness:
  "map mf_Cursor (fst (FetchFrames ''rt_'' ''d'' 0 (int 1) 0 demoStore)
     @ fst (FetchFrames ''rt_'' ''d'' 1 (int 5) 0 (snd (FetchFrames ''rt_'' ''d'' 0 (int 1) 0 demoStore))))
   = map fr_cursor (take (1 + 5) (filter (\<lambda>f. fr_cursor f > 0) (liveFrames ''rt_'' ''d'' 0 demoStore)))"
proof -
  let ?p = "FetchFrames ''rt_'' ''d'' 0 (int 1) 0 demoStore"
  let ?q = "FetchFrames ''rt_'' ''d'' 1 (int 5) 0 (snd ?p)"
  have "fst ?p \<noteq> []" "mf_Cursor (last (fst ?p)) = 1" by (simp_all only: demo_page) simp_all
  then have "fst ?p @ fst ?q = map toFrame (take (1 + 5) (filter (\<lambda>f. fr_cursor f > 0) (liveFrames ''rt_'' ''d'' 0 demoStore)))"
    using store_pages [of demoStore demoDigest demoOps 1 5 "''rt_''" "''d''" 0 0 "fst ?p" "snd ?p" "fst ?q" "snd ?q"]
    by (simp only: demoStore_def prod.collapse) simp
  then show ?thesis by (simp only:) (simp add: toFrame_def o_def)
qed

text \<open>
  A revoked device stays closed until it is registered again: whatever else runs, it is not
  active, no credential authenticates it, no frame can be stored for it and none is handed out.
\<close>

theorem revoked_device_closed:
  assumes "RevokeDevice r d now (run (storeStep digest) migrate ops) = (Inr (), st1)"
    and "\<forall>op\<in>set ops'. \<not> reopens r d op"
    and "st = run (storeStep digest) st1 ops'"
  shows "\<not> DeviceActive r d st \<and> fst (AuthenticateDevice digest r d credential t st) = False
    \<and> (\<exists>e. AppendFrame r d envelope t ttl maxBytes st = (Inl e, st)) \<and> fst (FetchFrames r d after limit t st) = []"
proof -
  have "store_ok st1" using RevokeDevice_ok [OF reachable_ok, of r d now digest ops] assms(1) by simp
  with Revoke_closes [OF assms(1)] assms(2) have C: "closedDevice r d st" unfolding assms(3) by (intro closed_run)
  have "filter (\<lambda>f. isFrame r d f \<and> P f) (st_frames st) = []" for P
    using C by (auto simp: closedDevice_def filter_empty_conv)
  then have "fst (FetchFrames r d after limit t st) = []"
    by (auto simp: FetchFrames_def Let_def pendingFrames_def conj_ac filter_empty_conv)
  then show ?thesis using AppendFrame_fails [OF disjI1 [OF closed_inactive [OF C]]] closed_inactive [OF C]
    by (auto simp: DeviceActive_def AuthenticateDevice_def)
qed

theorem revoked_device_closed_witness:
  "\<not> DeviceActive ''rt_'' ''d'' (run (storeStep demoDigest) demoRevoked [OAppendFrame ''rt_'' ''d'' [4] 0 demoTTL 4])"
  using revoked_device_closed [OF demo_revoke [unfolded demoStore_def], of "[OAppendFrame ''rt_'' ''d'' [4] 0 demoTTL 4]", OF _ refl]
  by (simp add: reopens_def)

text \<open>
  A pairing claim is decided once and delivered once.  Every claim found after a run in which
  its identifier was not submitted again was there before, with the same capability, the same sealed
  claim and the same expiry; its state has only moved forward from pending to a decision to
  consumed; a decided claim keeps its sealed result; and a consumed claim is never handed out.
\<close>

theorem pairing_claim_forward:
  assumes "\<forall>op\<in>set ops'. \<not> submits r i op"
    and "c' \<in> set (st_claims (run (storeStep digest) migrate (ops @ ops')))" and "isClaim r i c'"
  shows "(\<exists>c\<in>set (st_claims (run (storeStep digest) migrate ops)). claimAdvances c c')
    \<and> (cl_state c' = ''consumed'' \<longrightarrow>
         GetPairingResult r i t (run (storeStep digest) migrate (ops @ ops')) = Inl ErrNoRows)"
proof -
  let ?st = "run (storeStep digest) migrate (ops @ ops')"
  have ok: "claims_ok (st_claims ?st)" using reachable_ok [of digest "ops @ ops'"] by (simp add: store_ok_def)
  have "cl_consumed_at c \<noteq> None" if "c \<in> set (st_claims ?st)" "isClaim r i c" "cl_state c' = ''consumed''" for c
  proof -
    have "c = c'" using ok that(1,2) assms(2,3) inj_onD [of clKey "set (st_claims ?st)" c c']
      by (auto simp: claims_ok_def distinct_map isClaim_key)
    then show ?thesis using ok that assms(2) by (auto simp: claims_ok_def claim_ok_def)
  qed
  then have "GetPairingResult r i t ?st = Inl ErrNoRows" if "cl_state c' = ''consumed''"
    using that by (auto simp: GetPairingResult_def find_None_iff split: option.split)
  moreover have "\<exists>c\<in>set (st_claims (run (storeStep digest) migrate ops)). claimAdvances c c'"
    using assms by (intro claim_run [OF reachable_ok assms(1)]) (auto simp: isClaim_key)
  ultimately show ?thesis by blast
qed

theorem pairing_claim_forward_witness:
  "GetPairingResult ''rt_'' ''c'' 0 (run (storeStep demoDigest) migrate (demoOps @ demoDecide)) = Inl ErrNoRows"
  using pairing_claim_forward [of demoDecide "''rt_''" "''c''" demoClaim demoDigest demoOps 0]
  unfolding demo_claims by (simp add: demoDecide_def submits_def isClaim_def demoClaim_def)

end
