(* ===== verification/Relay_Bulk.thy ===== *)
theory Relay_Bulk
  imports Bridge_Prelude
begin

text \<open>
  Cancellation and correlation of bulk transfers: the reference state machine and registry of
  \<^verbatim>\<open>go-bridge/relaystate\<close>, the atomic handle of \<^verbatim>\<open>go-bridge/relay_bulk_state.go\<close> and the registry
  wrapper of \<^verbatim>\<open>go-bridge/relay_bulk_correlation.go\<close>.  A handle is its atomic state; handles that are
  shared live in a store from addresses to states.  An atomic compare-and-swap is one step.
\<close>

section \<open>The reference cancellation machine\<close>

datatype CancelState = StateQueued | StateReading | StateSerializing | StateOutboundQueued
  | StateCommittedToWriter | StateComplete | StateCancelled

fun CancelState_String :: "CancelState \<Rightarrow> string" where
  "CancelState_String StateQueued = ''queued''"
| "CancelState_String StateReading = ''reading''"
| "CancelState_String StateSerializing = ''serializing''"
| "CancelState_String StateOutboundQueued = ''outboundQueued''"
| "CancelState_String StateCommittedToWriter = ''committedToWriter''"
| "CancelState_String StateComplete = ''complete''"
| "CancelState_String StateCancelled = ''cancelled''"

datatype CancelOutcome = CancelCancelled | CancelTooLate | CancelNotFound

text \<open>The boundary compares the codes of the states, so that the cancelled state lies beyond it.\<close>

fun cancelCode :: "CancelState \<Rightarrow> nat" where
  "cancelCode StateQueued = 0"
| "cancelCode StateReading = 1"
| "cancelCode StateSerializing = 2"
| "cancelCode StateOutboundQueued = 3"
| "cancelCode StateCommittedToWriter = 4"
| "cancelCode StateComplete = 5"
| "cancelCode StateCancelled = 6"

definition IsTooLateBoundary :: "CancelState \<Rightarrow> bool" where
  "IsTooLateBoundary s \<longleftrightarrow> cancelCode s \<ge> cancelCode StateCommittedToWriter"

fun TryCancel :: "CancelState \<Rightarrow> bool \<Rightarrow> CancelOutcome \<times> CancelState" where
  "TryCancel StateQueued _ = (CancelCancelled, StateCancelled)"
| "TryCancel StateReading _ = (CancelCancelled, StateCancelled)"
| "TryCancel StateSerializing _ = (CancelCancelled, StateCancelled)"
| "TryCancel StateOutboundQueued writerCommitted =
     (if writerCommitted then (CancelTooLate, StateOutboundQueued) else (CancelCancelled, StateCancelled))"
| "TryCancel StateCommittedToWriter _ = (CancelTooLate, StateCommittedToWriter)"
| "TryCancel StateComplete _ = (CancelTooLate, StateComplete)"
| "TryCancel StateCancelled _ = (CancelCancelled, StateCancelled)"

definition Advance :: "CancelState \<Rightarrow> CancelState \<Rightarrow> bool" where
  "Advance from_state to_state \<longleftrightarrow> (from_state, to_state) \<in> set
     [(StateQueued, StateReading), (StateReading, StateSerializing), (StateSerializing, StateOutboundQueued),
      (StateOutboundQueued, StateCommittedToWriter), (StateCommittedToWriter, StateComplete)]"

section \<open>The atomic handle\<close>

datatype bulkState = bulkActive | bulkCancelled | bulkCommitted

fun Handle_Cancel :: "bulkState \<Rightarrow> bool \<times> bulkState" where
  "Handle_Cancel bulkCancelled = (True, bulkCancelled)"
| "Handle_Cancel bulkCommitted = (False, bulkCommitted)"
| "Handle_Cancel bulkActive = (True, bulkCancelled)"

definition Handle_Cancelled :: "bulkState \<Rightarrow> bool" where
  "Handle_Cancelled s \<longleftrightarrow> s = bulkCancelled"

definition MarkIndex0Committed :: "bulkState \<Rightarrow> bool \<times> bulkState" where
  "MarkIndex0Committed s = (if s = bulkActive then (True, bulkCommitted) else (False, s))"

definition Index0Committed :: "bulkState \<Rightarrow> bool" where
  "Index0Committed s \<longleftrightarrow> s = bulkCommitted"

section \<open>The correlation registry\<close>

record CorrelatedRegistry =
  cr_active :: "string list"
  cr_retired :: "string list"
  cr_maxActive :: int
  cr_maxRetired :: int

definition NewCorrelatedRegistry :: "int \<Rightarrow> int \<Rightarrow> CorrelatedRegistry" where
  "NewCorrelatedRegistry maxActive maxRetired =
     \<lparr>cr_active = [], cr_retired = [], cr_maxActive = maxActive, cr_maxRetired = maxRetired\<rparr>"

datatype putReason = AlreadyActive | Reuse | Busy | Admitted

definition PutIfAbsent :: "string \<Rightarrow> CorrelatedRegistry \<Rightarrow> bool \<times> putReason \<times> CorrelatedRegistry" where
  "PutIfAbsent key r =
     (if key \<in> set (cr_active r) then (False, AlreadyActive, r)
      else if key \<in> set (cr_retired r) then (False, Reuse, r)
      else if int (length (cr_active r)) \<ge> cr_maxActive r then (False, Busy, r)
      else (True, Admitted, r\<lparr>cr_active := List.insert key (cr_active r)\<rparr>))"

definition Retire :: "string \<Rightarrow> CorrelatedRegistry \<Rightarrow> bool \<times> CorrelatedRegistry" where
  "Retire key r =
     (if key \<notin> set (cr_active r) then (False, r)
      else
        let r1 = r\<lparr>cr_active := removeAll key (cr_active r)\<rparr> in
        if int (length (cr_retired r1)) \<ge> cr_maxRetired r1 then (False, r1)
        else (True, r1\<lparr>cr_retired := List.insert key (cr_retired r1)\<rparr>))"

text \<open>The runtime registry is absent on connections that do not track correlations.\<close>

definition Bulk_PutIfAbsent :: "string \<Rightarrow> CorrelatedRegistry option \<Rightarrow> bool \<times> putReason \<times> CorrelatedRegistry option" where
  "Bulk_PutIfAbsent key reg =
     (case reg of None \<Rightarrow> (True, Admitted, None)
      | Some r \<Rightarrow> let (ok, reason, r') = PutIfAbsent key r in (ok, reason, Some r'))"

definition Bulk_Retire :: "string \<Rightarrow> CorrelatedRegistry option \<Rightarrow> bool \<times> CorrelatedRegistry option" where
  "Bulk_Retire key reg =
     (case reg of None \<Rightarrow> (True, None) | Some r \<Rightarrow> let (ok, r') = Retire key r in (ok, Some r'))"

definition ActiveCount :: "CorrelatedRegistry option \<Rightarrow> int" where
  "ActiveCount reg = (case reg of None \<Rightarrow> 0 | Some r \<Rightarrow> int (length (cr_active r)))"

definition RetiredCount :: "CorrelatedRegistry option \<Rightarrow> int" where
  "RetiredCount reg = (case reg of None \<Rightarrow> 0 | Some r \<Rightarrow> int (length (cr_retired r)))"

section \<open>Deadlines of a transfer\<close>

definition ServerGroupMaxAge :: duration where "ServerGroupMaxAge = 120 * nanosPerSecond"
definition ClientTotalCap :: duration where "ClientTotalCap = 90 * nanosPerSecond"
definition PreFirstChunkIdle :: duration where "PreFirstChunkIdle = 30 * nanosPerSecond"
definition InterChunkIdle :: duration where "InterChunkIdle = 15 * nanosPerSecond"

definition CheckDeadlineInvariants :: bool where
  "CheckDeadlineInvariants \<longleftrightarrow>
     ServerGroupMaxAge > ClientTotalCap \<and> ClientTotalCap > PreFirstChunkIdle \<and> PreFirstChunkIdle > InterChunkIdle"

definition PreFirstDeadline :: "instant \<Rightarrow> instant \<Rightarrow> bool" where
  "PreFirstDeadline requestCommit now \<longleftrightarrow> timeSub now requestCommit \<ge> PreFirstChunkIdle"

definition InterChunkExceeded :: "instant \<Rightarrow> instant \<Rightarrow> bool" where
  "InterChunkExceeded lastChunkAt now \<longleftrightarrow> timeSub now lastChunkAt \<ge> InterChunkIdle"

definition ClientTotalExceeded :: "instant \<Rightarrow> instant \<Rightarrow> bool" where
  "ClientTotalExceeded requestCommit now \<longleftrightarrow> timeSub now requestCommit \<ge> ClientTotalCap"

definition ServerGroupExpired :: "instant \<Rightarrow> instant \<Rightarrow> bool" where
  "ServerGroupExpired serverAdmitAt now \<longleftrightarrow> timeSub now serverAdmitAt \<ge> ServerGroupMaxAge"

section \<open>The handle refines the reference machine\<close>

text \<open>
  The states of the reference machine a handle stands for.  A handle is committed as soon as the
  writer has claimed index 0, while the machine may still say that the transfer is queued outbound:
  that is what the flag of \<^const>\<open>TryCancel\<close> reports.
\<close>

fun represents :: "bulkState \<Rightarrow> CancelState \<Rightarrow> bool" where
  "represents bulkActive s \<longleftrightarrow> s \<in> {StateQueued, StateReading, StateSerializing, StateOutboundQueued}"
| "represents bulkCancelled s \<longleftrightarrow> s = StateCancelled"
| "represents bulkCommitted s \<longleftrightarrow> s \<in> {StateOutboundQueued, StateCommittedToWriter, StateComplete}"

datatype handleCall = HCancel | HCommit

fun handleStep :: "bulkState \<times> (handleCall \<times> bool) list \<Rightarrow> handleCall \<Rightarrow> bulkState \<times> (handleCall \<times> bool) list" where
  "handleStep (h, log) HCancel = (let (ok, h') = Handle_Cancel h in (h', log @ [(HCancel, ok)]))"
| "handleStep (h, log) HCommit = (let (ok, h') = MarkIndex0Committed h in (h', log @ [(HCommit, ok)]))"

definition handle_ok :: "bulkState \<times> (handleCall \<times> bool) list \<Rightarrow> bool" where
  "handle_ok s \<longleftrightarrow>
     (case fst s of
        bulkActive \<Rightarrow> snd s = []
      | bulkCancelled \<Rightarrow> (HCancel, True) \<in> set (snd s) \<and> (HCommit, True) \<notin> set (snd s) \<and> (HCancel, False) \<notin> set (snd s)
      | bulkCommitted \<Rightarrow> (HCommit, True) \<in> set (snd s) \<and> (HCancel, True) \<notin> set (snd s)
          \<and> length (filter (\<lambda>x. x = (HCommit, True)) (snd s)) = 1)"

interpretation hc: guarded_machine handleStep handle_ok
proof
  fix s x assume "handle_ok s"
  then show "handle_ok (handleStep s x)"
    by (cases "fst s"; cases s; cases x) (auto simp: handle_ok_def MarkIndex0Committed_def)
qed

lemma handle_exclusive:
  assumes "handle_ok s"
  shows "\<not> ((HCancel, True) \<in> set (snd s) \<and> (HCommit, True) \<in> set (snd s))
    \<and> length (filter (\<lambda>x. x = (HCommit, True)) (snd s)) \<le> 1"
proof -
  have "(HCommit, True) \<notin> set (snd s) \<Longrightarrow> filter (\<lambda>x. x = (HCommit, True)) (snd s) = []" by (auto simp: filter_empty_conv)
  then show ?thesis using assms by (auto simp: handle_ok_def split: bulkState.splits)
qed

section \<open>Runs of the registry\<close>

datatype registryCall = RPut string | RRetire string

text \<open>The log holds the answers: admissions, and retirements that found the retired set full.\<close>

datatype registryEvent = EAdmitted string | EOverflow string | EOther

fun registryStep :: "CorrelatedRegistry \<times> registryEvent list \<Rightarrow> registryCall \<Rightarrow> CorrelatedRegistry \<times> registryEvent list" where
  "registryStep (r, log) (RPut key) =
     (let (ok, reason, r') = PutIfAbsent key r in (r', log @ [if ok then EAdmitted key else EOther]))"
| "registryStep (r, log) (RRetire key) =
     (let (ok, r') = Retire key r in (r', log @ [if \<not> ok \<and> key \<in> set (cr_active r) then EOverflow key else EOther]))"

definition happened :: "registryEvent \<Rightarrow> registryEvent list \<Rightarrow> nat" where
  "happened e log = length (filter (\<lambda>x. x = e) log)"

definition registry_ok :: "CorrelatedRegistry \<times> registryEvent list \<Rightarrow> bool" where
  "registry_ok s \<longleftrightarrow> distinct (cr_active (fst s)) \<and> distinct (cr_retired (fst s))
   \<and> int (length (cr_active (fst s))) \<le> max 0 (cr_maxActive (fst s))
   \<and> int (length (cr_retired (fst s))) \<le> max 0 (cr_maxRetired (fst s))
   \<and> (\<forall>k. happened (EAdmitted k) (snd s) = happened (EOverflow k) (snd s)
        + (if k \<in> set (cr_active (fst s)) \<union> set (cr_retired (fst s)) then 1 else 0))
   \<and> set (cr_active (fst s)) \<inter> set (cr_retired (fst s)) = {}"

lemma happened_snoc: "happened e (log @ [x]) = happened e log + (if x = e then 1 else 0)"
  by (simp add: happened_def)

lemma registry_put: "registry_ok (r, log) \<Longrightarrow> registry_ok (registryStep (r, log) (RPut key))"
  by (auto simp: registry_ok_def PutIfAbsent_def happened_snoc)

lemma registry_retire:
  assumes ok: "registry_ok (r, log)"
  shows "registry_ok (registryStep (r, log) (RRetire key))"
proof (cases "key \<in> set (cr_active r)")
  case False
  then show ?thesis using ok by (simp add: registry_ok_def Retire_def happened_snoc)
next
  case True
  have "length (removeAll key (cr_active r)) \<le> length (cr_active r)" by (simp add: removeAll_filter_not_eq)
  moreover have "int (length (cr_active r)) \<le> max 0 (cr_maxActive r)" using ok by (simp add: registry_ok_def)
  ultimately have len: "int (length (removeAll key (cr_active r))) \<le> max 0 (cr_maxActive r)" by linarith
  have key: "key \<notin> set (cr_retired r)" using ok True by (auto simp: registry_ok_def)
  show ?thesis
  proof (cases "int (length (cr_retired r)) \<ge> cr_maxRetired r")
    case full: True
    then have "registryStep (r, log) (RRetire key) = (r\<lparr>cr_active := removeAll key (cr_active r)\<rparr>, log @ [EOverflow key])"
      using True by (simp add: Retire_def)
    then show ?thesis using ok True key len by (auto simp: registry_ok_def happened_snoc distinct_removeAll)
  next
    case False
    then have "registryStep (r, log) (RRetire key) = (r\<lparr>cr_active := removeAll key (cr_active r),
        cr_retired := List.insert key (cr_retired r)\<rparr>, log @ [EOther])"
      using True by (simp add: Retire_def)
    then show ?thesis using ok True key len False by (auto simp: registry_ok_def happened_snoc distinct_removeAll)
  qed
qed

interpretation rg: guarded_machine registryStep registry_ok
proof
  fix s x assume "registry_ok s"
  then show "registry_ok (registryStep s x)"
    using registry_put registry_retire by (cases s; cases x) blast+
qed

lemma registry_new: "registry_ok (NewCorrelatedRegistry a b, [])"
  by (simp add: registry_ok_def NewCorrelatedRegistry_def happened_def)

lemma registry_caps:
  "cr_maxActive (fst (run registryStep (r, log) calls)) = cr_maxActive r \<and> cr_maxRetired (fst (run registryStep (r, log) calls)) = cr_maxRetired r"
proof (induction calls arbitrary: r log)
  case (Cons x calls)
  obtain r' log' where s: "registryStep (r, log) x = (r', log')" by fastforce
  then have "cr_maxActive r' = cr_maxActive r \<and> cr_maxRetired r' = cr_maxRetired r"
    by (cases x) (auto simp: PutIfAbsent_def Retire_def Let_def split: if_splits)
  with Cons.IH [of r' log'] show ?case by (simp add: s)
qed simp

section \<open>Properties\<close>



text \<open>
  Every admission of a correlation key after the first one is paid for by a retirement of that
  key that found the retired set full; without such an overflow a key is admitted at most once.  The
  active and the retired keys stay within their caps, and a key is never both.
\<close>

theorem registry_reuse_exact:
  assumes "run registryStep (NewCorrelatedRegistry maxActive maxRetired, []) calls = (r, log)"
  shows "happened (EAdmitted k) log \<le> 1 + happened (EOverflow k) log
    \<and> int (length (cr_active r)) \<le> max 0 maxActive \<and> int (length (cr_retired r)) \<le> max 0 maxRetired
    \<and> set (cr_active r) \<inter> set (cr_retired r) = {}"
proof -
  have "registry_ok (r, log)" using rg.run_good [OF registry_new, of maxActive maxRetired calls] assms by simp
  moreover have "cr_maxActive r = maxActive" "cr_maxRetired r = maxRetired"
    using registry_caps [of "NewCorrelatedRegistry maxActive maxRetired" "[]" calls] assms
    by (simp_all add: NewCorrelatedRegistry_def)
  ultimately show ?thesis by (auto simp: registry_ok_def)
qed

theorem registry_reuse_exact_witness:
  "happened (EAdmitted ''k'') [EAdmitted ''k'', EOverflow ''k'', EAdmitted ''k'']
     \<le> 1 + happened (EOverflow ''k'') [EAdmitted ''k'', EOverflow ''k'', EAdmitted ''k'']"
proof -
  have "run registryStep (NewCorrelatedRegistry 2 0, []) [RPut ''k'', RRetire ''k'', RPut ''k'']
      = (\<lparr>cr_active = [''k''], cr_retired = [], cr_maxActive = 2, cr_maxRetired = 0\<rparr>,
         [EAdmitted ''k'', EOverflow ''k'', EAdmitted ''k''])" by code_simp
  from registry_reuse_exact [OF this, of "''k''"] show ?thesis by simp
qed

end
