(* ===== verification/Outbound_Writer.thy ===== *)
theory Outbound_Writer
  imports Relay_Bulk
begin

text \<open>
  The queues of the only writer of relay application data
  (\<^verbatim>\<open>go-bridge/relay_outbound_writer.go\<close>): admission, the choice of the next job and the accounting.
  Five queues, one per class, feed one goroutine; every function here is one critical section of the
  writer's mutex.  A connection and a handle are addresses; chunk indices and counts, of type
  \<^verbatim>\<open>uint32\<close> and at most 1024, are natural numbers.  Logging and the metrics counters are left out.
\<close>

section \<open>Data\<close>

datatype relayOutboundClass = relayOutboundControl | relayOutboundInteractive | relayOutboundMetadata
  | relayOutboundNormal | relayOutboundBulk

text \<open>The numbers of the classes, and their order.\<close>

definition classCode :: "relayOutboundClass \<Rightarrow> nat" where
  "classCode c = (case c of relayOutboundControl \<Rightarrow> 0 | relayOutboundInteractive \<Rightarrow> 1 | relayOutboundMetadata \<Rightarrow> 2
     | relayOutboundNormal \<Rightarrow> 3 | relayOutboundBulk \<Rightarrow> 4)"

lemma classCode_inject: "classCode c = classCode d \<Longrightarrow> c = d"
  by (simp add: classCode_def split: relayOutboundClass.splits)

instantiation relayOutboundClass :: linorder
begin

definition less_eq_relayOutboundClass :: "relayOutboundClass \<Rightarrow> relayOutboundClass \<Rightarrow> bool" where
  "c \<le> d \<longleftrightarrow> classCode c \<le> classCode d"

definition less_relayOutboundClass :: "relayOutboundClass \<Rightarrow> relayOutboundClass \<Rightarrow> bool" where
  "c < d \<longleftrightarrow> classCode c < classCode d"

instance
  by standard (auto simp: less_eq_relayOutboundClass_def less_relayOutboundClass_def intro: classCode_inject)

end

definition relayOutboundQueueFrames :: int where "relayOutboundQueueFrames = 4096"
definition relayOutboundQueueBytes :: int where "relayOutboundQueueBytes = 64 * 1048576"
definition relayOutboundBulkFrames :: int where "relayOutboundBulkFrames = 2048"
definition relayOutboundBulkBytes :: int where "relayOutboundBulkBytes = 48 * 1048576"
definition relayControlBurstCap :: nat where "relayControlBurstCap = 8"
definition relayChunkTargetBytes :: nat where "relayChunkTargetBytes = 32768"
definition relayChunkMinimumBytes :: nat where "relayChunkMinimumBytes = 16384"
definition relayChunkMaximumCount :: nat where "relayChunkMaximumCount = 1024"
definition relayLogicalMaximumBytes :: nat where "relayLogicalMaximumBytes = 50 * 1048576"
definition relayBulkCursorMaxAge :: duration where "relayBulkCursorMaxAge = 120 * nanosPerSecond"

record relayChunkCursor =
  rcc_groupID :: string
  rcc_nextIndex :: nat
  rcc_count :: nat
  rcc_chunkBytes :: nat
  rcc_handle :: nat
  rcc_sessionID :: string
  rcc_sessionGeneration :: u64
  rcc_channelGeneration :: u64
  rcc_expiresAt :: instant
  rcc_bulkCorrelationID :: string
  rcc_requestID :: string

record relayOutboundJob =
  roj_id :: nat
  roj_conn :: nat
  roj_deviceID :: string
  roj_payload :: "byte list"
  roj_contentEncoding :: string
  roj_class :: relayOutboundClass
  roj_admittedAt :: instant
  roj_cursor :: "relayChunkCursor option"

record relayOutboundWriter =
  row_queues :: "relayOutboundClass \<Rightarrow> relayOutboundJob list"
  row_activeBulkGroupByDevice :: "string \<Rightarrow> string"
  row_queueFrames :: int
  row_queueBytes :: int
  row_bulkFrames :: int
  row_bulkBytes :: int
  row_lastDevice :: "relayOutboundClass \<Rightarrow> string"
  row_controlBurst :: nat
  row_serviceCursor :: nat
  row_stopped :: bool

definition newRelayOutboundWriter :: relayOutboundWriter where
  "newRelayOutboundWriter = \<lparr>row_queues = (\<lambda>_. []), row_activeBulkGroupByDevice = (\<lambda>_. []), row_queueFrames = 0,
     row_queueBytes = 0, row_bulkFrames = 0, row_bulkBytes = 0, row_lastDevice = (\<lambda>_. []), row_controlBurst = 0,
     row_serviceCursor = 0, row_stopped = False\<rparr>"

datatype writerError = InvalidBulkJob | WriterClosed | QueueOverflow | BulkQueueOverflow | ChunkGroupExpired | WriteFailed

definition payloadBytes :: "relayOutboundJob \<Rightarrow> int" where
  "payloadBytes job = int (length (roj_payload job))"

definition pushJob :: "relayOutboundClass \<Rightarrow> relayOutboundJob \<Rightarrow> relayOutboundWriter \<Rightarrow> relayOutboundWriter" where
  "pushJob c job w = w\<lparr>row_queues := (row_queues w)(c := row_queues w c @ [job]),
     row_queueFrames := row_queueFrames w + 1, row_queueBytes := row_queueBytes w + payloadBytes job\<rparr>"

definition pushBulk :: "relayOutboundJob \<Rightarrow> relayOutboundWriter \<Rightarrow> relayOutboundWriter" where
  "pushBulk job w = (let w1 = pushJob relayOutboundBulk job w in
     w1\<lparr>row_bulkFrames := row_bulkFrames w1 + 1, row_bulkBytes := row_bulkBytes w1 + payloadBytes job\<rparr>)"

section \<open>Admission\<close>

text \<open>A class code that names no class is the normal class.\<close>

definition classOfCode :: "nat \<Rightarrow> relayOutboundClass" where
  "classOfCode n = (if n = 0 then relayOutboundControl else if n = 1 then relayOutboundInteractive
     else if n = 2 then relayOutboundMetadata else if n = 4 then relayOutboundBulk else relayOutboundNormal)"

text \<open>
  The admission of \<open>enqueue\<close>.  The caller then waits for the delivery, for the writer to stop or for a
  timeout; it changes nothing while it waits.
\<close>

definition enqueue :: "instant \<Rightarrow> nat \<Rightarrow> relayOutboundJob \<Rightarrow> relayOutboundWriter \<Rightarrow>
    (writerError, unit) result \<times> relayOutboundWriter" where
  "enqueue now code job0 w =
     (let job = job0\<lparr>roj_class := classOfCode code, roj_admittedAt := now\<rparr> in
      if row_stopped w then (Inl WriterClosed, w)
      else if row_queueFrames w + 1 > relayOutboundQueueFrames \<or> row_queueBytes w + payloadBytes job > relayOutboundQueueBytes
      then (Inl QueueOverflow, w)
      else (Inr (), pushJob (roj_class job) job w))"

definition admitBulk :: "instant \<Rightarrow> relayOutboundJob \<Rightarrow> relayOutboundWriter \<Rightarrow>
    (writerError, unit) result \<times> relayOutboundWriter" where
  "admitBulk now job0 w =
     (if roj_cursor job0 = None then (Inl InvalidBulkJob, w)
      else
        let job = job0\<lparr>roj_class := relayOutboundBulk, roj_admittedAt := now\<rparr> in
        if row_stopped w then (Inl WriterClosed, w)
        else if row_queueFrames w + 1 > relayOutboundQueueFrames \<or> row_queueBytes w + payloadBytes job > relayOutboundQueueBytes
          \<or> row_bulkFrames w + 1 > relayOutboundBulkFrames \<or> row_bulkBytes w + payloadBytes job > relayOutboundBulkBytes
        then (Inl BulkQueueOverflow, w)
        else (Inr (), pushBulk job w))"

section \<open>Choosing the next job\<close>

definition bulkEligible :: "relayOutboundWriter \<Rightarrow> relayOutboundJob \<Rightarrow> bool" where
  "bulkEligible w job =
     (case roj_cursor job of
        None \<Rightarrow> True
      | Some cursor \<Rightarrow>
          let active = row_activeBulkGroupByDevice w (roj_deviceID job)
          in active = [] \<or> active = rcc_groupID cursor)"

fun firstIndex :: "('a \<Rightarrow> bool) \<Rightarrow> 'a list \<Rightarrow> nat option" where
  "firstIndex P [] = None"
| "firstIndex P (x # xs) = (if P x then Some 0 else map_option Suc (firstIndex P xs))"

definition selectBulkIndexLocked :: "relayOutboundWriter \<Rightarrow> relayOutboundJob list \<Rightarrow> nat option" where
  "selectBulkIndexLocked w queue =
     (case firstIndex (\<lambda>job. bulkEligible w job \<and> roj_deviceID job \<noteq> row_lastDevice w relayOutboundBulk) queue of
        Some i \<Rightarrow> Some i
      | None \<Rightarrow> firstIndex (bulkEligible w) queue)"

definition jobIndex :: "relayOutboundClass \<Rightarrow> bool \<Rightarrow> relayOutboundWriter \<Rightarrow> nat option" where
  "jobIndex c perDevice w =
     (let queue = row_queues w c in
      if c = relayOutboundBulk then selectBulkIndexLocked w queue
      else if perDevice \<and> length queue > 1 \<and> row_lastDevice w c \<noteq> []
      then Some (case firstIndex (\<lambda>job. roj_deviceID job \<noteq> row_lastDevice w c) queue of None \<Rightarrow> 0 | Some i \<Rightarrow> i)
      else Some 0)"

definition popClassLocked :: "relayOutboundClass \<Rightarrow> bool \<Rightarrow> relayOutboundWriter \<Rightarrow> relayOutboundJob option \<times> relayOutboundWriter" where
  "popClassLocked c perDevice w =
     (case jobIndex c perDevice w of
        None \<Rightarrow> (None, w)
      | Some i \<Rightarrow>
          let queue = row_queues w c;
              job = queue ! i;
              active = (case roj_cursor job of
                  Some cursor \<Rightarrow>
                    if c = relayOutboundBulk \<and> row_activeBulkGroupByDevice w (roj_deviceID job) = []
                    then (row_activeBulkGroupByDevice w)(roj_deviceID job := rcc_groupID cursor)
                    else row_activeBulkGroupByDevice w
                | None \<Rightarrow> row_activeBulkGroupByDevice w);
              w1 = w\<lparr>row_activeBulkGroupByDevice := active,
                    row_queues := (row_queues w)(c := take i queue @ drop (Suc i) queue),
                    row_lastDevice := (row_lastDevice w)(c := roj_deviceID job),
                    row_queueFrames := row_queueFrames w - 1,
                    row_queueBytes := row_queueBytes w - payloadBytes job\<rparr>
          in (Some job,
              if c = relayOutboundBulk
              then w1\<lparr>row_bulkFrames := row_bulkFrames w1 - 1, row_bulkBytes := row_bulkBytes w1 - payloadBytes job\<rparr>
              else w1))"

definition serviceOrder :: "relayOutboundClass list" where
  "serviceOrder = [relayOutboundInteractive, relayOutboundInteractive, relayOutboundMetadata, relayOutboundNormal]"

text \<open>The walk over the service order: the class to serve, if any, and the cursor after it.\<close>

fun serviceWalk :: "nat \<Rightarrow> relayOutboundWriter \<Rightarrow> nat \<Rightarrow> relayOutboundClass option \<times> nat" where
  "serviceWalk 0 w cur = (None, cur)"
| "serviceWalk (Suc n) w cur =
     (let c = serviceOrder ! (cur mod length serviceOrder); cur' = (cur + 1) mod length serviceOrder
      in if row_queues w c \<noteq> [] then (Some c, cur') else serviceWalk n w cur')"

definition writer_pop :: "relayOutboundWriter \<Rightarrow> relayOutboundJob option \<times> relayOutboundWriter" where
  "writer_pop w =
     (let nonControlReady = list_ex (\<lambda>c. row_queues w c \<noteq> [])
            [relayOutboundInteractive, relayOutboundMetadata, relayOutboundNormal, relayOutboundBulk]
      in
      if row_queues w relayOutboundControl \<noteq> [] \<and> (row_controlBurst w < relayControlBurstCap \<or> \<not> nonControlReady)
      then popClassLocked relayOutboundControl False (w\<lparr>row_controlBurst := row_controlBurst w + 1\<rparr>)
      else
        let (served, cur) = serviceWalk (length serviceOrder) w (row_serviceCursor w);
            w1 = w\<lparr>row_serviceCursor := cur\<rparr>
        in
        case served of
          Some c \<Rightarrow> popClassLocked c True (w1\<lparr>row_controlBurst := 0\<rparr>)
        | None \<Rightarrow>
            if row_queues w1 relayOutboundBulk \<noteq> [] then popClassLocked relayOutboundBulk True (w1\<lparr>row_controlBurst := 0\<rparr>)
            else if row_queues w1 relayOutboundControl \<noteq> []
            then popClassLocked relayOutboundControl False (w1\<lparr>row_controlBurst := row_controlBurst w1 + 1\<rparr>)
            else (None, w1))"

definition requeueBulk :: "relayOutboundJob \<Rightarrow> relayOutboundWriter \<Rightarrow> relayOutboundWriter" where
  "requeueBulk job w = pushBulk job w"

definition completeBulkGroup :: "relayOutboundJob \<Rightarrow> relayOutboundWriter \<Rightarrow> relayOutboundWriter" where
  "completeBulkGroup job w =
     (case roj_cursor job of
        None \<Rightarrow> w
      | Some cursor \<Rightarrow>
          if row_activeBulkGroupByDevice w (roj_deviceID job) = rcc_groupID cursor
          then w\<lparr>row_activeBulkGroupByDevice := (row_activeBulkGroupByDevice w)(roj_deviceID job := [])\<rparr>
          else w)"

definition failQueued :: "relayOutboundWriter \<Rightarrow> relayOutboundWriter" where
  "failQueued w = w\<lparr>row_queues := (\<lambda>_. []), row_queueFrames := 0, row_queueBytes := 0, row_bulkFrames := 0, row_bulkBytes := 0\<rparr>"

definition writer_close :: "relayOutboundWriter \<Rightarrow> relayOutboundWriter" where
  "writer_close w = w\<lparr>row_stopped := True\<rparr>"

section \<open>Classes\<close>

definition classifyRelayRequest :: "string \<Rightarrow> relayOutboundClass" where
  "classifyRelayRequest method =
     (if method \<in> {''hello'', ''ping'', ''abort_generation'', ''recovery_applied''} then relayOutboundControl
      else if method \<in> {''send_message'', ''resolve_permission'', ''permission_response'', ''question_reply'', ''question_reject''}
      then relayOutboundInteractive
      else if method \<in> {''list_models'', ''list_permission_modes'', ''get_git_context'', ''get_todos'', ''list_agents'',
          ''list_providers'', ''set_agent_preset''} then relayOutboundMetadata
      else if method \<in> {''get_session_messages'', ''get_session_projection'', ''get_session_projection_window'',
          ''get_session_projection_window_v2'', ''get_session_projection_anchor_newer'', ''read_file_v2''}
      then relayOutboundBulk
      else relayOutboundNormal)"

definition classifyRelayEvent :: "string \<Rightarrow> relayOutboundClass" where
  "classifyRelayEvent event =
     (if event \<in> {''recovery_barrier'', ''recovery_complete'', ''sync_invalidate''} then relayOutboundControl
      else if event \<in> {''text_delta'', ''thinking_delta'', ''tool_content'', ''message_content'', ''user_message'',
          ''turn_started'', ''turn_completed'', ''permission_asked'', ''question_asked'', ''projection_patch'',
          ''projection_snapshot''} then relayOutboundInteractive
      else if event \<in> {''session_updated'', ''session_state_changed'', ''session_status'', ''todos_updated'',
          ''permission_mode_changed'', ''model_changed'', ''git_branch_changed''} then relayOutboundMetadata
      else relayOutboundNormal)"

text \<open>The type and the event of a payload, or \<open>None\<close> when it is not a JSON object of that shape.\<close>

definition classifyRelayPayload :: "(string \<times> string) option \<Rightarrow> relayOutboundClass" where
  "classifyRelayPayload header =
     (case header of
        None \<Rightarrow> relayOutboundNormal
      | Some (ty, event) \<Rightarrow>
          if ty \<in> {''hello_ack'', ''hello_error'', ''ping'', ''pong'', ''recovery_barrier'', ''recovery_complete'',
              ''bridge_current_urls''} then relayOutboundControl
          else if ty = ''event'' then classifyRelayEvent event
          else relayOutboundNormal)"

section \<open>Accounting\<close>

definition allClasses :: "relayOutboundClass list" where
  "allClasses = [relayOutboundControl, relayOutboundInteractive, relayOutboundMetadata, relayOutboundNormal, relayOutboundBulk]"

definition queuedJobs :: "relayOutboundWriter \<Rightarrow> relayOutboundJob list" where
  "queuedJobs w = concat (map (row_queues w) allClasses)"

lemma allClasses_UNIV: "set allClasses = UNIV"
proof -
  have "c \<in> set allClasses" for c by (cases c) (simp_all add: allClasses_def)
  then show ?thesis by blast
qed

lemma distinct_allClasses: "distinct allClasses"
  by (simp add: allClasses_def)

lemma set_queuedJobs: "job \<in> set (queuedJobs w) \<longleftrightarrow> (\<exists>c. job \<in> set (row_queues w c))"
  using allClasses_UNIV by (auto simp: queuedJobs_def)

lemma sum_update:
  "distinct cs \<Longrightarrow> c \<in> set cs \<Longrightarrow>
   sum_list (map (\<lambda>x. (f :: 'b list \<Rightarrow> int) ((q(c := v)) x)) cs) = sum_list (map (\<lambda>x. f (q x)) cs) - f (q c) + f v"
proof (induction cs)
  case (Cons x cs)
  then show ?case
  proof (cases "x = c")
    case True
    then have "map (\<lambda>x. f ((q(c := v)) x)) cs = map (\<lambda>x. f (q x)) cs" using Cons.prems by auto
    then have "sum_list (map (\<lambda>x. f ((q(c := v)) x)) cs) = sum_list (map (\<lambda>x. f (q x)) cs)" by (rule arg_cong)
    then show ?thesis using True by simp
  next
    case False
    then show ?thesis using Cons by simp
  qed
qed simp

definition total_bytes :: "relayOutboundJob list \<Rightarrow> int" where
  "total_bytes jobs = sum_list (map payloadBytes jobs)"

lemma length_queuedJobs: "int (length (queuedJobs w)) = sum_list (map (\<lambda>c. int (length (row_queues w c))) allClasses)"
  by (simp add: queuedJobs_def allClasses_def)

lemma bytes_queuedJobs: "total_bytes (queuedJobs w) = sum_list (map (\<lambda>c. total_bytes (row_queues w c)) allClasses)"
  by (simp add: queuedJobs_def allClasses_def total_bytes_def)

lemma queues_update:
  assumes "row_queues w' = (row_queues w)(c := v)"
  shows "int (length (queuedJobs w')) = int (length (queuedJobs w)) - int (length (row_queues w c)) + int (length v)"
    and "total_bytes (queuedJobs w') = total_bytes (queuedJobs w) - total_bytes (row_queues w c) + total_bytes v"
  using sum_update [OF distinct_allClasses, of c "\<lambda>l. int (length l)" "row_queues w" v]
    sum_update [OF distinct_allClasses, of c total_bytes "row_queues w" v]
  by (simp_all add: length_queuedJobs bytes_queuedJobs assms allClasses_UNIV)

definition acct_ok :: "relayOutboundWriter \<Rightarrow> bool" where
  "acct_ok w \<longleftrightarrow> row_queueFrames w = int (length (queuedJobs w)) \<and> row_queueBytes w = total_bytes (queuedJobs w)"

lemma push_fields [simp]:
  "row_queues (pushJob c job w) = (row_queues w)(c := row_queues w c @ [job])"
  "row_queueFrames (pushJob c job w) = row_queueFrames w + 1"
  "row_queueBytes (pushJob c job w) = row_queueBytes w + payloadBytes job"
  "row_bulkFrames (pushJob c job w) = row_bulkFrames w" "row_bulkBytes (pushJob c job w) = row_bulkBytes w"
  "row_activeBulkGroupByDevice (pushJob c job w) = row_activeBulkGroupByDevice w"
  "row_serviceCursor (pushJob c job w) = row_serviceCursor w" "row_controlBurst (pushJob c job w) = row_controlBurst w"
  "row_stopped (pushJob c job w) = row_stopped w" "row_lastDevice (pushJob c job w) = row_lastDevice w"
  by (simp_all add: pushJob_def)

lemma acct_push: "acct_ok w \<Longrightarrow> acct_ok (pushJob c job w)"
  using queues_update [of "pushJob c job w" w c] by (simp add: acct_ok_def total_bytes_def)

lemma acct_pushBulk: "acct_ok w \<Longrightarrow> acct_ok (pushBulk job w)"
  using acct_push [of w relayOutboundBulk job] by (simp add: pushBulk_def Let_def acct_ok_def queuedJobs_def)

section \<open>What a pop does\<close>

lemma firstIndex_Some: "firstIndex P xs = Some i \<Longrightarrow> i < length xs \<and> P (xs ! i)"
  by (induction xs arbitrary: i) (auto split: if_splits)

lemma firstIndex_None: "firstIndex P xs = None \<longleftrightarrow> (\<forall>x\<in>set xs. \<not> P x)"
  by (induction xs) auto

lemma jobIndex_Some:
  "jobIndex c p w = Some i \<Longrightarrow> row_queues w c \<noteq> [] \<Longrightarrow>
   i < length (row_queues w c) \<and> (c = relayOutboundBulk \<longrightarrow> bulkEligible w (row_queues w c ! i))"
  by (auto simp: jobIndex_def selectBulkIndexLocked_def Let_def split: if_splits option.splits dest: firstIndex_Some)

lemma selectBulk_None: "selectBulkIndexLocked w queue = None \<longleftrightarrow> (\<forall>job\<in>set queue. \<not> bulkEligible w job)"
proof (cases "firstIndex (\<lambda>job. bulkEligible w job \<and> roj_deviceID job \<noteq> row_lastDevice w relayOutboundBulk) queue")
  case None
  then show ?thesis unfolding selectBulkIndexLocked_def None by (simp add: firstIndex_None)
next
  case (Some i)
  then have "bulkEligible w (queue ! i)" "queue ! i \<in> set queue" using firstIndex_Some [OF Some] by auto
  then show ?thesis using Some by (auto simp: selectBulkIndexLocked_def)
qed

lemma jobIndex_None:
  "jobIndex c p w = None \<longleftrightarrow> c = relayOutboundBulk \<and> (\<forall>job\<in>set (row_queues w c). \<not> bulkEligible w job)"
  by (simp add: jobIndex_def Let_def selectBulk_None)

text \<open>The state after job \<open>i\<close> of class \<open>c\<close> has been taken.\<close>

definition takenState :: "relayOutboundClass \<Rightarrow> nat \<Rightarrow> relayOutboundWriter \<Rightarrow> relayOutboundWriter \<Rightarrow> bool" where
  "takenState c i w w' \<longleftrightarrow>
     i < length (row_queues w c) \<and> row_queues w' = (row_queues w)(c := take i (row_queues w c) @ drop (Suc i) (row_queues w c))
   \<and> row_queueFrames w' = row_queueFrames w - 1 \<and> row_queueBytes w' = row_queueBytes w - payloadBytes (row_queues w c ! i)
   \<and> row_bulkFrames w' = row_bulkFrames w - (if c = relayOutboundBulk then 1 else 0)
   \<and> row_activeBulkGroupByDevice w' =
       (case roj_cursor (row_queues w c ! i) of
          Some cursor \<Rightarrow>
            if c = relayOutboundBulk \<and> row_activeBulkGroupByDevice w (roj_deviceID (row_queues w c ! i)) = []
            then (row_activeBulkGroupByDevice w)(roj_deviceID (row_queues w c ! i) := rcc_groupID cursor)
            else row_activeBulkGroupByDevice w
        | None \<Rightarrow> row_activeBulkGroupByDevice w)
   \<and> (c = relayOutboundBulk \<longrightarrow> bulkEligible w (row_queues w c ! i))
   \<and> row_stopped w' = row_stopped w"

lemma popClass_taken:
  assumes "row_queues w c \<noteq> []" and "jobIndex c p w = Some i"
  shows "\<exists>w'. popClassLocked c p w = (Some (row_queues w c ! i), w') \<and> takenState c i w w'
    \<and> row_controlBurst w' = row_controlBurst w \<and> row_serviceCursor w' = row_serviceCursor w"
  using jobIndex_Some [OF assms(2,1)] assms
  by (auto simp: popClassLocked_def takenState_def Let_def)

lemma bulkEligible_cong:
  "bulkEligible (w\<lparr>row_controlBurst := b\<rparr>) = bulkEligible w" "bulkEligible (w\<lparr>row_serviceCursor := n\<rparr>) = bulkEligible w"
  by (rule ext, simp add: bulkEligible_def cong: option.case_cong)+

lemma takenState_cong:
  "takenState c i (w\<lparr>row_controlBurst := b\<rparr>) w' = takenState c i w w'"
  "takenState c i (w\<lparr>row_serviceCursor := n\<rparr>) w' = takenState c i w w'"
  unfolding takenState_def bulkEligible_cong by (cases "roj_cursor (row_queues w c ! i)"; simp)+

lemma jobIndex_cong:
  "jobIndex c p (w\<lparr>row_controlBurst := b\<rparr>) = jobIndex c p w" "jobIndex c p (w\<lparr>row_serviceCursor := n\<rparr>) = jobIndex c p w"
  unfolding jobIndex_def selectBulkIndexLocked_def bulkEligible_cong Let_def by (simp_all cong: option.case_cong)

section \<open>Bounded waiting\<close>

text \<open>
  How many steps of the service order lie before a class, and how many pops it can wait: at most
  eight control jobs between two served classes.
\<close>

definition serviceDistance :: "relayOutboundClass \<Rightarrow> nat \<Rightarrow> nat" where
  "serviceDistance c cur = length (takeWhile (\<lambda>x. x \<noteq> c) (drop cur serviceOrder @ serviceOrder))"

definition waitRank :: "relayOutboundClass \<Rightarrow> relayOutboundWriter \<Rightarrow> nat" where
  "waitRank c w = 9 * serviceDistance c (row_serviceCursor w) + (8 - row_controlBurst w)"

abbreviation served_class :: "relayOutboundClass \<Rightarrow> bool" where
  "served_class c \<equiv> c \<in> {relayOutboundInteractive, relayOutboundMetadata, relayOutboundNormal}"

lemma below_four: "n < (4 :: nat) \<Longrightarrow> n = 0 \<or> n = 1 \<or> n = 2 \<or> n = 3"
  by auto

lemma serviceDistance_table:
  "serviceDistance relayOutboundInteractive 0 = 0" "serviceDistance relayOutboundInteractive 1 = 0"
  "serviceDistance relayOutboundInteractive 2 = 2" "serviceDistance relayOutboundInteractive 3 = 1"
  "serviceDistance relayOutboundMetadata 0 = 2" "serviceDistance relayOutboundMetadata 1 = 1"
  "serviceDistance relayOutboundMetadata 2 = 0" "serviceDistance relayOutboundMetadata 3 = 3"
  "serviceDistance relayOutboundNormal 0 = 3" "serviceDistance relayOutboundNormal 1 = 2"
  "serviceDistance relayOutboundNormal 2 = 1" "serviceDistance relayOutboundNormal 3 = 0"
  by (simp_all add: serviceDistance_def serviceOrder_def numeral_eq_Suc)

lemma serviceWalk_step:
  "serviceWalk (Suc n) w 0 = (if row_queues w relayOutboundInteractive \<noteq> [] then (Some relayOutboundInteractive, 1) else serviceWalk n w 1)"
  "serviceWalk (Suc n) w 1 = (if row_queues w relayOutboundInteractive \<noteq> [] then (Some relayOutboundInteractive, 2) else serviceWalk n w 2)"
  "serviceWalk (Suc n) w 2 = (if row_queues w relayOutboundMetadata \<noteq> [] then (Some relayOutboundMetadata, 3) else serviceWalk n w 3)"
  "serviceWalk (Suc n) w 3 = (if row_queues w relayOutboundNormal \<noteq> [] then (Some relayOutboundNormal, 0) else serviceWalk n w 0)"
proof -
  have "length serviceOrder = 4" "(0 :: nat) mod 4 = 0" "(1 :: nat) mod 4 = 1" "(2 :: nat) mod 4 = 2" "(3 :: nat) mod 4 = 3"
    "(0 + 1) mod 4 = (1 :: nat)" "(1 + 1) mod 4 = (2 :: nat)" "(2 + 1) mod 4 = (3 :: nat)" "(3 + 1) mod 4 = (0 :: nat)"
    "serviceOrder ! 0 = relayOutboundInteractive" "serviceOrder ! 1 = relayOutboundInteractive"
    "serviceOrder ! 2 = relayOutboundMetadata" "serviceOrder ! 3 = relayOutboundNormal"
    by (simp_all add: serviceOrder_def)
  note facts = this
  show "serviceWalk (Suc n) w 0 = (if row_queues w relayOutboundInteractive \<noteq> [] then (Some relayOutboundInteractive, 1) else serviceWalk n w 1)"
    "serviceWalk (Suc n) w 1 = (if row_queues w relayOutboundInteractive \<noteq> [] then (Some relayOutboundInteractive, 2) else serviceWalk n w 2)"
    "serviceWalk (Suc n) w 2 = (if row_queues w relayOutboundMetadata \<noteq> [] then (Some relayOutboundMetadata, 3) else serviceWalk n w 3)"
    "serviceWalk (Suc n) w 3 = (if row_queues w relayOutboundNormal \<noteq> [] then (Some relayOutboundNormal, 0) else serviceWalk n w 0)"
    by (simp_all only: serviceWalk.simps Let_def facts)
qed

lemma length_serviceOrder: "length serviceOrder = Suc (Suc (Suc (Suc 0)))"
  by (simp add: serviceOrder_def)

lemma waitRank_bound:
  assumes "row_serviceCursor w < 4" and "served_class c"
  shows "waitRank c w \<le> 35"
proof -
  have "serviceDistance c (row_serviceCursor w) \<le> 3"
    using below_four [OF assms(1)] assms(2) serviceDistance_table by auto
  then show ?thesis by (simp add: waitRank_def)
qed

lemma serviceWalk_served:
  assumes "cur < 4" and "served_class c" and "row_queues w c \<noteq> []"
  shows "\<exists>c' cur'. serviceWalk (length serviceOrder) w cur = (Some c', cur') \<and> cur' < 4 \<and> served_class c'
    \<and> row_queues w c' \<noteq> [] \<and> (c' = c \<or> serviceDistance c cur' < serviceDistance c cur)"
proof -
  from assms(2) consider "c = relayOutboundInteractive" | "c = relayOutboundMetadata" | "c = relayOutboundNormal" by blast
  then show ?thesis
    using below_four [OF assms(1)] assms(3)
    by cases (elim disjE; simp only: length_serviceOrder serviceWalk_step serviceDistance_table split: if_split;
        simp add: serviceDistance_table [simplified])+
qed

lemma serviceWalk_none:
  "serviceWalk n w cur = (None, cur') \<Longrightarrow> cur < 4 \<Longrightarrow> cur' < 4"
  by (induction n arbitrary: cur) (auto simp: Let_def serviceOrder_def split: if_splits)

lemma serviceWalk_some:
  "serviceWalk n w cur = (Some c, cur') \<Longrightarrow> cur' < 4 \<and> row_queues w c \<noteq> [] \<and> c \<in> set serviceOrder"
proof (induction n arbitrary: cur)
  case (Suc n)
  have "serviceOrder ! (cur mod length serviceOrder) \<in> set serviceOrder" by (rule nth_mem) (simp add: serviceOrder_def)
  with Suc show ?case by (auto simp: Let_def serviceOrder_def split: if_splits)
qed simp

lemma serviceWalk_empty:
  assumes "serviceWalk (length serviceOrder) w cur = (None, cur')" and "cur < 4"
  shows "served_class c \<longrightarrow> row_queues w c = []"
proof (rule ccontr)
  assume "\<not> ?thesis"
  then show False using serviceWalk_served [OF assms(2), of c w] assms(1) by auto
qed

section \<open>Pop\<close>

text \<open>
  A pop either finds every queue empty, or finds only bulk jobs that may not start and possibly
  control jobs, or takes a job.
\<close>

lemma pop_cases:
  assumes cur: "row_serviceCursor w < 4"
  obtains (empty) n where "writer_pop w = (None, w\<lparr>row_serviceCursor := n\<rparr>)" "row_queues w = (\<lambda>_. [])" "n < 4"
  | (blocked) n where "writer_pop w = (None, w\<lparr>row_serviceCursor := n, row_controlBurst := 0\<rparr>)" "n < 4"
      "row_queues w relayOutboundBulk \<noteq> []" "\<forall>job\<in>set (row_queues w relayOutboundBulk). \<not> bulkEligible w job"
      "\<And>x. served_class x \<Longrightarrow> row_queues w x = []"
  | (taken) c i w' where "writer_pop w = (Some (row_queues w c ! i), w')" "takenState c i w w'" "row_serviceCursor w' < 4"
      "\<And>x. served_class x \<Longrightarrow> row_queues w x \<noteq> [] \<Longrightarrow> x = c \<or> waitRank x w' < waitRank x w"
proof -
  let ?ready = "list_ex (\<lambda>c. row_queues w c \<noteq> []) [relayOutboundInteractive, relayOutboundMetadata, relayOutboundNormal, relayOutboundBulk]"
  show thesis
  proof (cases "row_queues w relayOutboundControl \<noteq> [] \<and> (row_controlBurst w < relayControlBurstCap \<or> \<not> ?ready)")
    case True
    let ?w = "w\<lparr>row_controlBurst := row_controlBurst w + 1\<rparr>"
    have "jobIndex relayOutboundControl False ?w = Some 0" by (simp add: jobIndex_def)
    from popClass_taken [OF _ this] True obtain w' where w': "popClassLocked relayOutboundControl False ?w
        = (Some (row_queues w relayOutboundControl ! 0), w')" "takenState relayOutboundControl 0 w w'"
      "row_controlBurst w' = row_controlBurst w + 1" "row_serviceCursor w' = row_serviceCursor w"
      by (auto simp: takenState_cong)
    have "writer_pop w = (Some (row_queues w relayOutboundControl ! 0), w')"
      using True w'(1) by (simp add: writer_pop_def Let_def)
    moreover have "x = relayOutboundControl \<or> waitRank x w' < waitRank x w" if "served_class x" "row_queues w x \<noteq> []" for x
      using True that w'(3,4) by (auto simp: waitRank_def relayControlBurstCap_def)
    ultimately show ?thesis using taken w'(2,4) cur by simp
  next
    case False
    obtain served cur' where walk: "serviceWalk (length serviceOrder) w (row_serviceCursor w) = (served, cur')" by fastforce
    let ?w1 = "w\<lparr>row_serviceCursor := cur'\<rparr>"
    show ?thesis
    proof (cases served)
      case (Some c)
      have c: "cur' < 4" "row_queues w c \<noteq> []" "c \<noteq> relayOutboundBulk"
        using serviceWalk_some [OF walk [unfolded Some]] by (auto simp: serviceOrder_def)
      let ?w2 = "?w1\<lparr>row_controlBurst := 0\<rparr>"
      obtain i where i: "jobIndex c True ?w2 = Some i" using c(3) jobIndex_None [of c True ?w2] by auto
      from popClass_taken [OF _ i] c obtain w' where w': "popClassLocked c True ?w2 = (Some (row_queues w c ! i), w')"
        "takenState c i w w'" "row_controlBurst w' = 0" "row_serviceCursor w' = cur'"
        by (auto simp: takenState_cong)
      have "writer_pop w = (Some (row_queues w c ! i), w')"
        unfolding writer_pop_def Let_def if_not_P [OF False] walk using w'(1) by (simp add: Some)
      moreover have "x = c \<or> waitRank x w' < waitRank x w" if "served_class x" "row_queues w x \<noteq> []" for x
        using serviceWalk_served [OF cur that] walk Some w'(3,4) by (auto simp: waitRank_def)
      ultimately show ?thesis using taken w'(2,4) c(1) by metis
    next
      case None
      have none: "row_queues w x = []" if "served_class x" for x
        using serviceWalk_empty [OF walk [unfolded None] cur] that by blast
      have cur': "cur' < 4" using serviceWalk_none walk None cur by blast
      have pop: "writer_pop w = (if row_queues w relayOutboundBulk \<noteq> [] then popClassLocked relayOutboundBulk True (?w1\<lparr>row_controlBurst := 0\<rparr>)
          else (None, ?w1))"
        unfolding writer_pop_def Let_def if_not_P [OF False] walk using False none by (auto simp: None)
      show ?thesis
      proof (cases "row_queues w relayOutboundBulk = []")
        case True
        have "row_queues w relayOutboundControl = []" using False True none by auto
        then have "row_queues w x = []" for x using True none by (cases x) auto
        then show ?thesis using True pop cur' by (intro empty [of cur']) auto
      next
        case bulk: False
        let ?w2 = "?w1\<lparr>row_controlBurst := 0\<rparr>"
        show ?thesis
        proof (cases "jobIndex relayOutboundBulk True ?w2")
          case None
          then have "\<forall>job\<in>set (row_queues w relayOutboundBulk). \<not> bulkEligible w job"
            using jobIndex_None [of relayOutboundBulk True ?w2] by (simp add: bulkEligible_cong)
          moreover have "writer_pop w = (None, ?w2)" using pop bulk None by (simp add: popClassLocked_def)
          ultimately show ?thesis using bulk cur' none by (intro blocked [of cur']) auto
        next
          case (Some i)
          from popClass_taken [OF _ Some] bulk obtain w' where w': "popClassLocked relayOutboundBulk True ?w2
              = (Some (row_queues w relayOutboundBulk ! i), w')" "takenState relayOutboundBulk i w w'"
            "row_controlBurst w' = 0" "row_serviceCursor w' = cur'"
            by (auto simp: takenState_cong)
          have "writer_pop w = (Some (row_queues w relayOutboundBulk ! i), w')" using pop bulk w'(1) by simp
          then show ?thesis by (rule taken) (use w'(2,4) cur' none in \<open>auto\<close>)
        qed
      qed
    qed
  qed
qed

end
