(* ===== verification/Bulk_Transfer.thy ===== *)
theory Bulk_Transfer
  imports Outbound_Writer "HOL-Library.AList"
begin

text \<open>
  Bulk transfers from a result to the frames on the wire: the bulk state of a device connection
  (\<^verbatim>\<open>go-bridge/relay_bulk_state.go\<close>), \<^verbatim>\<open>SendResult\<close>, \<^verbatim>\<open>sendJSON\<close> and \<^verbatim>\<open>Close\<close> of
  \<^verbatim>\<open>go-bridge/relay_conn.go\<close>, the cancel request of \<^verbatim>\<open>go-bridge/handlers.go\<close>, and the loop of the
  writer goroutine (\<^verbatim>\<open>go-bridge/relay_outbound_writer.go\<close>).

  A step is one operation of a caller (a send, a cancel, a close, from its first to its last critical
  section) or one of the three actions of the writer goroutine, which pops a job, writes one frame of
  it, and finishes the round; between steps every other goroutine may run.  Connections and handles are addresses into a store.  The JSON encoding of a
  message, its gzip encoding, the random part of an identifier and the outcome of the encrypted
  write are arguments of the step.  \<open>ws_admitted\<close> and \<open>ws_taken\<close> log the transfers that were admitted
  and the jobs that were popped; no operation reads them.
\<close>

section \<open>Connections\<close>

record relayBulkRequestContext =
  brc_sessionID :: string
  brc_generation :: u64
  brc_startedAt :: instant

record RelayDeviceConn =
  rdc_deviceID :: string
  rdc_generation :: u64
  rdc_closed :: bool
  rdc_hasWriter :: bool
  rdc_outboundGzip :: bool
  rdc_outboundChunks :: bool
  rdc_outboundChunkProgress :: bool
  rdc_requestClasses :: "string \<rightharpoonup> relayOutboundClass"
  rdc_requestMethods :: "string \<rightharpoonup> string"
  rdc_requestBulkCorrelations :: "string \<rightharpoonup> string"
  rdc_requestBulkHandles :: "string \<rightharpoonup> nat"
  rdc_bulkCorrelations :: "CorrelatedRegistry option"
  rdc_sessionBulkGenerations :: "string \<Rightarrow> u64"
  rdc_bulkRequestContexts :: "string \<rightharpoonup> relayBulkRequestContext"
  rdc_activeBulkHandles :: "(string \<times> nat) list"

definition relayBulkCorrelationMaxActive :: int where "relayBulkCorrelationMaxActive = 32"
definition relayBulkCorrelationMaxRetired :: int where "relayBulkCorrelationMaxRetired = 64"
definition relayGzipThreshold :: nat where "relayGzipThreshold = 32 * 1024"

definition NewRelayDeviceConn :: "string \<Rightarrow> u64 \<Rightarrow> RelayDeviceConn" where
  "NewRelayDeviceConn deviceID generation =
     \<lparr>rdc_deviceID = deviceID, rdc_generation = generation, rdc_closed = False, rdc_hasWriter = False,
      rdc_outboundGzip = False, rdc_outboundChunks = False, rdc_outboundChunkProgress = False,
      rdc_requestClasses = Map.empty, rdc_requestMethods = Map.empty, rdc_requestBulkCorrelations = Map.empty,
      rdc_requestBulkHandles = Map.empty,
      rdc_bulkCorrelations = Some (NewCorrelatedRegistry relayBulkCorrelationMaxActive relayBulkCorrelationMaxRetired),
      rdc_sessionBulkGenerations = (\<lambda>_. 0), rdc_bulkRequestContexts = Map.empty, rdc_activeBulkHandles = []\<rparr>"

type_synonym handles = "nat \<Rightarrow> bulkState"

definition cancelAt :: "nat \<Rightarrow> handles \<Rightarrow> handles" where
  "cancelAt h hs = hs(h := snd (Handle_Cancel (hs h)))"

definition registerRequestClass :: "string \<Rightarrow> string \<Rightarrow> string \<Rightarrow> RelayDeviceConn \<Rightarrow> RelayDeviceConn" where
  "registerRequestClass requestID method bulkCorrelationID rc =
     (if requestID = [] then rc
      else rc\<lparr>rdc_requestClasses := (rdc_requestClasses rc)(requestID \<mapsto> classifyRelayRequest method),
              rdc_requestMethods := (rdc_requestMethods rc)(requestID \<mapsto> method),
              rdc_requestBulkCorrelations :=
                (if method = ''read_file_v2'' \<and> bulkCorrelationID \<noteq> [] \<and> rdc_outboundChunkProgress rc
                 then (rdc_requestBulkCorrelations rc)(requestID \<mapsto> bulkCorrelationID)
                 else rdc_requestBulkCorrelations rc)\<rparr>)"

definition cleanupSupersededRequest :: "string \<Rightarrow> RelayDeviceConn \<Rightarrow> RelayDeviceConn" where
  "cleanupSupersededRequest requestID rc =
     rc\<lparr>rdc_requestClasses := (rdc_requestClasses rc)(requestID := None),
        rdc_bulkRequestContexts := (rdc_bulkRequestContexts rc)(requestID := None)\<rparr>"

definition advanceSessionBulkGeneration ::
  "string \<Rightarrow> string \<Rightarrow> instant \<Rightarrow> RelayDeviceConn \<times> handles \<Rightarrow> u64 \<times> RelayDeviceConn \<times> handles" where
  "advanceSessionBulkGeneration sessionID requestID now = (\<lambda>(rc, hs).
     let next = rdc_sessionBulkGenerations rc sessionID + 1;
         hs1 = (case map_of (rdc_activeBulkHandles rc) sessionID of None \<Rightarrow> hs | Some h \<Rightarrow> cancelAt h hs)
     in (next,
         rc\<lparr>rdc_sessionBulkGenerations := (rdc_sessionBulkGenerations rc)(sessionID := next),
            rdc_activeBulkHandles := AList.delete sessionID (rdc_activeBulkHandles rc),
            rdc_bulkRequestContexts :=
              (if requestID \<noteq> []
               then (rdc_bulkRequestContexts rc)(requestID \<mapsto>
                      \<lparr>brc_sessionID = sessionID, brc_generation = next, brc_startedAt = now\<rparr>)
               else rdc_bulkRequestContexts rc)\<rparr>,
         hs1))"

definition installHandleIfSessionBulkGenerationCurrent ::
  "string \<Rightarrow> u64 \<Rightarrow> nat \<Rightarrow> RelayDeviceConn \<times> handles \<Rightarrow> bool \<times> RelayDeviceConn \<times> handles" where
  "installHandleIfSessionBulkGenerationCurrent sessionID generation h = (\<lambda>(rc, hs).
     if rdc_closed rc \<or> rdc_sessionBulkGenerations rc sessionID \<noteq> generation then (False, rc, hs)
     else (True, rc\<lparr>rdc_activeBulkHandles := AList.update sessionID h (rdc_activeBulkHandles rc)\<rparr>,
           case map_of (rdc_activeBulkHandles rc) sessionID of None \<Rightarrow> hs | Some old \<Rightarrow> cancelAt old hs))"

definition completeBulkHandle :: "string \<Rightarrow> nat \<Rightarrow> RelayDeviceConn \<Rightarrow> RelayDeviceConn" where
  "completeBulkHandle sessionID h rc =
     (if map_of (rdc_activeBulkHandles rc) sessionID = Some h
      then rc\<lparr>rdc_activeBulkHandles := AList.delete sessionID (rdc_activeBulkHandles rc)\<rparr> else rc)"

definition installRequestBulkHandle :: "string \<Rightarrow> nat \<Rightarrow> RelayDeviceConn \<times> handles \<Rightarrow> RelayDeviceConn \<times> handles" where
  "installRequestBulkHandle requestID h = (\<lambda>(rc, hs).
     (rc\<lparr>rdc_requestBulkHandles := (rdc_requestBulkHandles rc)(requestID \<mapsto> h)\<rparr>,
      case rdc_requestBulkHandles rc requestID of None \<Rightarrow> hs | Some old \<Rightarrow> cancelAt old hs))"

definition lookupRequestBulkHandle :: "string \<Rightarrow> RelayDeviceConn \<Rightarrow> nat option" where
  "lookupRequestBulkHandle requestID rc = rdc_requestBulkHandles rc requestID"

definition completeRequestBulkHandle :: "string \<Rightarrow> nat \<Rightarrow> RelayDeviceConn \<Rightarrow> RelayDeviceConn" where
  "completeRequestBulkHandle requestID h rc =
     (if rdc_requestBulkHandles rc requestID = Some h
      then rc\<lparr>rdc_requestBulkHandles := (rdc_requestBulkHandles rc)(requestID := None)\<rparr> else rc)"

definition RelayDeviceConn_Close :: "RelayDeviceConn \<times> handles \<Rightarrow> RelayDeviceConn \<times> handles" where
  "RelayDeviceConn_Close = (\<lambda>(rc, hs).
     (rc\<lparr>rdc_closed := True, rdc_hasWriter := False, rdc_requestClasses := Map.empty, rdc_activeBulkHandles := [],
         rdc_bulkRequestContexts := Map.empty\<rparr>,
      fold cancelAt (map snd (rdc_activeBulkHandles rc)) hs))"

section \<open>The system\<close>

record RelayChunkMetadata =
  rcm_GroupID :: string
  rcm_Index :: nat
  rcm_Count :: nat
  rcm_BulkCorrelationID :: string

record sentFrame =
  sf_conn :: nat
  sf_deviceID :: string
  sf_data :: "byte list"
  sf_contentEncoding :: string
  sf_chunk :: "RelayChunkMetadata option"

datatype writerHand = Idle | Popped relayOutboundJob | Written relayOutboundJob "writerError option" bool | Exited

record WriterSys =
  ws_writer :: relayOutboundWriter
  ws_handles :: handles
  ws_nextHandle :: nat
  ws_conns :: "nat \<Rightarrow> RelayDeviceConn"
  ws_hand :: writerHand
  ws_sent :: "sentFrame list"
  ws_done :: "(nat \<times> writerError option) list"
  ws_taken :: "relayOutboundJob list"
  ws_admitted :: "relayOutboundJob list"

definition newWriterSys :: "(nat \<Rightarrow> RelayDeviceConn) \<Rightarrow> WriterSys" where
  "newWriterSys conns = \<lparr>ws_writer = newRelayOutboundWriter, ws_handles = (\<lambda>_. bulkActive), ws_nextHandle = 0,
     ws_conns = conns, ws_hand = Idle, ws_sent = [], ws_done = [], ws_taken = [], ws_admitted = []\<rparr>"

text \<open>The result or event as it is handed to the writer: compressed when that is allowed and smaller.\<close>

definition outboundPayload :: "bool \<Rightarrow> byte list option \<Rightarrow> byte list \<Rightarrow> (byte list \<times> string) option" where
  "outboundPayload gzip compressed plaintext =
     (if gzip \<and> length plaintext \<ge> relayGzipThreshold
      then (case compressed of
              None \<Rightarrow> None
            | Some z \<Rightarrow> if length z < length plaintext then Some (z, ''gzip'') else Some (plaintext, []))
      else Some (plaintext, []))"

definition chunkBytesFor :: "nat \<Rightarrow> nat" where
  "chunkBytesFor len =
     (let needed = (len + relayChunkMaximumCount - 1) div relayChunkMaximumCount;
          c = (if needed > relayChunkTargetBytes then needed else relayChunkTargetBytes)
      in if c < relayChunkMinimumBytes then relayChunkMinimumBytes else c)"

definition chunkCountFor :: "nat \<Rightarrow> nat" where
  "chunkCountFor len = (len + chunkBytesFor len - 1) div chunkBytesFor len"

definition plainJob :: "nat \<Rightarrow> nat \<Rightarrow> RelayDeviceConn \<Rightarrow> byte list \<Rightarrow> string \<Rightarrow> relayOutboundJob" where
  "plainJob jid c rc payload encoding = \<lparr>roj_id = jid, roj_conn = c, roj_deviceID = rdc_deviceID rc, roj_payload = payload,
     roj_contentEncoding = encoding, roj_class = relayOutboundNormal, roj_admittedAt = 0, roj_cursor = None\<rparr>"

definition closeConn :: "nat \<Rightarrow> WriterSys \<Rightarrow> WriterSys" where
  "closeConn c s = (let (rc, hs) = RelayDeviceConn_Close (ws_conns s c, ws_handles s)
     in s\<lparr>ws_conns := (ws_conns s)(c := rc), ws_handles := hs\<rparr>)"

text \<open>
  A write without a queue, and a write through the queue that closes the connection when refused.
  The caller also closes the connection when the delivery fails or is not reported in time; that
  close is a step \<open>OCloseConn\<close> of its own, which may happen at any later moment.
\<close>

definition legacyWrite :: "nat \<Rightarrow> bool \<Rightarrow> byte list \<Rightarrow> string \<Rightarrow> WriterSys \<Rightarrow> WriterSys" where
  "legacyWrite c ok payload encoding s =
     (if ok then s\<lparr>ws_sent := ws_sent s @ [\<lparr>sf_conn = c, sf_deviceID = rdc_deviceID (ws_conns s c), sf_data = payload,
        sf_contentEncoding = encoding, sf_chunk = None\<rparr>]\<rparr> else s)"

definition enqueueOrClose :: "instant \<Rightarrow> nat \<Rightarrow> nat \<Rightarrow> relayOutboundJob \<Rightarrow> WriterSys \<Rightarrow> WriterSys" where
  "enqueueOrClose now c code job s =
     (case enqueue now code job (ws_writer s) of
        (Inl _, w) \<Rightarrow> closeConn c (s\<lparr>ws_writer := w\<rparr>)
      | (Inr _, w) \<Rightarrow> s\<lparr>ws_writer := w\<rparr>)"

definition sendJSON ::
  "nat \<Rightarrow> nat \<Rightarrow> byte list option \<Rightarrow> byte list option \<Rightarrow> (string \<times> string) option \<Rightarrow> nat option \<Rightarrow> instant \<Rightarrow> bool \<Rightarrow>
   WriterSys \<Rightarrow> WriterSys" where
  "sendJSON jid c marshalled compressed header classHint now ok s =
     (case marshalled of
        None \<Rightarrow> s
      | Some plaintext \<Rightarrow>
          let rc = ws_conns s c in
          if rdc_closed rc then s
          else
            let code = (case classHint of
                          Some n \<Rightarrow> if n < 5 then n else classCode (classifyRelayPayload header)
                        | None \<Rightarrow> classCode (classifyRelayPayload header))
            in case outboundPayload (rdc_outboundGzip rc) compressed plaintext of
                 None \<Rightarrow> s
               | Some (payload, encoding) \<Rightarrow>
                   if rdc_hasWriter rc then enqueueOrClose now c code (plainJob jid c rc payload encoding) s
                   else legacyWrite c ok payload encoding s)"

text \<open>The requests a result answers are forgotten before it is sent.\<close>

definition takeRequest :: "string \<Rightarrow> RelayDeviceConn \<Rightarrow> RelayDeviceConn" where
  "takeRequest requestID rc =
     rc\<lparr>rdc_requestClasses := (rdc_requestClasses rc)(requestID := None),
        rdc_requestMethods := (rdc_requestMethods rc)(requestID := None),
        rdc_bulkRequestContexts := (rdc_bulkRequestContexts rc)(requestID := None),
        rdc_requestBulkCorrelations := (rdc_requestBulkCorrelations rc)(requestID := None)\<rparr>"

text \<open>A refused transfer is cancelled and answered with an overload error when the bulk queue was full.\<close>

definition refuseBulk ::
  "instant \<Rightarrow> nat \<Rightarrow> nat \<Rightarrow> nat \<Rightarrow> relayBulkRequestContext option \<Rightarrow> byte list option \<Rightarrow> writerError \<Rightarrow> WriterSys \<Rightarrow> WriterSys" where
  "refuseBulk now jid c h context overload e s =
     (let s1 = s\<lparr>ws_handles := cancelAt h (ws_handles s),
                 ws_conns := (case context of
                    None \<Rightarrow> ws_conns s
                  | Some ctx \<Rightarrow> (ws_conns s)(c := completeBulkHandle (brc_sessionID ctx) h (ws_conns s c)))\<rparr>
      in case (e, overload) of
           (BulkQueueOverflow, Some body) \<Rightarrow> enqueueOrClose now c 1 (plainJob jid c (ws_conns s1 c) body []) s1
         | _ \<Rightarrow> closeConn c s1)"

definition bulkJob ::
  "nat \<Rightarrow> nat \<Rightarrow> RelayDeviceConn \<Rightarrow> byte list \<Rightarrow> string \<Rightarrow> string \<Rightarrow> nat \<Rightarrow> relayBulkRequestContext option \<Rightarrow> u64 \<Rightarrow> instant \<Rightarrow>
   string \<Rightarrow> string \<Rightarrow> relayOutboundJob" where
  "bulkJob jid c rc payload encoding groupID h context channelGeneration now correlation requestID =
     (plainJob jid c rc payload encoding)\<lparr>roj_cursor := Some
        \<lparr>rcc_groupID = groupID, rcc_nextIndex = 0, rcc_count = chunkCountFor (length payload),
         rcc_chunkBytes = chunkBytesFor (length payload), rcc_handle = h,
         rcc_sessionID = (case context of None \<Rightarrow> [] | Some ctx \<Rightarrow> brc_sessionID ctx),
         rcc_sessionGeneration = (case context of None \<Rightarrow> 0 | Some ctx \<Rightarrow> brc_generation ctx),
         rcc_channelGeneration = channelGeneration, rcc_expiresAt = now + relayBulkCursorMaxAge,
         rcc_bulkCorrelationID = correlation, rcc_requestID = requestID\<rparr>\<rparr>"

text \<open>The chunked path of a result: a new handle, the session, the correlation, the request, the queue.\<close>

definition submitBulk ::
  "nat \<Rightarrow> nat \<Rightarrow> string \<Rightarrow> byte list \<Rightarrow> string \<Rightarrow> string \<Rightarrow> string \<Rightarrow> relayBulkRequestContext option \<Rightarrow> string \<Rightarrow> byte list option \<Rightarrow>
   instant \<Rightarrow> WriterSys \<Rightarrow> WriterSys" where
  "submitBulk jid c requestID payload encoding groupID method context correlation overload now s0 =
     (let h = ws_nextHandle s0;
          s = s0\<lparr>ws_nextHandle := h + 1, ws_handles := (ws_handles s0)(h := bulkActive)\<rparr>;
          (installed, rc1, hs1) = (case context of
              None \<Rightarrow> (True, ws_conns s c, ws_handles s)
            | Some ctx \<Rightarrow> installHandleIfSessionBulkGenerationCurrent (brc_sessionID ctx) (brc_generation ctx) h
                            (ws_conns s c, ws_handles s))
      in
      if \<not> installed then s\<lparr>ws_handles := cancelAt h hs1\<rparr>
      else
        let (admitted, reg) = (if correlation = [] then (True, rdc_bulkCorrelations rc1)
              else let (ok, reason, reg') = Bulk_PutIfAbsent correlation (rdc_bulkCorrelations rc1) in (ok, reg'));
            rc2 = rc1\<lparr>rdc_bulkCorrelations := reg\<rparr>
        in
        if \<not> admitted
        then closeConn c (s\<lparr>ws_handles := cancelAt h hs1,
               ws_conns := (ws_conns s)(c := (case context of None \<Rightarrow> rc2 | Some ctx \<Rightarrow> completeBulkHandle (brc_sessionID ctx) h rc2))\<rparr>)
        else
          let (rc3, hs3) = (if method = ''read_file_v2'' then installRequestBulkHandle requestID h (rc2, hs1) else (rc2, hs1));
              job = bulkJob jid c rc3 payload encoding groupID h context (rdc_generation rc3) now correlation requestID;
              s3 = s\<lparr>ws_conns := (ws_conns s)(c := rc3), ws_handles := hs3\<rparr>
          in case admitBulk now job (ws_writer s) of
               (Inr _, w) \<Rightarrow> s3\<lparr>ws_writer := w,
                   ws_admitted := ws_admitted s @ [job\<lparr>roj_class := relayOutboundBulk, roj_admittedAt := now\<rparr>]\<rparr>
             | (Inl e, w) \<Rightarrow> refuseBulk now jid c h context overload e (s3\<lparr>ws_writer := w\<rparr>))"

definition SendResult ::
  "nat \<Rightarrow> nat \<Rightarrow> string \<Rightarrow> byte list option \<Rightarrow> byte list option \<Rightarrow> string \<Rightarrow> byte list option \<Rightarrow> instant \<Rightarrow> bool \<Rightarrow>
   WriterSys \<Rightarrow> WriterSys" where
  "SendResult jid c requestID marshalled compressed random overload now ok s0 =
     (case marshalled of
        None \<Rightarrow> s0
      | Some plaintext \<Rightarrow>
          let rc = ws_conns s0 c;
              cls = (case rdc_requestClasses rc requestID of Some x \<Rightarrow> x | None \<Rightarrow> relayOutboundNormal);
              method = (case rdc_requestMethods rc requestID of Some m \<Rightarrow> m | None \<Rightarrow> []);
              context = rdc_bulkRequestContexts rc requestID;
              correlation = (case rdc_requestBulkCorrelations rc requestID of Some x \<Rightarrow> x | None \<Rightarrow> []);
              s = s0\<lparr>ws_conns := (ws_conns s0)(c := takeRequest requestID rc)\<rparr>
          in
          if rdc_closed rc then s
          else case outboundPayload (rdc_outboundGzip rc) compressed plaintext of
                 None \<Rightarrow> s
               | Some (payload, encoding) \<Rightarrow>
                   if \<not> rdc_hasWriter rc then legacyWrite c ok payload encoding s
                   else if rdc_outboundChunks rc \<and> cls = relayOutboundBulk \<and> length payload > relayChunkTargetBytes
                   then (if length payload > relayLogicalMaximumBytes then closeConn c s
                         else submitBulk jid c requestID payload encoding (''grp_'' @ random) method context correlation overload now s)
                   else enqueueOrClose now c (classCode cls) (plainJob jid c rc payload encoding) s)"

section \<open>The writer goroutine\<close>

definition chunkData :: "relayOutboundJob \<Rightarrow> nat \<Rightarrow> nat \<Rightarrow> byte list" where
  "chunkData job chunkBytes i =
     (let start = i * chunkBytes;
          stop = (if start + chunkBytes > length (roj_payload job) then length (roj_payload job) else start + chunkBytes)
      in take (stop - start) (drop start (roj_payload job)))"

definition chunkFrame :: "relayOutboundJob \<Rightarrow> relayChunkCursor \<Rightarrow> nat \<Rightarrow> sentFrame" where
  "chunkFrame job cursor i = \<lparr>sf_conn = roj_conn job, sf_deviceID = roj_deviceID job,
     sf_data = chunkData job (rcc_chunkBytes cursor) i, sf_contentEncoding = roj_contentEncoding job,
     sf_chunk = Some \<lparr>rcm_GroupID = rcc_groupID cursor, rcm_Index = i, rcm_Count = rcc_count cursor,
                      rcm_BulkCorrelationID = rcc_bulkCorrelationID cursor\<rparr>\<rparr>"

text \<open>The error, whether the job is complete, the job afterwards, the handles, and the frames written.\<close>

definition writeSelected ::
  "instant \<Rightarrow> bool \<Rightarrow> RelayDeviceConn \<Rightarrow> relayOutboundJob \<Rightarrow> handles \<Rightarrow>
   writerError option \<times> bool \<times> relayOutboundJob \<times> handles \<times> sentFrame list" where
  "writeSelected now ok rc job hs =
     (case roj_cursor job of
        None \<Rightarrow>
          (if ok then None else Some WriteFailed, True, job, hs,
           if ok then [\<lparr>sf_conn = roj_conn job, sf_deviceID = roj_deviceID job, sf_data = roj_payload job,
                        sf_contentEncoding = roj_contentEncoding job, sf_chunk = None\<rparr>] else [])
      | Some cursor \<Rightarrow>
          let i = rcc_nextIndex cursor;
              (won, hs1) = (if i = 0
                then let (won, state) = MarkIndex0Committed (hs (rcc_handle cursor)) in (won, hs(rcc_handle cursor := state))
                else (True, hs))
          in
          if \<not> won then (None, True, job, hs1, [])
          else if now > rcc_expiresAt cursor
          then (if i > 0 then Some ChunkGroupExpired else None, True, job, hs1, [])
          else if rdc_generation rc \<noteq> rcc_channelGeneration cursor \<or> rdc_closed rc then (None, True, job, hs1, [])
          else if i * rcc_chunkBytes cursor \<ge> length (roj_payload job) then (None, True, job, hs1, [])
          else if \<not> ok then (Some WriteFailed, True, job, hs1, [])
          else (None, i + 1 \<ge> rcc_count cursor, job\<lparr>roj_cursor := Some (cursor\<lparr>rcc_nextIndex := i + 1\<rparr>)\<rparr>, hs1,
                [chunkFrame job cursor i]))"

definition finishConn :: "relayChunkCursor \<Rightarrow> RelayDeviceConn \<Rightarrow> RelayDeviceConn" where
  "finishConn cursor rc0 =
     (let rc1 = (if rcc_sessionID cursor \<noteq> [] then completeBulkHandle (rcc_sessionID cursor) (rcc_handle cursor) rc0 else rc0);
          rc2 = (if rcc_requestID cursor \<noteq> [] then completeRequestBulkHandle (rcc_requestID cursor) (rcc_handle cursor) rc1 else rc1)
      in if rcc_bulkCorrelationID cursor \<noteq> []
         then rc2\<lparr>rdc_bulkCorrelations := snd (Bulk_Retire (rcc_bulkCorrelationID cursor) (rdc_bulkCorrelations rc2))\<rparr> else rc2)"

definition finishRound :: "relayOutboundJob \<Rightarrow> writerError option \<Rightarrow> bool \<Rightarrow> WriterSys \<Rightarrow> WriterSys" where
  "finishRound job err complete s =
     (if \<not> complete then s\<lparr>ws_writer := requeueBulk job (ws_writer s), ws_hand := Idle\<rparr>
      else
        let s1 = s\<lparr>ws_writer := completeBulkGroup job (ws_writer s), ws_hand := Idle,
                   ws_conns := (case roj_cursor job of
                      None \<Rightarrow> ws_conns s
                    | Some cursor \<Rightarrow> (ws_conns s)(roj_conn job := finishConn cursor (ws_conns s (roj_conn job)))),
                   ws_done := (if roj_cursor job = None then ws_done s @ [(roj_id job, err)] else ws_done s)\<rparr>
        in if err \<noteq> None then closeConn (roj_conn job) s1 else s1)"

definition failAll :: "WriterSys \<Rightarrow> WriterSys" where
  "failAll s =
     s\<lparr>ws_handles := fold cancelAt
          (concat (map (\<lambda>job. case roj_cursor job of None \<Rightarrow> [] | Some cursor \<Rightarrow> [rcc_handle cursor]) (queuedJobs (ws_writer s))))
          (ws_handles s),
       ws_done := ws_done s @ map (\<lambda>job. (roj_id job, Some WriterClosed))
          (filter (\<lambda>job. roj_cursor job = None) (queuedJobs (ws_writer s))),
       ws_writer := failQueued (ws_writer s), ws_hand := Exited\<rparr>"

datatype cancelReply = MissingParam | NotFound | TooLate | Cancelled

definition handleCancelRequest :: "nat \<Rightarrow> string \<Rightarrow> WriterSys \<Rightarrow> cancelReply \<times> WriterSys" where
  "handleCancelRequest c requestID s =
     (if requestID = [] then (MissingParam, s)
      else case lookupRequestBulkHandle requestID (ws_conns s c) of
             None \<Rightarrow> (NotFound, s)
           | Some h \<Rightarrow> (if fst (Handle_Cancel (ws_handles s h)) then Cancelled else TooLate,
                        s\<lparr>ws_handles := cancelAt h (ws_handles s)\<rparr>))"

section \<open>Steps\<close>

datatype WriterOp =
    OSendJSON nat nat "byte list option" "byte list option" "(string \<times> string) option" "nat option" instant bool
  | OSendResult nat nat string "byte list option" "byte list option" string "byte list option" instant bool
  | ORegister nat string string string
  | OCleanup nat string
  | OAdvance nat string string instant
  | OCancel nat string
  | OCloseConn nat
  | OPop
  | OWrite instant bool
  | OFinish
  | OStop
  | OFail

definition onConn :: "nat \<Rightarrow> (RelayDeviceConn \<Rightarrow> RelayDeviceConn) \<Rightarrow> WriterSys \<Rightarrow> WriterSys" where
  "onConn c f s = s\<lparr>ws_conns := (ws_conns s)(c := f (ws_conns s c))\<rparr>"

fun writerStep :: "WriterSys \<Rightarrow> WriterOp \<Rightarrow> WriterSys" where
  "writerStep s (OSendJSON jid c m z header hint now ok) = sendJSON jid c m z header hint now ok s"
| "writerStep s (OSendResult jid c r m z rnd ov now ok) = SendResult jid c r m z rnd ov now ok s"
| "writerStep s (ORegister c r m k) = onConn c (registerRequestClass r m k) s"
| "writerStep s (OCleanup c r) = onConn c (cleanupSupersededRequest r) s"
| "writerStep s (OAdvance c sid r now) =
     (let (n, rc, hs) = advanceSessionBulkGeneration sid r now (ws_conns s c, ws_handles s)
      in s\<lparr>ws_conns := (ws_conns s)(c := rc), ws_handles := hs\<rparr>)"
| "writerStep s (OCancel c r) = snd (handleCancelRequest c r s)"
| "writerStep s (OCloseConn c) = closeConn c s"
| "writerStep s OPop =
     (case ws_hand s of
        Idle \<Rightarrow>
          (case writer_pop (ws_writer s) of
             (None, w) \<Rightarrow> s\<lparr>ws_writer := w\<rparr>
           | (Some job, w) \<Rightarrow> s\<lparr>ws_writer := w, ws_hand := Popped job, ws_taken := ws_taken s @ [job]\<rparr>)
      | _ \<Rightarrow> s)"
| "writerStep s (OWrite now ok) =
     (case ws_hand s of
        Popped job \<Rightarrow>
          (case writeSelected now ok (ws_conns s (roj_conn job)) job (ws_handles s) of
             (err, complete, job', hs, frames) \<Rightarrow>
               s\<lparr>ws_handles := hs, ws_sent := ws_sent s @ frames, ws_hand := Written job' err complete\<rparr>)
      | _ \<Rightarrow> s)"
| "writerStep s OFinish = (case ws_hand s of Written job err complete \<Rightarrow> finishRound job err complete s | _ \<Rightarrow> s)"
| "writerStep s OStop = s\<lparr>ws_writer := writer_close (ws_writer s)\<rparr>"
| "writerStep s OFail = (if ws_hand s = Idle \<and> row_stopped (ws_writer s) then failAll s else s)"

end
