(* ===== verification/Writer_Accounting.thy ===== *)
theory Writer_Accounting
  imports Bulk_Transfer
begin

text \<open>
  The accounting of the relay writer in the system of \<^verbatim>\<open>Bulk_Transfer\<close>.
  Every step of a caller falls into three cases (nothing queued, one plain job queued, one transfer
  queued), so that an invariant is proved once per case and once per step of the writer goroutine.
\<close>

section \<open>What a caller can do\<close>

text \<open>A handle below a bound that is decided keeps its decision.\<close>

definition settles :: "nat \<Rightarrow> handles \<Rightarrow> handles \<Rightarrow> bool" where
  "settles n hs hs' \<longleftrightarrow> (\<forall>h<n. hs h \<noteq> bulkActive \<longrightarrow> hs' h = hs h)"

lemma settles_refl: "settles n hs hs"
  by (simp add: settles_def)

lemma settles_trans: "settles n hs hs' \<Longrightarrow> settles n hs' hs'' \<Longrightarrow> settles n hs hs''"
  by (simp add: settles_def)

lemma settles_cancel: "settles n hs hs' \<Longrightarrow> settles n hs (cancelAt h hs')"
  by (cases "hs' h") (auto simp: settles_def cancelAt_def)

lemma settles_cancels: "settles n hs hs' \<Longrightarrow> settles n hs (fold cancelAt l hs')"
  by (induction l arbitrary: hs') (auto intro: settles_cancel)

lemma settles_new: "n \<le> h \<Longrightarrow> settles n hs (hs(h := x))"
  by (simp add: settles_def)

lemma settles_commit: "MarkIndex0Committed (hs h) = (b, x) \<Longrightarrow> settles n hs (hs(h := x))"
  by (auto simp: settles_def MarkIndex0Committed_def split: if_splits)

text \<open>A step that leaves the goroutine alone, queues at most what \<open>w\<close> says and admits \<open>adm\<close>.\<close>

definition around :: "relayOutboundWriter \<Rightarrow> relayOutboundJob list \<Rightarrow> WriterSys \<Rightarrow> WriterSys \<Rightarrow> bool" where
  "around w adm s s' \<longleftrightarrow> ws_writer s' = w \<and> ws_hand s' = ws_hand s \<and> ws_taken s' = ws_taken s
   \<and> ws_admitted s' = ws_admitted s @ adm \<and> ws_nextHandle s \<le> ws_nextHandle s'
   \<and> settles (ws_nextHandle s) (ws_handles s) (ws_handles s')
   \<and> (\<exists>fs. ws_sent s' = ws_sent s @ fs \<and> (\<forall>f\<in>set fs. sf_chunk f = None))"

definition fitsQueue :: "relayOutboundJob \<Rightarrow> relayOutboundWriter \<Rightarrow> bool" where
  "fitsQueue job w \<longleftrightarrow> row_queueFrames w + 1 \<le> relayOutboundQueueFrames \<and> row_queueBytes w + payloadBytes job \<le> relayOutboundQueueBytes"

definition transfer_ok :: "relayOutboundJob \<Rightarrow> bool" where
  "transfer_ok a \<longleftrightarrow> roj_class a = relayOutboundBulk \<and>
     (\<exists>cur. roj_cursor a = Some cur \<and> rcc_nextIndex cur = 0 \<and> rcc_groupID cur \<noteq> []
        \<and> rcc_chunkBytes cur = chunkBytesFor (length (roj_payload a)) \<and> rcc_count cur = chunkCountFor (length (roj_payload a)))"

definition hnd :: "relayOutboundJob \<Rightarrow> nat" where
  "hnd job = rcc_handle (the (roj_cursor job))"

definition quietStep :: "WriterSys \<Rightarrow> WriterSys \<Rightarrow> bool" where
  "quietStep s s' \<longleftrightarrow> around (ws_writer s) [] s s'"

definition plainStep :: "WriterSys \<Rightarrow> WriterSys \<Rightarrow> bool" where
  "plainStep s s' \<longleftrightarrow> (\<exists>job. roj_cursor job = None \<and> fitsQueue job (ws_writer s)
     \<and> around (pushJob (roj_class job) job (ws_writer s)) [] s s')"

definition bulkStep :: "WriterSys \<Rightarrow> WriterSys \<Rightarrow> bool" where
  "bulkStep s s' \<longleftrightarrow> (\<exists>job. transfer_ok job \<and> fitsQueue job (ws_writer s) \<and> hnd job < ws_nextHandle s'
     \<and> around (pushBulk job (ws_writer s)) [job] s s')"

lemmas step_defs = quietStep_def plainStep_def bulkStep_def

lemma quiet_refl: "quietStep s s"
  by (simp add: quietStep_def around_def settles_refl)

lemma around_quiet: "around w adm s s' \<Longrightarrow> quietStep s' s'' \<Longrightarrow> around w adm s s''"
  by (auto simp: around_def quietStep_def settles_def)

lemma quiet_around: "quietStep s s' \<Longrightarrow> around w adm s' s'' \<Longrightarrow> around w adm s s''"
  by (auto simp: around_def quietStep_def settles_def)

lemma quiet_writer: "quietStep s s' \<Longrightarrow> ws_writer s' = ws_writer s"
  by (simp add: quietStep_def around_def)

lemma quiet_plain:
  assumes q: "quietStep s s'" and "plainStep s' s''"
  shows "plainStep s s''"
proof -
  obtain job where "roj_cursor job = None" "fitsQueue job (ws_writer s')" "around (pushJob (roj_class job) job (ws_writer s')) [] s' s''"
    using assms(2) unfolding plainStep_def by blast
  then show ?thesis using quiet_around [OF q] unfolding quiet_writer [OF q] plainStep_def by blast
qed

lemma quiet_bulk:
  assumes q: "quietStep s s'" and "bulkStep s' s''"
  shows "bulkStep s s''"
proof -
  obtain job where "transfer_ok job" "fitsQueue job (ws_writer s')" "hnd job < ws_nextHandle s''" "around (pushBulk job (ws_writer s')) [job] s' s''"
    using assms(2) unfolding bulkStep_def by blast
  then show ?thesis using quiet_around [OF q] unfolding quiet_writer [OF q] bulkStep_def by blast
qed

lemma quiet_quiet: "quietStep s s' \<Longrightarrow> quietStep s' s'' \<Longrightarrow> quietStep s s''"
  using quiet_around [of s s'] quiet_writer [of s s'] unfolding quietStep_def by simp

lemma quiet_conns: "quietStep s (s\<lparr>ws_conns := x\<rparr>)"
  by (simp add: quietStep_def around_def settles_refl)

lemma quiet_handles: "settles (ws_nextHandle s) (ws_handles s) hs \<Longrightarrow> quietStep s (s\<lparr>ws_conns := x, ws_handles := hs\<rparr>)"
  by (simp add: quietStep_def around_def)

lemma quiet_close: "quietStep s (closeConn c s)"
  by (simp add: closeConn_def RelayDeviceConn_Close_def quiet_handles settles_cancels settles_refl)

lemma quiet_legacy: "quietStep s (legacyWrite c ok payload encoding s)"
  by (simp add: legacyWrite_def quietStep_def around_def settles_refl)

lemma enqueue_cases:
  obtains (refused) e where "enqueue now code job w = (Inl e, w)"
  | (queued) "enqueue now code job w = (Inr (), pushJob (classOfCode code) (job\<lparr>roj_class := classOfCode code, roj_admittedAt := now\<rparr>) w)"
      "fitsQueue (job\<lparr>roj_class := classOfCode code, roj_admittedAt := now\<rparr>) w"
proof -
  let ?job = "job\<lparr>roj_class := classOfCode code, roj_admittedAt := now\<rparr>"
  have "enqueue now code job w = (if row_stopped w then (Inl WriterClosed, w)
      else if \<not> fitsQueue ?job w then (Inl QueueOverflow, w) else (Inr (), pushJob (classOfCode code) ?job w))"
    by (simp add: enqueue_def Let_def fitsQueue_def not_le)
  then show thesis using refused queued by (cases "row_stopped w"; cases "fitsQueue ?job w") simp_all
qed

lemma admitBulk_cases:
  obtains (refused) e where "admitBulk now job w = (Inl e, w)"
  | (queued) "admitBulk now job w = (Inr (), pushBulk (job\<lparr>roj_class := relayOutboundBulk, roj_admittedAt := now\<rparr>) w)"
      "fitsQueue (job\<lparr>roj_class := relayOutboundBulk, roj_admittedAt := now\<rparr>) w"
proof -
  let ?job = "job\<lparr>roj_class := relayOutboundBulk, roj_admittedAt := now\<rparr>"
  have "(\<exists>e. admitBulk now job w = (Inl e, w)) \<or> admitBulk now job w = (Inr (), pushBulk ?job w) \<and> fitsQueue ?job w"
    by (auto simp: admitBulk_def Let_def fitsQueue_def)
  then show thesis using refused queued by blast
qed

lemma enqueueOrClose_step:
  assumes "roj_cursor job = None"
  shows "quietStep s (enqueueOrClose now c code job s) \<or> plainStep s (enqueueOrClose now c code job s)"
proof (rule enqueue_cases [of now code job "ws_writer s"])
  fix e assume "enqueue now code job (ws_writer s) = (Inl e, ws_writer s)"
  then show ?thesis using quiet_close [of s c] by (simp add: enqueueOrClose_def)
next
  let ?job = "job\<lparr>roj_class := classOfCode code, roj_admittedAt := now\<rparr>"
  assume e: "enqueue now code job (ws_writer s) = (Inr (), pushJob (classOfCode code) ?job (ws_writer s))" and f: "fitsQueue ?job (ws_writer s)"
  have "plainStep s (enqueueOrClose now c code job s)" unfolding plainStep_def
    by (rule exI [of _ ?job]) (use assms e f in \<open>simp add: enqueueOrClose_def around_def settles_refl\<close>)
  then show ?thesis ..
qed

lemma sendJSON_step: "quietStep s (sendJSON jid c m z header hint now ok s) \<or> plainStep s (sendJSON jid c m z header hint now ok s)"
  using enqueueOrClose_step [of "plainJob jid c (ws_conns s c) p e" s for p e] quiet_refl quiet_legacy
  unfolding sendJSON_def Let_def by (auto simp: plainJob_def split: option.split)

lemma refuseBulk_step:
  "quietStep s (refuseBulk now jid c h context overload e s) \<or> plainStep s (refuseBulk now jid c h context overload e s)"
proof -
  let ?s = "s\<lparr>ws_handles := cancelAt h (ws_handles s), ws_conns := (case context of
      None \<Rightarrow> ws_conns s | Some ctx \<Rightarrow> (ws_conns s)(c := completeBulkHandle (brc_sessionID ctx) h (ws_conns s c)))\<rparr>"
  have q: "quietStep s ?s"
    using quiet_handles [OF settles_cancel [OF settles_refl], of s] by (simp add: quietStep_def around_def)
  have "roj_cursor (plainJob jid c (ws_conns ?s c) body []) = None" for body by (simp add: plainJob_def)
  note this [THEN enqueueOrClose_step, of ?s now c 1] quiet_close [of ?s c]
  then have "quietStep ?s (refuseBulk now jid c h context overload e s) \<or> plainStep ?s (refuseBulk now jid c h context overload e s)"
    unfolding refuseBulk_def Let_def by (cases e; cases overload) simp_all
  then show ?thesis using q quiet_plain quiet_quiet by blast
qed

text \<open>The path of a chunked result.\<close>

lemma settles_install:
  "installHandleIfSessionBulkGenerationCurrent sid g h (rc, hs) = (b, rc', hs') \<Longrightarrow> settles n hs hs'"
  by (auto simp: installHandleIfSessionBulkGenerationCurrent_def settles_refl intro: settles_cancel split: if_splits option.splits)

lemma settles_installRequest: "installRequestBulkHandle r h (rc, hs) = (rc', hs') \<Longrightarrow> settles n hs hs'"
  by (auto simp: installRequestBulkHandle_def settles_refl intro: settles_cancel split: option.splits)

lemma bulkJob_ok:
  assumes "groupID \<noteq> []"
  shows "transfer_ok ((bulkJob jid c rc payload encoding groupID h ctx gen now corr req)\<lparr>roj_class := relayOutboundBulk, roj_admittedAt := t\<rparr>)"
    and "hnd ((bulkJob jid c rc payload encoding groupID h ctx gen now corr req)\<lparr>roj_class := relayOutboundBulk, roj_admittedAt := t\<rparr>) = h"
  using assms by (simp_all add: transfer_ok_def hnd_def bulkJob_def plainJob_def)

lemma submitBulk_step:
  assumes "groupID \<noteq> []"
    and s'_def: "s' = submitBulk jid c requestID payload encoding groupID method context correlation overload now s0"
  shows "quietStep s0 s' \<or> plainStep s0 s' \<or> bulkStep s0 s'"
proof -
  let ?h = "ws_nextHandle s0" and ?n = "ws_nextHandle s0"
  let ?s = "s0\<lparr>ws_nextHandle := ?h + 1, ws_handles := (ws_handles s0)(?h := bulkActive)\<rparr>"
  obtain installed rc1 hs1 where inst: "(case context of
              None \<Rightarrow> (True, ws_conns ?s c, ws_handles ?s)
            | Some ctx \<Rightarrow> installHandleIfSessionBulkGenerationCurrent (brc_sessionID ctx) (brc_generation ctx) ?h
                            (ws_conns ?s c, ws_handles ?s)) = (installed, rc1, hs1)"
    by (rule prod_cases3)
  have "settles ?n (ws_handles ?s) hs1"
    using inst settles_install by (cases "context") (auto simp: settles_refl)
  then have S1: "settles ?n (ws_handles s0) hs1" using settles_trans [OF settles_new [of ?n ?h]] by simp
  obtain admitted reg where adm: "(if correlation = [] then (True, rdc_bulkCorrelations rc1)
      else let (ok, reason, reg') = Bulk_PutIfAbsent correlation (rdc_bulkCorrelations rc1) in (ok, reg')) = (admitted, reg)"
    by fastforce
  let ?rc2 = "rc1\<lparr>rdc_bulkCorrelations := reg\<rparr>"
  obtain rc3 hs3 where req: "(if method = ''read_file_v2'' then installRequestBulkHandle requestID ?h (?rc2, hs1) else (?rc2, hs1)) = (rc3, hs3)"
    by fastforce
  have S3: "settles ?n (ws_handles s0) hs3"
    using settles_trans [OF S1] settles_installRequest req S1 by (auto split: if_splits)
  let ?job = "bulkJob jid c rc3 payload encoding groupID ?h context (rdc_generation rc3) now correlation requestID"
  let ?a = "?job\<lparr>roj_class := relayOutboundBulk, roj_admittedAt := now\<rparr>"
  let ?s3 = "?s\<lparr>ws_conns := (ws_conns ?s)(c := rc3), ws_handles := hs3\<rparr>"
  note unfold = s'_def submitBulk_def Let_def inst [unfolded Let_def] prod.case adm [unfolded Let_def] req
  have q3: "quietStep s0 ?s3" using S3 by (simp add: quietStep_def around_def)
  consider "\<not> installed" | "installed" "\<not> admitted" | "installed" "admitted" by blast
  then show ?thesis
  proof cases
    case 1
    then have "s' = ?s\<lparr>ws_handles := cancelAt ?h hs1\<rparr>" unfolding unfold by simp
    then show ?thesis using S1 by (simp add: quietStep_def around_def settles_cancel)
  next
    case 2
    then have "\<exists>x. s' = closeConn c (?s\<lparr>ws_handles := cancelAt ?h hs1, ws_conns := x\<rparr>)" unfolding unfold by (simp, blast)
    then obtain x where x: "s' = closeConn c (?s\<lparr>ws_handles := cancelAt ?h hs1, ws_conns := x\<rparr>)" ..
    have "quietStep s0 (?s\<lparr>ws_handles := cancelAt ?h hs1, ws_conns := x\<rparr>)"
      using S1 by (simp add: quietStep_def around_def settles_cancel)
    then show ?thesis unfolding x using quiet_quiet [OF _ quiet_close] by blast
  next
    case 3
    have s': "s' = (case admitBulk now ?job (ws_writer s0) of
               (Inr _, w) \<Rightarrow> ?s3\<lparr>ws_writer := w, ws_admitted := ws_admitted s0 @ [?a]\<rparr>
             | (Inl e, w) \<Rightarrow> refuseBulk now jid c ?h context overload e (?s3\<lparr>ws_writer := w\<rparr>))"
      using 3 unfolding unfold by (simp split: prod.split sum.split)
    show ?thesis
    proof (cases rule: admitBulk_cases [where now = now and job = ?job and w = "ws_writer s0"])
      case (refused e)
      then have "s' = refuseBulk now jid c ?h context overload e (?s3\<lparr>ws_writer := ws_writer s0\<rparr>)"
        unfolding s' by simp
      then have e: "s' = refuseBulk now jid c ?h context overload e ?s3" by simp
      show ?thesis unfolding e
        using refuseBulk_step [of ?s3 now jid c ?h "context" overload e] quiet_plain [OF q3] quiet_quiet [OF q3] by blast
    next
      case queued
      then have "s' = ?s3\<lparr>ws_writer := pushBulk ?a (ws_writer s0), ws_admitted := ws_admitted s0 @ [?a]\<rparr>" unfolding s' by simp
      then have "around (pushBulk ?a (ws_writer s0)) [?a] s0 s'" "ws_nextHandle s' = ?h + 1" using S3 by (simp_all add: around_def)
      then have "bulkStep s0 s'" unfolding bulkStep_def
        using bulkJob_ok [OF assms(1)] queued(2) by (metis less_add_one)
      then show ?thesis by blast
    qed
  qed
qed

lemma SendResult_step:
  assumes s'_def: "s' = SendResult jid c r m z rnd ov now ok s"
  shows "quietStep s s' \<or> plainStep s s' \<or> bulkStep s s'"
proof (cases m)
  case None
  then show ?thesis by (simp add: s'_def SendResult_def quiet_refl)
next
  case (Some p)
  let ?s = "s\<lparr>ws_conns := (ws_conns s)(c := takeRequest r (ws_conns s c))\<rparr>"
  have q: "quietStep s ?s" by (rule quiet_conns)
  have "roj_cursor (plainJob jid c (ws_conns s c) x e) = None" for x e by (simp add: plainJob_def)
  note E = enqueueOrClose_step [OF this, of ?s]
  define step where "step = (\<lambda>x. quietStep ?s x \<or> plainStep ?s x \<or> bulkStep ?s x)"
  have g: "''grp_'' @ rnd \<noteq> []" by simp
  have st: "step ?s" "step (legacyWrite c ok x e ?s)" "step (closeConn c ?s)" for x e
    using quiet_refl [of ?s] quiet_legacy [of ?s] quiet_close [of ?s] unfolding step_def by blast+
  have st2: "step (enqueueOrClose now c code (plainJob jid c (ws_conns s c) x e) ?s)" for x e code
    using E [of now c code] unfolding step_def by blast
  have st3: "step (submitBulk jid c r x e (''grp_'' @ rnd) meth ctx corr ov now ?s)" for x e meth ctx corr
    using submitBulk_step [OF g refl] unfolding step_def by blast
  have "step s'" unfolding s'_def SendResult_def Let_def Some option.case
    by (cases "rdc_closed (ws_conns s c)"; cases "outboundPayload (rdc_outboundGzip (ws_conns s c)) z p") (auto simp: st st2 st3 [simplified])
  then have "quietStep ?s s' \<or> plainStep ?s s' \<or> bulkStep ?s s'" by (simp add: step_def)
  then show ?thesis using quiet_plain [OF q] quiet_bulk [OF q] quiet_quiet [OF q] by blast
qed

text \<open>The steps of callers, and of the goroutine.\<close>

definition writerOp :: "WriterOp \<Rightarrow> bool" where
  "writerOp op \<longleftrightarrow> (case op of OPop \<Rightarrow> True | OWrite _ _ \<Rightarrow> True | OFinish \<Rightarrow> True | OStop \<Rightarrow> True | OFail \<Rightarrow> True | _ \<Rightarrow> False)"

lemma caller_step:
  assumes "\<not> writerOp op"
  shows "quietStep s (writerStep s op) \<or> plainStep s (writerStep s op) \<or> bulkStep s (writerStep s op)"
proof (cases op)
  case (OSendJSON jid c m z header hint now ok)
  then show ?thesis using sendJSON_step [of s jid c m z header hint now ok] by auto
next
  case (OSendResult jid c r m z rnd ov now ok)
  then show ?thesis using SendResult_step [OF refl, of s jid c r m z rnd ov now ok] by simp
next
  case (OAdvance c sid r now)
  have "settles (ws_nextHandle s) (ws_handles s) (snd (snd (advanceSessionBulkGeneration sid r now (ws_conns s c, ws_handles s))))"
    by (auto simp: advanceSessionBulkGeneration_def Let_def settles_refl intro: settles_cancel split: option.split)
  then show ?thesis using OAdvance quiet_handles by (simp add: Let_def split_beta)
next
  case (OCancel c r)
  have "quietStep s (snd (handleCancelRequest c r s))"
    by (auto simp: handleCancelRequest_def quiet_refl quietStep_def around_def settles_refl intro: settles_cancel split: option.split)
  then show ?thesis using OCancel by simp
next
  case (OCloseConn c)
  then show ?thesis using quiet_close by simp
qed (use assms quiet_conns in \<open>auto simp: writerOp_def onConn_def\<close>)

section \<open>The accounting invariant\<close>

abbreviation isChunk :: "relayOutboundJob \<Rightarrow> bool" where
  "isChunk job \<equiv> roj_cursor job \<noteq> None"

fun handJobs :: "writerHand \<Rightarrow> relayOutboundJob list" where
  "handJobs (Popped job) = [job]"
| "handJobs (Written job _ _) = [job]"
| "handJobs _ = []"

definition plainBulkTaken :: "WriterSys \<Rightarrow> nat" where
  "plainBulkTaken s = length (filter (\<lambda>job. roj_class job = relayOutboundBulk \<and> \<not> isChunk job) (ws_taken s))"

definition chunksQueued :: "relayOutboundWriter \<Rightarrow> nat" where
  "chunksQueued w = length (filter isChunk (row_queues w relayOutboundBulk))"

definition job_ok :: "relayOutboundJob \<Rightarrow> bool" where
  "job_ok job \<longleftrightarrow> (isChunk job \<longrightarrow> roj_class job = relayOutboundBulk) \<and> payloadBytes job \<le> relayOutboundQueueBytes"

fun incomplete_ok :: "writerHand \<Rightarrow> bool" where
  "incomplete_ok (Written job err complete) \<longleftrightarrow> (complete \<or> isChunk job)"
| "incomplete_ok _ \<longleftrightarrow> True"

definition queues_ok :: "relayOutboundWriter \<Rightarrow> bool" where
  "queues_ok w \<longleftrightarrow> acct_ok w \<and> row_serviceCursor w < 4 \<and> (\<forall>c. \<forall>job\<in>set (row_queues w c). roj_class job = c \<and> job_ok job)"

definition core_ok :: "WriterSys \<Rightarrow> bool" where
  "core_ok s \<longleftrightarrow> queues_ok (ws_writer s) \<and> (\<forall>job\<in>set (handJobs (ws_hand s)). job_ok job) \<and> incomplete_ok (ws_hand s)
   \<and> row_queueFrames (ws_writer s) + int (length (handJobs (ws_hand s))) \<le> relayOutboundQueueFrames + 1
   \<and> row_queueBytes (ws_writer s) + total_bytes (handJobs (ws_hand s)) \<le> 2 * relayOutboundQueueBytes
   \<and> (ws_hand s \<noteq> Exited \<longrightarrow> row_bulkFrames (ws_writer s) = int (chunksQueued (ws_writer s)) - int (plainBulkTaken s))"

lemma payload_nonneg [simp]: "0 \<le> payloadBytes job"
  by (simp add: payloadBytes_def)

lemma total_bytes_nonneg [simp]: "0 \<le> total_bytes jobs"
  unfolding total_bytes_def by (rule sum_list_nonneg) auto

lemma hand_bounds: "\<forall>job\<in>set (handJobs h). job_ok job \<Longrightarrow>
    length (handJobs h) \<le> 1 \<and> total_bytes (handJobs h) \<le> relayOutboundQueueBytes"
  by (cases h) (auto simp: total_bytes_def job_ok_def relayOutboundQueueBytes_def)

lemma queues_ok_push:
  assumes "queues_ok w" and "job_ok job"
  shows "queues_ok (pushJob (roj_class job) job w)" and "roj_class job = relayOutboundBulk \<Longrightarrow> queues_ok (pushBulk job w)"
proof -
  show "queues_ok (pushJob (roj_class job) job w)"
    using assms acct_push [of w "roj_class job" job] by (auto simp: queues_ok_def)
  then show "queues_ok (pushBulk job w)" if "roj_class job = relayOutboundBulk"
    using that acct_pushBulk [of w job] assms by (auto simp: queues_ok_def pushBulk_def Let_def)
qed

lemma pushBulk_fields [simp]:
  "row_queues (pushBulk job w) = (row_queues w)(relayOutboundBulk := row_queues w relayOutboundBulk @ [job])"
  "row_queueFrames (pushBulk job w) = row_queueFrames w + 1" "row_queueBytes (pushBulk job w) = row_queueBytes w + payloadBytes job"
  "row_bulkFrames (pushBulk job w) = row_bulkFrames w + 1"
  "row_activeBulkGroupByDevice (pushBulk job w) = row_activeBulkGroupByDevice w"
  "row_serviceCursor (pushBulk job w) = row_serviceCursor w" "row_controlBurst (pushBulk job w) = row_controlBurst w"
  "row_stopped (pushBulk job w) = row_stopped w"
  by (simp_all add: pushBulk_def Let_def)

lemma core_around:
  assumes ok: "core_ok s" and A: "around w adm s s'" and "queues_ok w"
    and "row_queueFrames w + int (length (handJobs (ws_hand s))) \<le> relayOutboundQueueFrames + 1"
    and "row_queueBytes w + total_bytes (handJobs (ws_hand s)) \<le> 2 * relayOutboundQueueBytes"
    and "row_bulkFrames w - row_bulkFrames (ws_writer s) = int (chunksQueued w) - int (chunksQueued (ws_writer s))"
  shows "core_ok s'"
proof -
  have "ws_writer s' = w" "ws_hand s' = ws_hand s" "ws_taken s' = ws_taken s" using A by (simp_all add: around_def)
  then show ?thesis using assms unfolding core_ok_def plainBulkTaken_def by auto
qed

lemma core_quiet: "core_ok s \<Longrightarrow> quietStep s s' \<Longrightarrow> core_ok s'"
  unfolding quietStep_def by (rule core_around) (auto simp: core_ok_def)

lemma fits_bounds:
  assumes "core_ok s" and "fitsQueue job (ws_writer s)"
  shows "payloadBytes job \<le> relayOutboundQueueBytes"
    and "row_queueFrames (ws_writer s) + 1 + int (length (handJobs (ws_hand s))) \<le> relayOutboundQueueFrames + 1"
    and "row_queueBytes (ws_writer s) + payloadBytes job + total_bytes (handJobs (ws_hand s)) \<le> 2 * relayOutboundQueueBytes"
proof -
  have "0 \<le> row_queueBytes (ws_writer s)" using assms(1) by (simp add: core_ok_def queues_ok_def acct_ok_def)
  then show "payloadBytes job \<le> relayOutboundQueueBytes" using assms(2) by (simp add: fitsQueue_def)
  have "length (handJobs (ws_hand s)) \<le> 1" "total_bytes (handJobs (ws_hand s)) \<le> relayOutboundQueueBytes"
    using hand_bounds [of "ws_hand s"] assms(1) by (simp_all add: core_ok_def)
  then show "row_queueFrames (ws_writer s) + 1 + int (length (handJobs (ws_hand s))) \<le> relayOutboundQueueFrames + 1"
    "row_queueBytes (ws_writer s) + payloadBytes job + total_bytes (handJobs (ws_hand s)) \<le> 2 * relayOutboundQueueBytes"
    using assms(2) by (simp_all add: fitsQueue_def)
qed

lemma core_plain:
  assumes ok: "core_ok s" and "plainStep s s'"
  shows "core_ok s'"
proof -
  obtain job where job: "roj_cursor job = None" "fitsQueue job (ws_writer s)"
      and A: "around (pushJob (roj_class job) job (ws_writer s)) [] s s'"
    using assms(2) unfolding plainStep_def by blast
  note fb = fits_bounds [OF ok job(2)]
  show ?thesis
  proof (rule core_around [OF ok A])
    show "queues_ok (pushJob (roj_class job) job (ws_writer s))"
      using ok fb(1) job(1) by (intro queues_ok_push) (simp_all add: core_ok_def job_ok_def)
    show "row_bulkFrames (pushJob (roj_class job) job (ws_writer s)) - row_bulkFrames (ws_writer s)
        = int (chunksQueued (pushJob (roj_class job) job (ws_writer s))) - int (chunksQueued (ws_writer s))"
      using job(1) by (simp add: chunksQueued_def)
  qed (use fb in simp_all)
qed

lemma core_bulk:
  assumes ok: "core_ok s" and "bulkStep s s'"
  shows "core_ok s'"
proof -
  obtain job where job: "transfer_ok job" "fitsQueue job (ws_writer s)" and A: "around (pushBulk job (ws_writer s)) [job] s s'"
    using assms(2) unfolding bulkStep_def by blast
  note fb = fits_bounds [OF ok job(2)]
  have t: "roj_class job = relayOutboundBulk" "isChunk job" using job(1) by (auto simp: transfer_ok_def)
  show ?thesis
  proof (rule core_around [OF ok A])
    show "queues_ok (pushBulk job (ws_writer s))"
      using ok fb(1) t by (intro queues_ok_push) (simp_all add: core_ok_def job_ok_def)
    show "row_bulkFrames (pushBulk job (ws_writer s)) - row_bulkFrames (ws_writer s)
        = int (chunksQueued (pushBulk job (ws_writer s))) - int (chunksQueued (ws_writer s))"
      using t by (simp add: chunksQueued_def)
  qed (use fb in simp_all)
qed

subsection \<open>The goroutine\<close>

lemma without_nth:
  assumes "i < length xs"
  shows "set (take i xs @ drop (Suc i) xs) \<subseteq> set xs"
    and "mset xs = add_mset (xs ! i) (mset (take i xs @ drop (Suc i) xs))"
    and "length (filter P xs) = length (filter P (take i xs @ drop (Suc i) xs)) + (if P (xs ! i) then 1 else 0)"
    and "sum_list (map f xs) = (f (xs ! i) :: int) + sum_list (map f (take i xs @ drop (Suc i) xs))"
    and "mset (filter P xs) = mset (filter P (take i xs @ drop (Suc i) xs) @ filter P [xs ! i])"
proof -
  have xs: "xs = take i xs @ xs ! i # drop (Suc i) xs" using assms by (rule id_take_nth_drop)
  show "mset xs = add_mset (xs ! i) (mset (take i xs @ drop (Suc i) xs))" by (subst xs) simp
  then have "set xs = insert (xs ! i) (set (take i xs @ drop (Suc i) xs))" by (metis set_mset_add_mset_insert set_mset_mset)
  then show "set (take i xs @ drop (Suc i) xs) \<subseteq> set xs" by blast
  show "length (filter P xs) = length (filter P (take i xs @ drop (Suc i) xs)) + (if P (xs ! i) then 1 else 0)"
    by (subst xs) simp
  show "sum_list (map f xs) = f (xs ! i) + sum_list (map f (take i xs @ drop (Suc i) xs))"
    by (subst (1) xs) simp
  show "mset (filter P xs) = mset (filter P (take i xs @ drop (Suc i) xs) @ filter P [xs ! i])"
    by (subst (1) xs) simp
qed

lemma taken_queues:
  assumes T: "takenState c i w w'" and ok: "queues_ok w" and "row_serviceCursor w' < 4"
  shows "queues_ok w'" and "roj_class (row_queues w c ! i) = c" and "job_ok (row_queues w c ! i)"
    and "int (chunksQueued w') = int (chunksQueued w) - (if isChunk (row_queues w c ! i) then 1 else 0)"
proof -
  let ?q = "row_queues w c" and ?q' = "take i (row_queues w c) @ drop (Suc i) (row_queues w c)"
  have i: "i < length ?q" and q: "row_queues w' = (row_queues w)(c := ?q')" using T by (simp_all add: takenState_def)
  have mem: "?q ! i \<in> set ?q" using i by simp
  then show c: "roj_class (?q ! i) = c" and j: "job_ok (?q ! i)" using ok by (simp_all add: queues_ok_def)
  have "total_bytes ?q = payloadBytes (?q ! i) + total_bytes ?q'"
    using without_nth(4) [OF i] unfolding total_bytes_def .
  moreover have "length ?q = Suc (length ?q')" using i by simp
  moreover have "row_queueFrames w' = row_queueFrames w - 1" "row_queueBytes w' = row_queueBytes w - payloadBytes (?q ! i)"
    using T unfolding takenState_def by blast+
  moreover have "row_queueFrames w = int (length (queuedJobs w))" "row_queueBytes w = total_bytes (queuedJobs w)"
    using ok unfolding queues_ok_def acct_ok_def by blast+
  ultimately have "acct_ok w'" unfolding acct_ok_def queues_update [OF q] by linarith
  moreover have "\<forall>x. \<forall>job\<in>set (row_queues w' x). roj_class job = x \<and> job_ok job"
    using ok without_nth(1) [OF i] unfolding q queues_ok_def by (auto split: if_splits)
  ultimately show "queues_ok w'" using assms(3) by (simp add: queues_ok_def)
  have "isChunk (?q ! i) \<Longrightarrow> c = relayOutboundBulk" using c j by (simp add: job_ok_def)
  then show "int (chunksQueued w') = int (chunksQueued w) - (if isChunk (?q ! i) then 1 else 0)"
    using without_nth(3) [OF i, of isChunk] q
    by (cases "c = relayOutboundBulk"; cases "roj_cursor (?q ! i)") (auto simp: chunksQueued_def)
qed

lemma core_pop:
  assumes ok: "core_ok s"
  shows "core_ok (writerStep s OPop)"
proof (cases "ws_hand s = Idle")
  case False
  then show ?thesis using ok by (cases "ws_hand s") simp_all
next
  case idle: True
  have cur: "row_serviceCursor (ws_writer s) < 4" using ok by (simp add: core_ok_def queues_ok_def)
  have keep: "core_ok (s\<lparr>ws_writer := (ws_writer s)\<lparr>row_serviceCursor := n\<rparr>\<rparr>)"
      "core_ok (s\<lparr>ws_writer := (ws_writer s)\<lparr>row_serviceCursor := n, row_controlBurst := 0\<rparr>\<rparr>)" if "n < 4" for n
    using ok that by (simp_all add: core_ok_def queues_ok_def acct_ok_def queuedJobs_def chunksQueued_def plainBulkTaken_def)
  from cur show ?thesis
  proof (cases rule: pop_cases)
    case (empty n)
    then show ?thesis using idle keep(1) by simp
  next
    case (blocked n)
    then show ?thesis using idle keep(2) by simp
  next
    case (taken c i w')
    let ?job = "row_queues (ws_writer s) c ! i"
    have q: "queues_ok (ws_writer s)" using ok by (simp add: core_ok_def)
    note tq = taken_queues [OF taken(2) q taken(3)]
    have s': "writerStep s OPop = s\<lparr>ws_writer := w', ws_hand := Popped ?job, ws_taken := ws_taken s @ [?job]\<rparr>"
      using idle taken(1) by simp
    have "row_bulkFrames w' = row_bulkFrames (ws_writer s) - (if c = relayOutboundBulk then 1 else 0)"
      "row_queueFrames w' = row_queueFrames (ws_writer s) - 1" "row_queueBytes w' = row_queueBytes (ws_writer s) - payloadBytes ?job"
      using taken(2) by (simp_all add: takenState_def)
    then show ?thesis using ok tq idle unfolding s' core_ok_def
      by (auto simp: plainBulkTaken_def total_bytes_def job_ok_def)
  qed
qed

lemma writeSelected_job:
  assumes "writeSelected now ok rc job hs = (err, complete, job', hs', frames)"
  shows "roj_class job' = roj_class job" and "roj_payload job' = roj_payload job" and "isChunk job' = isChunk job"
    and "complete \<or> isChunk job" and "settles n hs hs'"
  using assms by (auto simp: writeSelected_def Let_def settles_refl settles_commit split: option.splits if_splits prod.splits)

lemma core_write:
  assumes ok: "core_ok s"
  shows "core_ok (writerStep s (OWrite now b))"
proof (cases "ws_hand s")
  case (Popped job)
  obtain err complete job' hs frames where W: "writeSelected now b (ws_conns s (roj_conn job)) job (ws_handles s) = (err, complete, job', hs, frames)"
    by (metis prod_cases5)
  note j = writeSelected_job [OF W]
  have "job_ok job' = job_ok job" "payloadBytes job' = payloadBytes job" using j by (simp_all add: job_ok_def payloadBytes_def)
  then show ?thesis using ok j Popped W by (simp add: core_ok_def plainBulkTaken_def total_bytes_def)
qed (use ok in simp_all)

lemma core_close: "core_ok s \<Longrightarrow> core_ok (closeConn c s)"
  using core_quiet quiet_close by blast

lemma core_finish:
  assumes ok: "core_ok s"
  shows "core_ok (writerStep s OFinish)"
proof (cases "ws_hand s")
  case (Written job err complete)
  have job: "job_ok job" "complete \<or> isChunk job" using ok Written by (simp_all add: core_ok_def)
  show ?thesis
  proof (cases complete)
    case False
    then have "isChunk job" "roj_class job = relayOutboundBulk" using job by (simp_all add: job_ok_def)
    moreover have "queues_ok (pushBulk job (ws_writer s))"
      using ok job calculation by (intro queues_ok_push) (simp_all add: core_ok_def)
    ultimately show ?thesis using ok Written False
      by (simp add: finishRound_def requeueBulk_def core_ok_def plainBulkTaken_def total_bytes_def chunksQueued_def)
  next
    case True
    have w: "queues_ok (completeBulkGroup job w) = queues_ok w" "row_queueFrames (completeBulkGroup job w) = row_queueFrames w"
      "row_queueBytes (completeBulkGroup job w) = row_queueBytes w" "row_bulkFrames (completeBulkGroup job w) = row_bulkFrames w"
      "chunksQueued (completeBulkGroup job w) = chunksQueued w" for w
      by (simp_all add: completeBulkGroup_def queues_ok_def acct_ok_def queuedJobs_def chunksQueued_def split: option.split)
    have "0 \<le> payloadBytes job" by simp
    moreover have "row_queueBytes (ws_writer s) + payloadBytes job \<le> 2 * relayOutboundQueueBytes"
      using ok Written by (simp add: core_ok_def total_bytes_def)
    ultimately have "row_queueBytes (ws_writer s) \<le> 2 * relayOutboundQueueBytes" by linarith
    then have "core_ok (s\<lparr>ws_writer := completeBulkGroup job (ws_writer s), ws_hand := Idle, ws_conns := x, ws_done := y\<rparr>)" for x y
      using ok Written by (simp add: core_ok_def w plainBulkTaken_def total_bytes_def)
    then show ?thesis using Written True core_close by (simp add: finishRound_def Let_def)
  qed
qed (use ok in simp_all)

lemma core_stop: "core_ok s \<Longrightarrow> core_ok (writerStep s OStop)"
  by (simp add: core_ok_def writer_close_def queues_ok_def acct_ok_def queuedJobs_def chunksQueued_def plainBulkTaken_def)

lemma core_fail: "core_ok s \<Longrightarrow> core_ok (writerStep s OFail)"
  by (simp add: core_ok_def failAll_def failQueued_def queues_ok_def acct_ok_def queuedJobs_def total_bytes_def
      allClasses_def relayOutboundQueueFrames_def relayOutboundQueueBytes_def)

lemma core_step: "core_ok s \<Longrightarrow> core_ok (writerStep s op)"
proof (cases "writerOp op")
  case False
  assume "core_ok s"
  then show ?thesis using caller_step [OF False, of s] core_quiet core_plain core_bulk by blast
next
  case True
  assume "core_ok s"
  then show ?thesis using True core_pop core_write core_finish core_stop core_fail
    by (cases op) (simp_all only: writerOp_def WriterOp.case)
qed

interpretation wm: guarded_machine writerStep core_ok
  by unfold_locales (rule core_step)

lemma core_new: "core_ok (newWriterSys conns)"
  by (simp add: core_ok_def newWriterSys_def newRelayOutboundWriter_def queues_ok_def acct_ok_def queuedJobs_def allClasses_def
      total_bytes_def chunksQueued_def plainBulkTaken_def relayOutboundQueueFrames_def relayOutboundQueueBytes_def)

end
