(* ===== verification/Bulk_Delivery.thy ===== *)
theory Bulk_Delivery
  imports Writer_Accounting
begin

text \<open>
  What the relay writer delivers: every admitted transfer goes out as its chunks in order, a
  cancelled one not at all, and the groups of a device do not mix.
\<close>

section \<open>The transfers\<close>

definition grp :: "relayOutboundJob \<Rightarrow> string" where
  "grp job = rcc_groupID (the (roj_cursor job))"

definition idx :: "relayOutboundJob \<Rightarrow> nat" where
  "idx job = rcc_nextIndex (the (roj_cursor job))"

definition atIndex :: "nat \<Rightarrow> relayOutboundJob \<Rightarrow> relayOutboundJob" where
  "atIndex n a = a\<lparr>roj_cursor := Some ((the (roj_cursor a))\<lparr>rcc_nextIndex := n\<rparr>)\<rparr>"

definition liveJobs :: "WriterSys \<Rightarrow> relayOutboundJob list" where
  "liveJobs s = filter isChunk (row_queues (ws_writer s) relayOutboundBulk @ handJobs (ws_hand s))"

definition inGroup :: "string \<Rightarrow> sentFrame \<Rightarrow> bool" where
  "inGroup g f = (case sf_chunk f of None \<Rightarrow> False | Some m \<Rightarrow> rcm_GroupID m = g)"

definition framesOf :: "string \<Rightarrow> WriterSys \<Rightarrow> sentFrame list" where
  "framesOf g s = filter (inGroup g) (ws_sent s)"

definition chunkOf :: "relayOutboundJob \<Rightarrow> nat \<Rightarrow> sentFrame" where
  "chunkOf a i = chunkFrame a (the (roj_cursor a)) i"

definition countOf :: "relayOutboundJob \<Rightarrow> nat" where
  "countOf a = rcc_count (the (roj_cursor a))"

text \<open>The chunks of a device in the order they were written, as group and index.\<close>

definition chunkLog :: "string \<Rightarrow> WriterSys \<Rightarrow> (string \<times> nat) list" where
  "chunkLog dev s = map (\<lambda>f. (rcm_GroupID (the (sf_chunk f)), rcm_Index (the (sf_chunk f))))
     (filter (\<lambda>f. sf_deviceID f = dev \<and> sf_chunk f \<noteq> None) (ws_sent s))"

definition follows :: "string \<times> nat \<Rightarrow> string \<times> nat \<Rightarrow> bool" where
  "follows x y \<longleftrightarrow> snd y = 0 \<or> fst y = fst x \<and> snd y = snd x + 1"

abbreviation activeOf :: "WriterSys \<Rightarrow> string \<Rightarrow> string" where
  "activeOf s \<equiv> row_activeBulkGroupByDevice (ws_writer s)"

definition progressed :: "WriterSys \<Rightarrow> relayOutboundJob \<Rightarrow> bool" where
  "progressed s a \<longleftrightarrow> (\<exists>n\<le>countOf a. framesOf (grp a) s = map (chunkOf a) [0..<n]
     \<and> (\<forall>l\<in>set (liveJobs s). grp l = grp a \<longrightarrow> l = atIndex n a)
     \<and> (0 < n \<longrightarrow> ws_handles s (hnd a) = bulkCommitted))"

definition groups_ok :: "WriterSys \<Rightarrow> bool" where
  "groups_ok s \<longleftrightarrow> distinct (map grp (liveJobs s)) \<and> grp ` set (liveJobs s) \<subseteq> grp ` set (ws_admitted s)
   \<and> (\<forall>a\<in>set (ws_admitted s). transfer_ok a \<and> hnd a < ws_nextHandle s)
   \<and> (\<forall>f\<in>set (ws_sent s). \<forall>m. sf_chunk f = Some m \<longrightarrow> rcm_GroupID m \<in> grp ` set (ws_admitted s))"

definition active_ok :: "WriterSys \<Rightarrow> bool" where
  "active_ok s \<longleftrightarrow>
     (ws_hand s \<noteq> Exited \<longrightarrow> (\<forall>dev. activeOf s dev \<noteq> [] \<longrightarrow>
        (\<exists>l\<in>set (liveJobs s). roj_deviceID l = dev \<and> grp l = activeOf s dev)))
   \<and> (\<forall>l\<in>set (liveJobs s). 0 < idx l \<or> l \<in> set (handJobs (ws_hand s)) \<longrightarrow> activeOf s (roj_deviceID l) = grp l)"

definition log_ok :: "WriterSys \<Rightarrow> bool" where
  "log_ok s \<longleftrightarrow> (\<forall>dev. successively follows (chunkLog dev s))
   \<and> (\<forall>l\<in>set (liveJobs s). 0 < idx l \<longrightarrow>
        chunkLog (roj_deviceID l) s \<noteq> [] \<and> last (chunkLog (roj_deviceID l) s) = (grp l, idx l - 1))"

definition chunk_ok :: "WriterSys \<Rightarrow> bool" where
  "chunk_ok s \<longleftrightarrow> groups_ok s \<and> (\<forall>a\<in>set (ws_admitted s). progressed s a) \<and> active_ok s \<and> log_ok s"

lemma atIndex_fields [simp]:
  "grp (atIndex n a) = grp a" "idx (atIndex n a) = n" "hnd (atIndex n a) = hnd a" "roj_deviceID (atIndex n a) = roj_deviceID a"
  "roj_payload (atIndex n a) = roj_payload a" "isChunk (atIndex n a)" "atIndex m (atIndex n a) = atIndex m a" "countOf (atIndex n a) = countOf a"
  "chunkOf (atIndex n a) i = chunkOf a i"
  by (simp_all add: grp_def idx_def hnd_def atIndex_def countOf_def chunkOf_def chunkFrame_def chunkData_def Let_def)

lemma atIndex_same: "isChunk job \<Longrightarrow> atIndex (idx job) job = job"
  by (cases job; cases "roj_cursor job") (auto simp: atIndex_def idx_def)

lemma committed_settles:
  assumes "groups_ok s" and "a \<in> set (ws_admitted s)" and "settles (ws_nextHandle s) (ws_handles s) hs" and "ws_handles s (hnd a) = bulkCommitted"
  shows "hs (hnd a) = bulkCommitted"
  using assms by (auto simp: groups_ok_def settles_def)

text \<open>A change that keeps the live jobs, the active groups and the chunk frames keeps the invariant.\<close>

lemma chunk_same:
  assumes ok: "chunk_ok s" and live: "mset (liveJobs s') = mset (liveJobs s)" and adm: "ws_admitted s' = ws_admitted s"
    and n: "ws_nextHandle s \<le> ws_nextHandle s'" and hs: "settles (ws_nextHandle s) (ws_handles s) (ws_handles s')"
    and sent: "\<exists>fs. ws_sent s' = ws_sent s @ fs \<and> (\<forall>f\<in>set fs. sf_chunk f = None)"
    and act: "active_ok s'"
  shows "chunk_ok s'"
proof -
  obtain fs where fs: "ws_sent s' = ws_sent s @ fs" "\<forall>f\<in>set fs. sf_chunk f = None" using sent by blast
  have set: "set (liveJobs s') = set (liveJobs s)" using live by (rule mset_eq_setD)
  have "distinct (map grp (liveJobs s')) = distinct (map grp (liveJobs s))"
    using live by (metis mset_eq_imp_distinct_iff mset_map)
  then have "groups_ok s'" using ok fs n set adm unfolding chunk_ok_def groups_ok_def by fastforce
  moreover have F: "framesOf g s' = framesOf g s" for g
    using fs by (auto simp: framesOf_def inGroup_def filter_empty_conv)
  have L: "chunkLog dev s' = chunkLog dev s" for dev using fs by (auto simp: chunkLog_def filter_empty_conv)
  have "progressed s' a" if a: "a \<in> set (ws_admitted s)" for a
    using ok a committed_settles [OF _ a hs] unfolding chunk_ok_def progressed_def F set by blast
  moreover have "log_ok s'" using ok unfolding chunk_ok_def log_ok_def L set by blast
  ultimately show ?thesis using act adm by (simp add: chunk_ok_def)
qed

lemma chunk_around:
  assumes "chunk_ok s" and A: "around w [] s s'" and "filter isChunk (row_queues w relayOutboundBulk) = filter isChunk (row_queues (ws_writer s) relayOutboundBulk)"
    and "row_activeBulkGroupByDevice w = activeOf s"
  shows "chunk_ok s'"
proof -
  have "liveJobs s' = liveJobs s" "ws_hand s' = ws_hand s" "ws_writer s' = w" using A assms(3) by (simp_all add: around_def liveJobs_def)
  moreover from this have "active_ok s'" using assms(1,4) by (simp add: chunk_ok_def active_ok_def)
  ultimately show ?thesis using A by (intro chunk_same [OF assms(1)]) (auto simp: around_def)
qed

lemma chunk_quiet: "chunk_ok s \<Longrightarrow> quietStep s s' \<Longrightarrow> chunk_ok s'"
  unfolding quietStep_def by (rule chunk_around) auto

lemma chunk_plain:
  assumes "chunk_ok s" and "plainStep s s'"
  shows "chunk_ok s'"
proof -
  obtain job where "roj_cursor job = None" and A: "around (pushJob (roj_class job) job (ws_writer s)) [] s s'"
    using assms(2) unfolding plainStep_def by blast
  then show ?thesis by (intro chunk_around [OF assms(1) A]) auto
qed

lemma chunk_bulk:
  assumes ok: "chunk_ok s" and "bulkStep s s'" and D: "distinct (map grp (ws_admitted s'))"
  shows "chunk_ok s'"
proof -
  obtain job where job: "transfer_ok job" "hnd job < ws_nextHandle s'" and A: "around (pushBulk job (ws_writer s)) [job] s s'"
    using assms(2) unfolding bulkStep_def by blast
  have A': "ws_writer s' = pushBulk job (ws_writer s)" "ws_hand s' = ws_hand s" "ws_admitted s' = ws_admitted s @ [job]"
      "ws_nextHandle s \<le> ws_nextHandle s'" "settles (ws_nextHandle s) (ws_handles s) (ws_handles s')"
      "\<exists>fs. ws_sent s' = ws_sent s @ fs \<and> (\<forall>f\<in>set fs. sf_chunk f = None)"
    using A by (simp_all add: around_def)
  then obtain fs where fs: "ws_sent s' = ws_sent s @ fs" "\<forall>f\<in>set fs. sf_chunk f = None" by blast
  have ch: "isChunk job" and i0: "idx job = 0" using job(1) by (auto simp: transfer_ok_def idx_def)
  have new: "grp job \<notin> grp ` set (ws_admitted s)" using D A'(3) by simp
  have live: "mset (liveJobs s') = add_mset job (mset (liveJobs s))" using ch A'(1,2) by (simp add: liveJobs_def)
  then have lset: "set (liveJobs s') = insert job (set (liveJobs s))" by (metis set_mset_add_mset_insert set_mset_mset)
  have sub: "grp ` set (liveJobs s) \<subseteq> grp ` set (ws_admitted s)" using ok by (simp add: chunk_ok_def groups_ok_def)
  have "mset (map grp (liveJobs s')) = mset (grp job # map grp (liveJobs s))" using live by simp
  then have "distinct (map grp (liveJobs s')) = distinct (grp job # map grp (liveJobs s))" by (rule mset_eq_imp_distinct_iff)
  then have dist: "distinct (map grp (liveJobs s'))" using ok new sub by (auto simp: chunk_ok_def groups_ok_def)
  have G: "groups_ok s'" unfolding groups_ok_def
  proof (intro conjI ballI allI impI)
    show "distinct (map grp (liveJobs s'))" by (rule dist)
    show "grp ` set (liveJobs s') \<subseteq> grp ` set (ws_admitted s')" using sub lset A'(3) by auto
    fix a assume "a \<in> set (ws_admitted s')"
    then have "a = job \<or> a \<in> set (ws_admitted s)" using A'(3) by auto
    then show "transfer_ok a" "hnd a < ws_nextHandle s'"
      using ok job A'(4) by (auto simp: chunk_ok_def groups_ok_def intro: order_less_le_trans)
  next
    fix f m assume f: "f \<in> set (ws_sent s')" "sf_chunk f = Some m"
    then have "f \<in> set (ws_sent s)" using fs by auto
    then show "rcm_GroupID m \<in> grp ` set (ws_admitted s')"
      using ok f(2) A'(3) by (auto simp: chunk_ok_def groups_ok_def)
  qed
  have F: "framesOf g s' = framesOf g s" for g using fs by (auto simp: framesOf_def inGroup_def filter_empty_conv)
  have L: "chunkLog dev s' = chunkLog dev s" for dev using fs by (auto simp: chunkLog_def filter_empty_conv)
  have "progressed s' a" if a: "a \<in> set (ws_admitted s)" for a
    using ok a committed_settles [OF _ a A'(5)] new unfolding chunk_ok_def progressed_def F lset by blast
  moreover have "progressed s' job"
  proof -
    have "framesOf (grp job) s = []" using ok new
      by (auto simp: framesOf_def filter_empty_conv inGroup_def chunk_ok_def groups_ok_def split: option.splits)
    moreover have "l = atIndex 0 job" if "l \<in> set (liveJobs s')" "grp l = grp job" for l
    proof -
      have "grp l \<in> grp ` set (liveJobs s) \<Longrightarrow> False" using that(2) sub new by auto
      then have "l = job" using that(1) lset by auto
      then show ?thesis using atIndex_same [OF ch] i0 by simp
    qed
    ultimately show ?thesis unfolding progressed_def F by (intro exI [of _ 0]) simp
  qed
  moreover have "log_ok s'" using ok i0 unfolding chunk_ok_def log_ok_def L lset by auto
  moreover have "active_ok s'"
  proof -
    have "job \<notin> set (handJobs (ws_hand s))"
    proof
      assume "job \<in> set (handJobs (ws_hand s))"
      then have "job \<in> set (liveJobs s)" using ch by (simp add: liveJobs_def)
      then show False using sub new by blast
    qed
    then show ?thesis using ok i0 unfolding chunk_ok_def active_ok_def lset A'(1,2) by auto
  qed
  ultimately show ?thesis using G A'(3) by (simp add: chunk_ok_def)
qed

subsection \<open>The goroutine on transfers\<close>

lemma live_unique:
  assumes "groups_ok s" and "l \<in> set (liveJobs s)" and "l' \<in> set (liveJobs s)" and "grp l = grp l'"
  shows "l = l'"
  using assms inj_onD [of grp "set (liveJobs s)" l l'] by (auto simp: groups_ok_def distinct_map)

lemma grp_nonempty: "groups_ok s \<Longrightarrow> l \<in> set (liveJobs s) \<Longrightarrow> grp l \<noteq> []"
  by (force simp: groups_ok_def transfer_ok_def grp_def)

lemma chunk_pop:
  assumes core: "core_ok s" and ok: "chunk_ok s"
  shows "chunk_ok (writerStep s OPop)"
proof (cases "ws_hand s = Idle")
  case False
  then show ?thesis using ok by (cases "ws_hand s") simp_all
next
  case idle: True
  have q: "queues_ok (ws_writer s)" using core by (simp add: core_ok_def)
  then have cur: "row_serviceCursor (ws_writer s) < 4" by (simp add: queues_ok_def)
  have keep: "chunk_ok (s\<lparr>ws_writer := (ws_writer s)\<lparr>row_serviceCursor := n\<rparr>\<rparr>)"
      "chunk_ok (s\<lparr>ws_writer := (ws_writer s)\<lparr>row_serviceCursor := n, row_controlBurst := 0\<rparr>\<rparr>)" for n
    using chunk_around [OF ok, of "(ws_writer s)\<lparr>row_serviceCursor := n\<rparr>"]
      chunk_around [OF ok, of "(ws_writer s)\<lparr>row_serviceCursor := n, row_controlBurst := 0\<rparr>"]
    by (simp_all add: around_def settles_refl)
  from cur show ?thesis
  proof (cases rule: pop_cases)
    case (empty n)
    then show ?thesis using idle keep(1) by simp
  next
    case (blocked n)
    then show ?thesis using idle keep(2) by simp
  next
    case (taken c i w')
    let ?q = "row_queues (ws_writer s) c"
    let ?job = "?q ! i"
    have T: "i < length ?q" "row_queues w' = (row_queues (ws_writer s))(c := take i ?q @ drop (Suc i) ?q)"
      using taken(2) by (simp_all add: takenState_def)
    note tq = taken_queues [OF taken(2) q taken(3)]
    let ?s = "s\<lparr>ws_writer := w', ws_hand := Popped ?job, ws_taken := ws_taken s @ [?job]\<rparr>"
    have s': "writerStep s OPop = ?s" using idle taken(1) by simp
    have chunk_bulk: "isChunk ?job \<Longrightarrow> c = relayOutboundBulk" using tq(2,3) by (simp add: job_ok_def)
    have live: "mset (liveJobs ?s) = mset (liveJobs s)"
    proof (cases "c = relayOutboundBulk")
      case True
      then have "liveJobs ?s = filter isChunk (take i ?q @ drop (Suc i) ?q) @ filter isChunk [?job]" "liveJobs s = filter isChunk ?q"
        using T(2) by (simp_all add: liveJobs_def idle)
      then show ?thesis using without_nth(5) [OF T(1), of isChunk] by (simp only:)
    next
      case False
      then have "roj_cursor ?job = None" using chunk_bulk by (cases "roj_cursor ?job") auto
      then show ?thesis using False T(2) idle by (simp add: liveJobs_def)
    qed
    then have lset: "set (liveJobs ?s) = set (liveJobs s)" by (rule mset_eq_setD)
    have G: "groups_ok s" "active_ok s" using ok by (simp_all add: chunk_ok_def)
    have act: "active_ok ?s"
    proof (cases "isChunk ?job")
      case False
      then have "row_activeBulkGroupByDevice w' = activeOf s" using taken(2) by (simp add: takenState_def)
      moreover have "?job \<notin> set (liveJobs s)" using False by (simp add: liveJobs_def)
      ultimately show ?thesis using G(2) idle unfolding active_ok_def lset by auto
    next
      case True
      let ?dev = "roj_deviceID ?job"
      have jl: "?job \<in> set (liveJobs s)" using True chunk_bulk T(1) by (simp add: liveJobs_def)
      obtain cur where cur: "roj_cursor ?job = Some cur" using True by blast
      have "row_activeBulkGroupByDevice w' = (if activeOf s ?dev = [] then (activeOf s)(?dev := grp ?job) else activeOf s)"
        and "bulkEligible (ws_writer s) ?job"
        using taken(2) cur chunk_bulk [OF True] by (simp_all add: takenState_def grp_def)
      moreover have el: "activeOf s ?dev = [] \<or> activeOf s ?dev = grp ?job"
        using calculation(2) cur by (simp add: bulkEligible_def grp_def Let_def)
      ultimately have w': "row_activeBulkGroupByDevice w' = (activeOf s)(?dev := grp ?job)" by auto
      have idxs: "activeOf s (roj_deviceID l) = grp l" if "l \<in> set (liveJobs s)" "0 < idx l" for l
        using G(2) that unfolding active_ok_def by blast
      show ?thesis unfolding active_ok_def lset
      proof (intro conjI impI allI ballI)
        fix dev assume "activeOf ?s dev \<noteq> []"
        then show "\<exists>l\<in>set (liveJobs s). roj_deviceID l = dev \<and> grp l = activeOf ?s dev"
          using G(2) jl w' idle unfolding active_ok_def by (cases "dev = ?dev") auto
      next
        fix l assume l: "l \<in> set (liveJobs s)" "0 < idx l \<or> l \<in> set (handJobs (ws_hand ?s))"
        show "activeOf ?s (roj_deviceID l) = grp l"
        proof (cases "l = ?job")
          case False
          then have "activeOf s (roj_deviceID l) = grp l" using l idxs by simp
          then show ?thesis using w' el grp_nonempty [OF G(1) l(1)] by auto
        qed (simp add: w')
      qed
    qed
    show ?thesis unfolding s' by (rule chunk_same [OF ok live _ _ _ _ act]) (simp_all add: settles_refl)
  qed
qed

lemma writeSelected_cases:
  assumes W: "writeSelected now ok rc job hs = (err, complete, job', hs', frames)"
  obtains (still) "job' = job" "\<forall>f\<in>set frames. sf_chunk f = None"
  | (chunk) "isChunk job" "job' = atIndex (idx job + 1) job" "frames = [chunkOf job (idx job)]"
      "idx job * rcc_chunkBytes (the (roj_cursor job)) < length (roj_payload job)"
      "idx job = 0 \<Longrightarrow> hs' (hnd job) = bulkCommitted" "complete \<longleftrightarrow> countOf job \<le> idx job + 1"
proof (cases "job' = job \<and> (\<forall>f\<in>set frames. sf_chunk f = None)")
  case True
  then show thesis using still by blast
next
  case False
  show thesis
  proof (rule chunk)
    show "isChunk job" using W False by (auto simp: writeSelected_def split: option.splits if_splits)
    then obtain cur where cur: "roj_cursor job = Some cur" by blast
    show "job' = atIndex (idx job + 1) job" "frames = [chunkOf job (idx job)]"
      "idx job * rcc_chunkBytes (the (roj_cursor job)) < length (roj_payload job)" "complete \<longleftrightarrow> countOf job \<le> idx job + 1"
      using W False cur by (auto simp: writeSelected_def Let_def atIndex_def idx_def chunkOf_def countOf_def split: if_splits prod.splits)
    show "hs' (hnd job) = bulkCommitted" if "idx job = 0"
      using W False cur that by (auto simp: writeSelected_def Let_def idx_def hnd_def MarkIndex0Committed_def split: if_splits prod.splits)
  qed
qed

lemma chunkBytes_pos: "0 < chunkBytesFor n"
  by (simp add: chunkBytesFor_def Let_def relayChunkMinimumBytes_def relayChunkTargetBytes_def)

lemma chunk_within:
  assumes "i * chunkBytesFor n < n"
  shows "i < chunkCountFor n"
proof -
  let ?b = "chunkBytesFor n"
  have "(i + 1) * ?b \<le> n + ?b - 1" using assms by simp
  then have "(i + 1) \<le> (n + ?b - 1) div ?b" using chunkBytes_pos [of n] by (simp add: less_eq_div_iff_mult_less_eq)
  then show ?thesis by (simp add: chunkCountFor_def)
qed

text \<open>One chunk more of the job in hand.\<close>

lemma chunk_advance:
  assumes ok: "chunk_ok s" and hand: "ws_hand s = Popped job" and ch: "isChunk job"
    and s': "s' = s\<lparr>ws_handles := hs, ws_sent := ws_sent s @ [chunkOf job (idx job)], ws_hand := Written (atIndex (idx job + 1) job) err complete\<rparr>"
    and hs: "settles (ws_nextHandle s) (ws_handles s) hs" and commit: "idx job = 0 \<Longrightarrow> hs (hnd job) = bulkCommitted"
    and within: "idx job * rcc_chunkBytes (the (roj_cursor job)) < length (roj_payload job)"
  shows "chunk_ok s'"
proof -
  let ?n = "idx job" and ?job' = "atIndex (idx job + 1) job"
  define R where "R = filter isChunk (row_queues (ws_writer s) relayOutboundBulk)"
  have G: "groups_ok s" "active_ok s" "log_ok s" and P: "\<And>a. a \<in> set (ws_admitted s) \<Longrightarrow> progressed s a" using ok by (simp_all add: chunk_ok_def)
  have live: "liveJobs s = R @ [job]" using ch hand by (simp add: liveJobs_def R_def)
  have live': "liveJobs s' = R @ [?job']" using atIndex_fields(6) [of "idx job + 1" job] by (simp add: s' liveJobs_def R_def)
  have "distinct (map grp (R @ [job]))" using G(1) by (simp only: groups_ok_def live)
  then have "grp job \<notin> grp ` set R" by simp
  then have others: "grp l \<noteq> grp job" if "l \<in> set R" for l using that by (metis imageI)
  have adm: "ws_admitted s' = ws_admitted s" "ws_nextHandle s' = ws_nextHandle s" "ws_writer s' = ws_writer s" by (simp_all add: s')
  have meta: "sf_chunk (chunkOf job ?n) = Some \<lparr>rcm_GroupID = grp job, rcm_Index = ?n, rcm_Count = countOf job,
      rcm_BulkCorrelationID = rcc_bulkCorrelationID (the (roj_cursor job))\<rparr>" "sf_deviceID (chunkOf job ?n) = roj_deviceID job"
    by (simp_all add: chunkOf_def chunkFrame_def grp_def countOf_def)
  have G': "groups_ok s'"
  proof -
    have "grp job \<in> grp ` set (ws_admitted s)" using G(1) by (auto simp: groups_ok_def live)
    then show ?thesis using G(1) meta(1) unfolding groups_ok_def live live' adm by (auto simp: s')
  qed
  have F: "framesOf g s' = framesOf g s @ (if g = grp job then [chunkOf job ?n] else [])" for g
    by (simp add: framesOf_def s' inGroup_def meta)
  have "progressed s' a" if a: "a \<in> set (ws_admitted s)" for a
  proof (cases "grp a = grp job")
    case False
    then show ?thesis using P [OF a] committed_settles [OF G(1) a hs] unfolding progressed_def F live live' by (auto simp: s')
  next
    case True
    have "job \<in> set (liveJobs s)" by (simp add: live)
    then obtain n where n: "n \<le> countOf a" "framesOf (grp a) s = map (chunkOf a) [0..<n]" "job = atIndex n a"
        "0 < n \<longrightarrow> ws_handles s (hnd a) = bulkCommitted"
      using P [OF a] True unfolding progressed_def by metis
    have t: "transfer_ok a" using G(1) a by (simp add: groups_ok_def)
    then have "rcc_chunkBytes (the (roj_cursor job)) = chunkBytesFor (length (roj_payload job))"
      by (auto simp: n(3) transfer_ok_def atIndex_def)
    then have "n < chunkCountFor (length (roj_payload a))" using within chunk_within by (simp add: n(3))
    then have "Suc n \<le> countOf a" using t by (auto simp: transfer_ok_def countOf_def)
    moreover have "framesOf (grp a) s' = map (chunkOf a) [0..<Suc n]" using n(2) by (simp add: F n(3))
    moreover have "ws_handles s' (hnd a) = bulkCommitted"
      using commit n(4) committed_settles [OF G(1) a hs] by (cases "n = 0") (simp_all add: n(3) s')
    moreover have "\<forall>l\<in>set (liveJobs s'). grp l = grp a \<longrightarrow> l = atIndex (Suc n) a"
    proof (intro ballI impI)
      fix l assume l: "l \<in> set (liveJobs s')" "grp l = grp a"
      then have "l \<in> set R \<or> l = ?job'" unfolding live' by auto
      moreover have "grp l = grp job" using l(2) True by (rule trans)
      ultimately have "l = ?job'" using others by blast
      then show "l = atIndex (Suc n) a" by (simp add: n(3))
    qed
    ultimately show ?thesis unfolding progressed_def by blast
  qed
  moreover have act: "activeOf s (roj_deviceID job) = grp job" using G(2) by (simp add: active_ok_def live hand)
  moreover have "active_ok s'"
  proof -
    have nx: "ws_hand s \<noteq> Exited" and hand': "handJobs (ws_hand s') = [?job']" using hand by (simp_all add: s')
    have "activeOf s' = activeOf s" by (simp add: s')
    moreover have "\<exists>l\<in>set (liveJobs s'). roj_deviceID l = dev \<and> grp l = activeOf s dev" if d: "activeOf s dev \<noteq> []" for dev
    proof -
      obtain l where "l \<in> set (liveJobs s)" "roj_deviceID l = dev" "grp l = activeOf s dev"
        using d G(2) nx unfolding active_ok_def by blast
      then show ?thesis by (auto simp: live live')
    qed
    moreover have "activeOf s (roj_deviceID l) = grp l" if "l \<in> set (liveJobs s')" "0 < idx l \<or> l \<in> set (handJobs (ws_hand s'))" for l
      using that act G(2) unfolding live' hand' active_ok_def live by auto
    ultimately show ?thesis by (simp add: active_ok_def)
  qed
  moreover have "log_ok s'"
  proof -
    have L: "chunkLog dev s' = chunkLog dev s @ (if dev = roj_deviceID job then [(grp job, ?n)] else [])" for dev
      by (simp add: chunkLog_def s' meta)
    have "0 < ?n \<Longrightarrow> chunkLog (roj_deviceID job) s \<noteq> [] \<and> last (chunkLog (roj_deviceID job) s) = (grp job, ?n - 1)"
      using G(3) by (simp add: log_ok_def live)
    then have "successively follows (chunkLog dev s')" for dev
      using G(3) by (cases "?n = 0") (auto simp: L log_ok_def successively_append_iff follows_def)
    moreover have "roj_deviceID l \<noteq> roj_deviceID job" if "l \<in> set R" "0 < idx l" for l
    proof
      assume d: "roj_deviceID l = roj_deviceID job"
      have "activeOf s (roj_deviceID l) = grp l" using G(2) that by (auto simp: active_ok_def live)
      then show False using act d others [OF that(1)] by simp
    qed
    ultimately show ?thesis using G(3) unfolding log_ok_def live live' L by auto
  qed
  ultimately show ?thesis using G' adm(1) by (simp add: chunk_ok_def)
qed

lemma chunk_write:
  assumes ok: "chunk_ok s"
  shows "chunk_ok (writerStep s (OWrite now b))"
proof (cases "ws_hand s")
  case (Popped job)
  obtain err complete job' hs frames where W: "writeSelected now b (ws_conns s (roj_conn job)) job (ws_handles s) = (err, complete, job', hs, frames)"
    by (metis prod_cases5)
  let ?s = "s\<lparr>ws_handles := hs, ws_sent := ws_sent s @ frames, ws_hand := Written job' err complete\<rparr>"
  have s': "writerStep s (OWrite now b) = ?s" using Popped W by simp
  have hs: "settles (ws_nextHandle s) (ws_handles s) hs" by (rule writeSelected_job(5) [OF W])
  from W show ?thesis
  proof (cases rule: writeSelected_cases)
    case still
    then have live: "liveJobs ?s = liveJobs s" using Popped by (simp add: liveJobs_def)
    have "active_ok ?s" using ok Popped still(1) unfolding active_ok_def live chunk_ok_def by simp
    then show ?thesis unfolding s' using live hs still(2) by (intro chunk_same [OF ok]) auto
  next
    case chunk
    show ?thesis unfolding s' chunk(2,3)
      by (rule chunk_advance [OF ok Popped chunk(1) _ hs chunk(5) chunk(4)]) simp_all
  qed
qed (use ok in simp_all)

lemma completeBulk_fields [simp]:
  "row_queues (completeBulkGroup job w) = row_queues w"
  by (simp add: completeBulkGroup_def split: option.split)

text \<open>A transfer that is over gives its device free.\<close>

lemma chunk_leave:
  assumes ok: "chunk_ok s" and hand: "ws_hand s = Written job err complete"
  shows "chunk_ok (s\<lparr>ws_writer := completeBulkGroup job (ws_writer s), ws_hand := Idle, ws_conns := x, ws_done := y\<rparr>)" (is "chunk_ok ?s")
proof -
  define R where "R = filter isChunk (row_queues (ws_writer s) relayOutboundBulk)"
  have G: "groups_ok s" "active_ok s" "log_ok s" and P: "\<And>a. a \<in> set (ws_admitted s) \<Longrightarrow> progressed s a" using ok by (simp_all add: chunk_ok_def)
  have live: "liveJobs s = R @ filter isChunk [job]" "liveJobs ?s = R" by (simp_all add: liveJobs_def R_def hand)
  have F: "framesOf g ?s = framesOf g s" "chunkLog dev ?s = chunkLog dev s" for g dev by (simp_all add: framesOf_def chunkLog_def)
  have "groups_ok ?s" using G(1) unfolding groups_ok_def live by auto
  moreover have "progressed ?s a" if "a \<in> set (ws_admitted s)" for a
    using P [OF that] unfolding progressed_def F live by auto
  moreover have "log_ok ?s" using G(3) unfolding log_ok_def F live by auto
  moreover have "active_ok ?s"
  proof (cases "roj_cursor job")
    case None
    then show ?thesis using G(2) hand unfolding active_ok_def live by (simp add: completeBulkGroup_def)
  next
    case (Some cur)
    let ?dev = "roj_deviceID job"
    have act: "activeOf s ?dev = grp job" using G(2) Some by (simp add: active_ok_def live hand)
    have new: "activeOf ?s = (activeOf s)(?dev := [])" using act Some by (simp add: completeBulkGroup_def grp_def)
    have ne: "l \<in> set R \<Longrightarrow> grp l \<noteq> grp job" for l using G(1) Some unfolding groups_ok_def live by (auto simp: image_iff)
    have "\<exists>l\<in>set R. roj_deviceID l = dev \<and> grp l = activeOf s dev" if d: "activeOf s dev \<noteq> []" "dev \<noteq> ?dev" for dev
    proof -
      have "ws_hand s \<noteq> Exited" using hand by simp
      then obtain l where "l \<in> set (liveJobs s)" "roj_deviceID l = dev" "grp l = activeOf s dev"
        using d G(2) unfolding active_ok_def by blast
      then show ?thesis using d Some by (auto simp: live)
    qed
    moreover have "activeOf s (roj_deviceID l) = grp l \<and> roj_deviceID l \<noteq> ?dev" if "l \<in> set R" "0 < idx l" for l
    proof -
      have "activeOf s (roj_deviceID l) = grp l" using G(2) that unfolding active_ok_def live by auto
      then show ?thesis using act ne [OF that(1)] by auto
    qed
    ultimately show ?thesis unfolding active_ok_def live new by auto
  qed
  ultimately show ?thesis by (simp add: chunk_ok_def)
qed

lemma chunk_finish:
  assumes core: "core_ok s" and ok: "chunk_ok s"
  shows "chunk_ok (writerStep s OFinish)"
proof (cases "ws_hand s")
  case (Written job err complete)
  show ?thesis
  proof (cases complete)
    case True
    show ?thesis using chunk_leave [OF ok Written] chunk_quiet [OF _ quiet_close] Written True
      by (simp add: finishRound_def Let_def)
  next
    case False
    let ?s = "s\<lparr>ws_writer := requeueBulk job (ws_writer s), ws_hand := Idle\<rparr>"
    have "isChunk job" using core Written False by (simp add: core_ok_def)
    then have live: "liveJobs ?s = liveJobs s" using Written by (simp add: liveJobs_def requeueBulk_def)
    have "active_ok ?s" using ok Written unfolding active_ok_def live chunk_ok_def by (simp add: requeueBulk_def)
    then have "chunk_ok ?s" using live by (intro chunk_same [OF ok]) (auto simp: settles_refl)
    then show ?thesis using Written False by (simp add: finishRound_def)
  qed
qed (use ok in simp_all)

lemma chunk_stop: "chunk_ok s \<Longrightarrow> chunk_ok (writerStep s OStop)"
  using chunk_around [of s "writer_close (ws_writer s)" "writerStep s OStop"] by (simp add: around_def settles_refl writer_close_def)

lemma chunk_fail:
  assumes ok: "chunk_ok s"
  shows "chunk_ok (writerStep s OFail)"
proof (cases "ws_hand s = Idle \<and> row_stopped (ws_writer s)")
  case True
  have "row_queues (failQueued w) = (\<lambda>_. [])" for w by (simp add: failQueued_def)
  then have live: "liveJobs (failAll s) = []" by (simp add: liveJobs_def failAll_def)
  have f: "ws_admitted (failAll s) = ws_admitted s" "ws_nextHandle (failAll s) = ws_nextHandle s" "ws_sent (failAll s) = ws_sent s"
      "ws_hand (failAll s) = Exited" "settles (ws_nextHandle s) (ws_handles s) (ws_handles (failAll s))"
    by (simp_all add: failAll_def settles_cancels settles_refl)
  have F: "framesOf g (failAll s) = framesOf g s" "chunkLog dev (failAll s) = chunkLog dev s" for g dev
    by (simp_all add: framesOf_def chunkLog_def f)
  have "groups_ok (failAll s)" using ok unfolding chunk_ok_def groups_ok_def live f by simp
  moreover have "progressed (failAll s) a" if "a \<in> set (ws_admitted s)" for a
    using ok that committed_settles [OF _ that f(5)] unfolding chunk_ok_def progressed_def F live by auto
  moreover have "active_ok (failAll s)" "log_ok (failAll s)"
    using ok unfolding chunk_ok_def active_ok_def log_ok_def F live f by simp_all
  ultimately show ?thesis using True by (simp add: chunk_ok_def f)
qed (use ok in auto)

definition good_sys :: "WriterSys \<Rightarrow> bool" where
  "good_sys s \<longleftrightarrow> core_ok s \<and> (distinct (map grp (ws_admitted s)) \<longrightarrow> chunk_ok s)"

lemma admitted_caller:
  assumes "\<not> writerOp op"
  shows "\<exists>l. ws_admitted (writerStep s op) = ws_admitted s @ l"
  using caller_step [OF assms, of s] by (auto simp: step_defs around_def)

lemma admitted_goroutine:
  assumes "writerOp op"
  shows "ws_admitted (writerStep s op) = ws_admitted s"
  using assms
  by (cases op) (simp_all add: writerOp_def finishRound_def failAll_def closeConn_def RelayDeviceConn_Close_def Let_def split: writerHand.split prod.split option.split)

lemma good_step:
  assumes good: "good_sys s"
  shows "good_sys (writerStep s op)"
proof -
  have core: "core_ok s" using good by (simp add: good_sys_def)
  have "chunk_ok (writerStep s op)" if D: "distinct (map grp (ws_admitted (writerStep s op)))"
  proof (cases "writerOp op")
    case False
    then have "distinct (map grp (ws_admitted s))" using admitted_caller [OF False, of s] D by auto
    then have "chunk_ok s" using good by (simp add: good_sys_def)
    then show ?thesis using caller_step [OF False, of s] chunk_quiet chunk_plain chunk_bulk D by blast
  next
    case True
    then have "chunk_ok s" using good D admitted_goroutine [OF True, of s] by (simp add: good_sys_def)
    then show ?thesis using True core chunk_pop chunk_write chunk_finish chunk_stop chunk_fail
      by (cases op) (simp_all only: writerOp_def WriterOp.case)
  qed
  then show ?thesis using core_step [OF core] by (simp add: good_sys_def)
qed

interpretation gs: guarded_machine writerStep good_sys
  by unfold_locales (rule good_step)

lemma good_new: "good_sys (newWriterSys conns)"
proof -
  have "chunk_ok (newWriterSys conns)"
    by (simp add: chunk_ok_def newWriterSys_def newRelayOutboundWriter_def groups_ok_def active_ok_def log_ok_def liveJobs_def chunkLog_def)
  then show ?thesis by (simp add: good_sys_def core_new)
qed

section \<open>What is delivered\<close>

abbreviation reached :: "(nat \<Rightarrow> RelayDeviceConn) \<Rightarrow> WriterOp list \<Rightarrow> WriterSys" where
  "reached conns ops \<equiv> run writerStep (newWriterSys conns) ops"

lemma reached_good: "good_sys (reached conns ops)"
  by (rule gs.run_good [OF good_new])

lemma chunkData_eq: "chunkData job b i = take b (drop (i * b) (roj_payload job))"
  by (simp add: chunkData_def Let_def)

lemma concat_chunks: "concat (map (chunkData job b) [0..<n]) = take (n * b) (roj_payload job)"
  by (induction n) (simp_all add: chunkData_eq take_add add.commute [of b])

lemma chunks_cover: "n \<le> chunkCountFor n * chunkBytesFor n"
proof -
  let ?b = "chunkBytesFor n"
  have "n + ?b - 1 < (n + ?b - 1) div ?b * ?b + ?b"
    using chunkBytes_pos [of n] by (metis add.commute add_less_cancel_left div_mult_mod_eq mod_less_divisor)
  then show ?thesis using chunkBytes_pos [of n] unfolding chunkCountFor_def by linarith
qed

lemma chunk_frames_data:
  assumes "transfer_ok a"
  shows "concat (map (\<lambda>i. sf_data (chunkOf a i)) [0..<n]) = take (n * chunkBytesFor (length (roj_payload a))) (roj_payload a)"
proof -
  have "(\<lambda>i. sf_data (chunkOf a i)) = chunkData a (chunkBytesFor (length (roj_payload a)))"
    using assms by (auto simp: chunkOf_def chunkFrame_def transfer_ok_def)
  then show ?thesis by (simp only: concat_chunks)
qed

text \<open>
  C2: after any history in which the random group names did not collide, the chunk frames of an
  admitted transfer are its first chunks, in order, each once; their data is a prefix of the payload,
  and the whole payload when all chunks are out.  A transfer whose handle was cancelled has sent
  nothing.
\<close>

theorem transfers_in_order:
  assumes "distinct (map grp (ws_admitted (reached conns ops)))" and "a \<in> set (ws_admitted (reached conns ops))"
  shows "\<exists>n\<le>countOf a.
      framesOf (grp a) (reached conns ops) = map (chunkOf a) [0..<n]
    \<and> concat (map sf_data (framesOf (grp a) (reached conns ops)))
        = take (n * chunkBytesFor (length (roj_payload a))) (roj_payload a)
    \<and> (n = countOf a \<longrightarrow> concat (map sf_data (framesOf (grp a) (reached conns ops))) = roj_payload a)
    \<and> (Handle_Cancelled (ws_handles (reached conns ops) (hnd a)) \<longrightarrow> n = 0)"
proof -
  have ok: "chunk_ok (reached conns ops)" using reached_good assms(1) by (simp add: good_sys_def)
  have t: "transfer_ok a" using ok assms(2) by (simp add: chunk_ok_def groups_ok_def)
  obtain n where n: "n \<le> countOf a" "framesOf (grp a) (reached conns ops) = map (chunkOf a) [0..<n]"
      "0 < n \<longrightarrow> ws_handles (reached conns ops) (hnd a) = bulkCommitted"
    using ok assms(2) unfolding chunk_ok_def progressed_def by blast
  have "concat (map sf_data (framesOf (grp a) (reached conns ops)))
      = take (n * chunkBytesFor (length (roj_payload a))) (roj_payload a)"
    using chunk_frames_data [OF t] by (simp add: n(2) comp_def)
  moreover have "countOf a = chunkCountFor (length (roj_payload a))" using t by (auto simp: transfer_ok_def countOf_def)
  ultimately show ?thesis using n chunks_cover [of "length (roj_payload a)"]
    by (intro exI [of _ n]) (auto simp: Handle_Cancelled_def)
qed

text \<open>
  The chunk frames a device receives never mix two groups: every chunk is the first of a group or
  the successor of the chunk before it.
\<close>

theorem groups_not_interleaved:
  assumes "distinct (map grp (ws_admitted (reached conns ops)))"
  shows "successively follows (chunkLog dev (reached conns ops))"
  using reached_good [of conns ops] assms by (auto simp: good_sys_def chunk_ok_def log_ok_def)

text \<open>
  C13: the writer does not go to sleep on work: when the goroutine finds no job, no queue holds one.
\<close>

theorem writer_never_stalls:
  assumes "distinct (map grp (ws_admitted (reached conns ops)))"
    and "ws_hand (reached conns ops) = Idle"
    and "fst (writer_pop (ws_writer (reached conns ops))) = None"
  shows "queuedJobs (ws_writer (reached conns ops)) = []"
proof -
  let ?s = "reached conns ops"
  have core: "core_ok ?s" and ok: "active_ok ?s" using reached_good [of conns ops] assms(1) by (simp_all add: good_sys_def chunk_ok_def)
  have "row_serviceCursor (ws_writer ?s) < 4" using core by (simp add: core_ok_def queues_ok_def)
  then show ?thesis
  proof (cases rule: pop_cases)
    case (empty n)
    then show ?thesis by (simp add: queuedJobs_def)
  next
    case (blocked n)
    let ?q = "row_queues (ws_writer ?s) relayOutboundBulk"
    obtain job where job: "job \<in> set ?q" using blocked(3) by (cases ?q) auto
    then have "\<not> bulkEligible (ws_writer ?s) job" using blocked(4) by blast
    then have "activeOf ?s (roj_deviceID job) \<noteq> []" by (auto simp: bulkEligible_def Let_def split: option.splits)
    moreover have "ws_hand ?s \<noteq> Exited" using assms(2) by simp
    ultimately obtain l where l: "l \<in> set (liveJobs ?s)" "roj_deviceID l = roj_deviceID job" "grp l = activeOf ?s (roj_deviceID job)"
      using ok unfolding active_ok_def by blast
    then have "l \<in> set ?q" "isChunk l" using assms(2) by (auto simp: liveJobs_def)
    moreover from this have "bulkEligible (ws_writer ?s) l" using l by (auto simp: bulkEligible_def grp_def Let_def)
    ultimately show ?thesis using blocked(4) by blast
  next
    case (taken c i w')
    then show ?thesis using assms(3) by simp
  qed
qed

section \<open>Bounded waiting\<close>

definition waits :: "relayOutboundClass \<Rightarrow> WriterSys \<Rightarrow> WriterSys \<Rightarrow> bool" where
  "waits c s s' \<longleftrightarrow> (\<exists>new. ws_taken s' = ws_taken s @ new \<and>
     ((\<exists>job\<in>set new. roj_class job = c) \<or> ws_hand s' = Exited \<and> length new \<le> 35
      \<or> row_queues (ws_writer s') c \<noteq> [] \<and> length new + waitRank c (ws_writer s') \<le> waitRank c (ws_writer s)))"

lemma waitRank_push [simp]:
  "waitRank c (pushJob x job w) = waitRank c w" "waitRank c (pushBulk job w) = waitRank c w"
  by (simp_all add: waitRank_def pushJob_def)

lemma waits_quiet:
  assumes "waits c s s'" and "ws_taken s'' = ws_taken s'" and "ws_hand s' = Exited \<Longrightarrow> ws_hand s'' = Exited"
    and "row_queues (ws_writer s') c \<noteq> [] \<Longrightarrow> row_queues (ws_writer s'') c \<noteq> []" and "waitRank c (ws_writer s'') = waitRank c (ws_writer s')"
  shows "waits c s s''"
  using assms unfolding waits_def by auto

lemma waits_caller:
  assumes "waits c s s'" and "\<not> writerOp op"
  shows "waits c s (writerStep s' op)"
proof -
  have "\<exists>w adm. around w adm s' (writerStep s' op) \<and> (row_queues (ws_writer s') c \<noteq> [] \<longrightarrow> row_queues w c \<noteq> [])
      \<and> waitRank c w = waitRank c (ws_writer s')"
    using caller_step [OF assms(2), of s'] unfolding step_defs
  proof (elim disjE exE conjE)
    fix job assume "around (pushJob (roj_class job) job (ws_writer s')) [] s' (writerStep s' op)"
    then show ?thesis by (intro exI [of _ "pushJob (roj_class job) job (ws_writer s')"] exI [of _ "[]"]) auto
  next
    fix job assume "around (pushBulk job (ws_writer s')) [job] s' (writerStep s' op)"
    then show ?thesis by (intro exI [of _ "pushBulk job (ws_writer s')"] exI [of _ "[job]"]) auto
  qed blast
  then show ?thesis by (intro waits_quiet [OF assms(1)]) (auto simp: around_def)
qed

lemma waits_pop:
  assumes W: "waits c s s'" and core: "core_ok s'" and c: "served_class c"
  shows "waits c s (writerStep s' OPop)"
proof (cases "ws_hand s' = Idle")
  case False
  then show ?thesis using W by (cases "ws_hand s'") simp_all
next
  case idle: True
  have q: "queues_ok (ws_writer s')" and "row_serviceCursor (ws_writer s') < 4" using core by (simp_all add: core_ok_def queues_ok_def)
  obtain new where new: "ws_taken s' = ws_taken s @ new" "(\<exists>job\<in>set new. roj_class job = c)
      \<or> row_queues (ws_writer s') c \<noteq> [] \<and> length new + waitRank c (ws_writer s') \<le> waitRank c (ws_writer s)"
    using W idle unfolding waits_def by auto
  from \<open>row_serviceCursor (ws_writer s') < 4\<close> show ?thesis
  proof (cases rule: pop_cases)
    case (empty n)
    then have "\<exists>job\<in>set new. roj_class job = c" using new(2) by auto
    then show ?thesis using empty(1) idle new(1) by (auto simp: waits_def)
  next
    case (blocked n)
    then have "\<exists>job\<in>set new. roj_class job = c" using new(2) c by blast
    then show ?thesis using blocked(1) idle new(1) by (auto simp: waits_def)
  next
    case (taken x i w')
    let ?job = "row_queues (ws_writer s') x ! i"
    have j: "roj_class ?job = x" by (rule taken_queues(2) [OF taken(2) q taken(3)])
    have t: "ws_taken (writerStep s' OPop) = ws_taken s @ (new @ [?job])" "ws_writer (writerStep s' OPop) = w'"
      using idle taken(1) new(1) by simp_all
    have "row_queues w' c = row_queues (ws_writer s') c" if "c \<noteq> x" using taken(2) that by (simp add: takenState_def)
    then have "(\<exists>job\<in>set (new @ [?job]). roj_class job = c)
        \<or> row_queues w' c \<noteq> [] \<and> length (new @ [?job]) + waitRank c w' \<le> waitRank c (ws_writer s)"
      using new(2) taken(4) [OF c] j by (cases "c = x") auto
    then show ?thesis unfolding waits_def t(2) by (intro exI [of _ "new @ [?job]"] conjI t(1)) blast
  qed
qed

lemma waits_step:
  assumes W: "waits c s s'" and core: "core_ok s'" "core_ok s" and c: "served_class c"
  shows "waits c s (writerStep s' op)"
proof (cases "writerOp op")
  case False
  then show ?thesis by (rule waits_caller [OF W])
next
  case True
  consider "op = OPop" | "op = OFail" "ws_hand s' = Idle \<and> row_stopped (ws_writer s')" | "op = OFail" "writerStep s' op = s'"
    | "op \<noteq> OPop" "op \<noteq> OFail" by (cases "op = OFail"; cases "ws_hand s' = Idle \<and> row_stopped (ws_writer s')") auto
  then show ?thesis
  proof cases
    case 2
    have "waitRank c (ws_writer s) \<le> 35" using core(2) c by (intro waitRank_bound) (simp_all add: core_ok_def queues_ok_def)
    then show ?thesis using W 2 unfolding waits_def by (auto simp: failAll_def)
  next
    case 4
    show ?thesis
      by (rule waits_quiet [OF W])
        (use True 4 in \<open>cases op; auto simp: writerOp_def finishRound_def requeueBulk_def closeConn_def RelayDeviceConn_Close_def
            completeBulkGroup_def writer_close_def waitRank_def Let_def pushBulk_def pushJob_def
            split: writerHand.split prod.split option.split\<close>)+
  qed (use W waits_pop [OF W core(1) c] in simp_all)
qed

text \<open>
  No class starves: of any 36 jobs taken while an interactive, metadata or normal job waits, one
  is of that class, whatever is sent, cancelled or closed in between.
\<close>

theorem class_served_within:
  assumes "c \<in> {relayOutboundInteractive, relayOutboundMetadata, relayOutboundNormal}"
    and "row_queues (ws_writer (reached conns ops)) c \<noteq> []"
    and "length (ws_taken (reached conns (ops @ ops'))) \<ge> length (ws_taken (reached conns ops)) + 36"
  shows "\<exists>job\<in>set (drop (length (ws_taken (reached conns ops))) (ws_taken (reached conns (ops @ ops')))). roj_class job = c"
proof -
  let ?s = "reached conns ops"
  have core: "core_ok (run writerStep ?s l)" for l using reached_good [of conns "ops @ l"] by (simp add: good_sys_def)
  have "waits c ?s (run writerStep ?s ops')"
  proof (induction ops' rule: rev_induct)
    case Nil
    then show ?case using assms(2) by (simp add: waits_def)
  next
    case (snoc op l)
    then show ?case using waits_step [OF snoc.IH core core [of "[]", simplified] assms(1)] by simp
  qed
  then obtain new where new: "ws_taken (run writerStep ?s ops') = ws_taken ?s @ new"
      "(\<exists>job\<in>set new. roj_class job = c) \<or> length new \<le> 35 \<or> length new \<le> waitRank c (ws_writer ?s)"
    unfolding waits_def by auto
  have "waitRank c (ws_writer ?s) \<le> 35"
    using core [of "[]"] assms(1) by (intro waitRank_bound) (simp_all add: core_ok_def queues_ok_def)
  then show ?thesis using new assms(3) by auto
qed

text \<open>
  The queue counters are exact and the memory of the queue is bounded by the caps plus the one
  job in the goroutine's hand.  The bulk counter is not exact: it falls by one with every bulk-class
  job that was queued whole.
\<close>

theorem writer_accounting:
  "row_queueFrames (ws_writer (reached conns ops)) = int (length (queuedJobs (ws_writer (reached conns ops))))
 \<and> row_queueBytes (ws_writer (reached conns ops)) = total_bytes (queuedJobs (ws_writer (reached conns ops)))
 \<and> length (queuedJobs (ws_writer (reached conns ops))) \<le> 4097
 \<and> total_bytes (queuedJobs (ws_writer (reached conns ops))) \<le> 128 * 1048576
 \<and> (ws_hand (reached conns ops) = Exited
    \<or> row_bulkFrames (ws_writer (reached conns ops))
      = int (chunksQueued (ws_writer (reached conns ops))) - int (plainBulkTaken (reached conns ops)))"
proof -
  have ok: "core_ok (reached conns ops)" using reached_good [of conns ops] by (simp add: good_sys_def)
  then have "row_queueFrames (ws_writer (reached conns ops)) \<le> relayOutboundQueueFrames + 1"
      "row_queueBytes (ws_writer (reached conns ops)) \<le> 2 * relayOutboundQueueBytes"
    unfolding core_ok_def using total_bytes_nonneg [of "handJobs (ws_hand (reached conns ops))"] by linarith+
  then show ?thesis using ok by (auto simp: core_ok_def queues_ok_def acct_ok_def relayOutboundQueueFrames_def relayOutboundQueueBytes_def)
qed

section \<open>Runs\<close>

text \<open>A connection that chunks, a transfer of two chunks delivered whole, and thirty-seven waiting normal jobs.\<close>

definition demoConn :: RelayDeviceConn where
  "demoConn = (NewRelayDeviceConn ''d'' 1)\<lparr>rdc_hasWriter := True, rdc_outboundChunks := True\<rparr>"

definition demoJob :: "byte list \<Rightarrow> relayOutboundJob" where
  "demoJob p = \<lparr>roj_id = 1, roj_conn = 0, roj_deviceID = ''d'', roj_payload = p, roj_contentEncoding = [], roj_class = relayOutboundBulk,
     roj_admittedAt = 0, roj_cursor = Some \<lparr>rcc_groupID = ''grp_x'', rcc_nextIndex = 0, rcc_count = 2, rcc_chunkBytes = 32768, rcc_handle = 0,
       rcc_sessionID = [], rcc_sessionGeneration = 0, rcc_channelGeneration = 1, rcc_expiresAt = relayBulkCursorMaxAge,
       rcc_bulkCorrelationID = [], rcc_requestID = ''r''\<rparr>\<rparr>"

definition demoRound :: "WriterOp list" where
  "demoRound = [OPop, OWrite 0 True, OFinish]"

definition demoOps :: "byte list \<Rightarrow> WriterOp list" where
  "demoOps p = [ORegister 0 ''r'' ''get_session_messages'' [], OSendResult 1 0 ''r'' (Some p) None ''x'' None 0 True] @ demoRound @ demoRound"

lemma demo_chunks: "chunkBytesFor 40000 = 32768" "chunkCountFor 40000 = 2"
  by (simp_all add: chunkBytesFor_def chunkCountFor_def relayChunkMaximumCount_def relayChunkTargetBytes_def relayChunkMinimumBytes_def)

lemma demo_sent:
  assumes "length p = 40000"
  shows "\<exists>s. reached (\<lambda>_. demoConn) [ORegister 0 ''r'' ''get_session_messages'' [], OSendResult 1 0 ''r'' (Some p) None ''x'' None 0 True] = s
     \<and> ws_writer s = pushBulk (demoJob p) newRelayOutboundWriter \<and> ws_admitted s = [demoJob p] \<and> ws_sent s = [] \<and> ws_hand s = Idle
     \<and> ws_handles s 0 = bulkActive \<and> rdc_generation (ws_conns s 0) = 1 \<and> \<not> rdc_closed (ws_conns s 0)"
  by (simp add: demoJob_def demoConn_def NewRelayDeviceConn_def newWriterSys_def newRelayOutboundWriter_def
   onConn_def registerRequestClass_def classifyRelayRequest_def SendResult_def outboundPayload_def assms relayGzipThreshold_def
   relayChunkTargetBytes_def relayLogicalMaximumBytes_def submitBulk_def takeRequest_def Let_def bulkJob_def plainJob_def demo_chunks
   admitBulk_def payloadBytes_def relayOutboundQueueFrames_def relayOutboundQueueBytes_def relayOutboundBulkFrames_def relayOutboundBulkBytes_def
   pushBulk_def pushJob_def)


lemma demo_rounds:
  assumes "length p = 40000" and w: "ws_writer s = pushBulk (demoJob p) newRelayOutboundWriter" and "ws_sent s = []" and "ws_hand s = Idle"
    and "ws_handles s 0 = bulkActive" and "rdc_generation (ws_conns s 0) = 1" and "\<not> rdc_closed (ws_conns s 0)"
  shows "ws_sent (run writerStep s (demoRound @ demoRound)) = [chunkOf (demoJob p) 0, chunkOf (demoJob p) 1]"
    and "ws_hand (run writerStep s (demoRound @ demoRound)) = Idle"
    and "ws_admitted (run writerStep s (demoRound @ demoRound)) = ws_admitted s"
    and "fst (writer_pop (ws_writer (run writerStep s (demoRound @ demoRound)))) = None"
  by (simp_all add: assms demoRound_def pushBulk_def pushJob_def newRelayOutboundWriter_def writer_pop_def Let_def serviceOrder_def
      popClassLocked_def jobIndex_def selectBulkIndexLocked_def bulkEligible_def demoJob_def writeSelected_def MarkIndex0Committed_def
      relayBulkCursorMaxAge_def finishRound_def requeueBulk_def completeBulkGroup_def finishConn_def completeRequestBulkHandle_def chunkOf_def chunkFrame_def chunkData_def)

abbreviation demoPayload :: "byte list" where
  "demoPayload \<equiv> replicate 40000 7"

lemma transfer_run:
  "ws_sent (reached (\<lambda>_. demoConn) (demoOps demoPayload)) = [chunkOf (demoJob demoPayload) 0, chunkOf (demoJob demoPayload) 1]"
  "ws_hand (reached (\<lambda>_. demoConn) (demoOps demoPayload)) = Idle"
  "ws_admitted (reached (\<lambda>_. demoConn) (demoOps demoPayload)) = [demoJob demoPayload]"
  "fst (writer_pop (ws_writer (reached (\<lambda>_. demoConn) (demoOps demoPayload)))) = None"
proof -
  have len: "length demoPayload = 40000" by (rule length_replicate)
  obtain s where s: "reached (\<lambda>_. demoConn) [ORegister 0 ''r'' ''get_session_messages'' [], OSendResult 1 0 ''r'' (Some demoPayload) None ''x'' None 0 True] = s"
      "ws_writer s = pushBulk (demoJob demoPayload) newRelayOutboundWriter" "ws_admitted s = [demoJob demoPayload]" "ws_sent s = []" "ws_hand s = Idle"
      "ws_handles s 0 = bulkActive" "rdc_generation (ws_conns s 0) = 1" "\<not> rdc_closed (ws_conns s 0)"
    using demo_sent [OF len] by blast
  have r: "reached (\<lambda>_. demoConn) (demoOps demoPayload) = run writerStep s (demoRound @ demoRound)"
    unfolding demoOps_def run_append s(1) ..
  show "ws_sent (reached (\<lambda>_. demoConn) (demoOps demoPayload)) = [chunkOf (demoJob demoPayload) 0, chunkOf (demoJob demoPayload) 1]"
  "ws_hand (reached (\<lambda>_. demoConn) (demoOps demoPayload)) = Idle"
  "ws_admitted (reached (\<lambda>_. demoConn) (demoOps demoPayload)) = [demoJob demoPayload]"
  "fst (writer_pop (ws_writer (reached (\<lambda>_. demoConn) (demoOps demoPayload)))) = None"
    unfolding r using demo_rounds [OF len s(2,4-8)] s(3) by simp_all
qed

lemma demo_distinct: "distinct (map grp (ws_admitted (reached (\<lambda>_. demoConn) (demoOps demoPayload))))"
  by (simp add: transfer_run(3))

lemma demo_group: "grp (demoJob p) = ''grp_x''" "countOf (demoJob p) = 2" "inGroup ''grp_x'' (chunkOf (demoJob p) i)"
  "chunkLog ''d'' s = map (\<lambda>f. (rcm_GroupID (the (sf_chunk f)), rcm_Index (the (sf_chunk f)))) (filter (\<lambda>f. sf_deviceID f = ''d'' \<and> sf_chunk f \<noteq> None) (ws_sent s))"
  by (simp_all add: grp_def demoJob_def countOf_def inGroup_def chunkOf_def chunkFrame_def chunkLog_def)

theorem transfers_in_order_witness:
  "concat (map sf_data (framesOf ''grp_x'' (reached (\<lambda>_. demoConn) (demoOps demoPayload)))) = demoPayload"
proof -
  have "framesOf ''grp_x'' (reached (\<lambda>_. demoConn) (demoOps demoPayload)) = [chunkOf (demoJob demoPayload) 0, chunkOf (demoJob demoPayload) 1]"
    by (simp add: framesOf_def transfer_run(1) demo_group)
  moreover have "roj_payload (demoJob demoPayload) = demoPayload" by (simp add: demoJob_def)
  moreover have "demoJob demoPayload \<in> set (ws_admitted (reached (\<lambda>_. demoConn) (demoOps demoPayload)))" by (simp add: transfer_run(3))
  ultimately show ?thesis
    using transfers_in_order [OF demo_distinct, of "demoJob demoPayload"] by (auto simp: demo_group dest: arg_cong [of _ _ length])
qed

theorem groups_not_interleaved_witness:
  "chunkLog ''d'' (reached (\<lambda>_. demoConn) (demoOps demoPayload)) = [(''grp_x'', 0), (''grp_x'', 1)]
 \<and> successively follows (chunkLog ''d'' (reached (\<lambda>_. demoConn) (demoOps demoPayload)))"
  using groups_not_interleaved [OF demo_distinct, of "''d''"]
  by (simp add: chunkLog_def transfer_run(1) chunkOf_def chunkFrame_def demoJob_def)

theorem writer_never_stalls_witness:
  "ws_admitted (reached (\<lambda>_. demoConn) (demoOps demoPayload)) \<noteq> []
 \<and> queuedJobs (ws_writer (reached (\<lambda>_. demoConn) (demoOps demoPayload))) = []"
  using writer_never_stalls [OF demo_distinct transfer_run(2,4)] by (simp add: transfer_run(3))

definition waitOps :: "WriterOp list" where
  "waitOps = replicate 37 (OSendJSON 1 0 (Some []) None None None 0 True)"

lemma wait_run: 
  "row_queues (ws_writer (reached (\<lambda>_. demoConn) waitOps)) relayOutboundNormal \<noteq> []"
  "length (ws_taken (reached (\<lambda>_. demoConn) waitOps)) = 0"
  "length (ws_taken (reached (\<lambda>_. demoConn) (waitOps @ concat (replicate 36 demoRound)))) = 36"
  by code_simp+

theorem class_served_within_witness:
  "list_ex (\<lambda>job. roj_class job = relayOutboundNormal) (ws_taken (reached (\<lambda>_. demoConn) (waitOps @ concat (replicate 36 demoRound))))"
  using class_served_within [of relayOutboundNormal "\<lambda>_. demoConn" waitOps "concat (replicate 36 demoRound)"] wait_run
  by (simp only: list_ex_iff) (simp del: run_append)

definition progressConn :: RelayDeviceConn where
  "progressConn = demoConn\<lparr>rdc_outboundChunkProgress := True\<rparr>"



end
