(* ===== verification/Delta_Batcher.thy ===== *)
theory Delta_Batcher
  imports Bridge_Prelude
begin

text \<open>
  Batching of streamed text (\<^verbatim>\<open>go-bridge/delta_batcher.go\<close>): text and reasoning deltas are collected
  per subscription key and sent as longer deltas, other events flush their key first.

  The first part models the methods as functions that return the events they publish.  The second
  part models the goroutines: a call is a sequence of critical sections of the batcher's mutex and
  of publications, and other goroutines run between them.  The order in which Go ranges over the map
  of accumulators is an argument.  Connections are addresses; \<^verbatim>\<open>Message\<close>, \<^verbatim>\<open>ClassHint\<close>,
  \<^verbatim>\<open>CatalogGeneration\<close> and \<^verbatim>\<open>PushIntent\<close>, which the batcher does not touch, are one opaque number.
\<close>

section \<open>Data\<close>

datatype dataValue = VString string | VOther nat

datatype eventData = DataMap "(string \<times> dataValue) list" | DataOther nat

record LogicalEvent =
  le_BackendID :: string
  le_SessionID :: string
  le_Directory :: string
  le_Event :: string
  le_Data :: eventData
  le_Broadcast :: bool
  le_Targets :: "nat list"
  le_WaitTargets :: "nat list"
  le_Offline :: bool
  le_Rest :: nat

record deltaChunk =
  dc_eventType :: string
  dc_text :: string
  dc_itemID :: string
  dc_turnID :: string

record deltaAccum =
  da_backendID :: string
  da_sessionID :: string
  da_directory :: string
  da_broadcast :: bool
  da_targets :: "nat list"
  da_waitTargets :: "nat list"
  da_offline :: bool
  da_chunks :: "deltaChunk list"
  da_totalBytes :: nat

type_synonym batchKey = "string \<times> string \<times> string"
type_synonym accums = "(batchKey \<times> deltaAccum) list"

definition deltaBatchMaxPendingBytes :: nat where
  "deltaBatchMaxPendingBytes = 256 * 1024"

definition eventKey :: "LogicalEvent \<Rightarrow> batchKey" where
  "eventKey ev = (le_BackendID ev, le_SessionID ev, le_Directory ev)"

definition extractField :: "string \<Rightarrow> eventData \<Rightarrow> string" where
  "extractField name d =
     (case d of
        DataMap m \<Rightarrow> (case map_of m name of Some (VString s) \<Rightarrow> s | _ \<Rightarrow> [])
      | DataOther _ \<Rightarrow> [])"

definition extractDeltaText :: "eventData \<Rightarrow> string" where
  "extractDeltaText = extractField ''delta''"

definition extractDeltaItemID :: "eventData \<Rightarrow> string" where
  "extractDeltaItemID = extractField ''itemId''"

definition extractDeltaTurnID :: "eventData \<Rightarrow> string" where
  "extractDeltaTurnID = extractField ''turnId''"

section \<open>The methods\<close>

definition newAccum :: "LogicalEvent \<Rightarrow> deltaAccum" where
  "newAccum ev = \<lparr>da_backendID = le_BackendID ev, da_sessionID = le_SessionID ev, da_directory = le_Directory ev,
     da_broadcast = le_Broadcast ev, da_targets = le_Targets ev, da_waitTargets = le_WaitTargets ev,
     da_offline = le_Offline ev, da_chunks = [], da_totalBytes = 0\<rparr>"

definition addChunk :: "deltaChunk \<Rightarrow> deltaChunk list \<Rightarrow> deltaChunk list" where
  "addChunk c chunks =
     (if chunks \<noteq> [] \<and> dc_eventType (last chunks) = dc_eventType c \<and> dc_itemID (last chunks) = dc_itemID c
        \<and> dc_turnID (last chunks) = dc_turnID c
      then butlast chunks @ [(last chunks)\<lparr>dc_text := dc_text (last chunks) @ dc_text c\<rparr>]
      else chunks @ [c])"

definition isDelta :: "LogicalEvent \<Rightarrow> bool" where
  "isDelta ev \<longleftrightarrow> (le_Event ev = ''text_delta'' \<or> le_Event ev = ''reasoning_delta'') \<and> extractDeltaText (le_Data ev) \<noteq> []"

text \<open>The critical section of \<^verbatim>\<open>tryAccumulate\<close>, and whether the key is over its limit afterwards.\<close>

definition accumulate :: "LogicalEvent \<Rightarrow> accums \<Rightarrow> bool \<times> accums" where
  "accumulate ev m =
     (let a = (case map_of m (eventKey ev) of Some a \<Rightarrow> a | None \<Rightarrow> newAccum ev);
          text = extractDeltaText (le_Data ev);
          a1 = a\<lparr>da_chunks := addChunk \<lparr>dc_eventType = le_Event ev, dc_text = text, dc_itemID = extractDeltaItemID (le_Data ev),
                                        dc_turnID = extractDeltaTurnID (le_Data ev)\<rparr> (da_chunks a),
                 da_totalBytes := da_totalBytes a + length text\<rparr>
      in (da_totalBytes a1 \<ge> deltaBatchMaxPendingBytes, AList.update (eventKey ev) a1 m))"

definition emitChunk :: "deltaAccum \<Rightarrow> deltaChunk \<Rightarrow> LogicalEvent" where
  "emitChunk a c = \<lparr>le_BackendID = da_backendID a, le_SessionID = da_sessionID a, le_Directory = da_directory a,
     le_Event = dc_eventType c,
     le_Data = DataMap ([(''delta'', VString (dc_text c))]
       @ (if dc_itemID c \<noteq> [] then [(''itemId'', VString (dc_itemID c))] else [])
       @ (if dc_turnID c \<noteq> [] then [(''turnId'', VString (dc_turnID c))] else [])),
     le_Broadcast = da_broadcast a, le_Targets = da_targets a, le_WaitTargets = da_waitTargets a,
     le_Offline = da_offline a, le_Rest = 0\<rparr>"

definition emit :: "deltaAccum \<Rightarrow> LogicalEvent list" where
  "emit a = map (emitChunk a) (filter (\<lambda>c. dc_text c \<noteq> []) (da_chunks a))"

definition flushKey :: "batchKey \<Rightarrow> accums \<Rightarrow> LogicalEvent list \<times> accums" where
  "flushKey key m =
     (case map_of m key of None \<Rightarrow> ([], m) | Some a \<Rightarrow> (emit a, AList.delete key m))"

text \<open>The accumulators in the order the range over the map visits them.\<close>

definition visited :: "batchKey list \<Rightarrow> accums \<Rightarrow> deltaAccum list" where
  "visited order m = List.map_filter (map_of m) (remdups order) @ map snd (filter (\<lambda>(k, a). k \<notin> set order) m)"

definition FlushAll :: "batchKey list \<Rightarrow> accums \<Rightarrow> LogicalEvent list \<times> accums" where
  "FlushAll order m = (concat (map emit (visited order m)), [])"

definition Batcher_Send :: "LogicalEvent \<Rightarrow> accums \<Rightarrow> LogicalEvent list \<times> accums" where
  "Batcher_Send ev m =
     (if isDelta ev
      then (let (overflow, m') = accumulate ev m in if overflow then flushKey (eventKey ev) m' else ([], m'))
      else (let (flushed, m') = flushKey (eventKey ev) m in (flushed @ [ev], m')))"

section \<open>The goroutines\<close>

text \<open>
  What a goroutine has left to do in its current call: flush a key, which is one critical section
  followed by publications, or publish an event.
\<close>

datatype batchAction = AFlushKey batchKey | APublish LogicalEvent

record BatchSys =
  bs_accums :: accums
  bs_todo :: "batchAction list list"
  bs_published :: "LogicalEvent list"

datatype BatchOp = BSend nat LogicalEvent | BFlushAll nat "batchKey list" | BRun nat

definition newBatchSys :: "nat \<Rightarrow> BatchSys" where
  "newBatchSys goroutines = \<lparr>bs_accums = [], bs_todo = replicate goroutines [], bs_published = []\<rparr>"

definition idle :: "nat \<Rightarrow> BatchSys \<Rightarrow> bool" where
  "idle t s \<longleftrightarrow> t < length (bs_todo s) \<and> bs_todo s ! t = []"

fun batchStep :: "BatchSys \<Rightarrow> BatchOp \<Rightarrow> BatchSys" where
  "batchStep s (BSend t ev) =
     (if \<not> idle t s then s
      else if isDelta ev
      then (let (overflow, m) = accumulate ev (bs_accums s)
            in s\<lparr>bs_accums := m, bs_todo := (bs_todo s)[t := if overflow then [AFlushKey (eventKey ev)] else []]\<rparr>)
      else s\<lparr>bs_todo := (bs_todo s)[t := [AFlushKey (eventKey ev), APublish ev]]\<rparr>)"
| "batchStep s (BFlushAll t order) =
     (if \<not> idle t s then s
      else s\<lparr>bs_accums := [], bs_todo := (bs_todo s)[t := map APublish (fst (FlushAll order (bs_accums s)))]\<rparr>)"
| "batchStep s (BRun t) =
     (if t < length (bs_todo s)
      then (case bs_todo s ! t of
              [] \<Rightarrow> s
            | APublish ev # rest \<Rightarrow> s\<lparr>bs_todo := (bs_todo s)[t := rest], bs_published := bs_published s @ [ev]\<rparr>
            | AFlushKey key # rest \<Rightarrow>
                (let (flushed, m) = flushKey key (bs_accums s)
                 in s\<lparr>bs_accums := m, bs_todo := (bs_todo s)[t := map APublish flushed @ rest]\<rparr>))
      else s)"

section \<open>The stream of a key\<close>

text \<open>
  What a client sees of a key: the characters of the deltas with their attribution, and the other
  events as they are.
\<close>

datatype batchToken = TChar string string string char | TEvent LogicalEvent

definition tokens :: "LogicalEvent \<Rightarrow> batchToken list" where
  "tokens ev = (if isDelta ev
     then map (TChar (le_Event ev) (extractDeltaItemID (le_Data ev)) (extractDeltaTurnID (le_Data ev))) (extractDeltaText (le_Data ev))
     else [TEvent ev])"

definition keyTokens :: "batchKey \<Rightarrow> LogicalEvent \<Rightarrow> batchToken list" where
  "keyTokens k ev = (if eventKey ev = k then tokens ev else [])"

definition streamOf :: "batchKey \<Rightarrow> LogicalEvent list \<Rightarrow> batchToken list" where
  "streamOf k evs = concat (map (keyTokens k) evs)"

definition chunkTokens :: "deltaChunk \<Rightarrow> batchToken list" where
  "chunkTokens c = map (TChar (dc_eventType c) (dc_itemID c) (dc_turnID c)) (dc_text c)"

definition accumTokens :: "deltaAccum \<Rightarrow> batchToken list" where
  "accumTokens a = concat (map chunkTokens (da_chunks a))"

definition pendingTokens :: "batchKey \<Rightarrow> accums \<Rightarrow> batchToken list" where
  "pendingTokens k m = (case map_of m k of None \<Rightarrow> [] | Some a \<Rightarrow> accumTokens a)"

definition accum_ok :: "batchKey \<Rightarrow> deltaAccum \<Rightarrow> bool" where
  "accum_ok k a \<longleftrightarrow> (da_backendID a, da_sessionID a, da_directory a) = k
   \<and> (\<forall>c\<in>set (da_chunks a). dc_text c \<noteq> [] \<and> (dc_eventType c = ''text_delta'' \<or> dc_eventType c = ''reasoning_delta''))
   \<and> da_totalBytes a = length (accumTokens a)"

definition accums_ok :: "accums \<Rightarrow> bool" where
  "accums_ok m \<longleftrightarrow> distinct (map fst m) \<and> (\<forall>(k, a)\<in>set m. accum_ok k a)"

lemma streamOf_append [simp]: "streamOf k (xs @ ys) = streamOf k xs @ streamOf k ys"
  by (simp add: streamOf_def)

lemma streamOf_Nil [simp]: "streamOf k [] = []"
  by (simp add: streamOf_def)

lemma accums_ok_lookup: "accums_ok m \<Longrightarrow> map_of m k = Some a \<Longrightarrow> accum_ok k a"
  by (auto simp: accums_ok_def dest: map_of_SomeD)

lemma emitChunk_tokens:
  assumes "dc_text c \<noteq> []" and "dc_eventType c = ''text_delta'' \<or> dc_eventType c = ''reasoning_delta''"
  shows "tokens (emitChunk a c) = chunkTokens c"
proof -
  have "extractDeltaText (le_Data (emitChunk a c)) = dc_text c" "extractDeltaItemID (le_Data (emitChunk a c)) = dc_itemID c"
    "extractDeltaTurnID (le_Data (emitChunk a c)) = dc_turnID c"
    by (simp_all add: emitChunk_def extractDeltaText_def extractDeltaItemID_def extractDeltaTurnID_def extractField_def)
  moreover have "le_Event (emitChunk a c) = dc_eventType c" by (simp add: emitChunk_def)
  ultimately show ?thesis using assms by (auto simp: tokens_def chunkTokens_def isDelta_def)
qed

lemma emit_stream:
  assumes "accum_ok k a"
  shows "streamOf k' (emit a) = (if k' = k then accumTokens a else [])"
proof -
  have "keyTokens k' (emitChunk a c) = (if k' = k then chunkTokens c else [])" if "c \<in> set (da_chunks a)" for c
    using assms that emitChunk_tokens [of c a] by (auto simp: keyTokens_def accum_ok_def eventKey_def emitChunk_def)
  moreover have "filter (\<lambda>c. dc_text c \<noteq> []) (da_chunks a) = da_chunks a" using assms by (simp add: accum_ok_def)
  ultimately have "map (keyTokens k') (emit a) = map (\<lambda>c. if k' = k then chunkTokens c else []) (da_chunks a)"
    by (simp add: emit_def comp_def)
  then show ?thesis by (simp add: streamOf_def accumTokens_def)
qed

lemma addChunk_tokens: "concat (map chunkTokens (addChunk c chunks)) = concat (map chunkTokens chunks) @ chunkTokens c"
  by (cases chunks rule: rev_cases) (auto simp: addChunk_def chunkTokens_def)

lemma addChunk_set:
  "x \<in> set (addChunk c chunks) \<Longrightarrow> x \<in> set chunks \<or> x = c \<or> (\<exists>y\<in>set chunks. x = y\<lparr>dc_text := dc_text y @ dc_text c\<rparr>)"
  by (auto simp: addChunk_def split: if_splits dest: in_set_butlastD)

lemma accumulate_ok:
  assumes ok: "accums_ok m" and ev: "isDelta ev" and A: "accumulate ev m = (overflow, m')"
  shows "accums_ok m'" and "pendingTokens k m' = pendingTokens k m @ keyTokens k ev"
    and "overflow \<longleftrightarrow> deltaBatchMaxPendingBytes \<le> length (pendingTokens (eventKey ev) m')"
proof -
  let ?k = "eventKey ev"
  define a where "a = (case map_of m ?k of Some a \<Rightarrow> a | None \<Rightarrow> newAccum ev)"
  define c where "c = \<lparr>dc_eventType = le_Event ev, dc_text = extractDeltaText (le_Data ev), dc_itemID = extractDeltaItemID (le_Data ev),
                        dc_turnID = extractDeltaTurnID (le_Data ev)\<rparr>"
  define a1 where "a1 = a\<lparr>da_chunks := addChunk c (da_chunks a), da_totalBytes := da_totalBytes a + length (extractDeltaText (le_Data ev))\<rparr>"
  have m': "m' = AList.update ?k a1 m" and ov: "overflow \<longleftrightarrow> deltaBatchMaxPendingBytes \<le> da_totalBytes a1"
    using A by (simp_all add: accumulate_def Let_def a_def a1_def c_def)
  have a: "accum_ok ?k a" "accumTokens a = pendingTokens ?k m"
    using accums_ok_lookup [OF ok] by (auto simp: a_def pendingTokens_def newAccum_def accum_ok_def eventKey_def accumTokens_def split: option.split)
  have ct: "chunkTokens c = tokens ev" using ev by (simp add: chunkTokens_def c_def tokens_def)
  have len: "length (tokens ev) = length (extractDeltaText (le_Data ev))" using ev by (simp add: tokens_def)
  have t1: "accumTokens a1 = accumTokens a @ tokens ev" by (simp add: accumTokens_def a1_def addChunk_tokens ct)
  have c1: "dc_text x \<noteq> [] \<and> (dc_eventType x = ''text_delta'' \<or> dc_eventType x = ''reasoning_delta'')" if "x \<in> set (addChunk c (da_chunks a))" for x
    using addChunk_set [OF that] a(1) ev by (auto simp: accum_ok_def c_def isDelta_def)
  have ok1: "accum_ok ?k a1" using a(1) t1 len c1 by (simp add: accum_ok_def a1_def)
  show "accums_ok m'" using ok ok1 unfolding accums_ok_def m'
    by (auto simp: distinct_update dest!: set_AList_update)
  show "pendingTokens k m' = pendingTokens k m @ keyTokens k ev"
    using t1 a(2) by (simp add: pendingTokens_def m' update_conv' keyTokens_def)
  show "overflow \<longleftrightarrow> deltaBatchMaxPendingBytes \<le> length (pendingTokens ?k m')"
    using ok1 ov by (simp add: accum_ok_def pendingTokens_def m' update_conv')
qed

lemma flushKey_ok:
  assumes ok: "accums_ok m" and F: "flushKey key m = (evs, m')"
  shows "accums_ok m'" and "pendingTokens k m' = (if k = key then [] else pendingTokens k m)"
    and "streamOf k evs = (if k = key then pendingTokens k m else [])"
proof -
  have sub: "set (AList.delete key m) \<subseteq> set m" by (auto simp: AList.delete_eq)
  have "accums_ok m' \<and> pendingTokens k m' = (if k = key then [] else pendingTokens k m)
      \<and> streamOf k evs = (if k = key then pendingTokens k m else [])"
  proof (cases "map_of m key")
    case None
    then show ?thesis using F ok by (auto simp: flushKey_def pendingTokens_def)
  next
    case (Some a)
    then have e: "evs = emit a" "m' = AList.delete key m" using F by (simp_all add: flushKey_def)
    have "accums_ok m'" using ok sub by (auto simp: accums_ok_def e(2) distinct_delete)
    then show ?thesis using emit_stream [OF accums_ok_lookup [OF ok Some]] Some
      by (simp add: e pendingTokens_def delete_conv')
  qed
  then show "accums_ok m'" and "pendingTokens k m' = (if k = key then [] else pendingTokens k m)"
    and "streamOf k evs = (if k = key then pendingTokens k m else [])" by blast+
qed

lemma concat_if_distinct:
  "distinct ks \<Longrightarrow> concat (map (\<lambda>k'. if k = k' then x else []) ks) = (if k \<in> set ks then x else [])"
  by (induction ks) auto

lemma FlushAll_stream:
  assumes ok: "accums_ok m"
  shows "streamOf k (fst (FlushAll order m)) = pendingTokens k m"
proof -
  define ks where "ks = filter (\<lambda>k. map_of m k \<noteq> None) (remdups order) @ filter (\<lambda>k. k \<notin> set order) (map fst m)"
  have dist: "distinct (map fst m)" using ok by (simp add: accums_ok_def)
  have "List.map_filter (map_of m) xs = map (\<lambda>k. the (map_of m k)) (filter (\<lambda>k. map_of m k \<noteq> None) xs)" for xs
    by (simp add: List.map_filter_def comp_def)
  moreover have "map snd (filter (\<lambda>(k, a). k \<notin> set order) m) = map (\<lambda>k. the (map_of m k)) (filter (\<lambda>k. k \<notin> set order) (map fst m))"
  proof -
    have "snd x = the (map_of m (fst x))" if "x \<in> set m" for x using dist that by (cases x) simp
    then have "map snd (filter (\<lambda>x. fst x \<notin> set order) m) = map (\<lambda>x. the (map_of m (fst x))) (filter (\<lambda>x. fst x \<notin> set order) m)"
      by (intro map_cong) auto
    then show ?thesis by (simp add: filter_map comp_def case_prod_unfold)
  qed
  ultimately have v: "visited order m = map (\<lambda>k. the (map_of m k)) ks" by (simp add: visited_def ks_def)
  have d: "distinct ks" using dist by (auto simp: ks_def)
  have s: "set ks = dom (map_of m)" by (auto simp: ks_def dom_map_of_conv_image_fst map_of_eq_None_iff)
  have one: "streamOf k (emit (the (map_of m k'))) = (if k = k' then pendingTokens k m else [])" if k': "k' \<in> set ks" for k'
  proof -
    obtain a where a: "map_of m k' = Some a" using k' s by blast
    then show ?thesis using emit_stream [OF accums_ok_lookup [OF ok a]] by (simp add: pendingTokens_def)
  qed
  have "streamOf k (concat (map emit (map (\<lambda>k. the (map_of m k)) xs))) = concat (map (\<lambda>k'. streamOf k (emit (the (map_of m k')))) xs)" for xs
    by (induction xs) simp_all
  then have "streamOf k (fst (FlushAll order m)) = concat (map (\<lambda>k'. streamOf k (emit (the (map_of m k')))) ks)"
    by (simp only: FlushAll_def v fst_conv)
  also have "\<dots> = concat (map (\<lambda>k'. if k = k' then pendingTokens k m else []) ks)" using one by (simp cong: map_cong)
  also have "\<dots> = pendingTokens k m" using s by (auto simp: concat_if_distinct [OF d] pendingTokens_def split: option.split)
  finally show ?thesis .
qed

section \<open>Calls one after the other\<close>

datatype batchCall = CSend LogicalEvent | CTick "batchKey list"

fun batchCallStep :: "accums \<times> LogicalEvent list \<Rightarrow> batchCall \<Rightarrow> accums \<times> LogicalEvent list" where
  "batchCallStep (m, published) (CSend ev) = (let (evs, m') = Batcher_Send ev m in (m', published @ evs))"
| "batchCallStep (m, published) (CTick order) = (let (evs, m') = FlushAll order m in (m', published @ evs))"

fun sentBy :: "batchCall list \<Rightarrow> LogicalEvent list" where
  "sentBy [] = []"
| "sentBy (CSend ev # calls) = ev # sentBy calls"
| "sentBy (CTick order # calls) = sentBy calls"

lemma sentBy_append [simp]: "sentBy (xs @ ys) = sentBy xs @ sentBy ys"
  by (induction xs rule: sentBy.induct) auto

definition calls_ok :: "batchCall list \<Rightarrow> accums \<times> LogicalEvent list \<Rightarrow> bool" where
  "calls_ok calls = (\<lambda>(m, published). accums_ok m
     \<and> (\<forall>k. streamOf k published @ pendingTokens k m = streamOf k (sentBy calls) \<and> length (pendingTokens k m) < deltaBatchMaxPendingBytes))"

lemma maxPending_pos: "0 < deltaBatchMaxPendingBytes"
  by (simp add: deltaBatchMaxPendingBytes_def)

lemma send_ok:
  assumes ok: "accums_ok m" and small: "\<And>k. length (pendingTokens k m) < deltaBatchMaxPendingBytes" and S: "Batcher_Send ev m = (evs, m')"
  shows "accums_ok m'" and "streamOf k evs @ pendingTokens k m' = pendingTokens k m @ keyTokens k ev"
    and "length (pendingTokens k m') < deltaBatchMaxPendingBytes"
proof -
  have "accums_ok m' \<and> streamOf k evs @ pendingTokens k m' = pendingTokens k m @ keyTokens k ev
      \<and> length (pendingTokens k m') < deltaBatchMaxPendingBytes"
  proof (cases "isDelta ev")
    case True
    obtain overflow m1 where A: "accumulate ev m = (overflow, m1)" by fastforce
    note a = accumulate_ok [OF ok True A]
    show ?thesis
    proof (cases overflow)
      case True
      then have F: "flushKey (eventKey ev) m1 = (evs, m')" using S \<open>isDelta ev\<close> A by (simp add: Batcher_Send_def)
      note f = flushKey_ok [OF a(1) F]
      show ?thesis using f(1) f(2,3) [of k] a(2) [of k] small [of k] maxPending_pos by (auto simp: keyTokens_def)
    next
      case False
      then have "evs = []" "m' = m1" using S \<open>isDelta ev\<close> A by (simp_all add: Batcher_Send_def)
      then show ?thesis using a False small [of k] by (cases "k = eventKey ev") (auto simp: keyTokens_def)
    qed
  next
    case False
    obtain fl m1 where F: "flushKey (eventKey ev) m = (fl, m1)" by fastforce
    note f = flushKey_ok [OF ok F]
    have "evs = fl @ [ev]" "m' = m1" using S F False by (simp_all add: Batcher_Send_def)
    then show ?thesis using f(1) f(2,3) [of k] small [of k] maxPending_pos by (auto simp: streamOf_def keyTokens_def)
  qed
  then show "accums_ok m'" and "streamOf k evs @ pendingTokens k m' = pendingTokens k m @ keyTokens k ev"
    and "length (pendingTokens k m') < deltaBatchMaxPendingBytes" by blast+
qed

lemma calls_step: "calls_ok calls s \<Longrightarrow> calls_ok (calls @ [c]) (batchCallStep s c)"
proof (cases c)
  case (CSend ev)
  assume "calls_ok calls s"
  then obtain m published where s: "s = (m, published)" and ok: "accums_ok m" and small: "\<And>k. length (pendingTokens k m) < deltaBatchMaxPendingBytes"
      and eq: "\<And>k. streamOf k published @ pendingTokens k m = streamOf k (sentBy calls)"
    by (cases s) (auto simp: calls_ok_def)
  obtain evs m' where S: "Batcher_Send ev m = (evs, m')" by fastforce
  have "streamOf k (published @ evs) @ pendingTokens k m' = streamOf k (sentBy calls) @ keyTokens k ev" for k
    using send_ok(2) [OF ok small S] eq [of k] by simp
  then show ?thesis using send_ok(1,3) [OF ok small S] S CSend by (auto simp: s calls_ok_def streamOf_def)
next
  case (CTick order)
  assume "calls_ok calls s"
  then obtain m published where s: "s = (m, published)" and ok: "accums_ok m"
      and eq: "\<And>k. streamOf k published @ pendingTokens k m = streamOf k (sentBy calls)"
    by (cases s) (auto simp: calls_ok_def)
  have F: "FlushAll order m = (fst (FlushAll order m), [])" by (simp add: FlushAll_def)
  then have "batchCallStep s c = ([], published @ fst (FlushAll order m))"
    using CTick by (metis batchCallStep.simps(2) case_prod_conv s)
  then show ?thesis using FlushAll_stream [OF ok] eq CTick maxPending_pos by (simp add: calls_ok_def accums_ok_def pendingTokens_def)
qed

lemma calls_run: "calls_ok calls (run batchCallStep ([], []) calls)"
proof (induction calls rule: rev_induct)
  case Nil
  then show ?case using maxPending_pos by (simp add: calls_ok_def accums_ok_def pendingTokens_def)
next
  case (snoc c calls)
  then show ?case using calls_step by simp
qed

text \<open>
  C22: calls that do not overlap are transparent: for every key the stream of characters and events a
  client sees, continued by what is still buffered, is the stream that was sent, in order, without
  loss or duplication, and a flush completes it.  Less than 256 KiB of a key are buffered.
\<close>

theorem batch_transparent:
  "streamOf k (snd (run batchCallStep ([], []) calls)) @ pendingTokens k (fst (run batchCallStep ([], []) calls))
     = streamOf k (sentBy calls)
 \<and> streamOf k (snd (run batchCallStep ([], []) calls) @ fst (FlushAll order (fst (run batchCallStep ([], []) calls))))
     = streamOf k (sentBy calls)
 \<and> length (pendingTokens k (fst (run batchCallStep ([], []) calls))) < 262144"
proof -
  obtain m published where r: "run batchCallStep ([], []) calls = (m, published)" by fastforce
  then have "accums_ok m" "streamOf k published @ pendingTokens k m = streamOf k (sentBy calls)"
      "length (pendingTokens k m) < deltaBatchMaxPendingBytes"
    using calls_run [of calls] unfolding calls_ok_def r prod.case by blast+
  then show ?thesis using FlushAll_stream by (simp add: r deltaBatchMaxPendingBytes_def)
qed

section \<open>Calls that overlap\<close>

fun actionTokens :: "batchKey \<Rightarrow> batchAction \<Rightarrow> batchToken list" where
  "actionTokens k (APublish ev) = keyTokens k ev"
| "actionTokens k (AFlushKey _) = []"

definition todoTokens :: "batchKey \<Rightarrow> batchAction list \<Rightarrow> batchToken list" where
  "todoTokens k acts = concat (map (actionTokens k) acts)"

text \<open>The system with the events that were handed to an idle goroutine.\<close>

fun batchLogStep :: "BatchSys \<times> LogicalEvent list \<Rightarrow> BatchOp \<Rightarrow> BatchSys \<times> LogicalEvent list" where
  "batchLogStep (s, sent) op =
     (batchStep s op, case op of BSend t ev \<Rightarrow> if idle t s then sent @ [ev] else sent | _ \<Rightarrow> sent)"

definition conserved :: "BatchSys \<times> LogicalEvent list \<Rightarrow> bool" where
  "conserved = (\<lambda>(s, sent). accums_ok (bs_accums s)
     \<and> (\<forall>k. mset (streamOf k (bs_published s)) + mset (concat (map (todoTokens k) (bs_todo s))) + mset (pendingTokens k (bs_accums s))
            = mset (streamOf k sent)))"

lemma todoTokens_publish [simp]: "todoTokens k (map APublish evs @ rest) = streamOf k evs @ todoTokens k rest"
  by (induction evs) (simp_all add: todoTokens_def streamOf_def)

lemma todoTokens_publish_all [simp]: "todoTokens k (map APublish evs) = streamOf k evs"
  using todoTokens_publish [of k evs "[]"] by (simp add: todoTokens_def)

lemma todoTokens_simps [simp]:
  "todoTokens k [] = []" "todoTokens k (a # acts) = actionTokens k a @ todoTokens k acts"
  by (simp_all add: todoTokens_def)

text \<open>Goroutine \<open>t\<close> replaces its list, whose tokens change together with the other two parts.\<close>

lemma exchange:
  fixes A :: "'a multiset"
  assumes "A' + x = A + y" and "P + A + Q = S" and "N + y + Q' = x + Q + E"
  shows "P + N + A' + Q' = S + E"
proof -
  have "(P + N + A' + Q') + x = P + N + Q' + (A' + x)" by (simp add: ac_simps)
  also have "\<dots> = P + A + (N + y + Q')" unfolding assms(1) by (simp add: ac_simps)
  also have "\<dots> = (P + A + Q) + E + x" unfolding assms(3) by (simp add: ac_simps)
  finally show ?thesis unfolding assms(2) by simp
qed

lemma conserved_upd:
  assumes ok: "conserved (s, sent)" and t: "t < length (bs_todo s)" and m: "accums_ok m"
    and eq: "\<And>k. mset (streamOf k new) + mset (todoTokens k acts) + mset (pendingTokens k m)
           = mset (todoTokens k (bs_todo s ! t)) + mset (pendingTokens k (bs_accums s)) + mset (streamOf k evs)"
  shows "conserved (s\<lparr>bs_accums := m, bs_todo := (bs_todo s)[t := acts], bs_published := bs_published s @ new\<rparr>, sent @ evs)"
proof -
  have "mset (streamOf k (bs_published s)) + mset (streamOf k new) + mset (concat (map (todoTokens k) ((bs_todo s)[t := acts])))
      + mset (pendingTokens k m) = mset (streamOf k sent) + mset (streamOf k evs)" for k
  proof (rule exchange [OF mset_concat_update [OF t] _ eq])
    show "mset (streamOf k (bs_published s)) + mset (concat (map (todoTokens k) (bs_todo s))) + mset (pendingTokens k (bs_accums s))
        = mset (streamOf k sent)"
      using ok unfolding conserved_def prod.case by blast
  qed
  then show ?thesis using m by (simp add: conserved_def)
qed

lemma conserved_step:
  assumes ok: "conserved st"
  shows "conserved (batchLogStep st op)"
proof -
  obtain s sent where st: "st = (s, sent)" by fastforce
  have c: "conserved (s, sent)" and a: "accums_ok (bs_accums s)" using ok by (simp_all add: st conserved_def)
  show ?thesis
  proof (cases op)
    case (BSend t ev)
    show ?thesis
    proof (cases "idle t s")
      case True
      then have t: "t < length (bs_todo s)" "bs_todo s ! t = []" by (simp_all add: idle_def)
      show ?thesis
      proof (cases "isDelta ev")
        case True
        obtain ov m where A: "accumulate ev (bs_accums s) = (ov, m)" by fastforce
        note acc = accumulate_ok [OF a True A]
        have "conserved (s\<lparr>bs_accums := m, bs_todo := (bs_todo s)[t := if ov then [AFlushKey (eventKey ev)] else []],
            bs_published := bs_published s @ []\<rparr>, sent @ [ev])"
          by (rule conserved_upd [OF c t(1) acc(1)]) (simp add: t(2) acc(2) streamOf_def)
        then show ?thesis using BSend True \<open>idle t s\<close> A by (simp add: st)
      next
        case False
        have "conserved (s\<lparr>bs_accums := bs_accums s, bs_todo := (bs_todo s)[t := [AFlushKey (eventKey ev), APublish ev]],
            bs_published := bs_published s @ []\<rparr>, sent @ [ev])"
          by (rule conserved_upd [OF c t(1) a]) (simp add: t(2) streamOf_def)
        then show ?thesis using BSend False \<open>idle t s\<close> by (simp add: st)
      qed
    qed (use c BSend in \<open>simp add: st\<close>)
  next
    case (BFlushAll t order)
    show ?thesis
    proof (cases "idle t s")
      case True
      then have t: "t < length (bs_todo s)" "bs_todo s ! t = []" by (simp_all add: idle_def)
      have "conserved (s\<lparr>bs_accums := [], bs_todo := (bs_todo s)[t := map APublish (fst (FlushAll order (bs_accums s)))],
          bs_published := bs_published s @ []\<rparr>, sent @ [])"
        by (rule conserved_upd [OF c t(1)]) (simp_all add: accums_ok_def t(2) pendingTokens_def FlushAll_stream [OF a, unfolded pendingTokens_def])
      then show ?thesis using BFlushAll True by (simp add: st)
    qed (use c BFlushAll in \<open>simp add: st\<close>)
  next
    case (BRun t)
    show ?thesis
    proof (cases "t < length (bs_todo s) \<and> bs_todo s ! t \<noteq> []")
      case True
      then obtain act rest where t: "t < length (bs_todo s)" "bs_todo s ! t = act # rest" by (cases "bs_todo s ! t") auto
      show ?thesis
      proof (cases act)
        case (APublish ev)
        have "conserved (s\<lparr>bs_accums := bs_accums s, bs_todo := (bs_todo s)[t := rest], bs_published := bs_published s @ [ev]\<rparr>, sent @ [])"
          by (rule conserved_upd [OF c t(1) a]) (simp add: t(2) APublish streamOf_def)
        then show ?thesis using BRun t APublish by (simp add: st)
      next
        case (AFlushKey key)
        obtain evs m where F: "flushKey key (bs_accums s) = (evs, m)" by fastforce
        note f = flushKey_ok [OF a F]
        have "conserved (s\<lparr>bs_accums := m, bs_todo := (bs_todo s)[t := map APublish evs @ rest], bs_published := bs_published s @ []\<rparr>, sent @ [])"
          by (rule conserved_upd [OF c t(1) f(1)]) (simp add: t(2) AFlushKey f(2,3))
        then show ?thesis using BRun t AFlushKey F by (simp add: st)
      qed
    qed (use c BRun in \<open>auto simp: st\<close>)
  qed
qed

interpretation bc: guarded_machine batchLogStep conserved
  by unfold_locales (rule conserved_step)

text \<open>
  Whatever the interleaving of the producers and the ticker, nothing is lost and nothing is sent
  twice: for every key the characters and events that were published, that a goroutine holds and
  that are still buffered are together those that were sent.
\<close>

theorem batch_conserves:
  "mset (streamOf k (bs_published (fst (run batchLogStep (newBatchSys n, []) ops))))
     + mset (concat (map (todoTokens k) (bs_todo (fst (run batchLogStep (newBatchSys n, []) ops)))))
     + mset (pendingTokens k (bs_accums (fst (run batchLogStep (newBatchSys n, []) ops))))
   = mset (streamOf k (snd (run batchLogStep (newBatchSys n, []) ops)))"
proof -
  have z: "concat (map (todoTokens k) (replicate n [])) = []" for k by (induction n) simp_all
  have "conserved (newBatchSys n, [])" by (simp add: conserved_def newBatchSys_def accums_ok_def pendingTokens_def z)
  then have "conserved (run batchLogStep (newBatchSys n, []) ops)" by (rule bc.run_good)
  then show ?thesis unfolding conserved_def case_prod_unfold by blast
qed

definition demoDelta :: LogicalEvent where
  "demoDelta = \<lparr>le_BackendID = ''b'', le_SessionID = ''s'', le_Directory = [], le_Event = ''text_delta'',
     le_Data = DataMap [(''delta'', VString ''Hi'')], le_Broadcast = True, le_Targets = [], le_WaitTargets = [],
     le_Offline = False, le_Rest = 0\<rparr>"

definition demoCompleted :: LogicalEvent where
  "demoCompleted = demoDelta\<lparr>le_Event := ''turn_completed'', le_Data := DataMap []\<rparr>"

text \<open>
  The order is not kept across goroutines: when the ticker has taken the buffered text and not
  yet published it, a control event that was sent after the text is published before it.
\<close>

theorem control_overtakes_text:
  "snd (run batchLogStep (newBatchSys 2, []) [BSend 0 demoDelta, BFlushAll 1 [], BSend 0 demoCompleted, BRun 0, BRun 0, BRun 1])
     = [demoDelta, demoCompleted]
 \<and> bs_published (fst (run batchLogStep (newBatchSys 2, [])
       [BSend 0 demoDelta, BFlushAll 1 [], BSend 0 demoCompleted, BRun 0, BRun 0, BRun 1])) = [demoCompleted, demoDelta]"
  by (simp add: newBatchSys_def idle_def demoDelta_def demoCompleted_def isDelta_def extractDeltaText_def extractDeltaItemID_def
      extractDeltaTurnID_def extractField_def accumulate_def newAccum_def addChunk_def eventKey_def FlushAll_def visited_def
      emit_def emitChunk_def flushKey_def deltaBatchMaxPendingBytes_def Let_def numeral_2_eq_2 List.map_filter_def)

end
