(* ===== verification/Device_Trust.thy ===== *)
theory Device_Trust
  imports Bridge_Prelude
begin

text \<open>
  Trusted devices: the in-memory store with its two indexes, the file store that commits a mutated
  clone by an atomic file replacement, and the authentication of a device token
  (\<^verbatim>\<open>go-bridge/trusted_device_store.go\<close>, \<^verbatim>\<open>core/atomicwrite.go\<close>).

  A Go map is a function to an option; where the code ranges over one, the iteration order is an
  argument, a list that enumerates the domain.  SHA-256 and the check of a token's format are
  arguments of the authentication.  The device file holds the records its JSON encodes, or text that
  does not decode; a copy of a record or of a store is the value itself.  A crash at any point of a commit
  is a restart before or after the file was replaced.
\<close>

section \<open>Records and the memory store\<close>

record TrustedDeviceRecord =
  td_DeviceID :: string
  td_DisplayName :: string
  td_Platform :: string
  td_TokenHash :: string
  td_IdentityPublicKey :: string
  td_RelayEnabled :: bool
  td_RelayChannelGeneration :: u64
  td_GrantedScopes :: "string list"
  td_CreatedAt :: instant
  td_LastSeenAt :: instant
  td_LastRemoteAddress :: string
  td_RevokedAt :: "instant option"

record MemoryDeviceStore =
  md_byID :: "string \<Rightarrow> TrustedDeviceRecord option"
  md_byToken :: "string \<Rightarrow> string option"

definition NewMemoryDeviceStore :: MemoryDeviceStore where
  "NewMemoryDeviceStore = \<lparr>md_byID = Map.empty, md_byToken = Map.empty\<rparr>"

datatype trustError = DeviceExists | DeviceMissing | DeviceRevoked | IdentityBound | WriteFailed

definition stableDeviceIDPrefix :: string where
  "stableDeviceIDPrefix = ''dev_''"

text \<open>The condition under which an existing record gives way to a newly paired one.\<close>

definition displaced :: "TrustedDeviceRecord \<Rightarrow> string \<Rightarrow> TrustedDeviceRecord \<Rightarrow> bool" where
  "displaced record deviceID existing \<longleftrightarrow>
     deviceID = td_DeviceID record
     \<or> (td_IdentityPublicKey existing \<noteq> [] \<and> td_IdentityPublicKey existing = td_IdentityPublicKey record)
     \<or> (\<not> hasPrefix deviceID stableDeviceIDPrefix \<and> td_Platform existing = td_Platform record
         \<and> td_DisplayName existing = td_DisplayName record)"

fun replaceLoop ::
  "TrustedDeviceRecord \<Rightarrow> string list \<Rightarrow> MemoryDeviceStore \<times> string list \<Rightarrow> MemoryDeviceStore \<times> string list" where
  "replaceLoop record [] (s, replaced) = (s, replaced)"
| "replaceLoop record (deviceID # rest) (s, replaced) =
     (case md_byID s deviceID of
        None \<Rightarrow> replaceLoop record rest (s, replaced)
      | Some existing \<Rightarrow>
          if \<not> displaced record deviceID existing then replaceLoop record rest (s, replaced)
          else replaceLoop record rest
                 (s\<lparr>md_byID := (md_byID s)(deviceID := None), md_byToken := (md_byToken s)(td_TokenHash existing := None)\<rparr>,
                  if deviceID \<noteq> td_DeviceID record then replaced @ [deviceID] else replaced))"

definition putRecord :: "TrustedDeviceRecord \<Rightarrow> MemoryDeviceStore \<Rightarrow> MemoryDeviceStore" where
  "putRecord record s =
     s\<lparr>md_byID := (md_byID s)(td_DeviceID record \<mapsto> record),
       md_byToken := (md_byToken s)(td_TokenHash record \<mapsto> td_DeviceID record)\<rparr>"

definition ReplaceDevice ::
  "string list \<Rightarrow> TrustedDeviceRecord \<Rightarrow> MemoryDeviceStore \<Rightarrow> (trustError, string list \<times> MemoryDeviceStore) result" where
  "ReplaceDevice order record s =
     (let (s', replaced) = replaceLoop record order (s, []) in Inr (replaced, putRecord record s'))"

definition AddDevice :: "TrustedDeviceRecord \<Rightarrow> MemoryDeviceStore \<Rightarrow> (trustError, string list \<times> MemoryDeviceStore) result" where
  "AddDevice record s =
     (if md_byID s (td_DeviceID record) \<noteq> None then Inl DeviceExists else Inr ([], putRecord record s))"

definition LookupByDeviceID :: "string \<Rightarrow> MemoryDeviceStore \<Rightarrow> TrustedDeviceRecord option" where
  "LookupByDeviceID deviceID s = md_byID s deviceID"

text \<open>Go returns the zero record when the token index names a device that is not there.\<close>

definition zeroRecord :: TrustedDeviceRecord where
  "zeroRecord = \<lparr>td_DeviceID = [], td_DisplayName = [], td_Platform = [], td_TokenHash = [], td_IdentityPublicKey = [],
     td_RelayEnabled = False, td_RelayChannelGeneration = 0, td_GrantedScopes = [], td_CreatedAt = zeroTime,
     td_LastSeenAt = zeroTime, td_LastRemoteAddress = [], td_RevokedAt = None\<rparr>"

definition LookupByTokenHash :: "string \<Rightarrow> MemoryDeviceStore \<Rightarrow> TrustedDeviceRecord option" where
  "LookupByTokenHash hash s =
     (case md_byToken s hash of
        None \<Rightarrow> None
      | Some deviceID \<Rightarrow> (case md_byID s deviceID of None \<Rightarrow> Some zeroRecord | Some rec \<Rightarrow> Some rec))"

definition EnableRelay ::
  "string \<Rightarrow> string \<Rightarrow> u64 \<Rightarrow> MemoryDeviceStore \<Rightarrow> (trustError, string list \<times> MemoryDeviceStore) result" where
  "EnableRelay deviceID identityPublicKey generation s =
     (case md_byID s deviceID of
        None \<Rightarrow> Inl DeviceMissing
      | Some rec \<Rightarrow>
          if td_RevokedAt rec \<noteq> None then Inl DeviceRevoked
          else if td_IdentityPublicKey rec \<noteq> [] \<and> td_IdentityPublicKey rec \<noteq> identityPublicKey then Inl IdentityBound
          else Inr ([], s\<lparr>md_byID := (md_byID s)(deviceID \<mapsto>
                 rec\<lparr>td_IdentityPublicKey := identityPublicKey, td_RelayEnabled := True,
                     td_RelayChannelGeneration := generation\<rparr>)\<rparr>))"

definition RevokeDevice :: "string \<Rightarrow> instant \<Rightarrow> MemoryDeviceStore \<Rightarrow> (trustError, string list \<times> MemoryDeviceStore) result" where
  "RevokeDevice deviceID now s =
     (case md_byID s deviceID of
        None \<Rightarrow> Inl DeviceMissing
      | Some rec \<Rightarrow> Inr ([], s\<lparr>md_byID := (md_byID s)(deviceID \<mapsto> rec\<lparr>td_RevokedAt := Some now\<rparr>)\<rparr>))"

definition snapshotRecords :: "string list \<Rightarrow> MemoryDeviceStore \<Rightarrow> TrustedDeviceRecord list" where
  "snapshotRecords order s = List.map_filter (md_byID s) order"

definition ListDevices :: "string list \<Rightarrow> MemoryDeviceStore \<Rightarrow> TrustedDeviceRecord list" where
  "ListDevices order s = filter (\<lambda>rec. td_RevokedAt rec = None) (snapshotRecords order s)"

definition cloneSnapshot :: "string list \<Rightarrow> MemoryDeviceStore \<Rightarrow> MemoryDeviceStore" where
  "cloneSnapshot order s = foldl (\<lambda>out deviceID.
     case md_byID s deviceID of
       None \<Rightarrow> out
     | Some rec \<Rightarrow> out\<lparr>md_byID := (md_byID out)(deviceID \<mapsto> rec), md_byToken := (md_byToken out)(td_TokenHash rec \<mapsto> deviceID)\<rparr>)
     NewMemoryDeviceStore order"

section \<open>The file store\<close>

datatype ioFault = CreateTemp | WriteTemp | SyncTemp | CloseTemp | ChmodTemp | RenameTemp

record 'a directory =
  dir_file :: "'a option"
  dir_temps :: nat

text \<open>The temporary file is removed on every failure but that of the rename.\<close>

definition AtomicWriteFile :: "ioFault option \<Rightarrow> 'a \<Rightarrow> 'a directory \<Rightarrow> bool \<times> 'a directory" where
  "AtomicWriteFile fault data d =
     (case fault of
        None \<Rightarrow> (True, d\<lparr>dir_file := Some data\<rparr>)
      | Some RenameTemp \<Rightarrow> (False, d\<lparr>dir_temps := dir_temps d + 1\<rparr>)
      | Some _ \<Rightarrow> (False, d))"

datatype deviceFile = EmptyFile | Undecodable | Records "TrustedDeviceRecord list"

record FileDeviceStore =
  fd_dir :: "deviceFile directory"
  fd_mem :: MemoryDeviceStore

definition commit ::
  "string list \<Rightarrow> string list \<Rightarrow> ioFault option \<Rightarrow> (MemoryDeviceStore \<Rightarrow> (trustError, 'b \<times> MemoryDeviceStore) result)
   \<Rightarrow> FileDeviceStore \<Rightarrow> (trustError, 'b) result \<times> FileDeviceStore" where
  "commit cloneOrder writeOrder fault fn fs =
     (case fn (cloneSnapshot cloneOrder (fd_mem fs)) of
        Inl e \<Rightarrow> (Inl e, fs)
      | Inr (x, clone) \<Rightarrow>
          (case AtomicWriteFile fault (Records (snapshotRecords writeOrder clone)) (fd_dir fs) of
             (False, d) \<Rightarrow> (Inl WriteFailed, fs\<lparr>fd_dir := d\<rparr>)
           | (True, d) \<Rightarrow> (Inr x, \<lparr>fd_dir = d, fd_mem = clone\<rparr>)))"

definition loadDevices :: "deviceFile option \<Rightarrow> MemoryDeviceStore option" where
  "loadDevices file =
     (case file of
        None \<Rightarrow> Some NewMemoryDeviceStore
      | Some EmptyFile \<Rightarrow> Some NewMemoryDeviceStore
      | Some Undecodable \<Rightarrow> None
      | Some (Records records) \<Rightarrow> Some (foldl (\<lambda>s rec. putRecord rec s) NewMemoryDeviceStore records))"

definition NewFileDeviceStore :: "deviceFile directory \<Rightarrow> FileDeviceStore option" where
  "NewFileDeviceStore d = map_option (\<lambda>mem. \<lparr>fd_dir = d, fd_mem = mem\<rparr>) (loadDevices (dir_file d))"

datatype trustCall =
  CallAdd TrustedDeviceRecord
| CallReplace "string list" TrustedDeviceRecord
| CallEnableRelay string string u64
| CallRevoke string instant

fun memoryCall :: "trustCall \<Rightarrow> MemoryDeviceStore \<Rightarrow> (trustError, string list \<times> MemoryDeviceStore) result" where
  "memoryCall (CallAdd record) s = AddDevice record s"
| "memoryCall (CallReplace order record) s = ReplaceDevice order record s"
| "memoryCall (CallEnableRelay deviceID key generation) s = EnableRelay deviceID key generation s"
| "memoryCall (CallRevoke deviceID now) s = RevokeDevice deviceID now s"

definition fileCall ::
  "string list \<Rightarrow> string list \<Rightarrow> ioFault option \<Rightarrow> trustCall \<Rightarrow> FileDeviceStore \<Rightarrow> (trustError, string list) result \<times> FileDeviceStore" where
  "fileCall cloneOrder writeOrder fault call fs = commit cloneOrder writeOrder fault (memoryCall call) fs"

section \<open>Authentication\<close>

datatype authError = MissingToken | InvalidToken | AuthRevoked

definition ValidateDeviceAuth ::
  "(string \<Rightarrow> bool) \<Rightarrow> (string \<Rightarrow> string) \<Rightarrow> (string \<Rightarrow> TrustedDeviceRecord option) \<Rightarrow> string \<Rightarrow> string
   \<Rightarrow> (authError, TrustedDeviceRecord) result" where
  "ValidateDeviceAuth wellFormed HashToken lookup token deviceID =
     (if token = [] then Inl MissingToken
      else if \<not> wellFormed token then Inl InvalidToken
      else case lookup (HashToken token) of
             None \<Rightarrow> Inl InvalidToken
           | Some rec \<Rightarrow>
               if deviceID \<noteq> [] \<and> td_DeviceID rec \<noteq> deviceID then Inl InvalidToken
               else if td_RevokedAt rec \<noteq> None then Inl AuthRevoked
               else Inr rec)"

text \<open>
  What the authentication relies on in a store: its token lookup finds the record with that hash.
\<close>

locale device_store =
  fixes records :: "'s \<Rightarrow> string \<Rightarrow> TrustedDeviceRecord option"
    and lookup :: "'s \<Rightarrow> string \<Rightarrow> TrustedDeviceRecord option"
    and good :: "'s \<Rightarrow> bool"
  assumes lookup_iff:
    "good s \<Longrightarrow> lookup s h = Some rec \<longleftrightarrow> records s (td_DeviceID rec) = Some rec \<and> td_TokenHash rec = h"
begin

lemma auth_iff:
  assumes "good s"
  shows "ValidateDeviceAuth wellFormed hash (lookup s) token deviceID = Inr rec \<longleftrightarrow>
           token \<noteq> [] \<and> wellFormed token \<and> records s (td_DeviceID rec) = Some rec \<and> td_TokenHash rec = hash token
           \<and> deviceID \<in> {[], td_DeviceID rec} \<and> td_RevokedAt rec = None"
proof -
  have "ValidateDeviceAuth wellFormed hash (lookup s) token deviceID = Inr rec \<longleftrightarrow>
      token \<noteq> [] \<and> wellFormed token \<and> lookup s (hash token) = Some rec \<and> deviceID \<in> {[], td_DeviceID rec}
      \<and> td_RevokedAt rec = None"
    by (auto simp: ValidateDeviceAuth_def split: option.splits)
  then show ?thesis by (simp add: lookup_iff [OF assms] conj_assoc)
qed

end

section \<open>The two indexes agree\<close>

definition indexed :: "MemoryDeviceStore \<Rightarrow> string set \<Rightarrow> bool" where
  "indexed s used \<longleftrightarrow>
     (\<forall>d r. md_byID s d = Some r \<longrightarrow> td_DeviceID r = d \<and> td_TokenHash r \<in> used)
     \<and> (\<forall>d d' r r'. md_byID s d = Some r \<and> md_byID s d' = Some r' \<and> td_TokenHash r = td_TokenHash r' \<longrightarrow> d = d')
     \<and> (\<forall>h d. md_byToken s h = Some d \<longleftrightarrow> (\<exists>r. md_byID s d = Some r \<and> td_TokenHash r = h))"

lemma indexed_new: "indexed NewMemoryDeviceStore used"
  by (simp add: indexed_def NewMemoryDeviceStore_def)

lemma indexed_mono: "indexed s U \<Longrightarrow> U \<subseteq> V \<Longrightarrow> indexed s V"
  unfolding indexed_def by blast

lemma indexed_byID: "indexed s U \<Longrightarrow> md_byID s d = Some r \<Longrightarrow> td_DeviceID r = d \<and> td_TokenHash r \<in> U"
  by (simp add: indexed_def)

lemma indexed_byToken:
  "indexed s U \<Longrightarrow> md_byToken s h = Some d \<longleftrightarrow> (\<exists>r. md_byID s d = Some r \<and> td_TokenHash r = h)"
  by (simp add: indexed_def)

lemma indexed_unique:
  "indexed s U \<Longrightarrow> md_byID s d = Some r \<Longrightarrow> md_byID s d' = Some r' \<Longrightarrow> td_TokenHash r = td_TokenHash r' \<Longrightarrow> d = d'"
  unfolding indexed_def by blast

lemma option_eqI: "(\<And>y. a = Some y \<longleftrightarrow> b = Some y) \<Longrightarrow> a = b"
  by (cases a) (metis option.exhaust)+

lemma indexed_ext:
  assumes "indexed s U" and "indexed s' U'" and "md_byID s = md_byID s'"
  shows "s = s'"
proof -
  have "md_byToken s h = md_byToken s' h" for h
    by (rule option_eqI) (simp add: indexed_byToken [OF assms(1)] indexed_byToken [OF assms(2)] assms(3))
  with assms(3) show ?thesis by (cases s, cases s') auto
qed

lemma indexed_lookup:
  assumes "indexed s U"
  shows "LookupByTokenHash h s = Some rec \<longleftrightarrow> md_byID s (td_DeviceID rec) = Some rec \<and> td_TokenHash rec = h"
proof (cases "md_byToken s h")
  case None
  then show ?thesis using indexed_byToken [OF assms, of h "td_DeviceID rec"] by (auto simp: LookupByTokenHash_def)
next
  case (Some d)
  then obtain r where r: "md_byID s d = Some r" "td_TokenHash r = h" using indexed_byToken [OF assms] by blast
  have id: "td_DeviceID r = d" using indexed_byID [OF assms r(1)] by simp
  have "rec = r" if "md_byID s (td_DeviceID rec) = Some rec" "td_TokenHash rec = h"
    using indexed_unique [OF assms r(1) that(1)] that r by simp
  then show ?thesis using Some r id by (auto simp: LookupByTokenHash_def)
qed

interpretation ms: device_store md_byID "\<lambda>s h. LookupByTokenHash h s" "\<lambda>s. \<exists>used. indexed s used"
  by unfold_locales (auto simp: indexed_lookup)

lemma indexedI:
  assumes "\<And>d r. md_byID s d = Some r \<Longrightarrow> td_DeviceID r = d \<and> td_TokenHash r \<in> U"
    and "\<And>d d' r r'. md_byID s d = Some r \<Longrightarrow> md_byID s d' = Some r' \<Longrightarrow> td_TokenHash r = td_TokenHash r' \<Longrightarrow> d = d'"
    and "\<And>h d. md_byToken s h = Some d \<longleftrightarrow> (\<exists>r. md_byID s d = Some r \<and> td_TokenHash r = h)"
  shows "indexed s U"
  unfolding indexed_def using assms by blast

lemma indexed_update:
  assumes s: "indexed s U" and d: "md_byID s d = Some r"
    and same: "td_DeviceID r' = td_DeviceID r" "td_TokenHash r' = td_TokenHash r"
  shows "indexed (s\<lparr>md_byID := (md_byID s)(d \<mapsto> r')\<rparr>) U"
proof (rule indexedI, goal_cases)
  case (1 e q)
  then show ?case using indexed_byID [OF s] d same by (auto split: if_splits)
next
  case (2 e e' q q')
  then show ?case using indexed_unique [OF s] d same by (fastforce split: if_splits)
next
  case (3 h e)
  then show ?case using indexed_byToken [OF s, of h e] d same by auto
qed

lemma indexed_remove:
  assumes s: "indexed s U" and d: "md_byID s d = Some r"
  shows "indexed (s\<lparr>md_byID := (md_byID s)(d := None), md_byToken := (md_byToken s)(td_TokenHash r := None)\<rparr>) U"
proof (rule indexedI, goal_cases)
  case (1 e q)
  then show ?case using indexed_byID [OF s] by (auto split: if_splits)
next
  case (2 e e' q q')
  then show ?case using indexed_unique [OF s] by (auto split: if_splits)
next
  case (3 h e)
  show ?case
  proof (cases "h = td_TokenHash r")
    case True
    have "e = d" if "md_byID s e = Some q" "td_TokenHash q = h" for q
      using indexed_unique [OF s that(1) d] that True by simp
    with True show ?thesis by auto
  next
    case False
    then show ?thesis using indexed_byToken [OF s, of h e] d by auto
  qed
qed

lemma indexed_put:
  assumes s: "indexed s U" and d: "md_byID s (td_DeviceID r) = None" and fresh: "td_TokenHash r \<notin> U"
  shows "indexed (putRecord r s) (insert (td_TokenHash r) U)"
proof (rule indexedI, goal_cases)
  case (1 e q)
  then show ?case using indexed_byID [OF s] by (auto simp: putRecord_def split: if_splits)
next
  case (2 e e' q q')
  have "td_TokenHash q \<noteq> td_TokenHash r" if "md_byID s e = Some q" for e q
    using indexed_byID [OF s that] fresh by auto
  with 2 show ?case using indexed_unique [OF s] by (fastforce simp: putRecord_def split: if_splits)
next
  case (3 h e)
  have "td_TokenHash q \<noteq> td_TokenHash r" if "md_byID s e = Some q" for e q
    using indexed_byID [OF s that] fresh by auto
  then show ?case using indexed_byToken [OF s, of h e] d by (auto simp: putRecord_def)
qed

text \<open>Copies: the clone of a store, and the store read back from its records.\<close>

lemma clone_byID:
  "md_byID (cloneSnapshot ds s) = (\<lambda>d. if d \<in> set ds then md_byID s d else None)"
proof (induction ds rule: rev_induct)
  case Nil
  then show ?case by (auto simp: cloneSnapshot_def NewMemoryDeviceStore_def)
next
  case (snoc d ds)
  then show ?case by (auto simp: cloneSnapshot_def fun_eq_iff split: option.splits)
qed

lemma clone_byToken:
  assumes "indexed s U"
  shows "md_byToken (cloneSnapshot ds s) h = Some d \<longleftrightarrow> d \<in> set ds \<and> (\<exists>r. md_byID s d = Some r \<and> td_TokenHash r = h)"
proof (induction ds arbitrary: d rule: rev_induct)
  case Nil
  then show ?case by (auto simp: cloneSnapshot_def NewMemoryDeviceStore_def)
next
  case (snoc x ds)
  show ?case
  proof (cases "md_byID s x")
    case None
    then show ?thesis using snoc by (auto simp: cloneSnapshot_def)
  next
    case (Some r)
    then show ?thesis using snoc indexed_unique [OF assms] by (auto simp: cloneSnapshot_def)
  qed
qed

lemma clone_id:
  assumes "indexed s U" and "set ds = dom (md_byID s)"
  shows "cloneSnapshot ds s = s"
proof -
  have "md_byToken (cloneSnapshot ds s) h = md_byToken s h" for h
    by (rule option_eqI) (auto simp: clone_byToken [OF assms(1)] indexed_byToken [OF assms(1)] assms(2))
  moreover have "md_byID (cloneSnapshot ds s) = md_byID s"
    using assms(2) by (auto simp: clone_byID fun_eq_iff dom_def)
  ultimately show ?thesis by (cases s, cases "cloneSnapshot ds s") auto
qed

lemma load_snapshot:
  assumes "indexed s U"
  shows "foldl (\<lambda>s rec. putRecord rec s) NewMemoryDeviceStore (snapshotRecords ds s) = cloneSnapshot ds s"
proof (induction ds rule: rev_induct)
  case Nil
  then show ?case by (simp add: cloneSnapshot_def snapshotRecords_def List.map_filter_simps)
next
  case (snoc d ds)
  then show ?case using indexed_byID [OF assms]
    by (auto simp: cloneSnapshot_def snapshotRecords_def map_filter_def putRecord_def split: option.splits)
qed

section \<open>Calls keep the indexes\<close>

lemma replaceLoop_indexed:
  "indexed s U \<Longrightarrow> indexed (fst (replaceLoop record order (s, replaced))) U"
  by (induction order arbitrary: s replaced) (auto split: option.splits simp: indexed_remove)

lemma replaceLoop_byID:
  "md_byID (fst (replaceLoop record order (s, replaced))) d =
     (case md_byID s d of
        None \<Rightarrow> None
      | Some r \<Rightarrow> if d \<in> set order \<and> displaced record d r then None else Some r)"
  by (induction order arbitrary: s replaced) (auto split: option.splits)

fun newToken :: "trustCall \<Rightarrow> string set" where
  "newToken (CallAdd record) = {td_TokenHash record}"
| "newToken (CallReplace order record) = {td_TokenHash record}"
| "newToken _ = {}"

text \<open>The iteration orders of a call enumerate the map, and a new token is fresh.\<close>

fun callOrders :: "trustCall \<Rightarrow> MemoryDeviceStore \<Rightarrow> bool" where
  "callOrders (CallReplace order record) s \<longleftrightarrow> set order = dom (md_byID s)"
| "callOrders _ s \<longleftrightarrow> True"

lemma memoryCall_indexed:
  assumes "indexed s U" and "callOrders call s" and "newToken call \<inter> U = {}" and "memoryCall call s = Inr (x, s')"
  shows "indexed s' (U \<union> newToken call)"
proof (cases call)
  case (CallAdd r)
  with assms show ?thesis by (auto simp: AddDevice_def indexed_put split: if_splits)
next
  case (CallReplace order r)
  define s1 where "s1 = fst (replaceLoop r order (s, []))"
  have "s' = putRecord r s1" using assms(4) CallReplace by (auto simp: ReplaceDevice_def s1_def split: prod.splits)
  moreover have "indexed s1 U" unfolding s1_def by (rule replaceLoop_indexed [OF assms(1)])
  moreover have "md_byID s1 (td_DeviceID r) = None"
    using assms(2) CallReplace unfolding s1_def replaceLoop_byID by (auto simp: displaced_def split: option.splits)
  ultimately show ?thesis using assms(3) CallReplace by (simp add: indexed_put)
next
  case (CallEnableRelay deviceID key generation)
  with assms show ?thesis by (auto simp: EnableRelay_def intro!: indexed_update split: option.splits if_splits)
next
  case (CallRevoke deviceID now)
  with assms show ?thesis by (auto simp: RevokeDevice_def intro!: indexed_update split: option.splits)
qed

section \<open>Reachable stores\<close>

record TrustSys =
  ts_store :: FileDeviceStore
  ts_used :: "string set"

definition newTrust :: TrustSys where
  "newTrust = \<lparr>ts_store = \<lparr>fd_dir = \<lparr>dir_file = None, dir_temps = 0\<rparr>, fd_mem = NewMemoryDeviceStore\<rparr>, ts_used = {}\<rparr>"

inductive trustStep :: "TrustSys \<Rightarrow> TrustSys \<Rightarrow> bool" where
  trust_call:
    "set cloneOrder = dom (md_byID (fd_mem (ts_store t))) \<Longrightarrow>
     callOrders call (fd_mem (ts_store t)) \<Longrightarrow>
     newToken call \<inter> ts_used t = {} \<Longrightarrow>
     (\<forall>x s'. memoryCall call (fd_mem (ts_store t)) = Inr (x, s') \<longrightarrow> set writeOrder = dom (md_byID s')) \<Longrightarrow>
     fileCall cloneOrder writeOrder fault call (ts_store t) = (reply, fs') \<Longrightarrow>
     trustStep t \<lparr>ts_store = fs', ts_used = ts_used t \<union> newToken call\<rparr>"
| trust_restart:
    "NewFileDeviceStore (fd_dir (ts_store t)) = Some fs' \<Longrightarrow> trustStep t (t\<lparr>ts_store := fs'\<rparr>)"

inductive_cases trustStepE: "trustStep t t'"

abbreviation trustSteps :: "TrustSys \<Rightarrow> TrustSys \<Rightarrow> bool" where
  "trustSteps \<equiv> trustStep\<^sup>*\<^sup>*"

definition trust_ok :: "TrustSys \<Rightarrow> bool" where
  "trust_ok t \<longleftrightarrow> indexed (fd_mem (ts_store t)) (ts_used t)
     \<and> loadDevices (dir_file (fd_dir (ts_store t))) = Some (fd_mem (ts_store t))"

lemma trust_ok_new: "trust_ok newTrust"
  by (simp add: trust_ok_def newTrust_def indexed_new loadDevices_def)

lemma fileCall_ok:
  assumes ok: "trust_ok t" and o1: "set cloneOrder = dom (md_byID (fd_mem (ts_store t)))"
    and o2: "callOrders call (fd_mem (ts_store t))" and fresh: "newToken call \<inter> ts_used t = {}"
    and o3: "\<forall>x s'. memoryCall call (fd_mem (ts_store t)) = Inr (x, s') \<longrightarrow> set writeOrder = dom (md_byID s')"
    and c: "fileCall cloneOrder writeOrder fault call (ts_store t) = (reply, fs')"
  shows "trust_ok \<lparr>ts_store = fs', ts_used = ts_used t \<union> newToken call\<rparr>"
    and "reply = Inr x \<longleftrightarrow> fault = None \<and> (\<exists>s'. memoryCall call (fd_mem (ts_store t)) = Inr (x, s') \<and> fd_mem fs' = s')"
    and "reply = Inl e \<Longrightarrow> fd_mem fs' = fd_mem (ts_store t)"
proof -
  define mem where "mem = fd_mem (ts_store t)"
  have idx: "indexed mem (ts_used t)" and disk: "loadDevices (dir_file (fd_dir (ts_store t))) = Some mem"
    using ok by (simp_all add: trust_ok_def mem_def)
  have clone: "cloneSnapshot cloneOrder mem = mem" using clone_id [OF idx] o1 by (simp add: mem_def)
  have c': "(case memoryCall call mem of
        Inl e \<Rightarrow> (Inl e, ts_store t)
      | Inr (x, clone) \<Rightarrow>
          (case AtomicWriteFile fault (Records (snapshotRecords writeOrder clone)) (fd_dir (ts_store t)) of
             (False, d) \<Rightarrow> (Inl WriteFailed, (ts_store t)\<lparr>fd_dir := d\<rparr>)
           | (True, d) \<Rightarrow> (Inr x, \<lparr>fd_dir = d, fd_mem = clone\<rparr>))) = (reply, fs')"
    using c by (simp add: fileCall_def commit_def clone flip: mem_def)
  note keep = indexed_mono [OF idx, of "ts_used t \<union> newToken call"]
  have all: "trust_ok \<lparr>ts_store = fs', ts_used = ts_used t \<union> newToken call\<rparr>
    \<and> (reply = Inr x \<longleftrightarrow> fault = None \<and> (\<exists>s'. memoryCall call mem = Inr (x, s') \<and> fd_mem fs' = s'))
    \<and> (reply = Inl e \<longrightarrow> fd_mem fs' = mem)"
  proof (cases "memoryCall call mem")
    case (Inl e)
    with c' have "reply = Inl e" "fs' = ts_store t" by auto
    then show ?thesis using Inl keep disk by (auto simp: trust_ok_def mem_def)
  next
    case (Inr p)
    obtain y s' where p: "p = (y, s')" by (cases p)
    have idx': "indexed s' (ts_used t \<union> newToken call)"
      using memoryCall_indexed [OF idx _ fresh] Inr p o2 by (simp add: mem_def)
    have "set writeOrder = dom (md_byID s')" using o3 Inr p by (simp add: mem_def)
    then have reload: "loadDevices (Some (Records (snapshotRecords writeOrder s'))) = Some s'"
      by (simp add: loadDevices_def load_snapshot [OF idx'] clone_id [OF idx'])
    show ?thesis
    proof (cases "fault = None")
      case True
      then have "reply = Inr y" "fs' = \<lparr>fd_dir = (fd_dir (ts_store t))\<lparr>dir_file := Some (Records (snapshotRecords writeOrder s'))\<rparr>, fd_mem = s'\<rparr>"
        using c' Inr p by (auto simp: AtomicWriteFile_def)
      then show ?thesis using True Inr p idx' reload by (auto simp: trust_ok_def)
    next
      case False
      then have "reply = Inl WriteFailed" "fd_mem fs' = mem" "dir_file (fd_dir fs') = dir_file (fd_dir (ts_store t))"
        using c' Inr p by (auto simp: AtomicWriteFile_def mem_def split: option.splits ioFault.splits)
      then show ?thesis using False keep disk by (auto simp: trust_ok_def)
    qed
  qed
  show "trust_ok \<lparr>ts_store = fs', ts_used = ts_used t \<union> newToken call\<rparr>"
    and "reply = Inr x \<longleftrightarrow> fault = None \<and> (\<exists>s'. memoryCall call (fd_mem (ts_store t)) = Inr (x, s') \<and> fd_mem fs' = s')"
    and "reply = Inl e \<Longrightarrow> fd_mem fs' = fd_mem (ts_store t)"
    using all by (simp_all add: mem_def)
qed

lemma restart_same:
  assumes "trust_ok t"
  shows "NewFileDeviceStore (fd_dir (ts_store t)) = Some (ts_store t)"
  using assms by (simp add: trust_ok_def NewFileDeviceStore_def)

lemma trustStep_ok: "trustStep t t' \<Longrightarrow> trust_ok t \<Longrightarrow> trust_ok t'"
  by (induction rule: trustStep.induct) (auto simp: restart_same intro: fileCall_ok(1))

lemma trustSteps_ok: "trustSteps t t' \<Longrightarrow> trust_ok t \<Longrightarrow> trust_ok t'"
  by (induction rule: rtranclp_induct) (auto intro: trustStep_ok)

interpretation fs: device_store "\<lambda>t. md_byID (fd_mem (ts_store t))"
  "\<lambda>t h. LookupByTokenHash h (fd_mem (ts_store t))" "trustSteps newTrust"
proof
  fix t h rec
  assume "trustSteps newTrust t"
  then have "indexed (fd_mem (ts_store t)) (ts_used t)" using trustSteps_ok trust_ok_new by (simp add: trust_ok_def)
  then show "LookupByTokenHash h (fd_mem (ts_store t)) = Some rec \<longleftrightarrow>
      md_byID (fd_mem (ts_store t)) (td_DeviceID rec) = Some rec \<and> td_TokenHash rec = h" by (rule indexed_lookup)
qed

section \<open>Tokens that no longer open the bridge\<close>

definition dead :: "MemoryDeviceStore \<Rightarrow> string \<Rightarrow> bool" where
  "dead s h \<longleftrightarrow> (\<forall>d r. md_byID s d = Some r \<and> td_TokenHash r = h \<longrightarrow> td_RevokedAt r \<noteq> None)"

lemma memoryCall_dead:
  assumes "dead s h" and "h \<notin> newToken call" and "memoryCall call s = Inr (x, s')"
  shows "dead s' h"
proof (cases call)
  case (CallAdd r)
  with assms show ?thesis by (auto simp: dead_def AddDevice_def putRecord_def split: if_splits)
next
  case (CallReplace order r)
  define s1 where "s1 = fst (replaceLoop r order (s, []))"
  have "s' = putRecord r s1" using assms(3) CallReplace by (auto simp: ReplaceDevice_def s1_def split: prod.splits)
  moreover have "dead s1 h"
    using assms(1) unfolding dead_def s1_def replaceLoop_byID by (auto split: option.splits if_splits)
  ultimately show ?thesis using assms(2) CallReplace by (auto simp: dead_def putRecord_def split: if_splits)
next
  case (CallEnableRelay deviceID key generation)
  with assms show ?thesis by (fastforce simp: dead_def EnableRelay_def split: option.splits if_splits)
next
  case (CallRevoke deviceID now)
  with assms show ?thesis by (auto simp: dead_def RevokeDevice_def split: option.splits if_splits)
qed

lemma trustStep_dead:
  assumes "trustStep t t'" and "trust_ok t" and "dead (fd_mem (ts_store t)) h" and "h \<in> ts_used t"
  shows "dead (fd_mem (ts_store t')) h \<and> h \<in> ts_used t'"
  using assms(1)
proof (cases rule: trustStep.cases)
  case (trust_call cloneOrder call writeOrder fault reply fs')
  note effect = fileCall_ok(2,3) [OF assms(2) trust_call(2-6)]
  have "dead (fd_mem fs') h"
  proof (cases reply)
    case (Inl e)
    then show ?thesis using effect(2) assms(3) by simp
  next
    case (Inr x)
    then have "memoryCall call (fd_mem (ts_store t)) = Inr (x, fd_mem fs')" using effect(1) by auto
    then show ?thesis using memoryCall_dead [OF assms(3)] trust_call(4) assms(4) by blast
  qed
  with trust_call(1) assms(4) show ?thesis by simp
next
  case (trust_restart fs')
  then show ?thesis using restart_same [OF assms(2)] assms(3,4) by simp
qed

lemma trustSteps_dead:
  "trustSteps t t' \<Longrightarrow> trust_ok t \<Longrightarrow> dead (fd_mem (ts_store t)) h \<Longrightarrow> h \<in> ts_used t
   \<Longrightarrow> dead (fd_mem (ts_store t')) h \<and> h \<in> ts_used t' \<and> trust_ok t'"
  by (induction rule: rtranclp_induct) (auto dest: trustStep_dead trustStep_ok)

abbreviation authenticate ::
  "(string \<Rightarrow> bool) \<Rightarrow> (string \<Rightarrow> string) \<Rightarrow> TrustSys \<Rightarrow> string \<Rightarrow> string \<Rightarrow> (authError, TrustedDeviceRecord) result" where
  "authenticate wellFormed hash t token deviceID \<equiv>
     ValidateDeviceAuth wellFormed hash (\<lambda>h. LookupByTokenHash h (fd_mem (ts_store t))) token deviceID"

section \<open>Properties\<close>

text \<open>
  C24: the file store runs every call all or nothing.  In every reachable state a call that reports
  success had no file fault and did exactly what the memory store does; a call that reports an error
  left the records alone; and after either, a restart loads exactly the records that are in memory.
\<close>

theorem commit_all_or_nothing:
  assumes "trustSteps newTrust t"
    and "set cloneOrder = dom (md_byID (fd_mem (ts_store t)))"
    and "callOrders call (fd_mem (ts_store t))"
    and "newToken call \<inter> ts_used t = {}"
    and "\<forall>x s'. memoryCall call (fd_mem (ts_store t)) = Inr (x, s') \<longrightarrow> set writeOrder = dom (md_byID s')"
    and "fileCall cloneOrder writeOrder fault call (ts_store t) = (reply, fs')"
  shows "(reply = Inr x \<longleftrightarrow> fault = None \<and> memoryCall call (fd_mem (ts_store t)) = Inr (x, fd_mem fs'))
    \<and> (reply = Inl e \<longrightarrow> fd_mem fs' = fd_mem (ts_store t))
    \<and> NewFileDeviceStore (fd_dir fs') = Some fs'"
proof -
  have ok: "trust_ok t" using trustSteps_ok trust_ok_new assms(1) by blast
  note effect = fileCall_ok [OF ok assms(2-6)]
  show ?thesis using effect(2) [of x] effect(3) [of e] restart_same [OF effect(1)] by auto
qed

text \<open>
  C25: authentication is exact.  In every reachable state a token is accepted for a record exactly when
  it is well formed, the record is stored under its own id with the token's hash, the device id the
  client named (if any) is that id, and the record is not revoked.
\<close>

theorem auth_exact:
  assumes "trustSteps newTrust t"
  shows "authenticate wellFormed hash t token deviceID = Inr rec \<longleftrightarrow>
           token \<noteq> [] \<and> wellFormed token
           \<and> LookupByDeviceID (td_DeviceID rec) (fd_mem (ts_store t)) = Some rec \<and> td_TokenHash rec = hash token
           \<and> deviceID \<in> {[], td_DeviceID rec} \<and> td_RevokedAt rec = None"
  unfolding LookupByDeviceID_def by (rule fs.auth_iff [OF assms])

text \<open>
  C26: a token that was issued and does not authenticate any more never authenticates again, whatever
  calls, file faults, crashes and restarts follow.
\<close>

theorem dead_token_stays_dead:
  assumes "trustSteps newTrust t" and "hash token \<in> ts_used t"
    and "\<forall>rec. authenticate wellFormed hash t token [] \<noteq> Inr rec"
    and "token \<noteq> []" and "wellFormed token"
    and "trustSteps t t'"
  shows "authenticate wellFormed hash t' token deviceID \<noteq> Inr rec"
proof -
  have ok: "trust_ok t" using trustSteps_ok trust_ok_new assms(1) by blast
  then have idx: "indexed (fd_mem (ts_store t)) (ts_used t)" by (simp add: trust_ok_def)
  have "dead (fd_mem (ts_store t)) (hash token)"
    unfolding dead_def
  proof (intro allI impI, elim conjE)
    fix d r
    assume r: "md_byID (fd_mem (ts_store t)) d = Some r" "td_TokenHash r = hash token"
    then have "td_DeviceID r = d" using indexed_byID [OF idx] by blast
    then show "td_RevokedAt r \<noteq> None"
      using assms(3-5) r unfolding fs.auth_iff [OF assms(1)] by auto
  qed
  with trustSteps_dead [OF assms(6) ok _ assms(2)] have "dead (fd_mem (ts_store t')) (hash token)" by blast
  moreover have "trustSteps newTrust t'" using assms(1,6) by (rule rtranclp_trans)
  ultimately show ?thesis unfolding fs.auth_iff [OF \<open>trustSteps newTrust t'\<close>] by (auto simp: dead_def)
qed

section \<open>Witnesses\<close>

definition demoDevice :: TrustedDeviceRecord where
  "demoDevice = zeroRecord\<lparr>td_DeviceID := ''dev_1'', td_TokenHash := ''h''\<rparr>"

definition demoTrusted :: TrustSys where
  "demoTrusted = \<lparr>ts_store = snd (fileCall [] [''dev_1''] None (CallAdd demoDevice) (ts_store newTrust)), ts_used = {''h''}\<rparr>"

definition demoDistrusted :: TrustSys where
  "demoDistrusted = \<lparr>ts_store = snd (fileCall [''dev_1''] [''dev_1''] None (CallRevoke ''dev_1'' 7) (ts_store demoTrusted)), ts_used = {''h''}\<rparr>"

lemmas demo_trust = demoDevice_def zeroRecord_def newTrust_def NewMemoryDeviceStore_def fileCall_def commit_def cloneSnapshot_def
  AddDevice_def RevokeDevice_def putRecord_def AtomicWriteFile_def snapshotRecords_def List.map_filter_simps

lemma demoTrusted_store: "md_byID (fd_mem (ts_store demoTrusted)) = [''dev_1'' \<mapsto> demoDevice]"
  "md_byToken (fd_mem (ts_store demoTrusted)) = [''h'' \<mapsto> ''dev_1'']"
  by (simp_all add: demoTrusted_def demo_trust)

lemma demoDistrusted_store:
  "md_byID (fd_mem (ts_store demoDistrusted)) = [''dev_1'' \<mapsto> demoDevice\<lparr>td_RevokedAt := Some 7\<rparr>]"
  "md_byToken (fd_mem (ts_store demoDistrusted)) = [''h'' \<mapsto> ''dev_1'']"
  by (simp_all add: demoDistrusted_def demoTrusted_def demo_trust)

lemma demoTrusted_reached: "trustSteps newTrust demoTrusted"
proof -
  have "trustStep newTrust \<lparr>ts_store = snd (fileCall [] [''dev_1''] None (CallAdd demoDevice) (ts_store newTrust)),
      ts_used = ts_used newTrust \<union> newToken (CallAdd demoDevice)\<rparr>"
    by (rule trust_call [where cloneOrder = "[]" and writeOrder = "[''dev_1'']" and fault = None and
          reply = "fst (fileCall [] [''dev_1''] None (CallAdd demoDevice) (ts_store newTrust))"])
      (auto simp: demo_trust)
  then show ?thesis by (simp add: demoTrusted_def demoDevice_def newTrust_def r_into_rtranclp)
qed

lemma demoDistrusted_step: "trustStep demoTrusted demoDistrusted"
proof -
  let ?c = "fileCall [''dev_1''] [''dev_1''] None (CallRevoke ''dev_1'' 7) (ts_store demoTrusted)"
  have "trustStep demoTrusted \<lparr>ts_store = snd ?c, ts_used = ts_used demoTrusted \<union> newToken (CallRevoke ''dev_1'' 7)\<rparr>"
    by (rule trust_call [where cloneOrder = "[''dev_1'']" and writeOrder = "[''dev_1'']" and fault = None and reply = "fst ?c"]) (auto simp: demoTrusted_store RevokeDevice_def)
  then show ?thesis by (simp add: demoDistrusted_def demoTrusted_def)
qed

lemma demoDistrusted_reached: "trustSteps newTrust demoDistrusted"
  using demoTrusted_reached demoDistrusted_step by (rule rtranclp.rtrancl_into_rtrancl)

theorem commit_all_or_nothing_witness:
  "fst (fileCall [''dev_1''] [''dev_1''] (Some RenameTemp) (CallRevoke ''dev_1'' 7) (ts_store demoTrusted)) = Inl WriteFailed
   \<and> fd_mem (snd (fileCall [''dev_1''] [''dev_1''] (Some RenameTemp) (CallRevoke ''dev_1'' 7) (ts_store demoTrusted)))
       = fd_mem (ts_store demoTrusted)"
proof -
  let ?c = "fileCall [''dev_1''] [''dev_1''] (Some RenameTemp) (CallRevoke ''dev_1'' 7) (ts_store demoTrusted)"
  have "fst ?c = Inl WriteFailed" by (simp add: demoTrusted_def demo_trust)
  moreover have "fst ?c = Inl WriteFailed \<longrightarrow> fd_mem (snd ?c) = fd_mem (ts_store demoTrusted)"
    using commit_all_or_nothing [OF demoTrusted_reached, of "[''dev_1'']" "CallRevoke ''dev_1'' 7" "[''dev_1'']"
        "Some RenameTemp" "fst ?c" "snd ?c" "[]" WriteFailed]
    by (auto simp: demoTrusted_store RevokeDevice_def)
  ultimately show ?thesis by simp
qed

theorem auth_exact_witness:
  "authenticate (\<lambda>_. True) (\<lambda>_. ''h'') demoTrusted ''token'' ''dev_1'' = Inr demoDevice"
  by (subst auth_exact [OF demoTrusted_reached]) (simp add: LookupByDeviceID_def demoTrusted_store demoDevice_def zeroRecord_def)

theorem dead_token_stays_dead_witness:
  "authenticate (\<lambda>_. True) (\<lambda>_. ''h'') demoDistrusted ''token'' ''dev_1'' \<noteq> Inr demoDevice"
  by (rule dead_token_stays_dead [OF demoDistrusted_reached])
    (auto simp: demoDistrusted_def ValidateDeviceAuth_def LookupByTokenHash_def demoTrusted_def demo_trust)

end
