(* ===== verification/Rpc_Authorization.thy ===== *)
theory Rpc_Authorization
  imports Device_Trust
begin

text \<open>
  Which device may call which RPC, and which handler a request reaches: the scope table of
  \<^verbatim>\<open>go-bridge/rpc_scopes.go\<close>, \<^verbatim>\<open>CapabilityPolicy.AuthorizeRPC\<close>, and the routing of
  \<^verbatim>\<open>Handlers.HandleRPC\<close>, \<^verbatim>\<open>dispatchRPC\<close> and \<^verbatim>\<open>handleOpenCodeRPC\<close>.

  A call of a handler is the action \<open>Handler\<close> with the handler's name: its body, which answers the request
  itself, is not modelled here.  A result sent by the routing code is \<open>Answer\<close> with its error code, or
  \<open>AnswerOk\<close>.  What the routing reads of its surroundings is one record.
\<close>

section \<open>Scopes\<close>

definition ScopeSessionRead :: string where "ScopeSessionRead = ''session.read''"
definition ScopeSessionWrite :: string where "ScopeSessionWrite = ''session.write''"
definition ScopeConfigRead :: string where "ScopeConfigRead = ''config.read''"
definition ScopeConfigWrite :: string where "ScopeConfigWrite = ''config.write''"
definition ScopeWorkspaceRead :: string where "ScopeWorkspaceRead = ''workspace.read''"
definition ScopeWorkspaceMutate :: string where "ScopeWorkspaceMutate = ''workspace.mutate''"
definition ScopeDeliveryManage :: string where "ScopeDeliveryManage = ''delivery.manage''"
definition ScopeWebPushManage :: string where "ScopeWebPushManage = ''web_push.manage''"

lemmas scope_names = ScopeSessionRead_def ScopeSessionWrite_def ScopeConfigRead_def ScopeConfigWrite_def
  ScopeWorkspaceRead_def ScopeWorkspaceMutate_def ScopeDeliveryManage_def ScopeWebPushManage_def

definition rpcScopeTable :: "(string \<times> string) list" where
  "rpcScopeTable =
     [(''hello'', []),
      (''get_session'', ScopeSessionRead),
      (''get_session_messages'', ScopeSessionRead),
      (''get_session_projection'', ScopeSessionRead),
      (''get_session_projection_window'', ScopeSessionRead),
      (''list_sessions'', ScopeSessionRead),
      (''list_pinned_sessions'', ScopeSessionRead),
      (''fetch_todos'', ScopeSessionRead),
      (''check_pending_notifications'', ScopeSessionRead),
      (''get_turn_diff'', ScopeSessionRead),
      (''get_full_thread_diff'', ScopeSessionRead),
      (''list_session_commands'', ScopeSessionRead),
      (''list_collaboration_modes'', ScopeSessionRead),
      (''get_session_goal'', ScopeSessionRead),
      (''create_session'', ScopeSessionWrite),
      (''send_message'', ScopeSessionWrite),
      (''abort_generation'', ScopeSessionWrite),
      (''resume_session'', ScopeSessionWrite),
      (''delete_session'', ScopeSessionWrite),
      (''rename_session'', ScopeSessionWrite),
      (''archive_session'', ScopeSessionWrite),
      (''set_session_pinned'', ScopeSessionWrite),
      (''compress_context'', ScopeSessionWrite),
      (''resolve_permission'', ScopeSessionWrite),
      (''question_reply'', ScopeSessionWrite),
      (''question_reject'', ScopeSessionWrite),
      (''resolve_user_input'', ScopeSessionWrite),
      (''cancel_request_v1'', ScopeSessionWrite),
      (''execute_session_command'', ScopeSessionWrite),
      (''mutate_session_goal'', ScopeSessionWrite),
      (''update_collaboration_mode'', ScopeSessionWrite),
      (''set_session_goal'', ScopeSessionWrite),
      (''clear_session_goal'', ScopeSessionWrite),
      (''share_session'', ScopeSessionWrite),
      (''set_observation_scope'', ScopeSessionWrite),
      (''list_providers'', ScopeConfigRead),
      (''list_models'', ScopeConfigRead),
      (''list_agents'', ScopeConfigRead),
      (''list_permission_modes'', ScopeConfigRead),
      (''get_usage'', ScopeConfigRead),
      (''list_memory_files'', ScopeConfigRead),
      (''read_memory_file'', ScopeConfigRead),
      (''run_diagnostics'', ScopeConfigRead),
      (''set_provider'', ScopeConfigWrite),
      (''switch_model'', ScopeConfigWrite),
      (''set_permission_mode'', ScopeConfigWrite),
      (''set_agent_preset'', ScopeConfigWrite),
      (''get_workspace_diff'', ScopeWorkspaceRead),
      (''read_file_v2'', ScopeWorkspaceRead),
      (''list_directory'', ScopeWorkspaceRead),
      (''get_git_context'', ScopeWorkspaceRead),
      (''fetch_content_chunk'', ScopeWorkspaceRead),
      (''check_pull_request_support'', ScopeWorkspaceRead),
      (''get_session_media'', ScopeWorkspaceRead),
      (''get_session_media_dimensions'', ScopeWorkspaceRead),
      (''checkout_git_branch'', ScopeWorkspaceMutate),
      (''create_git_branch'', ScopeWorkspaceMutate),
      (''create_git_worktree'', ScopeWorkspaceMutate),
      (''create_pull_request'', ScopeWorkspaceMutate),
      (''list_projects'', ScopeWorkspaceMutate),
      (''get_delivery_prekey_status'', ScopeDeliveryManage),
      (''upload_delivery_prekeys'', ScopeDeliveryManage),
      (''get_delivery_chain_head'', ScopeDeliveryManage),
      (''enable_relay_pairing'', ScopeDeliveryManage),
      (''register_push_subscription'', ScopeWebPushManage),
      (''unregister_push_subscription'', ScopeWebPushManage),
      (''get_push_badge_state'', ScopeWebPushManage),
      (''acknowledge_push_badge'', ScopeWebPushManage)]"

definition scopeForMethod :: "string \<Rightarrow> string" where
  "scopeForMethod m = (case map_of rpcScopeTable m of None \<Rightarrow> [] | Some scope \<Rightarrow> scope)"

definition DefaultGrantedScopes :: "string list" where
  "DefaultGrantedScopes =
     [ScopeSessionRead, ScopeSessionWrite, ScopeConfigRead, ScopeConfigWrite, ScopeWorkspaceRead,
      ScopeWorkspaceMutate, ScopeDeliveryManage, ScopeWebPushManage]"

definition deviceHasScope :: "TrustedDeviceRecord option \<Rightarrow> string \<Rightarrow> bool" where
  "deviceHasScope device scope =
     (if scope = [] then True
      else case device of
             None \<Rightarrow> True
           | Some d \<Rightarrow> if td_GrantedScopes d = [] then True else scope \<in> set (td_GrantedScopes d))"

definition grantedScopesForEcho :: "TrustedDeviceRecord option \<Rightarrow> string list" where
  "grantedScopesForEcho device =
     (case device of
        Some d \<Rightarrow> if td_GrantedScopes d \<noteq> [] then td_GrantedScopes d else DefaultGrantedScopes
      | None \<Rightarrow> DefaultGrantedScopes)"

text \<open>\<open>True\<close> lets the request pass; the policy object may be absent.\<close>

definition AuthorizeRPC :: "bool \<Rightarrow> TrustedDeviceRecord option \<Rightarrow> string \<Rightarrow> bool" where
  "AuthorizeRPC policy device m =
     (if \<not> policy then True
      else if scopeForMethod m \<noteq> [] \<and> \<not> deviceHasScope device (scopeForMethod m) then False
      else True)"

section \<open>Routing\<close>

datatype rpcAction = Answer string | AnswerOk | Handler string | SwitchDir string

record WireMessage =
  wm_Method :: string
  wm_BackendID :: string
  wm_Dir :: string

record RpcEnv =
  re_policy :: bool
  re_readFileV2 :: bool
  re_catalogV2 :: bool
  re_relayEnabled :: bool
  re_ocProxy :: bool
  re_agents :: "string \<Rightarrow> string option"

definition shouldSwitchWorkDirForMethod :: "string \<Rightarrow> bool" where
  "shouldSwitchWorkDirForMethod m \<longleftrightarrow>
     m \<notin> {''list_sessions'', ''get_session'', ''get_session_messages'', ''get_session_projection''}"

definition catalogCapabilityRequiredFor :: "string \<Rightarrow> bool" where
  "catalogCapabilityRequiredFor agentName \<longleftrightarrow>
     agentName \<in> {''codex'', ''grokbuild'', ''opencode'', ''claude'', ''claudecode''}"

definition dispatchCases :: "(string \<times> string) list" where
  "dispatchCases =
     [(''list_providers'', ''handleListProviders''),
      (''set_provider'', ''handleSetProvider''),
      (''list_models'', ''handleListModels''),
      (''list_agents'', ''handleListAgents''),
      (''list_permission_modes'', ''handleListPermissionModes''),
      (''set_permission_mode'', ''handleSetPermissionMode''),
      (''list_session_commands'', ''handleListSessionCommands''),
      (''execute_session_command'', ''handleExecuteSessionCommand''),
      (''mutate_session_goal'', ''handleMutateSessionGoal''),
      (''update_session_queue'', ''handleUpdateSessionQueue''),
      (''get_attachment'', ''handleGetAttachment''),
      (''get_session_media'', ''handleGetSessionMedia''),
      (''get_session_media_dimensions'', ''handleGetSessionMediaDimensions''),
      (''list_collaboration_modes'', ''handleListCollaborationModes''),
      (''update_collaboration_mode'', ''handleUpdateCollaborationMode''),
      (''get_session_goal'', ''handleGetSessionGoal''),
      (''set_session_goal'', ''handleSetSessionGoal''),
      (''clear_session_goal'', ''handleClearSessionGoal''),
      (''set_agent_preset'', ''handleSetAgentPreset''),
      (''create_session'', ''handleCreateSession''),
      (''send_message'', ''handleSendMessage''),
      (''abort_generation'', ''handleAbortGeneration''),
      (''get_session'', ''handleGetSession''),
      (''get_session_messages'', ''handleGetSessionMessages''),
      (''get_session_projection'', ''handleGetSessionProjection''),
      (''get_session_projection_window'', ''handleGetSessionProjectionWindow''),
      (''get_session_projection_window_v2'', ''handleGetSessionProjectionWindowV2''),
      (''get_session_projection_anchor_newer'', ''handleGetSessionProjectionAnchorNewer''),
      (''session_turn_items'', ''handleSessionTurnItems''),
      (''turn_output_chunk'', ''handleTurnOutputChunk''),
      (''delete_session'', ''handleDeleteSession''),
      (''resume_session'', ''handleResumeSession''),
      (''switch_model'', ''handleSwitchModel''),
      (''resolve_permission'', ''handleResolvePermission''),
      (''list_sessions'', ''handleListSessions''),
      (''background_tasks.list'', ''handleBackgroundTasksList''),
      (''background_tasks.get'', ''handleBackgroundTasksGet''),
      (''background_tasks.cancel'', ''handleBackgroundTasksCancel''),
      (''list_projects'', ''handleListProjects''),
      (''fetch_todos'', ''handleFetchTodos''),
      (''get_workspace_diff'', ''handleGetWorkspaceDiff''),
      (''get_turn_diff'', ''handleGetTurnDiff''),
      (''get_full_thread_diff'', ''handleGetFullThreadDiff''),
      (''get_usage'', ''handleGetUsage''),
      (''run_diagnostics'', ''handleRunDiagnostics''),
      (''list_memory_files'', ''handleListMemoryFiles''),
      (''read_memory_file'', ''handleReadMemoryFile''),
      (''fetch_content_chunk'', ''handleFetchContentChunk''),
      (''read_file_v2'', ''handleReadFileV2''),
      (''cancel_request_v1'', ''handleCancelRequest''),
      (''list_directory'', ''handleListDirectory''),
      (''get_git_context'', ''handleGetGitContext''),
      (''check_pull_request_support'', ''handleCheckPullRequestSupport''),
      (''create_pull_request'', ''handleCreatePullRequest''),
      (''commit_and_push'', ''handleCommitAndPush''),
      (''checkout_git_branch'', ''handleCheckoutGitBranch''),
      (''create_git_branch'', ''handleCreateGitBranch''),
      (''create_git_worktree'', ''handleCreateGitWorktree''),
      (''rename_session'', ''handleRenameSession''),
      (''archive_session'', ''handleArchiveSession''),
      (''unarchive_session'', ''handleUnarchiveSession''),
      (''get_session_preview'', ''handleGetSessionPreview''),
      (''set_session_pinned'', ''handleSetSessionPinned''),
      (''list_pinned_sessions'', ''handleListPinnedSessions''),
      (''compress_context'', ''handleCompressContext''),
      (''check_pending_notifications'', ''handleCheckPendingNotifications''),
      (''question_reply'', ''handleQuestionReply''),
      (''question_reject'', ''handleQuestionReject''),
      (''resolve_user_input'', ''handleResolveUserInput'')]"

definition dispatchRPC :: "string \<Rightarrow> WireMessage \<Rightarrow> rpcAction list" where
  "dispatchRPC agentName msg =
     (let m = wm_Method msg;
          sw = (if wm_Dir msg \<noteq> [] \<and>
                  (agentName = ''opencode'' \<or> agentName = ''opencode-web'' \<or> shouldSwitchWorkDirForMethod m)
                then [SwitchDir (wm_Dir msg)] else [])
      in sw @
         (if m = ''hello'' then [AnswerOk]
          else if m = ''share_session'' then [Answer ''not_supported'']
          else case map_of dispatchCases m of
                 Some h \<Rightarrow> [Handler h]
               | None \<Rightarrow> [Answer ''method_not_found'']))"

text \<open>The two switches of the OpenCode router; the first does not return in every case.\<close>

definition openCodeGeneric :: "string list" where
  "openCodeGeneric =
     [''list_providers'', ''set_provider'', ''list_agents'', ''fetch_todos'', ''get_usage'', ''run_diagnostics'',
      ''get_workspace_diff'', ''list_memory_files'', ''read_memory_file'', ''fetch_content_chunk'', ''read_file_v2'',
      ''list_directory'', ''get_git_context'', ''checkout_git_branch'', ''create_git_branch'', ''create_git_worktree'',
      ''rename_session'', ''archive_session'', ''compress_context'', ''delete_session'', ''list_models'', ''switch_model'',
      ''get_session_messages'', ''get_session_projection'', ''get_session_projection_window'',
      ''get_session_projection_window_v2'']"

definition openCodeProxied :: "RpcEnv \<Rightarrow> WireMessage \<Rightarrow> rpcAction list" where
  "openCodeProxied env msg =
     (let m = wm_Method msg; agent = re_agents env (wm_BackendID msg)
      in if m = ''get_session'' then [Handler ''ocHandleGetSession'']
         else if m = ''list_sessions'' then [Handler ''ocHandleListSessions'']
         else if m = ''list_projects'' then [Handler ''ocHandleListProjects'']
         else if m = ''create_session'' then [Handler ''ocHandleCreateSession'']
         else if m = ''resume_session'' then [Handler ''ocHandleResumeSession'']
         else if m = ''send_message''
         then (if agent = None then [Answer ''backend_not_found''] else [Handler ''ocHandleSendMessage''])
         else if m = ''abort_generation'' then [Handler ''ocHandleAbortGeneration'']
         else if m = ''set_session_pinned'' \<or> m = ''list_pinned_sessions''
         then (if agent = None then [Answer ''backend_not_found'']
               else if m = ''set_session_pinned'' then [Handler ''handleSetSessionPinned'']
               else [Handler ''handleListPinnedSessions''])
         else [Answer ''method_not_found''])"

definition handleOpenCodeRPC :: "RpcEnv \<Rightarrow> WireMessage \<Rightarrow> rpcAction list" where
  "handleOpenCodeRPC env msg =
     (let m = wm_Method msg
      in if m = ''hello'' then AnswerOk # openCodeProxied env msg
         else if m \<in> set openCodeGeneric
         then (case re_agents env (wm_BackendID msg) of
                 None \<Rightarrow> [Answer ''backend_not_found'']
               | Some agentName \<Rightarrow> dispatchRPC agentName msg)
         else if m = ''list_permission_modes'' \<or> m = ''set_permission_mode''
         then (if re_agents env (wm_BackendID msg) = None then [Answer ''backend_not_found'']
               else if m = ''list_permission_modes'' then [Handler ''handleListPermissionModes'']
               else [Handler ''handleSetPermissionMode''])
         else if m = ''resolve_permission'' then Answer ''not_supported'' # openCodeProxied env msg
         else if m = ''share_session'' then Answer ''not_supported'' # openCodeProxied env msg
         else openCodeProxied env msg)"

text \<open>\<open>None\<close>: the method is not one of this router, which returns false.\<close>

definition handleDeliveryRPC :: "RpcEnv \<Rightarrow> TrustedDeviceRecord option \<Rightarrow> string \<Rightarrow> rpcAction list option" where
  "handleDeliveryRPC env device m =
     (if m \<notin> {''get_delivery_prekey_status'', ''upload_delivery_prekeys'', ''get_delivery_chain_head''} then None
      else if \<not> re_relayEnabled env then Some [Answer ''relay.not_configured'']
      else if device = None then Some [Answer ''auth.required'']
      else Some [Handler m])"

definition handleRelayUpgradeRPC :: "TrustedDeviceRecord option \<Rightarrow> string \<Rightarrow> rpcAction list option" where
  "handleRelayUpgradeRPC device m =
     (if m \<noteq> ''enable_relay_pairing'' then None
      else if device = None then Some [Answer ''auth.required'']
      else Some [Handler m])"

definition handleWebPushRPC :: "TrustedDeviceRecord option \<Rightarrow> string \<Rightarrow> rpcAction list option" where
  "handleWebPushRPC device m =
     (if m \<notin> {''register_push_subscription'', ''unregister_push_subscription'', ''get_push_badge_state'', ''acknowledge_push_badge''}
      then None
      else if device = None then Some [Answer ''auth.required'']
      else Some [Handler m])"

definition routeToAgent :: "RpcEnv \<Rightarrow> WireMessage \<Rightarrow> rpcAction list" where
  "routeToAgent env msg =
     (case re_agents env (wm_BackendID msg) of
        None \<Rightarrow> [Answer ''backend_not_found'']
      | Some agentName \<Rightarrow>
          if wm_Method msg = ''list_sessions'' \<and> catalogCapabilityRequiredFor agentName \<and> \<not> re_catalogV2 env
          then [Answer ''protocol.capability_required'']
          else if wm_BackendID msg = ''opencode'' \<and> re_ocProxy env then handleOpenCodeRPC env msg
          else dispatchRPC agentName msg)"

definition HandleRPC :: "RpcEnv \<Rightarrow> bool \<Rightarrow> TrustedDeviceRecord option \<Rightarrow> WireMessage \<Rightarrow> rpcAction list" where
  "HandleRPC env directRevoked device msg =
     (let m = wm_Method msg
      in if directRevoked then [Answer ''auth.device_revoked'']
         else if \<not> AuthorizeRPC (re_policy env) device m then [Answer ''forbidden'']
         else if m = ''read_file_v2'' \<and> \<not> re_readFileV2 env then [Answer ''capability_not_negotiated'']
         else case handleDeliveryRPC env device m of
                Some acts \<Rightarrow> acts
              | None \<Rightarrow>
                  (case handleRelayUpgradeRPC device m of
                     Some acts \<Rightarrow> acts
                   | None \<Rightarrow>
                       (case handleWebPushRPC device m of
                          Some acts \<Rightarrow> acts
                        | None \<Rightarrow>
                            if m = ''set_observation_scope'' then [Handler ''handleSetObservationScope'']
                            else routeToAgent env msg)))"

section \<open>Every request is taken care of once\<close>

fun isReply :: "rpcAction \<Rightarrow> bool" where
  "isReply (SwitchDir dir) \<longleftrightarrow> False"
| "isReply _ \<longleftrightarrow> True"

definition replies :: "rpcAction list \<Rightarrow> nat" where
  "replies acts = length (filter isReply acts)"

lemma replies_simps [simp]:
  "replies [] = 0" "replies (a # acts) = (if isReply a then 1 else 0) + replies acts"
  "replies (acts @ acts') = replies acts + replies acts'"
  by (simp_all add: replies_def)

lemma replies_dispatch: "replies (dispatchRPC agentName msg) = 1"
  by (simp add: dispatchRPC_def Let_def split: option.splits)

lemma replies_proxied: "replies (openCodeProxied env msg) = 1"
  by (simp add: openCodeProxied_def Let_def)

lemma replies_openCode:
  "replies (handleOpenCodeRPC env msg) = (if wm_Method msg \<in> {''hello'', ''resolve_permission'', ''share_session''} then 2 else 1)"
  by (simp add: handleOpenCodeRPC_def Let_def replies_dispatch replies_proxied openCodeGeneric_def split: option.splits)

lemma replies_routeToAgent:
  "replies (routeToAgent env msg) =
     (if wm_BackendID msg = ''opencode'' \<and> re_ocProxy env \<and> re_agents env ''opencode'' \<noteq> None
       \<and> wm_Method msg \<in> {''hello'', ''resolve_permission'', ''share_session''} then 2 else 1)"
  by (auto simp: routeToAgent_def replies_openCode replies_dispatch split: option.splits)

text \<open>
  C27: the routing answers every request or hands it to one handler, exactly once, whatever the
  device and the configuration; except that the OpenCode router answers \<^verbatim>\<open>hello\<close>,
  \<^verbatim>\<open>resolve_permission\<close> and \<^verbatim>\<open>share_session\<close> twice, the second time as an unknown method.
\<close>

theorem request_answered_once:
  "replies (HandleRPC env directRevoked device msg) =
     (if \<not> directRevoked \<and> AuthorizeRPC (re_policy env) device (wm_Method msg)
         \<and> wm_BackendID msg = ''opencode'' \<and> re_ocProxy env \<and> re_agents env ''opencode'' \<noteq> None
         \<and> wm_Method msg \<in> {''hello'', ''resolve_permission'', ''share_session''}
      then 2 else 1)"
proof -
  have tail: "replies (if m = ''set_observation_scope'' then [Handler ''handleSetObservationScope''] else routeToAgent env msg) =
      (if m \<noteq> ''set_observation_scope'' then replies (routeToAgent env msg) else 1)" for m
    by simp
  show ?thesis
    by (auto simp: HandleRPC_def Let_def handleDeliveryRPC_def handleRelayUpgradeRPC_def handleWebPushRPC_def tail
        replies_routeToAgent)
qed

section \<open>The scope gate\<close>

definition refused :: "RpcEnv \<Rightarrow> TrustedDeviceRecord option \<Rightarrow> WireMessage \<Rightarrow> bool" where
  "refused env device msg \<longleftrightarrow> HandleRPC env False device msg = [Answer ''forbidden'']"

lemma dispatch_not_forbidden: "Answer ''forbidden'' \<notin> set (dispatchRPC agentName msg)"
  by (simp add: dispatchRPC_def Let_def split: option.splits)

lemma openCode_not_forbidden: "Answer ''forbidden'' \<notin> set (handleOpenCodeRPC env msg)"
  by (simp add: handleOpenCodeRPC_def openCodeProxied_def Let_def dispatch_not_forbidden split: option.splits)

lemma route_not_forbidden: "Answer ''forbidden'' \<notin> set (routeToAgent env msg)"
  by (simp add: routeToAgent_def dispatch_not_forbidden openCode_not_forbidden split: option.splits)

lemma refused_iff:
  "refused env device msg \<longleftrightarrow> \<not> AuthorizeRPC (re_policy env) device (wm_Method msg)"
proof -
  have "routeToAgent env msg \<noteq> [Answer ''forbidden'']" using route_not_forbidden by (metis list.set_intros(1))
  then show ?thesis
    by (auto simp: refused_def HandleRPC_def Let_def handleDeliveryRPC_def handleRelayUpgradeRPC_def handleWebPushRPC_def)
qed

text \<open>
  C28: for the scopes there are, what the hello acknowledgement tells the client about its device is what
  the gate enforces: a request is refused exactly when its method has a scope that was not echoed.
\<close>

theorem echo_matches_gate:
  assumes "re_policy env" and "scopeForMethod (wm_Method msg) \<in> set DefaultGrantedScopes"
  shows "refused env device msg \<longleftrightarrow> scopeForMethod (wm_Method msg) \<notin> set (grantedScopesForEcho device)"
proof -
  have "scopeForMethod (wm_Method msg) \<noteq> []" using assms(2) by (auto simp: DefaultGrantedScopes_def scope_names)
  then show ?thesis using assms
    by (auto simp: refused_iff AuthorizeRPC_def deviceHasScope_def grantedScopesForEcho_def split: option.splits)
qed

lemma unscoped_methods:
  "filter (\<lambda>m. map_of rpcScopeTable m = None) (map fst dispatchCases) =
     [''update_session_queue'', ''get_attachment'', ''get_session_projection_window_v2'',
      ''get_session_projection_anchor_newer'', ''session_turn_items'', ''turn_output_chunk'', ''background_tasks.list'',
      ''background_tasks.get'', ''background_tasks.cancel'', ''commit_and_push'', ''unarchive_session'', ''get_session_preview'']"
  by code_simp

text \<open>
  The gate does not cover every dispatched method.  Twelve methods of the dispatcher have no
  entry in the scope table, and no device is ever refused one of them, however few scopes it was granted.
\<close>

theorem scope_table_gap:
  "filter (\<lambda>m. map_of rpcScopeTable m = None) (map fst dispatchCases) =
     [''update_session_queue'', ''get_attachment'', ''get_session_projection_window_v2'',
      ''get_session_projection_anchor_newer'', ''session_turn_items'', ''turn_output_chunk'', ''background_tasks.list'',
      ''background_tasks.get'', ''background_tasks.cancel'', ''commit_and_push'', ''unarchive_session'', ''get_session_preview'']
   \<and> Handler ''handleCommitAndPush'' \<in>
       set (HandleRPC env False device \<lparr>wm_Method = ''commit_and_push'', wm_BackendID = ''codex'', wm_Dir = dir\<rparr>)
     = (re_agents env ''codex'' \<noteq> None)"
proof -
  have table: "map_of rpcScopeTable ''commit_and_push'' = None" by code_simp
  have handler: "map_of dispatchCases ''commit_and_push'' = Some ''handleCommitAndPush''" by code_simp
  show ?thesis
    by (simp add: unscoped_methods HandleRPC_def Let_def AuthorizeRPC_def scopeForMethod_def table handleDeliveryRPC_def
        handleRelayUpgradeRPC_def handleWebPushRPC_def routeToAgent_def dispatchRPC_def handler split: option.splits)
qed

theorem echo_matches_gate_witness:
  "refused \<lparr>re_policy = True, re_readFileV2 = True, re_catalogV2 = True, re_relayEnabled = True, re_ocProxy = False,
      re_agents = Map.empty\<rparr> (Some (demoDevice\<lparr>td_GrantedScopes := [ScopeSessionRead]\<rparr>))
      \<lparr>wm_Method = ''send_message'', wm_BackendID = ''codex'', wm_Dir = []\<rparr>"
proof -
  have "scopeForMethod ''send_message'' = ScopeSessionWrite" by code_simp
  then show ?thesis
    by (subst echo_matches_gate) (simp_all add: DefaultGrantedScopes_def grantedScopesForEcho_def scope_names)
qed

end
