(* ===== verification/Device_Connections.thy ===== *)
theory Device_Connections
  imports Rpc_Authorization
begin

text \<open>
  Live connections of trusted devices: the registry a revocation uses to cut a device off
  (\<^verbatim>\<open>go-bridge/device_conn_registry.go\<close>), the way a direct connection is accepted and closed
  (\<^verbatim>\<open>Server.ServeHTTP\<close>, \<^verbatim>\<open>Conn.CloseWithControl\<close> in \<^verbatim>\<open>server.go\<close>) and the revocation
  handler of the management server, run as steps that may interleave.

  A connection is a number; what it carries is looked up in the state.  The keys of the registry with no
  connection are the absent ones.  Network writes are left out: closing a connection is the flag and
  its cleanup.
\<close>

section \<open>The registry\<close>

record DeviceConnectionMetadata =
  dm_Kind :: string
  dm_DirectClass :: string

record deviceConnEntry =
  ce_conn :: nat
  ce_metadata :: DeviceConnectionMetadata

type_synonym connRegistry = "string \<Rightarrow> deviceConnEntry list"

text \<open>\<open>None\<close>: the connection does not provide metadata of its own.\<close>

definition connectionMetadata :: "DeviceConnectionMetadata option \<Rightarrow> DeviceConnectionMetadata" where
  "connectionMetadata provided =
     (let metadata = (case provided of Some m \<Rightarrow> m | None \<Rightarrow> \<lparr>dm_Kind = ''unknown'', dm_DirectClass = ''unknown''\<rparr>)
      in if dm_Kind metadata = ''direct''
         then (if dm_DirectClass metadata = [] then metadata\<lparr>dm_DirectClass := ''unknown''\<rparr> else metadata)
         else if dm_Kind metadata = ''relay'' then metadata\<lparr>dm_DirectClass := []\<rparr>
         else (if dm_DirectClass metadata = []
               then metadata\<lparr>dm_Kind := ''unknown'', dm_DirectClass := ''unknown''\<rparr>
               else metadata\<lparr>dm_Kind := ''unknown''\<rparr>))"

definition Register :: "string \<Rightarrow> nat \<Rightarrow> DeviceConnectionMetadata option \<Rightarrow> connRegistry \<Rightarrow> connRegistry" where
  "Register deviceID conn provided r =
     (if deviceID = [] then r
      else r(deviceID := r deviceID @ [\<lparr>ce_conn = conn, ce_metadata = connectionMetadata provided\<rparr>]))"

fun removeConn :: "nat \<Rightarrow> deviceConnEntry list \<Rightarrow> deviceConnEntry list" where
  "removeConn conn [] = []"
| "removeConn conn (entry # entries) = (if ce_conn entry = conn then entries else entry # removeConn conn entries)"

definition Unregister :: "string \<Rightarrow> nat \<Rightarrow> connRegistry \<Rightarrow> connRegistry" where
  "Unregister deviceID conn r = (if deviceID = [] then r else r(deviceID := removeConn conn (r deviceID)))"

definition Connections :: "string \<Rightarrow> connRegistry \<Rightarrow> nat list" where
  "Connections deviceID r = (if deviceID = [] then [] else map ce_conn (r deviceID))"

section \<open>Connections and the steps of the server\<close>

record Conn =
  cn_authedDevice :: "TrustedDeviceRecord option"
  cn_revoked :: bool
  cn_closed :: bool
  cn_cleanup :: bool
  cn_metadata :: "DeviceConnectionMetadata option"

datatype acceptPhase = Accepted | Activated | Enrolled

record ConnSys =
  cs_store :: MemoryDeviceStore
  cs_conns :: "nat \<Rightarrow> Conn option"
  cs_active :: "nat set"
  cs_registry :: connRegistry
  cs_phase :: "nat \<Rightarrow> acceptPhase"

text \<open>\<open>newConn\<close> leaves the revoked flag unset, and no statement of the program sets it.\<close>

definition newConn :: "TrustedDeviceRecord option \<Rightarrow> DeviceConnectionMetadata option \<Rightarrow> Conn" where
  "newConn device provided =
     \<lparr>cn_authedDevice = device, cn_revoked = False, cn_closed = False, cn_cleanup = True, cn_metadata = provided\<rparr>"

text \<open>Closing runs the cleanup once; the cleanup takes the connection out of both registries.\<close>

definition closeConnection :: "nat \<Rightarrow> ConnSys \<Rightarrow> ConnSys" where
  "closeConnection c s =
     (case cs_conns s c of
        None \<Rightarrow> s
      | Some conn \<Rightarrow>
          if cn_closed conn then s
          else let s1 = s\<lparr>cs_conns := (cs_conns s)(c \<mapsto> conn\<lparr>cn_closed := True, cn_cleanup := False\<rparr>)\<rparr>
               in if \<not> cn_cleanup conn then s1
                  else s1\<lparr>cs_active := cs_active s1 - {c},
                          cs_registry := (case cn_authedDevice conn of
                                            None \<Rightarrow> cs_registry s1
                                          | Some device \<Rightarrow> Unregister (td_DeviceID device) c (cs_registry s1))\<rparr>)"

definition DisconnectDevice :: "string \<Rightarrow> ConnSys \<Rightarrow> ConnSys" where
  "DisconnectDevice deviceID s =
     (let entries = cs_registry s deviceID;
          s1 = s\<lparr>cs_registry := (cs_registry s)(deviceID := [])\<rparr>
      in foldl (\<lambda>s entry. closeConnection (ce_conn entry) s) s1 entries)"

definition CloseAll :: "nat list \<Rightarrow> ConnSys \<Rightarrow> ConnSys" where
  "CloseAll conns s = foldl (\<lambda>s c. closeConnection c s) s conns"

text \<open>
  Accepting a request: it is authenticated, the connection made and its cleanup installed
  (\<open>Accept\<close>); it enters the active connections (\<open>Activate\<close>) and then the registry (\<open>Enrol\<close>).  A
  revocation first marks the record (\<open>Revoke\<close>), then cuts the device off (\<open>CutOff\<close>).
\<close>

datatype connOp =
  Accept nat string string "DeviceConnectionMetadata option"
| Activate nat
| Enrol nat
| CloseOne nat
| ShutDown "nat list"
| Revoke string instant
| CutOff string

fun connStep :: "(string \<Rightarrow> bool) \<Rightarrow> (string \<Rightarrow> string) \<Rightarrow> ConnSys \<Rightarrow> connOp \<Rightarrow> ConnSys" where
  "connStep wellFormed hash s (Accept c token deviceID provided) =
     (if cs_conns s c \<noteq> None then s
      else case ValidateDeviceAuth wellFormed hash (\<lambda>h. LookupByTokenHash h (cs_store s)) token deviceID of
             Inl e \<Rightarrow> s
           | Inr device \<Rightarrow> s\<lparr>cs_conns := (cs_conns s)(c \<mapsto> newConn (Some device) provided), cs_phase := (cs_phase s)(c := Accepted)\<rparr>)"
| "connStep wellFormed hash s (Activate c) =
     (if cs_conns s c = None \<or> cs_phase s c \<noteq> Accepted then s
      else s\<lparr>cs_active := insert c (cs_active s), cs_phase := (cs_phase s)(c := Activated)\<rparr>)"
| "connStep wellFormed hash s (Enrol c) =
     (case cs_conns s c of
        None \<Rightarrow> s
      | Some conn \<Rightarrow>
          if cs_phase s c \<noteq> Activated then s
          else s\<lparr>cs_registry := (case cn_authedDevice conn of
                                   None \<Rightarrow> cs_registry s
                                 | Some device \<Rightarrow> Register (td_DeviceID device) c (cn_metadata conn) (cs_registry s)),
                 cs_phase := (cs_phase s)(c := Enrolled)\<rparr>)"
| "connStep wellFormed hash s (CloseOne c) = closeConnection c s"
| "connStep wellFormed hash s (ShutDown conns) = CloseAll (filter (\<lambda>c. c \<in> cs_active s) conns) s"
| "connStep wellFormed hash s (Revoke deviceID now) =
     (case RevokeDevice deviceID now (cs_store s) of
        Inl e \<Rightarrow> s
      | Inr (x, store) \<Rightarrow> s\<lparr>cs_store := store\<rparr>)"
| "connStep wellFormed hash s (CutOff deviceID) = DisconnectDevice deviceID s"

definition newConnSys :: "MemoryDeviceStore \<Rightarrow> ConnSys" where
  "newConnSys store =
     \<lparr>cs_store = store, cs_conns = \<lambda>_. None, cs_active = {}, cs_registry = \<lambda>_. [], cs_phase = \<lambda>_. Accepted\<rparr>"

section \<open>What closing does\<close>

definition openFor :: "ConnSys \<Rightarrow> nat \<Rightarrow> string \<Rightarrow> bool" where
  "openFor s c deviceID \<longleftrightarrow>
     (\<exists>conn device. cs_conns s c = Some conn \<and> \<not> cn_closed conn \<and> cn_authedDevice conn = Some device
        \<and> td_DeviceID device = deviceID)"

abbreviation enrolledIn :: "ConnSys \<Rightarrow> string \<Rightarrow> nat set" where
  "enrolledIn s deviceID \<equiv> ce_conn ` set (cs_registry s deviceID)"

lemma removeConn_other: "c' \<noteq> c \<Longrightarrow> c' \<in> ce_conn ` set (removeConn c entries) \<longleftrightarrow> c' \<in> ce_conn ` set entries"
  by (induction entries) auto

lemma close_frame [simp]:
  "cs_store (closeConnection c s) = cs_store s" "cs_phase (closeConnection c s) = cs_phase s"
  by (simp_all add: closeConnection_def Let_def split: option.splits)

lemma close_open: "openFor (closeConnection c s) c' d \<longleftrightarrow> openFor s c' d \<and> c' \<noteq> c"
  by (auto simp: closeConnection_def openFor_def Let_def split: option.splits)

lemma close_enrolled:
  "c' \<noteq> c \<Longrightarrow> c' \<in> enrolledIn (closeConnection c s) d \<longleftrightarrow> c' \<in> enrolledIn s d"
  by (auto simp: closeConnection_def Let_def Unregister_def removeConn_other split: option.splits)

lemma close_conn:
  "cs_conns (closeConnection c s) c' = Some conn \<Longrightarrow>
   \<exists>conn'. cs_conns s c' = Some conn' \<and> cn_authedDevice conn' = cn_authedDevice conn \<and> cn_revoked conn' = cn_revoked conn"
  by (auto simp: closeConnection_def Let_def split: option.splits if_splits)

lemma closes_frame [simp]:
  "cs_store (foldl (\<lambda>s x. closeConnection (f x) s) s xs) = cs_store s"
  "cs_phase (foldl (\<lambda>s x. closeConnection (f x) s) s xs) = cs_phase s"
  by (induction xs arbitrary: s) auto

lemma closes_open:
  "openFor (foldl (\<lambda>s x. closeConnection (f x) s) s xs) c d \<longleftrightarrow> openFor s c d \<and> c \<notin> f ` set xs"
  by (induction xs arbitrary: s) (auto simp: close_open)

lemma closes_enrolled:
  "c \<notin> f ` set xs \<Longrightarrow>
   c \<in> enrolledIn (foldl (\<lambda>s x. closeConnection (f x) s) s xs) d \<longleftrightarrow> c \<in> enrolledIn s d"
  by (induction xs arbitrary: s) (auto simp: close_enrolled)

lemma closes_conn:
  "cs_conns (foldl (\<lambda>s x. closeConnection (f x) s) s xs) c = Some conn \<Longrightarrow>
   \<exists>conn'. cs_conns s c = Some conn' \<and> cn_authedDevice conn' = cn_authedDevice conn \<and> cn_revoked conn' = cn_revoked conn"
proof (induction xs arbitrary: s)
  case (Cons x xs)
  then obtain conn' where "cs_conns (closeConnection (f x) s) c = Some conn'"
    "cn_authedDevice conn' = cn_authedDevice conn" "cn_revoked conn' = cn_revoked conn" by fastforce
  then show ?case using close_conn by fastforce
qed auto

section \<open>Open connections are in the registry\<close>

definition conn_ok :: "string set \<Rightarrow> ConnSys \<Rightarrow> bool" where
  "conn_ok used s \<longleftrightarrow>
     indexed (cs_store s) used \<and> md_byID (cs_store s) [] = None
     \<and> (\<forall>c conn. cs_conns s c = Some conn \<longrightarrow> \<not> cn_revoked conn
          \<and> (\<forall>device. cn_authedDevice conn = Some device \<longrightarrow> td_DeviceID device \<noteq> []))
     \<and> (\<forall>c d. openFor s c d \<and> cs_phase s c = Enrolled \<longrightarrow> c \<in> enrolledIn s d)"

lemma conn_ok_new: "indexed store used \<Longrightarrow> md_byID store [] = None \<Longrightarrow> conn_ok used (newConnSys store)"
  by (simp add: conn_ok_def newConnSys_def openFor_def)

lemma conn_ok_closes:
  assumes "conn_ok used s"
  shows "conn_ok used (foldl (\<lambda>s x. closeConnection (f x) s) s xs)"
  using assms closes_conn [of f s xs] unfolding conn_ok_def by (fastforce simp: closes_open closes_enrolled)

lemma conn_ok_disconnect:
  assumes ok: "conn_ok used s"
  shows "conn_ok used (DisconnectDevice d s)"
proof -
  define s1 where "s1 = s\<lparr>cs_registry := (cs_registry s)(d := [])\<rparr>"
  define s2 where "s2 = DisconnectDevice d s"
  have s2: "s2 = foldl (\<lambda>s entry. closeConnection (ce_conn entry) s) s1 (cs_registry s d)"
    by (simp add: s2_def s1_def DisconnectDevice_def Let_def)
  have opened: "openFor s2 c e \<longleftrightarrow> openFor s c e \<and> c \<notin> enrolledIn s d" for c e
    by (simp add: s2 closes_open) (simp add: s1_def openFor_def)
  have enrolled: "c \<in> enrolledIn s2 e" if "openFor s2 c e" and "cs_phase s c = Enrolled" for c e
  proof -
    have c: "openFor s c e" "c \<notin> enrolledIn s d" using that(1) by (simp_all add: opened)
    then have "c \<in> enrolledIn s e" using ok that(2) by (simp add: conn_ok_def)
    then have "c \<in> enrolledIn s1 e" using c(2) by (auto simp: s1_def)
    then show ?thesis using closes_enrolled [of c ce_conn "cs_registry s d" s1 e] c(2) by (simp add: s2)
  qed
  have "\<exists>conn'. cs_conns s c = Some conn' \<and> cn_authedDevice conn' = cn_authedDevice conn \<and> cn_revoked conn' = cn_revoked conn"
    if "cs_conns s2 c = Some conn" for c conn
    using closes_conn [of ce_conn s1 "cs_registry s d" c conn] that by (simp add: s2 s1_def)
  moreover have "cs_store s2 = cs_store s" "cs_phase s2 = cs_phase s" by (simp_all add: s2) (simp_all add: s1_def)
  ultimately have "conn_ok used s2" using ok enrolled unfolding conn_ok_def by fastforce
  then show ?thesis by (simp add: s2_def)
qed

lemma conn_ok_step:
  assumes ok: "conn_ok used s"
  shows "conn_ok used (connStep wellFormed hash s x)"
proof (cases x)
  case (Accept c token deviceID provided)
  have idx: "\<exists>used. indexed (cs_store s) used" using ok by (auto simp: conn_ok_def)
  have "td_DeviceID rec \<noteq> []"
    if "ValidateDeviceAuth wellFormed hash (\<lambda>h. LookupByTokenHash h (cs_store s)) token deviceID = Inr rec" for rec
    using that ok unfolding ms.auth_iff [OF idx] by (auto simp: conn_ok_def)
  then show ?thesis using ok Accept by (auto simp: conn_ok_def openFor_def newConn_def split: sum.splits)
next
  case (Activate c)
  then show ?thesis using ok by (auto simp: conn_ok_def openFor_def)
next
  case (Enrol c)
  show ?thesis
  proof (cases "cs_conns s c = None \<or> cs_phase s c \<noteq> Activated")
    case True
    then show ?thesis using ok Enrol by (auto split: option.splits)
  next
    case False
    then obtain conn where conn: "cs_conns s c = Some conn" "cs_phase s c = Activated" by auto
    then show ?thesis using ok Enrol by (auto simp: conn_ok_def openFor_def Register_def split: option.splits)
  qed
next
  case (CloseOne c)
  then show ?thesis using conn_ok_closes [OF ok, of id "[c]"] by simp
next
  case (ShutDown conns)
  then show ?thesis using conn_ok_closes [OF ok, of id] by (simp add: CloseAll_def)
next
  case (Revoke deviceID now)
  have "indexed store used \<and> md_byID store [] = None" if "RevokeDevice deviceID now (cs_store s) = Inr (y, store)" for y store
    using that ok by (auto simp: conn_ok_def RevokeDevice_def intro!: indexed_update split: option.splits)
  then show ?thesis using ok Revoke by (auto simp: conn_ok_def openFor_def split: sum.splits)
next
  case (CutOff deviceID)
  then show ?thesis using conn_ok_disconnect [OF ok] by simp
qed

text \<open>A device that is revoked and has no open connection.\<close>

definition cutOff :: "string \<Rightarrow> ConnSys \<Rightarrow> bool" where
  "cutOff d s \<longleftrightarrow> (\<exists>r. md_byID (cs_store s) d = Some r \<and> td_RevokedAt r \<noteq> None) \<and> (\<forall>c. \<not> openFor s c d)"

lemma cutOff_step:
  assumes ok: "conn_ok used s" and cut: "cutOff d s"
  shows "cutOff d (connStep wellFormed hash s x)"
proof (cases x)
  case (Accept c token deviceID provided)
  have idx: "\<exists>used. indexed (cs_store s) used" using ok by (auto simp: conn_ok_def)
  have "td_DeviceID rec \<noteq> d"
    if "ValidateDeviceAuth wellFormed hash (\<lambda>h. LookupByTokenHash h (cs_store s)) token deviceID = Inr rec" for rec
    using that cut unfolding ms.auth_iff [OF idx] by (auto simp: cutOff_def)
  then show ?thesis using cut Accept by (auto simp: cutOff_def openFor_def newConn_def split: sum.splits)
next
  case (Activate c)
  then show ?thesis using cut by (auto simp: cutOff_def openFor_def)
next
  case (Enrol c)
  then show ?thesis using cut by (auto simp: cutOff_def openFor_def split: option.splits)
next
  case (CloseOne c)
  then show ?thesis using cut by (simp add: cutOff_def close_open)
next
  case (ShutDown conns)
  then show ?thesis using cut closes_open [of id] by (simp add: cutOff_def CloseAll_def)
next
  case (Revoke deviceID now)
  then show ?thesis using cut
    by (auto simp: cutOff_def openFor_def RevokeDevice_def split: sum.splits option.splits)
next
  case (CutOff deviceID)
  then show ?thesis using cut
    by (simp add: cutOff_def DisconnectDevice_def Let_def closes_open) (auto simp: openFor_def)
qed

interpretation cn: one_way_machine "connStep wellFormed hash" "conn_ok used" "cutOff d"
  for wellFormed hash used d
  by unfold_locales (auto intro: conn_ok_step cutOff_step)

lemma disconnect_cuts:
  assumes ok: "conn_ok used s" and revoked: "md_byID (cs_store s) d = Some r" "td_RevokedAt r \<noteq> None"
    and enrolled: "\<forall>c. openFor s c d \<longrightarrow> cs_phase s c = Enrolled"
  shows "cutOff d (DisconnectDevice d s)"
proof -
  have "\<not> openFor (DisconnectDevice d s) c d" for c
  proof -
    have "openFor s c d \<Longrightarrow> c \<in> enrolledIn s d" using ok enrolled by (simp add: conn_ok_def)
    then show ?thesis by (simp add: DisconnectDevice_def Let_def closes_open) (auto simp: openFor_def)
  qed
  with revoked show ?thesis by (auto simp: cutOff_def DisconnectDevice_def Let_def)
qed

lemma revoked_persists:
  assumes "md_byID (cs_store s) d = Some r" and "td_RevokedAt r \<noteq> None"
  shows "\<exists>r. md_byID (cs_store (run (connStep wellFormed hash) s xs)) d = Some r \<and> td_RevokedAt r \<noteq> None"
  using assms
proof (induction xs arbitrary: s r)
  case (Cons x xs)
  have "\<exists>r. md_byID (cs_store (connStep wellFormed hash s x)) d = Some r \<and> td_RevokedAt r \<noteq> None"
    using Cons.prems
    by (cases x) (auto simp: CloseAll_def DisconnectDevice_def RevokeDevice_def Let_def
        closes_frame [of id, simplified] split: sum.splits option.splits)
  then show ?case using Cons.IH by auto
qed auto

section \<open>Properties\<close>


section \<open>Connections on the way in\<close>

definition demoAccepted :: "MemoryDeviceStore \<Rightarrow> connOp list \<Rightarrow> ConnSys" where
  "demoAccepted store ops =
     run (connStep (\<lambda>_. True) (\<lambda>_. ''h'')) (newConnSys store) ([Accept 0 ''token'' ''dev_1'' None, Activate 0] @ ops @ [Enrol 0])"

text \<open>
  Two races of the acceptance.  A device that is revoked and cut off between the
  authentication of its request and its registration keeps an open, registered connection, and the check
  for a revoked connection in the RPC router never fires, in this or in any other reachable state; and a
  connection that a shutdown closes before its registration stays in the registry although it is closed.
\<close>

theorem acceptance_races:
  "openFor (demoAccepted (fd_mem (ts_store demoTrusted)) [Revoke ''dev_1'' 7, CutOff ''dev_1'']) 0 ''dev_1''
   \<and> \<not> openFor (demoAccepted (fd_mem (ts_store demoTrusted)) [ShutDown [0]]) 0 ''dev_1''
   \<and> Connections ''dev_1'' (cs_registry (demoAccepted (fd_mem (ts_store demoTrusted)) [ShutDown [0]])) = [0]
   \<and> (\<forall>ops c. case cs_conns (run (connStep (\<lambda>_. True) (\<lambda>_. ''h'')) (newConnSys (fd_mem (ts_store demoTrusted))) ops) c of
          None \<Rightarrow> True
        | Some conn \<Rightarrow> HandleRPC env (cn_revoked conn) (cn_authedDevice conn) msg = HandleRPC env False (cn_authedDevice conn) msg)"
proof -
  have ok: "trust_ok demoTrusted" using trustSteps_ok [OF demoTrusted_reached] trust_ok_new by simp
  have never: "\<not> cn_revoked conn"
    if "cs_conns (run (connStep (\<lambda>_. True) (\<lambda>_. ''h'')) (newConnSys (fd_mem (ts_store demoTrusted))) ops) c = Some conn" for ops c conn
  proof -
    have "conn_ok (ts_used demoTrusted) (newConnSys (fd_mem (ts_store demoTrusted)))"
      by (rule conn_ok_new) (use ok in \<open>auto simp: trust_ok_def demoTrusted_store\<close>)
    then show ?thesis using cn.run_good that unfolding conn_ok_def by blast
  qed
  show ?thesis
    by (auto simp: never demoAccepted_def newConnSys_def ValidateDeviceAuth_def LookupByTokenHash_def demoTrusted_store
        demoDevice_def zeroRecord_def newConn_def RevokeDevice_def DisconnectDevice_def CloseAll_def Let_def Register_def
        openFor_def closeConnection_def Unregister_def Connections_def split: option.splits)
qed


end
