(* ===== verification/Inbound_Scheduler.thy ===== *)
theory Inbound_Scheduler
  imports Outbound_Writer "HOL-Library.Sublist"
begin

text \<open>
  The per-device scheduler of inbound relay messages (\<^verbatim>\<open>go-bridge/relay_inbound_scheduler.go\<close>):
  one queue per session, served in arrival order, the head of the most urgent class first, sessions taking
  turns within a class.  First the operations on the locked state, then the callers and the
  executor goroutine as steps that interleave.

  A message is what the scheduler reads of it; the decoding of the JSON text is not modelled, and its length
  is an argument.  An absent key of the queue map is \<open>None\<close>.
\<close>

section \<open>Data\<close>

definition relayInboundQueueFrames :: int where "relayInboundQueueFrames = 256"
definition relayInboundQueueBytes :: int where "relayInboundQueueBytes = 8 * 1048576"
definition relayInboundDeviceFIFO :: string where "relayInboundDeviceFIFO = ''__device_fifo__''"

record inboundMessage =
  im_Type :: string
  im_Method :: string
  im_RequestID :: string
  im_SessionID :: string
  im_ParamsSession :: "string option"

record relayInboundJob =
  rij_rawLen :: nat
  rij_message :: inboundMessage
  rij_sessionKey :: string
  rij_class :: relayOutboundClass

record relayInboundScheduler =
  ris_queues :: "string \<Rightarrow> relayInboundJob list option"
  ris_keys :: "string list"
  ris_cursor :: nat
  ris_frames :: int
  ris_bytes :: int
  ris_stopped :: bool

definition newRelayInboundScheduler :: relayInboundScheduler where
  "newRelayInboundScheduler = \<lparr>ris_queues = Map.empty, ris_keys = [], ris_cursor = 0, ris_frames = 0, ris_bytes = 0, ris_stopped = False\<rparr>"

datatype inboundError = InboundClosed | InboundOverflow
datatype inboundCallback = OnSupersede string | OnHistory string string

section \<open>Operations\<close>

definition relayInboundSessionKey :: "inboundMessage \<Rightarrow> string" where
  "relayInboundSessionKey msg =
     (if im_SessionID msg \<noteq> [] then im_SessionID msg
      else case im_ParamsSession msg of
             Some s \<Rightarrow> if s \<noteq> [] then s else relayInboundDeviceFIFO
           | None \<Rightarrow> relayInboundDeviceFIFO)"

definition inboundClass :: "inboundMessage \<Rightarrow> relayOutboundClass" where
  "inboundClass msg =
     (if im_Type msg \<in> {''hello'', ''ping'', ''recovery_applied''} then relayOutboundControl
      else if im_Type msg = ''request'' then classifyRelayRequest (im_Method msg)
      else relayOutboundNormal)"

definition isHistory :: "inboundMessage \<Rightarrow> bool" where
  "isHistory msg \<longleftrightarrow> im_Type msg = ''request'' \<and> im_Method msg = ''get_session_messages''"

abbreviation historyJob :: "relayInboundJob \<Rightarrow> bool" where
  "historyJob job \<equiv> isHistory (rij_message job)"

definition inboundJob :: "nat \<Rightarrow> inboundMessage \<Rightarrow> relayInboundJob" where
  "inboundJob rawLen msg =
     \<lparr>rij_rawLen = rawLen, rij_message = msg, rij_sessionKey = relayInboundSessionKey msg, rij_class = inboundClass msg\<rparr>"

definition queueAt :: "relayInboundScheduler \<Rightarrow> string \<Rightarrow> relayInboundJob list" where
  "queueAt s key = (case ris_queues s key of None \<Rightarrow> [] | Some q \<Rightarrow> q)"

definition rawBytes :: "relayInboundJob list \<Rightarrow> int" where
  "rawBytes jobs = (\<Sum>job\<leftarrow>jobs. int (rij_rawLen job))"

text \<open>A new history request takes the place of those that wait in its session.\<close>

definition supersede ::
  "bool \<Rightarrow> bool \<Rightarrow> string \<Rightarrow> string \<Rightarrow> relayInboundScheduler \<Rightarrow> inboundCallback list \<times> relayInboundScheduler" where
  "supersede onSupersede onHistory key requestID s =
     (let old = queueAt s key;
          gone = filter historyJob old;
          kept = filter (\<lambda>job. \<not> historyJob job) old
      in ((if onSupersede then map (\<lambda>job. OnSupersede (im_RequestID (rij_message job))) gone else [])
            @ (if onHistory then [OnHistory key requestID] else []),
          s\<lparr>ris_queues := (ris_queues s)(key \<mapsto> kept), ris_frames := ris_frames s - int (length gone),
            ris_bytes := ris_bytes s - rawBytes gone\<rparr>))"

definition enqueueMessage ::
  "bool \<Rightarrow> bool \<Rightarrow> nat \<Rightarrow> inboundMessage \<Rightarrow> relayInboundScheduler
   \<Rightarrow> (inboundError, inboundCallback list) result \<times> relayInboundScheduler" where
  "enqueueMessage onSupersede onHistory rawLen msg s =
     (let key = relayInboundSessionKey msg; job = inboundJob rawLen msg
      in if ris_stopped s then (Inl InboundClosed, s)
         else if ris_frames s + 1 > relayInboundQueueFrames \<or> ris_bytes s + int rawLen > relayInboundQueueBytes
         then (Inl InboundOverflow, s)
         else let (calls, s1) = (if isHistory msg \<and> key \<noteq> relayInboundDeviceFIFO
                                 then supersede onSupersede onHistory key (im_RequestID msg) s else ([], s));
                  s2 = (if ris_queues s key = None then s1\<lparr>ris_keys := ris_keys s1 @ [key]\<rparr> else s1)
              in (Inr calls,
                  s2\<lparr>ris_queues := (ris_queues s2)(key \<mapsto> queueAt s2 key @ [job]), ris_frames := ris_frames s2 + 1,
                     ris_bytes := ris_bytes s2 + int rawLen\<rparr>))"

fun firstSome :: "('a \<Rightarrow> 'b option) \<Rightarrow> 'a list \<Rightarrow> 'b option" where
  "firstSome f [] = None"
| "firstSome f (x # xs) = (case f x of None \<Rightarrow> firstSome f xs | Some y \<Rightarrow> Some y)"

definition headOfClass :: "relayInboundScheduler \<Rightarrow> relayOutboundClass \<Rightarrow> nat option" where
  "headOfClass s c =
     List.find (\<lambda>idx. queueAt s (ris_keys s ! idx) \<noteq> [] \<and> rij_class (hd (queueAt s (ris_keys s ! idx))) = c)
       (map (\<lambda>offset. (ris_cursor s + offset) mod length (ris_keys s)) [0..<length (ris_keys s)])"

definition inbound_pop :: "relayInboundScheduler \<Rightarrow> relayInboundJob option \<times> relayInboundScheduler" where
  "inbound_pop s =
     (if ris_frames s = 0 \<or> ris_keys s = [] then (None, s)
      else case firstSome (headOfClass s) allClasses of
             None \<Rightarrow> (None, s)
           | Some idx \<Rightarrow>
               let key = ris_keys s ! idx; job = hd (queueAt s key)
               in (Some job,
                   s\<lparr>ris_queues := (ris_queues s)(key \<mapsto> tl (queueAt s key)),
                     ris_cursor := (idx + 1) mod length (ris_keys s),
                     ris_frames := ris_frames s - 1, ris_bytes := ris_bytes s - int (rij_rawLen job)\<rparr>))"

definition inbound_close :: "relayInboundScheduler \<Rightarrow> relayInboundScheduler" where
  "inbound_close s = s\<lparr>ris_stopped := True\<rparr>"

section \<open>Callers and the executor\<close>

text \<open>
  \<open>is_wakers\<close> counts the callers between the unlock and the wake-up they send; \<open>is_accepted\<close> and
  \<open>is_dispatched\<close> record what was admitted and what was handed to the dispatcher.
\<close>

record InboundSys =
  is_sched :: relayInboundScheduler
  is_wake :: bool
  is_draining :: bool
  is_exited :: bool
  is_wakers :: nat
  is_accepted :: "relayInboundJob list"
  is_dispatched :: "relayInboundJob list"

datatype InboundOp = IEnqueue nat inboundMessage | ISendWake | IReceiveWake | IPop | IExit | IClose

fun inboundStep :: "InboundSys \<Rightarrow> InboundOp \<Rightarrow> InboundSys" where
  "inboundStep t (IEnqueue rawLen msg) =
     (case enqueueMessage True True rawLen msg (is_sched t) of
        (Inl e, s) \<Rightarrow> t\<lparr>is_sched := s\<rparr>
      | (Inr calls, s) \<Rightarrow> t\<lparr>is_sched := s, is_wakers := is_wakers t + 1, is_accepted := is_accepted t @ [inboundJob rawLen msg]\<rparr>)"
| "inboundStep t ISendWake = (if is_wakers t = 0 then t else t\<lparr>is_wake := True, is_wakers := is_wakers t - 1\<rparr>)"
| "inboundStep t IReceiveWake =
     (if is_wake t \<and> \<not> is_draining t \<and> \<not> is_exited t then t\<lparr>is_wake := False, is_draining := True\<rparr> else t)"
| "inboundStep t IPop =
     (if \<not> is_draining t then t
      else case inbound_pop (is_sched t) of
             (None, s) \<Rightarrow> t\<lparr>is_sched := s, is_draining := False\<rparr>
           | (Some job, s) \<Rightarrow> t\<lparr>is_sched := s, is_dispatched := is_dispatched t @ [job]\<rparr>)"
| "inboundStep t IExit = (if ris_stopped (is_sched t) \<and> \<not> is_draining t then t\<lparr>is_exited := True\<rparr> else t)"
| "inboundStep t IClose = t\<lparr>is_sched := inbound_close (is_sched t)\<rparr>"

definition newInboundSys :: InboundSys where
  "newInboundSys = \<lparr>is_sched = newRelayInboundScheduler, is_wake = False, is_draining = False, is_exited = False,
     is_wakers = 0, is_accepted = [], is_dispatched = []\<rparr>"

section \<open>The queues are counted exactly\<close>

abbreviation queueIn :: "(string \<Rightarrow> relayInboundJob list option) \<Rightarrow> string \<Rightarrow> relayInboundJob list" where
  "queueIn queues key \<equiv> (case queues key of None \<Rightarrow> [] | Some q \<Rightarrow> q)"

definition counted :: "(string \<Rightarrow> relayInboundJob list option) \<Rightarrow> string list \<Rightarrow> int \<Rightarrow> int \<Rightarrow> bool" where
  "counted queues keys frames bytes \<longleftrightarrow>
     distinct keys \<and> set keys = dom queues
     \<and> frames = (\<Sum>k\<leftarrow>keys. int (length (queueIn queues k))) \<and> bytes = (\<Sum>k\<leftarrow>keys. rawBytes (queueIn queues k))"

definition sched_ok :: "relayInboundScheduler \<Rightarrow> bool" where
  "sched_ok s \<longleftrightarrow>
     counted (ris_queues s) (ris_keys s) (ris_frames s) (ris_bytes s)
     \<and> ris_frames s \<le> relayInboundQueueFrames \<and> ris_bytes s \<le> relayInboundQueueBytes"

lemma rawBytes_simps [simp]:
  "rawBytes [] = 0" "rawBytes (job # jobs) = int (rij_rawLen job) + rawBytes jobs"
  "rawBytes (jobs @ jobs') = rawBytes jobs + rawBytes jobs'"
  by (simp_all add: rawBytes_def)

lemma rawBytes_nonneg: "0 \<le> rawBytes jobs"
  by (induction jobs) auto

lemma rawBytes_split: "rawBytes (filter P jobs) + rawBytes (filter (\<lambda>j. \<not> P j) jobs) = rawBytes jobs"
  by (induction jobs) auto

lemma sum_list_update_key:
  assumes "distinct ks" and "k \<in> set ks" and "\<And>x. x \<in> set ks \<Longrightarrow> x \<noteq> k \<Longrightarrow> g x = f x"
  shows "(\<Sum>x\<leftarrow>ks. g x) = (\<Sum>x\<leftarrow>ks. f x) - f k + (g k :: int)"
  using assms
proof (induction ks)
  case (Cons x xs)
  show ?case
  proof (cases "x = k")
    case True
    then have "map g xs = map f xs" using Cons.prems by auto
    from arg_cong [OF this, of sum_list] show ?thesis by (simp add: True)
  next
    case False
    then show ?thesis using Cons by simp
  qed
qed simp

lemma sorted_allClasses: "sorted allClasses"
  by (simp add: allClasses_def less_eq_relayOutboundClass_def classCode_def)

lemma queueAt_update: "queueAt (s\<lparr>ris_queues := (ris_queues s)(k \<mapsto> q)\<rparr>) k' = (if k' = k then q else queueAt s k')"
  by (simp add: queueAt_def)

lemma counted_put:
  assumes c: "counted queues keys frames bytes" and k: "k \<in> set keys"
  shows "counted (queues(k \<mapsto> q)) keys (frames - int (length (queueIn queues k)) + int (length q))
           (bytes - rawBytes (queueIn queues k) + rawBytes q)"
proof -
  let ?queues = "queues(k \<mapsto> q)"
  have d: "distinct keys" using c by (simp add: counted_def)
  have "(\<Sum>x\<leftarrow>keys. int (length (queueIn ?queues x))) =
      (\<Sum>x\<leftarrow>keys. int (length (queueIn queues x))) - int (length (queueIn queues k)) + int (length (queueIn ?queues k))"
    by (rule sum_list_update_key [OF d k]) simp
  moreover have "(\<Sum>x\<leftarrow>keys. rawBytes (queueIn ?queues x)) =
      (\<Sum>x\<leftarrow>keys. rawBytes (queueIn queues x)) - rawBytes (queueIn queues k) + rawBytes (queueIn ?queues k)"
    by (rule sum_list_update_key [OF d k]) simp
  ultimately show ?thesis using c k by (auto simp: counted_def)
qed

lemma counted_new:
  assumes "counted queues keys frames bytes" and "queues k = None"
  shows "counted (queues(k \<mapsto> [])) (keys @ [k]) frames bytes"
proof -
  have k: "k \<notin> set keys" using assms by (auto simp: counted_def)
  have same: "(\<Sum>x\<leftarrow>keys. f (queueIn (queues(k \<mapsto> [])) x)) = (\<Sum>x\<leftarrow>keys. f (queueIn queues x))"
    for f :: "relayInboundJob list \<Rightarrow> int"
    by (rule arg_cong [of _ _ sum_list], rule map_cong) (use assms k in \<open>auto simp: counted_def\<close>)
  show ?thesis unfolding counted_def
  proof (intro conjI)
    show "frames = (\<Sum>x\<leftarrow>keys @ [k]. int (length (queueIn (queues(k \<mapsto> [])) x)))"
      using assms(1) same [of "\<lambda>q. int (length q)"] by (simp add: counted_def)
    show "bytes = (\<Sum>x\<leftarrow>keys @ [k]. rawBytes (queueIn (queues(k \<mapsto> [])) x))"
      using assms(1) same [of rawBytes] by (simp add: counted_def)
  qed (use assms k in \<open>auto simp: counted_def\<close>)
qed

lemma queueAt_queueIn: "queueAt s k = queueIn (ris_queues s) k"
  by (simp add: queueAt_def)

text \<open>What an admitted message leaves in the queues: its session's queue, with older history requests gone.\<close>

definition keptBy :: "inboundMessage \<Rightarrow> relayInboundJob list \<Rightarrow> relayInboundJob list" where
  "keptBy msg q = (if isHistory msg \<and> relayInboundSessionKey msg \<noteq> relayInboundDeviceFIFO
                   then filter (\<lambda>job. \<not> historyJob job) q else q)"

lemma enqueue_effect:
  assumes "enqueueMessage onSup onHist rawLen msg s = (Inr calls, s')"
  defines "key \<equiv> relayInboundSessionKey msg"
  defines "q \<equiv> keptBy msg (queueAt s key) @ [inboundJob rawLen msg]"
  shows "\<not> ris_stopped s" and "ris_frames s + 1 \<le> relayInboundQueueFrames" and "ris_bytes s + int rawLen \<le> relayInboundQueueBytes"
    and "ris_queues s' = (ris_queues s)(key \<mapsto> q)"
    and "ris_keys s' = (if ris_queues s key = None then ris_keys s @ [key] else ris_keys s)"
    and "ris_frames s' = ris_frames s - int (length (queueAt s key)) + int (length q)"
    and "ris_bytes s' = ris_bytes s - rawBytes (queueAt s key) + rawBytes q"
    and "ris_stopped s' = ris_stopped s"
proof -
  have len: "int (length (filter historyJob jobs)) = int (length jobs) - int (length (filter (\<lambda>j. \<not> historyJob j) jobs))" for jobs
    using sum_length_filter_compl [of historyJob jobs] by simp
  have bytes: "rawBytes (filter historyJob jobs) = rawBytes jobs - rawBytes (filter (\<lambda>j. \<not> historyJob j) jobs)" for jobs
    using rawBytes_split [of historyJob jobs] by simp
  show "\<not> ris_stopped s" "ris_frames s + 1 \<le> relayInboundQueueFrames" "ris_bytes s + int rawLen \<le> relayInboundQueueBytes"
    "ris_queues s' = (ris_queues s)(key \<mapsto> q)"
    "ris_keys s' = (if ris_queues s key = None then ris_keys s @ [key] else ris_keys s)"
    "ris_frames s' = ris_frames s - int (length (queueAt s key)) + int (length q)"
    "ris_bytes s' = ris_bytes s - rawBytes (queueAt s key) + rawBytes q"
    "ris_stopped s' = ris_stopped s"
    using assms(1) unfolding q_def key_def
    by (auto simp: enqueueMessage_def supersede_def Let_def keptBy_def queueAt_def inboundJob_def len bytes
        split: if_splits option.splits)
qed

lemma enqueue_refused: "enqueueMessage onSup onHist rawLen msg s = (Inl e, s') \<Longrightarrow> s' = s"
  by (auto simp: enqueueMessage_def Let_def split: if_splits prod.splits)

lemma keptBy_le: "length (keptBy msg q) \<le> length q" "rawBytes (keptBy msg q) \<le> rawBytes q"
  using rawBytes_split [of historyJob q] rawBytes_nonneg [of "filter historyJob q"] by (auto simp: keptBy_def)

lemma enqueue_ok:
  assumes ok: "sched_ok s" and e: "enqueueMessage onSup onHist rawLen msg s = (r, s')"
  shows "sched_ok s'"
proof (cases r)
  case (Inl err)
  then show ?thesis using e ok enqueue_refused by blast
next
  case (Inr calls)
  note eff = enqueue_effect [OF e [unfolded Inr]]
  let ?key = "relayInboundSessionKey msg"
  have c: "counted (ris_queues s) (ris_keys s) (ris_frames s) (ris_bytes s)" using ok by (simp add: sched_ok_def)
  have "counted (ris_queues s') (ris_keys s') (ris_frames s') (ris_bytes s')"
  proof (cases "ris_queues s ?key")
    case None
    have "counted ((ris_queues s)(?key \<mapsto> [])) (ris_keys s @ [?key]) (ris_frames s) (ris_bytes s)"
      by (rule counted_new [OF c None])
    from counted_put [OF this, of ?key "keptBy msg (queueAt s ?key) @ [inboundJob rawLen msg]"]
    show ?thesis by (simp add: eff None queueAt_def)
  next
    case (Some q)
    then have "?key \<in> set (ris_keys s)" using c by (auto simp: counted_def)
    from counted_put [OF c this, of "keptBy msg (queueAt s ?key) @ [inboundJob rawLen msg]"]
    show ?thesis by (simp add: eff Some queueAt_def)
  qed
  moreover have "rij_rawLen (inboundJob rawLen msg) = rawLen" by (simp add: inboundJob_def)
  ultimately show ?thesis using eff(2,3) keptBy_le [of msg "queueAt s ?key"]
    by (simp add: sched_ok_def eff(6,7))
qed

section \<open>What a pop takes\<close>

lemma headOfClass_None:
  "headOfClass s c = None \<longleftrightarrow> (\<forall>k\<in>set (ris_keys s). queueAt s k \<noteq> [] \<longrightarrow> rij_class (hd (queueAt s k)) \<noteq> c)"
  unfolding headOfClass_def find_rotated_None by (metis in_set_conv_nth)

lemma headOfClass_Some:
  assumes "headOfClass s c = Some idx"
  shows "idx < length (ris_keys s)" and "queueAt s (ris_keys s ! idx) \<noteq> []" and "rij_class (hd (queueAt s (ris_keys s ! idx))) = c"
proof -
  from assms obtain i where i: "i < length (ris_keys s)" "idx = (ris_cursor s + i) mod length (ris_keys s)"
    and q: "queueAt s (ris_keys s ! idx) \<noteq> []" "rij_class (hd (queueAt s (ris_keys s ! idx))) = c"
    unfolding headOfClass_def by (auto simp: find_Some_iff)
  have "0 < length (ris_keys s)" using i(1) by (rule order.strict_trans1 [OF le0])
  then show "idx < length (ris_keys s)" using i(2) by simp
  show "queueAt s (ris_keys s ! idx) \<noteq> []" "rij_class (hd (queueAt s (ris_keys s ! idx))) = c" using q by auto
qed

lemma firstSome_None: "firstSome f xs = None \<longleftrightarrow> (\<forall>x\<in>set xs. f x = None)"
  by (induction xs) (auto split: option.splits)

lemma firstSome_sorted:
  "sorted xs \<Longrightarrow> firstSome f xs = Some y \<Longrightarrow> \<exists>x\<in>set xs. f x = Some y \<and> (\<forall>z\<in>set xs. f z \<noteq> None \<longrightarrow> x \<le> z)"
  by (induction xs) (auto split: option.splits)

lemma pop_None:
  assumes "sched_ok s" and "inbound_pop s = (None, s')"
  shows "s' = s" and "ris_frames s = 0"
proof -
  show "s' = s" using assms(2) by (auto simp: inbound_pop_def Let_def split: if_splits option.splits)
  have c: "counted (ris_queues s) (ris_keys s) (ris_frames s) (ris_bytes s)" using assms(1) by (simp add: sched_ok_def)
  show "ris_frames s = 0"
  proof (rule ccontr)
    assume f: "ris_frames s \<noteq> 0"
    then have keys: "ris_keys s \<noteq> []" using c by (auto simp: counted_def)
    with f assms(2) have "firstSome (headOfClass s) allClasses = None" by (auto simp: inbound_pop_def Let_def split: option.splits)
    then have "\<forall>k\<in>set (ris_keys s). queueAt s k = []"
      unfolding firstSome_None headOfClass_None allClasses_UNIV by blast
    then have "map (\<lambda>k. int (length (queueAt s k))) (ris_keys s) = map (\<lambda>_. 0) (ris_keys s)" by simp
    then have "(\<Sum>k\<leftarrow>ris_keys s. int (length (queueAt s k))) = 0" by (metis sum_list_0)
    then show False using c f by (simp add: counted_def queueAt_def)
  qed
qed

text \<open>A job is the head of its session's queue, and no other head is of a more urgent class.\<close>

lemma pop_Some:
  assumes ok: "sched_ok s" and p: "inbound_pop s = (Some job, s')"
  obtains key rest where "key \<in> set (ris_keys s)" and "queueAt s key = job # rest"
    and "ris_queues s' = (ris_queues s)(key \<mapsto> rest)" and "ris_keys s' = ris_keys s"
    and "ris_frames s' = ris_frames s - 1" and "ris_bytes s' = ris_bytes s - int (rij_rawLen job)"
    and "ris_stopped s' = ris_stopped s"
    and "\<forall>k\<in>set (ris_keys s). queueAt s k \<noteq> [] \<longrightarrow> rij_class job \<le> rij_class (hd (queueAt s k))"
proof -
  obtain idx where idx: "firstSome (headOfClass s) allClasses = Some idx"
    and job: "job = hd (queueAt s (ris_keys s ! idx))"
    and s': "s' = s\<lparr>ris_queues := (ris_queues s)(ris_keys s ! idx \<mapsto> tl (queueAt s (ris_keys s ! idx))),
                     ris_cursor := (idx + 1) mod length (ris_keys s),
                     ris_frames := ris_frames s - 1, ris_bytes := ris_bytes s - int (rij_rawLen job)\<rparr>"
    using p by (auto simp: inbound_pop_def Let_def split: if_splits option.splits)
  from firstSome_sorted [OF sorted_allClasses idx] obtain c where c: "headOfClass s c = Some idx"
    and least: "\<forall>d. headOfClass s d \<noteq> None \<longrightarrow> c \<le> d" by (auto simp: allClasses_UNIV)
  note head = headOfClass_Some [OF c]
  show thesis
  proof (rule that)
    show "ris_keys s ! idx \<in> set (ris_keys s)" using head(1) by simp
    show "queueAt s (ris_keys s ! idx) = job # tl (queueAt s (ris_keys s ! idx))" using head(2) job by simp
    show "\<forall>k\<in>set (ris_keys s). queueAt s k \<noteq> [] \<longrightarrow> rij_class job \<le> rij_class (hd (queueAt s k))"
      using least head(3) job headOfClass_None by metis
  qed (simp_all add: s')
qed

lemma pop_ok:
  assumes ok: "sched_ok s" and p: "inbound_pop s = (r, s')"
  shows "sched_ok s'"
proof (cases r)
  case None
  then show ?thesis using pop_None(1) ok p by blast
next
  case (Some job)
  have c: "counted (ris_queues s) (ris_keys s) (ris_frames s) (ris_bytes s)" using ok by (simp add: sched_ok_def)
  from ok p [unfolded Some] show ?thesis
  proof (rule pop_Some)
    fix key rest
    assume k: "key \<in> set (ris_keys s)" and q: "queueAt s key = job # rest"
      and s': "ris_queues s' = (ris_queues s)(key \<mapsto> rest)" "ris_keys s' = ris_keys s"
        "ris_frames s' = ris_frames s - 1" "ris_bytes s' = ris_bytes s - int (rij_rawLen job)"
    have "counted (ris_queues s') (ris_keys s') (ris_frames s') (ris_bytes s')"
      using counted_put [OF c k, of rest] q by (simp add: s' queueAt_def)
    then show ?thesis using ok by (simp add: sched_ok_def s')
  qed
qed

section \<open>The invariant of the interleaved steps\<close>

definition forSession :: "string \<Rightarrow> relayInboundJob list \<Rightarrow> relayInboundJob list" where
  "forSession key = filter (\<lambda>job. rij_sessionKey job = key)"

abbreviation servedOrWaiting :: "InboundSys \<Rightarrow> string \<Rightarrow> relayInboundJob list" where
  "servedOrWaiting t key \<equiv> forSession key (is_dispatched t) @ queueAt (is_sched t) key"

abbreviation lasting :: "string \<Rightarrow> relayInboundJob list \<Rightarrow> relayInboundJob list" where
  "lasting key \<equiv> filter (\<lambda>job. \<not> historyJob job \<or> key = relayInboundDeviceFIFO)"

definition inbound_ok :: "InboundSys \<Rightarrow> bool" where
  "inbound_ok t \<longleftrightarrow>
     sched_ok (is_sched t)
     \<and> (\<forall>key. \<forall>job\<in>set (queueAt (is_sched t) key). rij_sessionKey job = key)
     \<and> (\<forall>key. subseq (servedOrWaiting t key) (forSession key (is_accepted t))
          \<and> lasting key (servedOrWaiting t key) = lasting key (forSession key (is_accepted t)))
     \<and> (\<forall>key. key \<noteq> relayInboundDeviceFIFO \<longrightarrow> length (filter historyJob (queueAt (is_sched t) key)) \<le> 1)
     \<and> (ris_frames (is_sched t) > 0 \<longrightarrow> is_draining t \<or> is_wake t \<or> is_wakers t > 0)
     \<and> (is_exited t \<longrightarrow> ris_stopped (is_sched t))
     \<and> set (ris_keys (is_sched t)) = rij_sessionKey ` set (is_accepted t)"

lemma sched_ok_new: "sched_ok newRelayInboundScheduler"
  by (simp add: sched_ok_def counted_def newRelayInboundScheduler_def relayInboundQueueFrames_def relayInboundQueueBytes_def)

lemma inbound_ok_new: "inbound_ok newInboundSys"
  by (simp add: inbound_ok_def newInboundSys_def sched_ok_new forSession_def)
    (simp add: newRelayInboundScheduler_def queueAt_def)

lemma forSession_simps [simp]:
  "forSession key [] = []"
  "forSession key (jobs @ jobs') = forSession key jobs @ forSession key jobs'"
  "forSession key [job] = (if rij_sessionKey job = key then [job] else [])"
  by (simp_all add: forSession_def)

lemma inboundJob_simps [simp]:
  "rij_sessionKey (inboundJob rawLen msg) = relayInboundSessionKey msg" "rij_message (inboundJob rawLen msg) = msg"
  "rij_rawLen (inboundJob rawLen msg) = rawLen"
  by (simp_all add: inboundJob_def)

lemma keptBy_subseq: "subseq (keptBy msg q) q"
  by (simp add: keptBy_def)

lemma keptBy_lasting: "lasting (relayInboundSessionKey msg) (keptBy msg q) = lasting (relayInboundSessionKey msg) q"
  by (auto simp: keptBy_def intro!: filter_cong)

lemma keptBy_history:
  "relayInboundSessionKey msg \<noteq> relayInboundDeviceFIFO \<Longrightarrow> length (filter historyJob q) \<le> 1
   \<Longrightarrow> length (filter historyJob (keptBy msg q @ [inboundJob rawLen msg])) \<le> 1"
  by (auto simp: keptBy_def)

lemma inbound_ok_enqueue:
  assumes ok: "inbound_ok t" and e: "enqueueMessage True True rawLen msg (is_sched t) = (Inr calls, s)"
  shows "inbound_ok (t\<lparr>is_sched := s, is_wakers := is_wakers t + 1, is_accepted := is_accepted t @ [inboundJob rawLen msg]\<rparr>)"
proof -
  note eff = enqueue_effect [OF e]
  let ?key = "relayInboundSessionKey msg"
  let ?q = "queueAt (is_sched t) ?key"
  have sched: "sched_ok s" using enqueue_ok [OF _ e] ok by (simp add: inbound_ok_def)
  have q: "queueAt s key = (if key = ?key then keptBy msg ?q @ [inboundJob rawLen msg] else queueAt (is_sched t) key)" for key
    by (simp add: queueAt_def eff(4))
  have "subseq (forSession ?key (is_dispatched t) @ keptBy msg ?q) (servedOrWaiting t ?key)"
    using keptBy_subseq by (rule list_emb_append_mono [OF subseq_order.refl])
  also have "subseq (servedOrWaiting t ?key) (forSession ?key (is_accepted t))" using ok by (simp add: inbound_ok_def)
  finally have sub: "subseq (forSession ?key (is_dispatched t) @ keptBy msg ?q @ [inboundJob rawLen msg])
      (forSession ?key (is_accepted t) @ [inboundJob rawLen msg])"
    using list_emb_append_mono [OF _ subseq_order.refl] by fastforce
  have last: "lasting ?key (forSession ?key (is_dispatched t) @ keptBy msg ?q @ [inboundJob rawLen msg])
      = lasting ?key (forSession ?key (is_accepted t) @ [inboundJob rawLen msg])"
    using ok keptBy_lasting [of msg ?q] by (auto simp: inbound_ok_def)
  have own: "\<forall>job\<in>set (keptBy msg ?q). rij_sessionKey job = ?key"
    using ok by (auto simp: inbound_ok_def keptBy_def)
  have keys: "set (ris_keys s) = insert ?key (set (ris_keys (is_sched t)))"
    using ok by (auto simp: eff(5) inbound_ok_def sched_ok_def counted_def)
  show ?thesis unfolding inbound_ok_def
  proof (intro conjI allI)
    fix key
    show "subseq (servedOrWaiting (t\<lparr>is_sched := s, is_wakers := is_wakers t + 1,
          is_accepted := is_accepted t @ [inboundJob rawLen msg]\<rparr>) key)
        (forSession key (is_accepted (t\<lparr>is_sched := s, is_wakers := is_wakers t + 1,
          is_accepted := is_accepted t @ [inboundJob rawLen msg]\<rparr>)))"
      using sub ok by (auto simp: q inbound_ok_def)
    show "lasting key (servedOrWaiting (t\<lparr>is_sched := s, is_wakers := is_wakers t + 1,
          is_accepted := is_accepted t @ [inboundJob rawLen msg]\<rparr>) key)
        = lasting key (forSession key (is_accepted (t\<lparr>is_sched := s, is_wakers := is_wakers t + 1,
          is_accepted := is_accepted t @ [inboundJob rawLen msg]\<rparr>)))"
      using last ok by (auto simp: q inbound_ok_def)
    show "key \<noteq> relayInboundDeviceFIFO \<longrightarrow> length (filter historyJob (queueAt (is_sched (t\<lparr>is_sched := s,
          is_wakers := is_wakers t + 1, is_accepted := is_accepted t @ [inboundJob rawLen msg]\<rparr>)) key)) \<le> 1"
      using ok keptBy_history [of msg ?q rawLen] by (auto simp: q inbound_ok_def)
  qed (use sched own ok eff(8) keys in \<open>auto simp: q inbound_ok_def\<close>)
qed

lemma inbound_ok_pop:
  assumes ok: "inbound_ok t" and p: "inbound_pop (is_sched t) = (Some job, s)" and d: "is_draining t"
  shows "inbound_ok (t\<lparr>is_sched := s, is_dispatched := is_dispatched t @ [job]\<rparr>)"
proof -
  have sched: "sched_ok (is_sched t)" using ok by (simp add: inbound_ok_def)
  from sched p show ?thesis
  proof (rule pop_Some)
    fix key rest
    assume q: "queueAt (is_sched t) key = job # rest"
      and s: "ris_queues s = (ris_queues (is_sched t))(key \<mapsto> rest)" "ris_keys s = ris_keys (is_sched t)"
        "ris_stopped s = ris_stopped (is_sched t)"
    have q': "queueAt s k = (if k = key then rest else queueAt (is_sched t) k)" for k by (simp add: queueAt_def s)
    have own: "rij_sessionKey job = key" using ok q by (auto simp: inbound_ok_def)
    define t' where "t' = t\<lparr>is_sched := s, is_dispatched := is_dispatched t @ [job]\<rparr>"
    have t': "is_sched t' = s" "is_accepted t' = is_accepted t" "is_draining t'" "is_exited t' = is_exited t"
      using d by (simp_all add: t'_def)
    have same: "servedOrWaiting t' k = servedOrWaiting t k" for k using q own by (auto simp: q' t'_def)
    have "length (filter historyJob rest) \<le> length (filter historyJob (job # rest))" by simp
    then have history: "length (filter historyJob (queueAt s k)) \<le> length (filter historyJob (queueAt (is_sched t) k))" for k
      using q by (simp add: q')
    have "inbound_ok t'" unfolding inbound_ok_def unfolding same unfolding t'(1,2,4)
    proof (intro conjI)
      show "\<forall>key. \<forall>job\<in>set (queueAt s key). rij_sessionKey job = key" using ok q by (auto simp: inbound_ok_def q')
      show "\<forall>key. key \<noteq> relayInboundDeviceFIFO \<longrightarrow> length (filter historyJob (queueAt s key)) \<le> 1"
        using ok history unfolding inbound_ok_def by (meson order.trans)
    qed (use ok pop_ok [OF sched p] t'(3) in \<open>simp_all add: inbound_ok_def s\<close>)
    then show ?thesis by (simp add: t'_def)
  qed
qed

lemma inbound_ok_step:
  assumes ok: "inbound_ok t"
  shows "inbound_ok (inboundStep t x)"
proof (cases x)
  case (IEnqueue rawLen msg)
  obtain r s where e: "enqueueMessage True True rawLen msg (is_sched t) = (r, s)" by (cases "enqueueMessage True True rawLen msg (is_sched t)")
  show ?thesis
  proof (cases r)
    case (Inl err)
    then show ?thesis using e ok enqueue_refused [of True True rawLen msg "is_sched t" err s] IEnqueue by simp
  next
    case (Inr calls)
    then show ?thesis using inbound_ok_enqueue [OF ok] e IEnqueue by simp
  qed
next
  case IPop
  show ?thesis
  proof (cases "is_draining t")
    case True
    obtain r s where p: "inbound_pop (is_sched t) = (r, s)" by (cases "inbound_pop (is_sched t)")
    have sched: "sched_ok (is_sched t)" using ok by (simp add: inbound_ok_def)
    show ?thesis
    proof (cases r)
      case None
      then show ?thesis using pop_None [OF sched] p ok IPop True by (auto simp: inbound_ok_def)
    next
      case (Some job)
      then show ?thesis using inbound_ok_pop [OF ok] p IPop True by simp
    qed
  qed (use ok IPop in simp)
next
  case IClose
  then show ?thesis using ok by (simp add: inbound_ok_def inbound_close_def sched_ok_def queueAt_def)
qed (use ok in \<open>auto simp: inbound_ok_def\<close>)

interpretation ib: guarded_machine inboundStep inbound_ok
  by unfold_locales (rule inbound_ok_step)

lemma inbound_reached: "inbound_ok (run inboundStep newInboundSys ops)"
  by (rule ib.run_good [OF inbound_ok_new])

section \<open>Properties\<close>


text \<open>
  The frame and byte counters are the sums over the queues and stay within 256 frames and
  8 MiB, and the list of session keys holds every session that ever sent a message: no operation takes a
  key out of it.
\<close>

theorem inbound_bounded:
  fixes ops :: "InboundOp list"
  defines "t \<equiv> run inboundStep newInboundSys ops"
  defines "s \<equiv> is_sched t"
  shows "ris_frames s = (\<Sum>k\<leftarrow>ris_keys s. int (length (queueAt s k))) \<and> ris_frames s \<le> 256
    \<and> ris_bytes s = (\<Sum>k\<leftarrow>ris_keys s. rawBytes (queueAt s k)) \<and> ris_bytes s \<le> 8 * 1048576
    \<and> distinct (ris_keys s) \<and> set (ris_keys s) = rij_sessionKey ` set (is_accepted t)"
proof -
  have ok: "inbound_ok t" unfolding t_def by (rule inbound_reached)
  then have "sched_ok s" and "set (ris_keys s) = rij_sessionKey ` set (is_accepted t)"
    by (simp_all add: inbound_ok_def s_def)
  then show ?thesis
    by (simp add: sched_ok_def counted_def queueAt_def relayInboundQueueFrames_def relayInboundQueueBytes_def)
qed

text \<open>
  C31: no message is forgotten.  While a message waits and the executor runs, the executor is draining
  the queues or a wake-up is delivered or on its way; and a draining executor that finds nothing has emptied
  every queue, while one that finds a job takes the head of some session, of the most urgent class among the
  heads.
\<close>

theorem inbound_never_forgotten:
  fixes ops :: "InboundOp list"
  defines "t \<equiv> run inboundStep newInboundSys ops"
  shows "(ris_frames (is_sched t) > 0 \<longrightarrow> is_draining t \<or> is_wake t \<or> is_wakers t > 0)
    \<and> (case inbound_pop (is_sched t) of
         (None, s) \<Rightarrow> \<forall>k. queueAt (is_sched t) k = []
       | (Some job, s) \<Rightarrow> \<forall>k. queueAt (is_sched t) k \<noteq> [] \<longrightarrow> rij_class job \<le> rij_class (hd (queueAt (is_sched t) k)))"
proof -
  have ok: "inbound_ok t" unfolding t_def by (rule inbound_reached)
  then have sched: "sched_ok (is_sched t)" by (simp add: inbound_ok_def)
  then have c: "counted (ris_queues (is_sched t)) (ris_keys (is_sched t)) (ris_frames (is_sched t)) (ris_bytes (is_sched t))"
    by (simp add: sched_ok_def)
  then have keys: "queueAt (is_sched t) k \<noteq> [] \<Longrightarrow> k \<in> set (ris_keys (is_sched t))" for k
    by (auto simp: counted_def queueAt_def split: option.splits)
  have "case inbound_pop (is_sched t) of
         (None, s) \<Rightarrow> \<forall>k. queueAt (is_sched t) k = []
       | (Some job, s) \<Rightarrow> \<forall>k. queueAt (is_sched t) k \<noteq> [] \<longrightarrow> rij_class job \<le> rij_class (hd (queueAt (is_sched t) k))"
  proof (cases "inbound_pop (is_sched t)")
    case (Pair r s)
    show ?thesis
    proof (cases r)
      case None
      have "ris_frames (is_sched t) = 0" using pop_None(2) [OF sched] Pair None by blast
      then have sum: "(\<Sum>k\<leftarrow>ris_keys (is_sched t). int (length (queueAt (is_sched t) k))) = 0" using c by (simp add: counted_def queueAt_def)
      have "queueAt (is_sched t) k = []" for k
      proof (rule ccontr)
        assume k: "queueAt (is_sched t) k \<noteq> []"
        have "0 < int (length (queueAt (is_sched t) k))" using k by simp
        also have "\<dots> \<le> (\<Sum>k\<leftarrow>ris_keys (is_sched t). int (length (queueAt (is_sched t) k)))"
          by (rule member_le_sum_list) (use keys [OF k] in auto)
        finally show False using sum by simp
      qed
      then show ?thesis using Pair None by simp
    next
      case (Some job)
      from sched Pair [unfolded Some] show ?thesis by (rule pop_Some) (use Pair Some keys in auto)
    qed
  qed
  with ok show ?thesis by (simp add: inbound_ok_def)
qed

section \<open>Witnesses\<close>

definition demoHistory :: "string \<Rightarrow> inboundMessage" where
  "demoHistory requestID = \<lparr>im_Type = ''request'', im_Method = ''get_session_messages'', im_RequestID = requestID,
     im_SessionID = ''s'', im_ParamsSession = None\<rparr>"

definition demoTraffic :: "InboundOp list" where
  "demoTraffic = [IEnqueue 3 (demoHistory ''r1''), ISendWake, IEnqueue 4 (demoHistory ''r2'')]"


theorem inbound_never_forgotten_witness:
  "0 < ris_frames (is_sched (run inboundStep newInboundSys demoTraffic))
 \<and> (is_draining (run inboundStep newInboundSys demoTraffic) \<or> is_wake (run inboundStep newInboundSys demoTraffic)
    \<or> is_wakers (run inboundStep newInboundSys demoTraffic) > 0)"
proof -
  have "0 < ris_frames (is_sched (run inboundStep newInboundSys demoTraffic))" by code_simp
  with conjunct1 [OF inbound_never_forgotten [where ops = demoTraffic]] show ?thesis by metis
qed

end
