(* ===== verification/Projection_Window.thy ===== *)
theory Projection_Window
  imports Bridge_Prelude
begin

text \<open>
  Bounded windows of a session projection (\<^verbatim>\<open>go-bridge/projection_window.go\<close>): cutting a page of
  turns out of a committed snapshot, the cursors that lead from page to page and their scope.

  The parts of a turn no function here reads are one opaque number.  The JSON length of a turn is the
  argument \<open>enc\<close>, \<open>None\<close> when it cannot be encoded.  A cursor string is represented by the value it
  decodes to, \<open>None\<close> when it is not base64 or not JSON; encoding a cursor is then the identity.
  The process-wide generation counter is passed and returned.
\<close>

section \<open>Data\<close>

record TurnProjection =
  tp_TurnID :: string
  tp_Body :: nat

record SessionProjection =
  sp_SyncRev :: int
  sp_Turns :: "TurnProjection list"
  sp_Scalars :: nat

definition maxWindowTurns :: int where "maxWindowTurns = 256"
definition maxWindowEncodedBytes :: nat where "maxWindowEncodedBytes = 4 * 1048576"
definition defaultWindowTurns :: int where "defaultWindowTurns = 100"
definition windowEncodingOverhead :: nat where "windowEncodingOverhead = 4096"

abbreviation windowBudget :: nat where
  "windowBudget \<equiv> maxWindowEncodedBytes - windowEncodingOverhead"

datatype windowError = ScopeMismatch | CursorStale | LocateOut | TurnEncode | UnknownDirection

record projectionWindowCursor =
  pwc_V :: int
  pwc_BridgeEpoch :: string
  pwc_BackendID :: string
  pwc_SessionID :: string
  pwc_AnchorTurnID :: string
  pwc_Side :: string

record GetSessionProjectionWindowParams =
  gwp_Direction :: string
  gwp_Cursor :: "projectionWindowCursor option"
  gwp_Limit :: int
  gwp_AnchorTurnID :: string

record ProjectionWindowDescriptor =
  pwd_WindowID :: "string \<times> string \<times> string \<times> u64"
  pwd_Generation :: u64
  pwd_Coverage :: string
  pwd_HeadTurnID :: "string option"
  pwd_TailTurnID :: "string option"
  pwd_HasOlder :: bool
  pwd_HasNewer :: bool
  pwd_NextOlderCursor :: "projectionWindowCursor option"
  pwd_NextNewerCursor :: "projectionWindowCursor option"

record ProjectionWindowResponse =
  pwr_Window :: ProjectionWindowDescriptor
  pwr_Turns :: "TurnProjection list"
  pwr_SyncRev :: int
  pwr_AtHead :: bool

section \<open>Cursors\<close>

definition decodeProjectionWindowCursor :: "projectionWindowCursor option \<Rightarrow> (windowError, projectionWindowCursor) result" where
  "decodeProjectionWindowCursor raw =
     (case raw of
        None \<Rightarrow> Inl CursorStale
      | Some cursor \<Rightarrow>
          if pwc_V cursor \<noteq> 1 \<or> pwc_AnchorTurnID cursor = [] \<or> (pwc_Side cursor \<noteq> ''o'' \<and> pwc_Side cursor \<noteq> ''n'')
          then Inl CursorStale else Inr cursor)"

definition validateProjectionWindowCursorScope ::
  "projectionWindowCursor \<Rightarrow> string \<Rightarrow> string \<Rightarrow> string \<Rightarrow> (windowError, unit) result" where
  "validateProjectionWindowCursorScope cursor backendID sessionID bridgeEpoch =
     (if pwc_BackendID cursor \<noteq> backendID \<or> pwc_SessionID cursor \<noteq> sessionID then Inl ScopeMismatch
      else if pwc_BridgeEpoch cursor \<noteq> bridgeEpoch then Inl CursorStale
      else Inr ())"

section \<open>Ranges\<close>

fun turnEncodedSizes :: "(TurnProjection \<Rightarrow> nat option) \<Rightarrow> TurnProjection list \<Rightarrow> (windowError, nat list) result" where
  "turnEncodedSizes enc [] = Inr []"
| "turnEncodedSizes enc (turn # turns) =
     (case enc turn of
        None \<Rightarrow> Inl TurnEncode
      | Some n \<Rightarrow> rbind (turnEncodedSizes enc turns) (\<lambda>sizes. Inr (n # sizes)))"

fun indexOfTurn :: "TurnProjection list \<Rightarrow> string \<Rightarrow> nat option" where
  "indexOfTurn [] turnID = None"
| "indexOfTurn (turn # turns) turnID =
     (if tp_TurnID turn = turnID then Some 0 else map_option Suc (indexOfTurn turns turnID))"

text \<open>The two loops: downwards from a start index, upwards over the sizes that follow.\<close>

fun growDown :: "nat list \<Rightarrow> int \<Rightarrow> nat \<Rightarrow> nat \<Rightarrow> nat \<Rightarrow> nat" where
  "growDown sizes limit 0 cnt bytes = 0"
| "growDown sizes limit (Suc i) cnt bytes =
     (if int cnt \<ge> limit \<or> bytes + sizes ! i > windowBudget then Suc i
      else growDown sizes limit i (cnt + 1) (bytes + sizes ! i))"

fun growUp :: "int \<Rightarrow> nat \<Rightarrow> nat \<Rightarrow> nat \<Rightarrow> nat list \<Rightarrow> nat" where
  "growUp limit stop cnt bytes [] = stop"
| "growUp limit stop cnt bytes (x # xs) =
     (if int cnt \<ge> limit \<or> bytes + x > windowBudget then stop
      else growUp limit (stop + 1) (cnt + 1) (bytes + x) xs)"

definition growWindowRange :: "nat list \<Rightarrow> int \<Rightarrow> nat \<Rightarrow> bool \<Rightarrow> nat \<times> nat" where
  "growWindowRange sizes limit boundary endAnchored =
     (if endAnchored
      then (case boundary of 0 \<Rightarrow> (0, 0) | Suc b \<Rightarrow> (growDown sizes limit b 1 (sizes ! b), boundary))
      else if boundary < length sizes
      then (boundary, growUp limit (boundary + 1) 1 (sizes ! boundary) (drop (boundary + 1) sizes))
      else (boundary, boundary))"

text \<open>The window around an anchor, shrunk on the older side first, then on the newer side.\<close>

function shrinkOlder :: "nat list \<Rightarrow> nat \<Rightarrow> nat \<Rightarrow> nat \<Rightarrow> nat \<times> nat" where
  "shrinkOlder sizes anchor start bytes =
     (if bytes > windowBudget \<and> start < anchor
      then shrinkOlder sizes anchor (start + 1) (bytes - sizes ! start) else (start, bytes))"
  by pat_completeness auto
termination by (relation "measure (\<lambda>(sizes, anchor, start, bytes). anchor - start)") auto

fun shrinkNewer :: "nat list \<Rightarrow> nat \<Rightarrow> nat \<Rightarrow> nat \<Rightarrow> nat \<times> nat" where
  "shrinkNewer sizes anchor 0 bytes = (0, bytes)"
| "shrinkNewer sizes anchor (Suc e) bytes =
     (if bytes > windowBudget \<and> Suc e > anchor then shrinkNewer sizes anchor e (bytes - sizes ! Suc e) else (Suc e, bytes))"

definition locateRange :: "nat list \<Rightarrow> int \<Rightarrow> nat \<Rightarrow> nat \<times> nat" where
  "locateRange sizes limit anchor =
     (let n = int (length sizes);
          end0 = int anchor + limit div 2;
          end1 = (if end0 > n - 1 then n - 1 else end0);
          start0 = end1 - limit + 1;
          start1 = (if start0 < 0 then 0 else start0);
          bytes = sum_list (map (\<lambda>i. sizes ! i) [nat start1..<nat (end1 + 1)]);
          (start, bytes1) = shrinkOlder sizes anchor (nat start1) bytes;
          (stop, bytes2) = shrinkNewer sizes anchor (nat end1) bytes1
      in (start, stop + 1))"

section \<open>The slice\<close>

record windowRange =
  wr_start :: nat
  wr_end :: nat
  wr_hasOlder :: bool
  wr_hasNewer :: bool
  wr_emptyAnchor :: string

definition cursorBoundary ::
  "string \<Rightarrow> string \<Rightarrow> string \<Rightarrow> TurnProjection list \<Rightarrow> GetSessionProjectionWindowParams \<Rightarrow> (windowError, nat \<times> string) result" where
  "cursorBoundary backendID sessionID bridgeEpoch turns params =
     rbind (decodeProjectionWindowCursor (gwp_Cursor params)) (\<lambda>cursor.
     rbind (validateProjectionWindowCursorScope cursor backendID sessionID bridgeEpoch) (\<lambda>_.
     case indexOfTurn turns (pwc_AnchorTurnID cursor) of
       None \<Rightarrow> Inl CursorStale
     | Some boundary \<Rightarrow> Inr (boundary, pwc_AnchorTurnID cursor)))"

definition selectRange ::
  "string \<Rightarrow> string \<Rightarrow> string \<Rightarrow> TurnProjection list \<Rightarrow> nat list \<Rightarrow> int \<Rightarrow> GetSessionProjectionWindowParams
   \<Rightarrow> (windowError, windowRange) result" where
  "selectRange backendID sessionID bridgeEpoch turns sizes limit params =
     (if gwp_Direction params = ''window_0'' \<or> gwp_Direction params = ''latest''
      then (let (s, e) = growWindowRange sizes limit (length turns) True
            in Inr \<lparr>wr_start = s, wr_end = e, wr_hasOlder = s > 0, wr_hasNewer = False, wr_emptyAnchor = []\<rparr>)
      else if gwp_Direction params = ''older''
      then rbind (cursorBoundary backendID sessionID bridgeEpoch turns params) (\<lambda>(boundary, anchor).
             let (s, e) = growWindowRange sizes limit boundary True
             in Inr \<lparr>wr_start = s, wr_end = e, wr_hasOlder = s > 0, wr_hasNewer = True, wr_emptyAnchor = anchor\<rparr>)
      else if gwp_Direction params = ''newer''
      then rbind (cursorBoundary backendID sessionID bridgeEpoch turns params) (\<lambda>(boundary, anchor).
             let (s, e) = growWindowRange sizes limit (boundary + 1) False
             in Inr \<lparr>wr_start = s, wr_end = e, wr_hasOlder = s > 0, wr_hasNewer = e < length turns, wr_emptyAnchor = []\<rparr>)
      else if gwp_Direction params = ''locate''
      then (case indexOfTurn turns (gwp_AnchorTurnID params) of
              None \<Rightarrow> Inl LocateOut
            | Some anchor \<Rightarrow>
                let (s, e) = locateRange sizes limit anchor
                in Inr \<lparr>wr_start = s, wr_end = e, wr_hasOlder = s > 0, wr_hasNewer = e < length turns, wr_emptyAnchor = []\<rparr>)
      else Inl UnknownDirection)"

definition mintCursor :: "string \<Rightarrow> string \<Rightarrow> string \<Rightarrow> string \<Rightarrow> string \<Rightarrow> projectionWindowCursor" where
  "mintCursor backendID sessionID bridgeEpoch anchor side =
     \<lparr>pwc_V = 1, pwc_BridgeEpoch = bridgeEpoch, pwc_BackendID = backendID, pwc_SessionID = sessionID,
      pwc_AnchorTurnID = anchor, pwc_Side = side\<rparr>"

definition windowResponse ::
  "string \<Rightarrow> string \<Rightarrow> string \<Rightarrow> SessionProjection \<Rightarrow> bool \<Rightarrow> u64 \<Rightarrow> windowRange \<Rightarrow> ProjectionWindowResponse" where
  "windowResponse backendID sessionID bridgeEpoch proj hasOlderUpstream generation r0 =
     (let turns = sp_Turns proj;
          isEmpty = (turns = []);
          r1 = (if isEmpty then r0\<lparr>wr_start := 0, wr_end := 0, wr_hasOlder := False, wr_hasNewer := False\<rparr> else r0);
          hasOlder = (wr_hasOlder r1 \<or> (\<not> isEmpty \<and> hasOlderUpstream \<and> wr_start r1 = 0));
          hasNewer = wr_hasNewer r1;
          some = wr_end r1 > wr_start r1;
          head = tp_TurnID (turns ! wr_start r1);
          tail = tp_TurnID (turns ! (wr_end r1 - 1));
          olderAnchor = (if some then head else if \<not> isEmpty then tp_TurnID (turns ! 0) else []);
          newerAnchor = (if some then tail else if \<not> isEmpty then wr_emptyAnchor r1 else [])
      in \<lparr>pwr_Window =
            \<lparr>pwd_WindowID = (backendID, bridgeEpoch, sessionID, generation), pwd_Generation = generation,
             pwd_Coverage = (if isEmpty \<or> \<not> hasOlder then ''full'' else ''window''),
             pwd_HeadTurnID = (if \<not> isEmpty \<and> some then Some head else None),
             pwd_TailTurnID = (if \<not> isEmpty \<and> some then Some tail else None),
             pwd_HasOlder = hasOlder, pwd_HasNewer = hasNewer,
             pwd_NextOlderCursor = (if \<not> isEmpty \<and> hasOlder then Some (mintCursor backendID sessionID bridgeEpoch olderAnchor ''o'') else None),
             pwd_NextNewerCursor = (if \<not> isEmpty \<and> hasNewer then Some (mintCursor backendID sessionID bridgeEpoch newerAnchor ''n'') else None)\<rparr>,
          pwr_Turns = take (wr_end r1 - wr_start r1) (drop (wr_start r1) turns),
          pwr_SyncRev = sp_SyncRev proj,
          pwr_AtHead = (\<not> hasNewer \<and> \<not> isEmpty)\<rparr>)"

definition sliceProjectionWindowWithBudget ::
  "(TurnProjection \<Rightarrow> nat option) \<Rightarrow> string \<Rightarrow> string \<Rightarrow> string \<Rightarrow> SessionProjection \<Rightarrow> GetSessionProjectionWindowParams \<Rightarrow> bool
   \<Rightarrow> nat list option \<Rightarrow> u64 \<Rightarrow> (windowError, ProjectionWindowResponse) result \<times> u64" where
  "sliceProjectionWindowWithBudget enc backendID sessionID bridgeEpoch proj params hasOlderUpstream sizesOverride generation =
     (let turns = sp_Turns proj;
          limit = (if gwp_Limit params \<le> 0 then defaultWindowTurns else gwp_Limit params);
          sizes = (case sizesOverride of
                     Some sizes \<Rightarrow> if length sizes = length turns then Inr sizes else turnEncodedSizes enc turns
                   | None \<Rightarrow> turnEncodedSizes enc turns)
      in case rbind sizes (\<lambda>sz. selectRange backendID sessionID bridgeEpoch turns sz limit params) of
           Inl e \<Rightarrow> (Inl e, generation)
         | Inr r \<Rightarrow> (Inr (windowResponse backendID sessionID bridgeEpoch proj hasOlderUpstream (generation + 1) r), generation + 1))"

definition sliceProjectionWindowWithUpstream ::
  "(TurnProjection \<Rightarrow> nat option) \<Rightarrow> string \<Rightarrow> string \<Rightarrow> string \<Rightarrow> SessionProjection \<Rightarrow> GetSessionProjectionWindowParams \<Rightarrow> bool
   \<Rightarrow> u64 \<Rightarrow> (windowError, ProjectionWindowResponse) result \<times> u64" where
  "sliceProjectionWindowWithUpstream enc backendID sessionID bridgeEpoch proj params hasOlderUpstream generation =
     sliceProjectionWindowWithBudget enc backendID sessionID bridgeEpoch proj params hasOlderUpstream None generation"

definition sliceProjectionWindow ::
  "(TurnProjection \<Rightarrow> nat option) \<Rightarrow> string \<Rightarrow> string \<Rightarrow> string \<Rightarrow> SessionProjection \<Rightarrow> GetSessionProjectionWindowParams
   \<Rightarrow> u64 \<Rightarrow> (windowError, ProjectionWindowResponse) result \<times> u64" where
  "sliceProjectionWindow enc backendID sessionID bridgeEpoch proj params generation =
     sliceProjectionWindowWithUpstream enc backendID sessionID bridgeEpoch proj params False generation"

section \<open>Ranges stay within the bounds\<close>

lemma sizes_ok:
  assumes "\<forall>turn\<in>set turns. enc turn \<noteq> None"
  shows "turnEncodedSizes enc turns = Inr (map (\<lambda>turn. the (enc turn)) turns)"
  using assms by (induction turns) auto

lemma sizes_length: "turnEncodedSizes enc turns = Inr sizes \<Longrightarrow> length sizes = length turns"
  by (induction turns arbitrary: sizes) (auto simp: rbind_Inr split: option.splits)

lemma indexOfTurn_Some: "indexOfTurn turns turnID = Some i \<Longrightarrow> i < length turns \<and> tp_TurnID (turns ! i) = turnID"
  by (induction turns arbitrary: i) (auto split: if_splits)

lemma indexOfTurn_nth:
  assumes "distinct (map tp_TurnID turns)" and "i < length turns"
  shows "indexOfTurn turns (tp_TurnID (turns ! i)) = Some i"
  using assms
proof (induction turns arbitrary: i)
  case (Cons turn turns)
  show ?case
  proof (cases i)
    case (Suc j)
    then have "tp_TurnID (turns ! j) \<in> tp_TurnID ` set turns" using Cons.prems(2) by auto
    then show ?thesis using Cons Suc by auto
  qed simp
qed simp

abbreviation bytesIn :: "nat list \<Rightarrow> nat \<Rightarrow> nat \<Rightarrow> nat" where
  "bytesIn sizes a b \<equiv> sum_list (take (b - a) (drop a sizes))"

lemma bytesIn_snoc:
  assumes "a \<le> i" and "i < length sizes"
  shows "bytesIn sizes a (Suc i) = bytesIn sizes a i + sizes ! i"
proof -
  have "Suc i - a = Suc (i - a)" using assms by simp
  moreover have "take (Suc (i - a)) (drop a sizes) = take (i - a) (drop a sizes) @ [drop a sizes ! (i - a)]"
    using assms by (intro take_Suc_conv_app_nth) simp
  ultimately show ?thesis using assms by simp
qed

lemma growDown_bounds:
  fixes bytes :: nat
  assumes "i \<le> length sizes" and "int cnt \<le> limit"
  defines "e \<equiv> growDown sizes limit i cnt bytes"
  shows "e \<le> i \<and> int (cnt + (i - e)) \<le> limit \<and> (e = i \<or> bytes + bytesIn sizes e i \<le> windowBudget)"
  using assms(1,2) unfolding e_def
proof (induction sizes limit i cnt bytes rule: growDown.induct)
  case (2 sizes limit i cnt bytes)
  show ?case
  proof (cases "int cnt \<ge> limit \<or> bytes + sizes ! i > windowBudget")
    case True
    then have "growDown sizes limit (Suc i) cnt bytes = Suc i" by (simp only: growDown.simps if_True)
    then show ?thesis using 2(3) by simp
  next
    case False
    let ?e = "growDown sizes limit i (cnt + 1) (bytes + sizes ! i)"
    have e: "growDown sizes limit (Suc i) cnt bytes = ?e" using False by (simp only: growDown.simps if_False)
    have IH: "?e \<le> i \<and> int (cnt + 1 + (i - ?e)) \<le> limit \<and> (?e = i \<or> bytes + sizes ! i + bytesIn sizes ?e i \<le> windowBudget)"
      using 2 False by (intro 2(1)) auto
    then have "bytesIn sizes ?e (Suc i) = bytesIn sizes ?e i + sizes ! i" using 2(2) by (intro bytesIn_snoc) auto
    then show ?thesis unfolding e using IH False by (auto simp: Suc_diff_le)
  qed
qed simp

lemma growUp_bounds:
  fixes bytes stop :: nat and rest :: "nat list"
  assumes "int cnt \<le> limit"
  defines "e \<equiv> growUp limit stop cnt bytes rest"
  shows "stop \<le> e \<and> e \<le> stop + length rest \<and> int (cnt + (e - stop)) \<le> limit
    \<and> (e = stop \<or> bytes + sum_list (take (e - stop) rest) \<le> windowBudget)"
  using assms(1) unfolding e_def
proof (induction limit stop cnt bytes rest rule: growUp.induct)
  case (2 limit stop cnt bytes x xs)
  show ?case
  proof (cases "int cnt \<ge> limit \<or> bytes + x > windowBudget")
    case True
    then have "growUp limit stop cnt bytes (x # xs) = stop" by (simp only: growUp.simps if_True)
    then show ?thesis using 2(2) by simp
  next
    case False
    let ?e = "growUp limit (stop + 1) (cnt + 1) (bytes + x) xs"
    have e: "growUp limit stop cnt bytes (x # xs) = ?e" using False by (simp only: growUp.simps if_False)
    have IH: "stop + 1 \<le> ?e \<and> ?e \<le> stop + 1 + length xs \<and> int (cnt + 1 + (?e - (stop + 1))) \<le> limit
        \<and> (?e = stop + 1 \<or> bytes + x + sum_list (take (?e - (stop + 1)) xs) \<le> windowBudget)"
      using 2 False by (intro 2(1)) auto
    then have "stop + 1 \<le> ?e" by blast
    then have "?e - stop = Suc (?e - (stop + 1))" by arith
    then have "take (?e - stop) (x # xs) = x # take (?e - (stop + 1)) xs" by simp
    then show ?thesis unfolding e using IH False by auto
  qed
qed simp

text \<open>A range is the boundary-adjacent turn alone, or fits the budget; it never exceeds the limit.\<close>

definition range_ok :: "nat list \<Rightarrow> int \<Rightarrow> nat \<Rightarrow> nat \<Rightarrow> bool" where
  "range_ok sizes limit s e \<longleftrightarrow> s \<le> e \<and> e \<le> length sizes \<and> int (e - s) \<le> limit \<and> (e \<le> s + 1 \<or> bytesIn sizes s e \<le> windowBudget)"

lemma grow_end:
  assumes "b < length sizes" and "1 \<le> limit"
  defines "s \<equiv> growDown sizes limit b 1 (sizes ! b)"
  shows "range_ok sizes limit s (Suc b)" and "s \<le> b"
proof -
  have g: "s \<le> b \<and> int (1 + (b - s)) \<le> limit \<and> (s = b \<or> sizes ! b + bytesIn sizes s b \<le> windowBudget)"
    unfolding s_def by (rule growDown_bounds) (use assms in auto)
  then show "s \<le> b" by simp
  have "bytesIn sizes s (Suc b) = bytesIn sizes s b + sizes ! b" using g assms(1) by (intro bytesIn_snoc) auto
  then show "range_ok sizes limit s (Suc b)" using g assms(1) by (auto simp: range_ok_def)
qed

lemma grow_start:
  assumes "b < length sizes" and "1 \<le> limit"
  defines "e \<equiv> growUp limit (b + 1) 1 (sizes ! b) (drop (b + 1) sizes)"
  shows "range_ok sizes limit b e" and "b < e"
proof -
  have g: "b + 1 \<le> e \<and> e \<le> b + 1 + length (drop (b + 1) sizes) \<and> int (1 + (e - (b + 1))) \<le> limit
      \<and> (e = b + 1 \<or> sizes ! b + sum_list (take (e - (b + 1)) (drop (b + 1) sizes)) \<le> windowBudget)"
    unfolding e_def by (rule growUp_bounds) (use assms in auto)
  then show "b < e" by simp
  obtain k where k: "e = b + 1 + k" using g le_iff_add by blast
  have "take (e - b) (drop b sizes) = sizes ! b # take (e - (b + 1)) (drop (b + 1) sizes)"
    using assms(1) by (simp add: k Cons_nth_drop_Suc [symmetric])
  then show "range_ok sizes limit b e" using g assms(1) by (auto simp: range_ok_def)
qed

lemma growWindowRange_ok:
  assumes "growWindowRange sizes limit boundary endAnchored = (s, e)" and "1 \<le> limit" and "boundary \<le> length sizes"
  shows "range_ok sizes limit s e"
proof (cases endAnchored)
  case True
  then show ?thesis
  proof (cases boundary)
    case (Suc b)
    then show ?thesis using True assms grow_end(1) [of b sizes limit] by (auto simp: growWindowRange_def)
  qed (use True assms in \<open>auto simp: growWindowRange_def range_ok_def\<close>)
next
  case False
  then show ?thesis using assms grow_start(1) [of boundary sizes limit]
    by (cases "boundary < length sizes") (auto simp: growWindowRange_def range_ok_def)
qed

lemma bytesIn_cons:
  assumes "a < b" and "b \<le> length sizes"
  shows "bytesIn sizes a b = sizes ! a + bytesIn sizes (Suc a) b"
proof -
  have "b - a = Suc (b - Suc a)" using assms by simp
  then show ?thesis using assms by (simp add: Cons_nth_drop_Suc [symmetric])
qed

lemma map_nth_upt: "b \<le> length xs \<Longrightarrow> map (\<lambda>i. xs ! i) [a..<b] = take (b - a) (drop a xs)"
  by (rule nth_equalityI) auto

lemma shrinkOlder_ok:
  assumes "start \<le> anchor" and "anchor < stop" and "stop \<le> length sizes" and "bytes = bytesIn sizes start stop"
    and "shrinkOlder sizes anchor start bytes = (start', bytes')"
  shows "start \<le> start' \<and> start' \<le> anchor \<and> bytes' = bytesIn sizes start' stop \<and> (bytes' \<le> windowBudget \<or> start' = anchor)"
  using assms
proof (induction sizes anchor start bytes rule: shrinkOlder.induct)
  case (1 sizes anchor start bytes)
  show ?case
  proof (cases "bytes > windowBudget \<and> start < anchor")
    case True
    have "bytesIn sizes start stop = sizes ! start + bytesIn sizes (Suc start) stop" using 1(2-4) by (intro bytesIn_cons) auto
    then have "bytes - sizes ! start = bytesIn sizes (start + 1) stop" using 1(5) by simp
    moreover have "shrinkOlder sizes anchor (start + 1) (bytes - sizes ! start) = (start', bytes')"
      using 1(6) unfolding shrinkOlder.simps [of sizes anchor start bytes] if_P [OF True] .
    ultimately show ?thesis using 1(1) [OF True] 1(2-4) True by auto
  next
    case False
    have "(start, bytes) = (start', bytes')" using 1(6) unfolding shrinkOlder.simps [of sizes anchor start bytes] if_not_P [OF False] .
    then show ?thesis using 1(2,5) False by auto
  qed
qed

lemma shrinkNewer_ok:
  assumes "start \<le> anchor" and "anchor \<le> e" and "e < length sizes" and "bytes = bytesIn sizes start (Suc e)"
    and "shrinkNewer sizes anchor e bytes = (e', bytes')"
  shows "anchor \<le> e' \<and> e' \<le> e \<and> bytes' = bytesIn sizes start (Suc e') \<and> (bytes' \<le> windowBudget \<or> e' = anchor)"
  using assms
proof (induction sizes anchor e bytes rule: shrinkNewer.induct)
  case (2 sizes anchor e bytes)
  show ?case
  proof (cases "bytes > windowBudget \<and> Suc e > anchor")
    case True
    have "bytesIn sizes start (Suc (Suc e)) = bytesIn sizes start (Suc e) + sizes ! Suc e" using 2(2-4) by (intro bytesIn_snoc) auto
    then have "bytes - sizes ! Suc e = bytesIn sizes start (Suc e)" using 2(5) by simp
    moreover have "shrinkNewer sizes anchor e (bytes - sizes ! Suc e) = (e', bytes')" using 2(6) unfolding shrinkNewer.simps if_P [OF True] .
    ultimately show ?thesis using 2(1) [OF True] 2(2-4) True by auto
  next
    case False
    have "(Suc e, bytes) = (e', bytes')" using 2(6) unfolding shrinkNewer.simps if_not_P [OF False] .
    then show ?thesis using 2(3,5) False by auto
  qed
qed auto

lemma locateRange_ok:
  assumes "anchor < length sizes" and "1 \<le> limit" and L: "locateRange sizes limit anchor = (s, e)"
  shows "range_ok sizes limit s e" and "s \<le> anchor" and "anchor < e"
proof -
  let ?n = "int (length sizes)"
  define end1 where "end1 = (if int anchor + limit div 2 > ?n - 1 then ?n - 1 else int anchor + limit div 2)"
  define start1 where "start1 = (if end1 - limit + 1 < 0 then 0 else end1 - limit + 1)"
  let ?s0 = "nat start1" and ?e0 = "nat end1"
  have e1: "int anchor \<le> end1" "end1 < ?n" using assms(1,2) by (auto simp: end1_def)
  have "limit div 2 + 1 \<le> limit" using assms(2) by presburger
  then have s1: "0 \<le> start1" "start1 \<le> int anchor" "end1 - start1 + 1 \<le> limit" using e1 assms(2) by (auto simp: start1_def end1_def)
  have stop: "nat (end1 + 1) = Suc ?e0" "Suc ?e0 \<le> length sizes" using e1 by auto
  define bytes where "bytes = sum_list (map (\<lambda>i. sizes ! i) [?s0..<Suc ?e0])"
  have b: "bytes = bytesIn sizes ?s0 (Suc ?e0)"
    using stop(2) by (simp add: bytes_def map_nth_upt del: upt_Suc)
  obtain s' b1 where S: "shrinkOlder sizes anchor ?s0 bytes = (s', b1)" by fastforce
  obtain e' b2 where E: "shrinkNewer sizes anchor ?e0 b1 = (e', b2)" by fastforce
  have "(s', e' + 1) = (s, e)"
    using L S E unfolding locateRange_def Let_def end1_def [symmetric] start1_def [symmetric] stop(1) bytes_def [symmetric] by simp
  then have se: "s' = s" "e = Suc e'" by simp_all
  have o: "?s0 \<le> s \<and> s \<le> anchor \<and> b1 = bytesIn sizes s (Suc ?e0) \<and> (b1 \<le> windowBudget \<or> s = anchor)"
    using shrinkOlder_ok [OF _ _ stop(2) b S, unfolded se(1)] s1 e1 by linarith
  have w: "anchor \<le> e' \<and> e' \<le> ?e0 \<and> b2 = bytesIn sizes s (Suc e') \<and> (b2 \<le> windowBudget \<or> e' = anchor)"
  proof -
    have c: "s \<le> anchor" "anchor \<le> ?e0" "?e0 < length sizes" "b1 = bytesIn sizes s (Suc ?e0)" using o e1 by auto
    show ?thesis by (rule shrinkNewer_ok [OF c E])
  qed
  show "s \<le> anchor" "anchor < e" using o w se by auto
  have "start1 \<le> int s" "int e' \<le> end1" using o w s1(1) e1(1) by linarith+
  then have "int (e - s) \<le> limit" using o w se(2) s1(3) by simp
  moreover have "b2 \<le> windowBudget \<or> e \<le> s + 1"
  proof (cases "b1 \<le> windowBudget")
    case True
    then have "shrinkNewer sizes anchor ?e0 b1 = (?e0, b1)" by (cases ?e0) (simp_all add: not_less)
    then show ?thesis using True E by simp
  next
    case False
    then show ?thesis using o w se by auto
  qed
  ultimately show "range_ok sizes limit s e" using o w se stop(2) by (auto simp: range_ok_def)
qed

section \<open>Pages\<close>

abbreviation effectiveLimit :: "GetSessionProjectionWindowParams \<Rightarrow> int" where
  "effectiveLimit params \<equiv> (if gwp_Limit params \<le> 0 then defaultWindowTurns else gwp_Limit params)"

definition pageSizes :: "(TurnProjection \<Rightarrow> nat option) \<Rightarrow> TurnProjection list \<Rightarrow> nat list" where
  "pageSizes enc turns = map (\<lambda>turn. the (enc turn)) turns"

lemma effectiveLimit_pos: "1 \<le> effectiveLimit params"
  by (simp add: defaultWindowTurns_def)

lemma sizes_pageSizes: "turnEncodedSizes enc turns = Inr sizes \<Longrightarrow> sizes = pageSizes enc turns"
  by (induction turns arbitrary: sizes) (auto simp: rbind_Inr pageSizes_def split: option.splits)

lemma cursorBoundary_ok: "cursorBoundary b s ep turns params = Inr (boundary, anchor) \<Longrightarrow> boundary < length turns"
  by (auto simp: cursorBoundary_def rbind_Inr split: option.splits dest: indexOfTurn_Some)

lemma selectRange_cases:
  assumes S: "selectRange b s ep turns sizes limit params = Inr r"
  obtains (tail) "gwp_Direction params = ''window_0'' \<or> gwp_Direction params = ''latest''"
      "growWindowRange sizes limit (length turns) True = (wr_start r, wr_end r)" "wr_hasOlder r \<longleftrightarrow> wr_start r > 0" "\<not> wr_hasNewer r"
  | (older) boundary where "gwp_Direction params = ''older''" "cursorBoundary b s ep turns params = Inr (boundary, wr_emptyAnchor r)"
      "growWindowRange sizes limit boundary True = (wr_start r, wr_end r)" "wr_hasOlder r \<longleftrightarrow> wr_start r > 0" "wr_hasNewer r"
  | (newer) boundary anchor where "gwp_Direction params = ''newer''" "cursorBoundary b s ep turns params = Inr (boundary, anchor)"
      "growWindowRange sizes limit (boundary + 1) False = (wr_start r, wr_end r)" "wr_hasOlder r \<longleftrightarrow> wr_start r > 0"
      "wr_hasNewer r \<longleftrightarrow> wr_end r < length turns" "wr_emptyAnchor r = []"
  | (locate) anchor where "gwp_Direction params = ''locate''" "indexOfTurn turns (gwp_AnchorTurnID params) = Some anchor"
      "locateRange sizes limit anchor = (wr_start r, wr_end r)" "wr_hasOlder r \<longleftrightarrow> wr_start r > 0" "wr_hasNewer r \<longleftrightarrow> wr_end r < length turns"
proof -
  consider "gwp_Direction params = ''window_0'' \<or> gwp_Direction params = ''latest''" | "gwp_Direction params = ''older''"
    | "gwp_Direction params = ''newer''" | "gwp_Direction params = ''locate''"
    using S by (auto simp: selectRange_def split: if_splits)
  then show thesis
  proof cases
    case 1
    then have "r = \<lparr>wr_start = fst (growWindowRange sizes limit (length turns) True), wr_end = snd (growWindowRange sizes limit (length turns) True),
        wr_hasOlder = fst (growWindowRange sizes limit (length turns) True) > 0, wr_hasNewer = False, wr_emptyAnchor = []\<rparr>"
      using S by (auto simp: selectRange_def case_prod_unfold Let_def)
    then show thesis using 1 tail by simp
  next
    case 2
    then obtain boundary anchor where c: "cursorBoundary b s ep turns params = Inr (boundary, anchor)"
      using S by (cases "cursorBoundary b s ep turns params") (auto simp: selectRange_def)
    then have "r = \<lparr>wr_start = fst (growWindowRange sizes limit boundary True), wr_end = snd (growWindowRange sizes limit boundary True),
        wr_hasOlder = fst (growWindowRange sizes limit boundary True) > 0, wr_hasNewer = True, wr_emptyAnchor = anchor\<rparr>"
      using S 2 by (auto simp: selectRange_def case_prod_unfold Let_def)
    then show thesis using 2 c older by simp
  next
    case 3
    then obtain boundary anchor where c: "cursorBoundary b s ep turns params = Inr (boundary, anchor)"
      using S by (cases "cursorBoundary b s ep turns params") (auto simp: selectRange_def)
    then have "r = \<lparr>wr_start = fst (growWindowRange sizes limit (boundary + 1) False), wr_end = snd (growWindowRange sizes limit (boundary + 1) False),
        wr_hasOlder = fst (growWindowRange sizes limit (boundary + 1) False) > 0,
        wr_hasNewer = snd (growWindowRange sizes limit (boundary + 1) False) < length turns, wr_emptyAnchor = []\<rparr>"
      using S 3 by (auto simp: selectRange_def case_prod_unfold Let_def)
    then show thesis using 3 c newer by simp
  next
    case 4
    then obtain anchor where c: "indexOfTurn turns (gwp_AnchorTurnID params) = Some anchor"
      using S by (cases "indexOfTurn turns (gwp_AnchorTurnID params)") (auto simp: selectRange_def)
    then have "r = \<lparr>wr_start = fst (locateRange sizes limit anchor), wr_end = snd (locateRange sizes limit anchor),
        wr_hasOlder = fst (locateRange sizes limit anchor) > 0, wr_hasNewer = snd (locateRange sizes limit anchor) < length turns, wr_emptyAnchor = []\<rparr>"
      using S 4 by (auto simp: selectRange_def case_prod_unfold Let_def)
    then show thesis using 4 c locate by simp
  qed
qed

lemma selectRange_ok:
  assumes S: "selectRange b s ep turns sizes limit params = Inr r" and len: "length sizes = length turns" and "1 \<le> limit"
  shows "range_ok sizes limit (wr_start r) (wr_end r)"
proof -
  note g = growWindowRange_ok [OF _ assms(3)]
  show ?thesis using S
  proof (cases rule: selectRange_cases)
    case tail
    then show ?thesis using g len by (metis order_refl)
  next
    case (older boundary)
    then show ?thesis using g [OF older(3)] cursorBoundary_ok [OF older(2)] len by simp
  next
    case (newer boundary anchor)
    then show ?thesis using g [OF newer(3)] cursorBoundary_ok [OF newer(2)] len by simp
  next
    case (locate anchor)
    then show ?thesis using locateRange_ok(1) [OF _ assms(3) locate(3)] indexOfTurn_Some [OF locate(2)] len by simp
  qed
qed

lemma slice_Inr:
  assumes "sliceProjectionWindowWithUpstream enc b s ep proj params up gen = (Inr resp, gen')"
  obtains r where "selectRange b s ep (sp_Turns proj) (pageSizes enc (sp_Turns proj)) (effectiveLimit params) params = Inr r"
    and "resp = windowResponse b s ep proj up (gen + 1) r" and "gen' = gen + 1"
proof (cases "turnEncodedSizes enc (sp_Turns proj)")
  case (Inl e)
  then show thesis using assms by (simp add: sliceProjectionWindowWithUpstream_def sliceProjectionWindowWithBudget_def)
next
  case (Inr sizes)
  note sz = sizes_pageSizes [OF Inr]
  show thesis
  proof (cases "selectRange b s ep (sp_Turns proj) sizes (effectiveLimit params) params")
    case (Inl e)
    then show thesis using assms Inr unfolding sliceProjectionWindowWithUpstream_def sliceProjectionWindowWithBudget_def Let_def by simp
  next
    case r: (Inr r)
    have "sliceProjectionWindowWithUpstream enc b s ep proj params up gen = (Inr (windowResponse b s ep proj up (gen + 1) r), gen + 1)"
      unfolding sliceProjectionWindowWithUpstream_def sliceProjectionWindowWithBudget_def Let_def option.case Inr rbind.simps r sum.case ..
    then have "resp = windowResponse b s ep proj up (gen + 1) r" "gen' = gen + 1" using assms by simp_all
    then show thesis by (rule that [OF r [unfolded sz]])
  qed
qed

text \<open>
  A served page is a contiguous run of the committed turns, at most as long as the requested limit,
  and within the byte budget unless it is a single turn; a locate page contains its anchor; a cursor
  is present exactly when the flag of its side is set; the page is marked as the head exactly when
  it ends at the committed tail of a non-empty projection, except that an older page never is.
\<close>

theorem window_page_bounds:
  assumes "sliceProjectionWindowWithUpstream enc b s ep proj params up gen = (Inr resp, gen')" and "sp_Turns proj \<noteq> []"
  shows "\<exists>from to. pwr_Turns resp = take (to - from) (drop from (sp_Turns proj)) \<and> from \<le> to \<and> to \<le> length (sp_Turns proj)
    \<and> int (to - from) \<le> effectiveLimit params
    \<and> (to - from \<le> 1 \<or> sum_list (pageSizes enc (pwr_Turns resp)) \<le> 4190208)
    \<and> (gwp_Direction params = ''locate'' \<longrightarrow> gwp_AnchorTurnID params \<in> tp_TurnID ` set (pwr_Turns resp))
    \<and> (pwd_NextOlderCursor (pwr_Window resp) \<noteq> None \<longleftrightarrow> pwd_HasOlder (pwr_Window resp))
    \<and> (pwd_NextNewerCursor (pwr_Window resp) \<noteq> None \<longleftrightarrow> pwd_HasNewer (pwr_Window resp))
    \<and> (pwr_AtHead resp \<longleftrightarrow> to = length (sp_Turns proj) \<and> gwp_Direction params \<noteq> ''older'')"
proof -
  let ?turns = "sp_Turns proj" and ?sizes = "pageSizes enc (sp_Turns proj)"
  obtain r where r: "selectRange b s ep ?turns ?sizes (effectiveLimit params) params = Inr r"
    and resp: "resp = windowResponse b s ep proj up (gen + 1) r" using slice_Inr [OF assms(1)] by blast
  have len: "length ?sizes = length ?turns" by (simp add: pageSizes_def)
  note ok = selectRange_ok [OF r len effectiveLimit_pos]
  let ?from = "wr_start r" and ?to = "wr_end r"
  have R: "?from \<le> ?to" "?to \<le> length ?turns" "int (?to - ?from) \<le> effectiveLimit params"
      "?to \<le> ?from + 1 \<or> bytesIn ?sizes ?from ?to \<le> windowBudget"
    using ok len by (auto simp: range_ok_def)
  have page: "pwr_Turns resp = take (?to - ?from) (drop ?from ?turns)" using assms(2) by (simp add: resp windowResponse_def Let_def)
  have sizes: "sum_list (pageSizes enc (pwr_Turns resp)) = bytesIn ?sizes ?from ?to"
    by (simp add: page pageSizes_def take_map drop_map)
  have budget: "windowBudget = 4190208" by (simp add: maxWindowEncodedBytes_def windowEncodingOverhead_def)
  have loc: "gwp_AnchorTurnID params \<in> tp_TurnID ` set (pwr_Turns resp)" if d: "gwp_Direction params = ''locate''"
  proof -
    obtain i where i: "indexOfTurn ?turns (gwp_AnchorTurnID params) = Some i"
      using r d by (auto simp: selectRange_def split: option.splits)
    have b: "?from \<le> i \<and> i < ?to"
      using r
    proof (cases rule: selectRange_cases)
      case (locate anchor)
      then have "anchor = i" using i by simp
      then show ?thesis using locateRange_ok(2,3) [OF _ effectiveLimit_pos locate(3)] indexOfTurn_Some [OF i] len by simp_all
    qed (simp_all add: d)
    have "pwr_Turns resp ! (i - ?from) = ?turns ! i" "i - ?from < length (pwr_Turns resp)" using b R(1,2) by (auto simp: page)
    then show ?thesis using indexOfTurn_Some [OF i] by (metis image_eqI nth_mem)
  qed
  have head: "wr_hasNewer r \<longleftrightarrow> ?to < length ?turns \<or> gwp_Direction params = ''older''"
    using r
  proof (cases rule: selectRange_cases)
    case tail
    then have "?to = length ?turns" by (auto simp: growWindowRange_def split: nat.splits)
    then show ?thesis using tail by auto
  qed auto
  have w: "pwd_NextOlderCursor (pwr_Window resp) \<noteq> None \<longleftrightarrow> pwd_HasOlder (pwr_Window resp)"
    "pwd_NextNewerCursor (pwr_Window resp) \<noteq> None \<longleftrightarrow> pwd_HasNewer (pwr_Window resp)" "pwr_AtHead resp \<longleftrightarrow> \<not> wr_hasNewer r"
    using assms(2) by (simp_all add: resp windowResponse_def Let_def)
  show ?thesis
  proof (intro exI conjI impI)
    show "?to - ?from \<le> 1 \<or> sum_list (pageSizes enc (pwr_Turns resp)) \<le> 4190208" using R(4) sizes budget by auto
    show "pwr_AtHead resp \<longleftrightarrow> ?to = length ?turns \<and> gwp_Direction params \<noteq> ''older''" using w(3) head R(2) by auto
  qed (fact page R(1-3) loc w(1,2))+
qed

section \<open>Walking from page to page\<close>

definition pageParams :: "string \<Rightarrow> projectionWindowCursor option \<Rightarrow> int \<Rightarrow> GetSessionProjectionWindowParams" where
  "pageParams direction cursor limit = \<lparr>gwp_Direction = direction, gwp_Cursor = cursor, gwp_Limit = limit, gwp_AnchorTurnID = []\<rparr>"

text \<open>A client that follows the older cursors: the pages, oldest first, or \<open>None\<close> when the fuel is too small or a page is refused.\<close>

fun walkOlder ::
  "nat \<Rightarrow> (TurnProjection \<Rightarrow> nat option) \<Rightarrow> string \<Rightarrow> string \<Rightarrow> string \<Rightarrow> SessionProjection \<Rightarrow> int
   \<Rightarrow> (windowError, ProjectionWindowResponse) result \<times> u64 \<Rightarrow> TurnProjection list list option" where
  "walkOlder fuel enc b s ep proj limit (Inl e, gen) = None"
| "walkOlder 0 enc b s ep proj limit (Inr resp, gen) =
     (if pwd_NextOlderCursor (pwr_Window resp) = None then Some [pwr_Turns resp] else None)"
| "walkOlder (Suc fuel) enc b s ep proj limit (Inr resp, gen) =
     (case pwd_NextOlderCursor (pwr_Window resp) of
        None \<Rightarrow> Some [pwr_Turns resp]
      | Some c \<Rightarrow> map_option (\<lambda>pages. pages @ [pwr_Turns resp])
          (walkOlder fuel enc b s ep proj limit (sliceProjectionWindow enc b s ep proj (pageParams ''older'' (Some c) limit) gen)))"

lemma slice_ok:
  assumes "\<forall>turn\<in>set (sp_Turns proj). enc turn \<noteq> None"
  shows "sliceProjectionWindow enc b s ep proj params gen =
    (case selectRange b s ep (sp_Turns proj) (pageSizes enc (sp_Turns proj)) (effectiveLimit params) params of
       Inl e \<Rightarrow> (Inl e, gen) | Inr r \<Rightarrow> (Inr (windowResponse b s ep proj False (gen + 1) r), gen + 1))"
  unfolding sliceProjectionWindow_def sliceProjectionWindowWithUpstream_def sliceProjectionWindowWithBudget_def Let_def option.case
    sizes_ok [OF assms] rbind.simps pageSizes_def ..

lemma boundary_minted:
  assumes "distinct (map tp_TurnID turns)" and "i < length turns" and "tp_TurnID (turns ! i) \<noteq> []" and "side = ''o'' \<or> side = ''n''"
  shows "cursorBoundary b s ep turns (pageParams d (Some (mintCursor b s ep (tp_TurnID (turns ! i)) side)) limit) = Inr (i, tp_TurnID (turns ! i))"
  using assms indexOfTurn_nth [OF assms(1,2)]
  by (auto simp: cursorBoundary_def decodeProjectionWindowCursor_def validateProjectionWindowCursorScope_def mintCursor_def pageParams_def)

definition turns_ok :: "(TurnProjection \<Rightarrow> nat option) \<Rightarrow> SessionProjection \<Rightarrow> bool" where
  "turns_ok enc proj \<longleftrightarrow> distinct (map tp_TurnID (sp_Turns proj)) \<and> (\<forall>turn\<in>set (sp_Turns proj). tp_TurnID turn \<noteq> [] \<and> enc turn \<noteq> None)"

lemma older_page:
  assumes ok: "turns_ok enc proj" and i: "i < length (sp_Turns proj)"
  shows "\<exists>r. sliceProjectionWindow enc b s ep proj (pageParams ''older'' (Some (mintCursor b s ep (tp_TurnID (sp_Turns proj ! i)) ''o'')) limit) gen
      = (Inr (windowResponse b s ep proj False (gen + 1) r), gen + 1)
    \<and> wr_end r = i \<and> (wr_start r < i \<or> i = 0 \<and> wr_start r = 0) \<and> (wr_hasOlder r \<longleftrightarrow> wr_start r > 0)"
proof -
  let ?turns = "sp_Turns proj" and ?p = "pageParams ''older'' (Some (mintCursor b s ep (tp_TurnID (sp_Turns proj ! i)) ''o'')) limit"
  have enc: "\<forall>turn\<in>set ?turns. enc turn \<noteq> None" and nz: "tp_TurnID (?turns ! i) \<noteq> []" and d: "distinct (map tp_TurnID ?turns)"
    using ok i by (auto simp: turns_ok_def)
  let ?sizes = "pageSizes enc ?turns"
  obtain st e where g: "growWindowRange ?sizes (effectiveLimit ?p) i True = (st, e)" by fastforce
  have st: "e = i" "st < i \<or> i = 0 \<and> st = 0"
    using g grow_end(2) [OF _ effectiveLimit_pos, of "i - 1" ?sizes ?p] i by (auto simp: growWindowRange_def pageSizes_def split: nat.splits)
  let ?r = "\<lparr>wr_start = st, wr_end = e, wr_hasOlder = st > 0, wr_hasNewer = True, wr_emptyAnchor = tp_TurnID (?turns ! i)\<rparr>"
  have B: "cursorBoundary b s ep ?turns ?p = Inr (i, tp_TurnID (?turns ! i))" using boundary_minted [OF d i nz] by simp
  have "gwp_Direction ?p = ''older''" by (simp add: pageParams_def)
  then have "selectRange b s ep ?turns ?sizes (effectiveLimit ?p) ?p = Inr ?r"
    using g by (simp add: selectRange_def B)
  then show ?thesis unfolding slice_ok [OF enc] using st by (intro exI [of _ ?r]) simp
qed

text \<open>From a non-empty page the walk reaches the front with at most as many further pages as turns lie before it.\<close>

lemma walk_from:
  assumes ok: "turns_ok enc proj" and "wr_start r < wr_end r" and "wr_end r \<le> length (sp_Turns proj)" and "wr_hasOlder r \<longleftrightarrow> wr_start r > 0"
    and "wr_start r \<le> fuel"
  shows "\<exists>pages. walkOlder fuel enc b s ep proj limit (Inr (windowResponse b s ep proj False g r), gen) = Some pages
    \<and> concat pages = take (wr_end r) (sp_Turns proj) \<and> [] \<notin> set pages"
  using assms(2-5)
proof (induction fuel arbitrary: r g gen)
  case 0
  have t: "sp_Turns proj \<noteq> []" using 0 by auto
  have "pwd_NextOlderCursor (pwr_Window (windowResponse b s ep proj False g r)) = None"
    "pwr_Turns (windowResponse b s ep proj False g r) = take (wr_end r) (sp_Turns proj)"
    using 0 t by (simp_all add: windowResponse_def Let_def)
  then show ?case using 0 t by auto
next
  case (Suc fuel)
  have t: "sp_Turns proj \<noteq> []" using Suc.prems by auto
  let ?resp = "windowResponse b s ep proj False g r"
  have page: "pwr_Turns ?resp = take (wr_end r - wr_start r) (drop (wr_start r) (sp_Turns proj))"
    using t by (simp add: windowResponse_def Let_def)
  have ne: "pwr_Turns ?resp \<noteq> []" using page Suc.prems by simp
  show ?case
  proof (cases "wr_start r = 0")
    case True
    then have "pwd_NextOlderCursor (pwr_Window ?resp) = None" using Suc.prems t by (simp add: windowResponse_def Let_def)
    then show ?thesis using True page ne by simp
  next
    case False
    then have c: "pwd_NextOlderCursor (pwr_Window ?resp) = Some (mintCursor b s ep (tp_TurnID (sp_Turns proj ! wr_start r)) ''o'')"
      using Suc.prems t by (simp add: windowResponse_def Let_def)
    have i: "wr_start r < length (sp_Turns proj)" using Suc.prems by simp
    obtain r' where r': "sliceProjectionWindow enc b s ep proj (pageParams ''older'' (Some (mintCursor b s ep (tp_TurnID (sp_Turns proj ! wr_start r)) ''o'')) limit) gen
        = (Inr (windowResponse b s ep proj False (gen + 1) r'), gen + 1)"
      "wr_end r' = wr_start r" "wr_start r' < wr_start r" "wr_hasOlder r' \<longleftrightarrow> wr_start r' > 0"
      using older_page [OF ok i, of b s ep limit gen] False by auto
    obtain pages where p: "walkOlder fuel enc b s ep proj limit (Inr (windowResponse b s ep proj False (gen + 1) r'), gen + 1) = Some pages"
        "concat pages = take (wr_end r') (sp_Turns proj)" "[] \<notin> set pages"
      using Suc.IH [of r' "gen + 1" "gen + 1"] r' Suc.prems i by auto
    have "take (wr_start r) (sp_Turns proj) @ pwr_Turns ?resp = take (wr_end r) (sp_Turns proj)"
      using Suc.prems(1) unfolding page by (metis less_imp_le_nat le_add_diff_inverse take_add)
    then show ?thesis using c r'(1,2) p ne by (auto simp del: sliceProjectionWindow_def)
  qed
qed

text \<open>
  C23: walking older from the latest page misses nothing and repeats nothing: after at most as many pages
  as there are turns the walk ends, every page it got is non-empty, and the pages put together are
  exactly the committed turns in order.
\<close>

theorem window_walk_complete:
  assumes "turns_ok enc proj" and "sp_Turns proj \<noteq> []"
  shows "\<exists>pages. walkOlder (length (sp_Turns proj)) enc b s ep proj limit
      (sliceProjectionWindow enc b s ep proj (pageParams ''latest'' None limit) gen) = Some pages
    \<and> concat pages = sp_Turns proj \<and> [] \<notin> set pages"
proof -
  let ?turns = "sp_Turns proj" and ?p = "pageParams ''latest'' None limit"
  have enc: "\<forall>turn\<in>set ?turns. enc turn \<noteq> None" using assms(1) by (simp add: turns_ok_def)
  let ?sizes = "pageSizes enc ?turns"
  obtain st e where g: "growWindowRange ?sizes (effectiveLimit ?p) (length ?turns) True = (st, e)" by fastforce
  have st: "e = length ?turns" "st < e"
    using g grow_end(2) [OF _ effectiveLimit_pos, of "length ?turns - 1" ?sizes ?p] assms(2)
    by (auto simp: growWindowRange_def pageSizes_def split: nat.splits)
  let ?r = "\<lparr>wr_start = st, wr_end = e, wr_hasOlder = st > 0, wr_hasNewer = False, wr_emptyAnchor = []\<rparr>"
  have "gwp_Direction ?p = ''latest''" by (simp add: pageParams_def)
  then have "selectRange b s ep ?turns ?sizes (effectiveLimit ?p) ?p = Inr ?r" using g by (simp add: selectRange_def)
  then show ?thesis unfolding slice_ok [OF enc]
    using walk_from [OF assms(1), of ?r "length ?turns" b s ep limit "gen + 1" "gen + 1"] st by simp
qed

section \<open>Scope of a cursor\<close>

definition refusal :: "string \<Rightarrow> string \<Rightarrow> string \<Rightarrow> TurnProjection list \<Rightarrow> projectionWindowCursor option \<Rightarrow> windowError option" where
  "refusal b s ep turns raw =
     (case raw of
        None \<Rightarrow> Some CursorStale
      | Some c \<Rightarrow>
          if pwc_V c \<noteq> 1 \<or> pwc_AnchorTurnID c = [] \<or> pwc_Side c \<notin> {''o'', ''n''} then Some CursorStale
          else if (pwc_BackendID c, pwc_SessionID c) \<noteq> (b, s) then Some ScopeMismatch
          else if pwc_BridgeEpoch c \<noteq> ep \<or> pwc_AnchorTurnID c \<notin> tp_TurnID ` set turns then Some CursorStale
          else None)"

lemma indexOfTurn_None: "indexOfTurn turns turnID = None \<longleftrightarrow> turnID \<notin> tp_TurnID ` set turns"
  by (induction turns) auto

lemma cursorBoundary_refusal:
  "cursorBoundary b s ep turns (pageParams d raw limit) =
     (case refusal b s ep turns raw of
        Some e \<Rightarrow> Inl e
      | None \<Rightarrow> Inr (the (indexOfTurn turns (pwc_AnchorTurnID (the raw))), pwc_AnchorTurnID (the raw)))"
proof (cases raw)
  case (Some c)
  show ?thesis
    by (cases "indexOfTurn turns (pwc_AnchorTurnID c)")
      (auto simp: Some cursorBoundary_def refusal_def decodeProjectionWindowCursor_def validateProjectionWindowCursorScope_def pageParams_def
        indexOfTurn_None [symmetric])
qed (simp add: cursorBoundary_def refusal_def decodeProjectionWindowCursor_def pageParams_def)

text \<open>
  A cursor leads to a page exactly when it is well formed, belongs to the backend and session of
  the request, was minted in the current epoch, and its anchor is still committed; a cursor of
  another backend or session is refused as such, every other unusable one as stale, and a refusal
  mints no generation.
\<close>

theorem cursor_served_iff:
  assumes "\<forall>turn\<in>set (sp_Turns proj). enc turn \<noteq> None" and "d = ''older'' \<or> d = ''newer''"
  shows "case refusal b s ep (sp_Turns proj) raw of
      Some e \<Rightarrow> sliceProjectionWindow enc b s ep proj (pageParams d raw limit) gen = (Inl e, gen)
    | None \<Rightarrow> \<exists>resp. sliceProjectionWindow enc b s ep proj (pageParams d raw limit) gen = (Inr resp, gen + 1)"
proof -
  have d: "gwp_Direction (pageParams d raw limit) = d" by (simp add: pageParams_def)
  have "selectRange b s ep (sp_Turns proj) sizes l (pageParams d raw limit) = Inl e" if "refusal b s ep (sp_Turns proj) raw = Some e" for sizes l e
    using assms(2) that by (auto simp: selectRange_def d cursorBoundary_refusal)
  moreover have "\<exists>r. selectRange b s ep (sp_Turns proj) sizes l (pageParams d raw limit) = Inr r" if "refusal b s ep (sp_Turns proj) raw = None" for sizes l
    using assms(2) that by (auto simp: selectRange_def d cursorBoundary_refusal case_prod_unfold Let_def)
  ultimately show ?thesis unfolding slice_ok [OF assms(1)]
    by (cases "refusal b s ep (sp_Turns proj) raw") (simp, metis sum.case(2), simp)
qed

text \<open>
  Asking for turns newer than the committed tail yields an empty page whose older cursor is anchored
  at the front of the projection: a client that turns around there gets an empty page and no further
  cursor, although every turn lies before its position.
\<close>

theorem newer_at_tail_turns_back_to_front:
  assumes "turns_ok enc proj" and "sp_Turns proj \<noteq> []"
    and "c = mintCursor b s ep (tp_TurnID (last (sp_Turns proj))) ''n''"
  shows "\<exists>resp back. sliceProjectionWindow enc b s ep proj (pageParams ''newer'' (Some c) limit) gen = (Inr resp, gen + 1)
    \<and> pwr_Turns resp = [] \<and> pwd_HasOlder (pwr_Window resp)
    \<and> sliceProjectionWindow enc b s ep proj (pageParams ''older'' (pwd_NextOlderCursor (pwr_Window resp)) limit) (gen + 1) = (Inr back, gen + 2)
    \<and> pwr_Turns back = [] \<and> \<not> pwd_HasOlder (pwr_Window back)"
proof -
  let ?turns = "sp_Turns proj"
  let ?i = "length ?turns - 1"
  have enc: "\<forall>turn\<in>set ?turns. enc turn \<noteq> None" and d: "distinct (map tp_TurnID ?turns)" using assms(1) by (auto simp: turns_ok_def)
  have i: "?i < length ?turns" "0 < length ?turns" using assms(2) by auto
  have nz: "tp_TurnID (?turns ! j) \<noteq> []" if "j < length ?turns" for j using assms(1) that by (auto simp: turns_ok_def)
  have c: "c = mintCursor b s ep (tp_TurnID (?turns ! ?i)) ''n''" using assms(2,3) by (simp add: last_conv_nth)
  let ?p = "pageParams ''newer'' (Some c) limit"
  let ?r = "\<lparr>wr_start = length ?turns, wr_end = length ?turns, wr_hasOlder = True, wr_hasNewer = False, wr_emptyAnchor = []\<rparr>"
  have "gwp_Direction ?p = ''newer''" by (simp add: pageParams_def)
  then have "selectRange b s ep ?turns (pageSizes enc ?turns) (effectiveLimit ?p) ?p = Inr ?r"
    using boundary_minted [OF d i(1) nz [OF i(1)], of "''n''"] i by (simp add: selectRange_def c growWindowRange_def pageSizes_def)
  then have R: "sliceProjectionWindow enc b s ep proj ?p gen = (Inr (windowResponse b s ep proj False (gen + 1) ?r), gen + 1)"
    unfolding slice_ok [OF enc] by simp
  let ?resp = "windowResponse b s ep proj False (gen + 1) ?r"
  have resp: "pwr_Turns ?resp = []" "pwd_HasOlder (pwr_Window ?resp)"
      "pwd_NextOlderCursor (pwr_Window ?resp) = Some (mintCursor b s ep (tp_TurnID (?turns ! 0)) ''o'')"
    using assms(2) by (simp_all add: windowResponse_def Let_def)
  obtain r where r: "sliceProjectionWindow enc b s ep proj (pageParams ''older'' (Some (mintCursor b s ep (tp_TurnID (?turns ! 0)) ''o'')) limit) (gen + 1)
      = (Inr (windowResponse b s ep proj False (gen + 1 + 1) r), gen + 1 + 1)" "wr_end r = 0" "wr_start r = 0" "wr_hasOlder r \<longleftrightarrow> wr_start r > 0"
    using older_page [OF assms(1) i(2), of b s ep limit "gen + 1"] by auto
  have "pwr_Turns (windowResponse b s ep proj False (gen + 1 + 1) r) = []" "\<not> pwd_HasOlder (pwr_Window (windowResponse b s ep proj False (gen + 1 + 1) r))"
    using r assms(2) by (simp_all add: windowResponse_def Let_def)
  moreover have "gen + 1 + 1 = gen + 2" by simp
  ultimately show ?thesis using R resp r(1) by metis
qed

section \<open>Runs\<close>

definition demoProj :: SessionProjection where
  "demoProj = \<lparr>sp_SyncRev = 3, sp_Turns = [\<lparr>tp_TurnID = ''a'', tp_Body = 0\<rparr>, \<lparr>tp_TurnID = ''b'', tp_Body = 1\<rparr>, \<lparr>tp_TurnID = ''c'', tp_Body = 2\<rparr>],
     sp_Scalars = 0\<rparr>"

definition demoEnc :: "TurnProjection \<Rightarrow> nat option" where
  "demoEnc turn = Some (10 + tp_Body turn)"

lemma demo_turns_ok: "turns_ok demoEnc demoProj" "sp_Turns demoProj \<noteq> []"
  by (simp_all add: turns_ok_def demoProj_def demoEnc_def)

theorem window_walk_complete_witness:
  "Option.is_none (walkOlder 3 demoEnc ''b'' ''s'' ''e'' demoProj 2
     (sliceProjectionWindow demoEnc ''b'' ''s'' ''e'' demoProj (pageParams ''latest'' None 2) 7)) = False
 \<and> map_option concat (walkOlder 3 demoEnc ''b'' ''s'' ''e'' demoProj 2
     (sliceProjectionWindow demoEnc ''b'' ''s'' ''e'' demoProj (pageParams ''latest'' None 2) 7)) = Some (sp_Turns demoProj)"
  using window_walk_complete [OF demo_turns_ok, of "''b''" "''s''" "''e''" 2 7]
  by (auto simp: demoProj_def numeral_3_eq_3)

theorem window_page_bounds_witness:
  "\<exists>resp. sliceProjectionWindowWithUpstream demoEnc ''b'' ''s'' ''e'' demoProj (pageParams ''latest'' None 2) False 7 = (Inr resp, 8)
    \<and> length (pwr_Turns resp) \<le> 2 \<and> pwr_AtHead resp"
proof -
  have "sliceProjectionWindow demoEnc ''b'' ''s'' ''e'' demoProj (pageParams ''latest'' None 2) 7
      = (Inr (windowResponse ''b'' ''s'' ''e'' demoProj False 8
          \<lparr>wr_start = 1, wr_end = 3, wr_hasOlder = True, wr_hasNewer = False, wr_emptyAnchor = []\<rparr>), 8)"
    by (subst slice_ok)
      (simp_all add: demoProj_def demoEnc_def selectRange_def pageParams_def growWindowRange_def pageSizes_def maxWindowEncodedBytes_def windowEncodingOverhead_def numeral_3_eq_3)
  then obtain resp where r: "sliceProjectionWindowWithUpstream demoEnc ''b'' ''s'' ''e'' demoProj (pageParams ''latest'' None 2) False 7 = (Inr resp, 8)"
      "resp = windowResponse ''b'' ''s'' ''e'' demoProj False 8 \<lparr>wr_start = 1, wr_end = 3, wr_hasOlder = True, wr_hasNewer = False, wr_emptyAnchor = []\<rparr>"
    by (auto simp: sliceProjectionWindow_def)
  have "effectiveLimit (pageParams ''latest'' None 2) = 2" by (simp add: pageParams_def)
  then have "length (pwr_Turns resp) \<le> 2" using window_page_bounds [OF r(1) demo_turns_ok(2)] by auto
  moreover have "pwr_AtHead resp" by (simp add: r(2) windowResponse_def demoProj_def Let_def)
  ultimately show ?thesis using r(1) by blast
qed

theorem cursor_served_iff_witness:
  "refusal ''b'' ''s'' ''e'' (sp_Turns demoProj) (Some (mintCursor ''b'' ''other'' ''e'' ''a'' ''o'')) = Some ScopeMismatch
 \<and> sliceProjectionWindow demoEnc ''b'' ''s'' ''e'' demoProj (pageParams ''older'' (Some (mintCursor ''b'' ''other'' ''e'' ''a'' ''o'')) 2) 7
     = (Inl ScopeMismatch, 7)"
proof -
  have r: "refusal ''b'' ''s'' ''e'' (sp_Turns demoProj) (Some (mintCursor ''b'' ''other'' ''e'' ''a'' ''o'')) = Some ScopeMismatch"
    by (simp add: refusal_def mintCursor_def)
  have "\<forall>turn\<in>set (sp_Turns demoProj). demoEnc turn \<noteq> None" by (simp add: demoEnc_def)
  from cursor_served_iff [OF this, of "''older''" "''b''" "''s''" "''e''" "Some (mintCursor ''b'' ''other'' ''e'' ''a'' ''o'')" 2 7]
  show ?thesis by (simp add: r)
qed

theorem newer_at_tail_turns_back_to_front_witness:
  "\<exists>resp. sliceProjectionWindow demoEnc ''b'' ''s'' ''e'' demoProj (pageParams ''newer'' (Some (mintCursor ''b'' ''s'' ''e'' ''c'' ''n'')) 2) 7 = (Inr resp, 8)
    \<and> pwr_Turns resp = [] \<and> pwd_HasOlder (pwr_Window resp)"
proof -
  have c: "mintCursor ''b'' ''s'' ''e'' ''c'' ''n'' = mintCursor ''b'' ''s'' ''e'' (tp_TurnID (last (sp_Turns demoProj))) ''n''" by (simp add: demoProj_def)
  from newer_at_tail_turns_back_to_front [OF demo_turns_ok c, of 2 7] show ?thesis by auto
qed

end
