(* ===== verification/Projection_Delivery.thy ===== *)
theory Projection_Delivery
  imports Revision_Journal Projection_Window
begin

text \<open>
  Delivery of a session projection to its clients: the fence that orders the answer to a pull before the
  patches committed after its snapshot (\<^verbatim>\<open>go-bridge/projection_snapshot_fence.go\<close>), and the delivery of
  patches, historical prepends and turn details (\<^verbatim>\<open>go-bridge/event_publisher.go\<close>).

  Every operation holds the publisher's lock for its whole body and is one step.  A connection is a number.
  An outbound sink is the list of the frames it ever took and the number of its slots that are taken; its
  goroutine gives slots back.  The kernel's answer to a snapshot, the targets of a session and what the
  observation filter lets through are arguments; so are the length of a patch's JSON text and the turn id in
  the JSON text of a turn.  A result frame records whether it is an error and the cut its data was taken
  at; the data itself is left out, as is logging.  Closing a connection marks it; its cleanup
  (\<open>UnregisterConnection\<close>) is a step of its own.
\<close>

section \<open>State\<close>

type_synonym projectionFenceKey = "nat \<times> string \<times> string"

record projectionFencePendingPatch =
  pfp_patch :: ProjectionPatch
  pfp_decide :: bool

record projectionSnapshotFence =
  psf_id :: u64
  psf_generation :: u64
  psf_cutRev :: int
  psf_expectedRev :: int
  psf_pending :: "projectionFencePendingPatch list"
  psf_pendingBytes :: int
  psf_invalidated :: bool

record ProjectionSnapshotAdmission =
  psa_BridgeEpoch :: string
  psa_ConnectionGeneration :: u64
  psa_BackendID :: string
  psa_SessionID :: string
  psa_CutRev :: int
  psa_fenceID :: u64

record ProjectionResumeSelection =
  prs_Patches :: "ProjectionPatch list"
  prs_Available :: bool
  prs_FallbackReason :: "ProjectionResumeFallbackReason option"
  prs_EpochChanged :: bool

datatype deliveryFrame =
  ResultFrame projectionFenceKey string bool int
| PatchFrame projectionFenceKey ProjectionPatch
| InvalidateFrame projectionFenceKey

record eventOutboundSink =
  eos_log :: "deliveryFrame list"
  eos_slots :: nat

datatype ProjectionDeliveryMode = ProjectionDeliveryWindow | ProjectionDeliveryFull

datatype fenceError = IdentityRequired | AlreadyPending | NotReady | GenerationChanged | QueueFull

record EventPublisher =
  ep_bridgeEpoch :: string
  ep_sinks :: "nat \<Rightarrow> eventOutboundSink option"
  ep_closed :: "nat set"
  ep_syncV2 :: "nat set"
  ep_windowScalarV1 :: "nat set"
  ep_epochMismatch :: "nat set"
  ep_nextConnectionGeneration :: u64
  ep_connectionGenerations :: "nat \<Rightarrow> u64"
  ep_nextProjectionFenceID :: u64
  ep_fences :: "projectionFenceKey \<Rightarrow> projectionSnapshotFence option"
  ep_cuts :: "projectionFenceKey \<Rightarrow> int"
  ep_modes :: "nat \<Rightarrow> string \<Rightarrow> ProjectionDeliveryMode option"
  ep_held :: "nat \<Rightarrow> string \<Rightarrow> string set"
  ep_invalidated :: "projectionFenceKey set"
  ep_journal :: ProjectionRevisionJournal

definition eventOutboundQueueCapacity :: nat where "eventOutboundQueueCapacity = 2048"
definition projectionFenceMaxPatches :: nat where "projectionFenceMaxPatches = 128"
definition projectionFenceMaxBytes :: int where "projectionFenceMaxBytes = 2 * 1048576"

definition newSink :: eventOutboundSink where
  "newSink = \<lparr>eos_log = [], eos_slots = 0\<rparr>"

definition NewEventPublisher :: "string \<Rightarrow> EventPublisher" where
  "NewEventPublisher bridgeEpoch =
     \<lparr>ep_bridgeEpoch = bridgeEpoch, ep_sinks = Map.empty, ep_closed = {}, ep_syncV2 = {}, ep_windowScalarV1 = {},
      ep_epochMismatch = {}, ep_nextConnectionGeneration = 0, ep_connectionGenerations = (\<lambda>_. 0),
      ep_nextProjectionFenceID = 0, ep_fences = Map.empty, ep_cuts = (\<lambda>_. 0), ep_modes = (\<lambda>_ _. None),
      ep_held = (\<lambda>_ _. {}), ep_invalidated = {}, ep_journal = NewProjectionRevisionJournal 0 0 None\<rparr>"

section \<open>Sinks, modes and held turns\<close>

definition sinkOf :: "EventPublisher \<Rightarrow> nat \<Rightarrow> eventOutboundSink" where
  "sinkOf p conn = (case ep_sinks p conn of None \<Rightarrow> newSink | Some sink \<Rightarrow> sink)"

definition sinkLocked :: "nat \<Rightarrow> EventPublisher \<Rightarrow> EventPublisher" where
  "sinkLocked conn p = p\<lparr>ep_sinks := (ep_sinks p)(conn \<mapsto> sinkOf p conn)\<rparr>"

definition pushFrames :: "nat \<Rightarrow> deliveryFrame list \<Rightarrow> EventPublisher \<Rightarrow> EventPublisher" where
  "pushFrames conn frames p =
     p\<lparr>ep_sinks := (ep_sinks p)(conn \<mapsto> \<lparr>eos_log = eos_log (sinkOf p conn) @ frames,
                                        eos_slots = eos_slots (sinkOf p conn) + length frames\<rparr>)\<rparr>"

definition tryEnqueue :: "nat \<Rightarrow> deliveryFrame \<Rightarrow> EventPublisher \<Rightarrow> bool \<times> EventPublisher" where
  "tryEnqueue conn frame p =
     (if conn \<in> ep_closed p \<or> eos_slots (sinkOf p conn) \<ge> eventOutboundQueueCapacity then (False, sinkLocked conn p)
      else (True, pushFrames conn [frame] p))"

definition registerConnectionLocked :: "nat \<Rightarrow> EventPublisher \<Rightarrow> u64 \<times> EventPublisher" where
  "registerConnectionLocked conn p =
     (if ep_connectionGenerations p conn \<noteq> 0 then (ep_connectionGenerations p conn, p)
      else let next = ep_nextConnectionGeneration p + 1
           in (next, p\<lparr>ep_nextConnectionGeneration := next,
                      ep_connectionGenerations := (ep_connectionGenerations p)(conn := next)\<rparr>))"

definition projectionDeliveryKey :: "string \<Rightarrow> string \<Rightarrow> string" where
  "projectionDeliveryKey backendID sessionID = backendID @ ''|'' @ sessionID"

definition connDeliveryModeLocked :: "EventPublisher \<Rightarrow> nat \<Rightarrow> string \<Rightarrow> string \<Rightarrow> ProjectionDeliveryMode" where
  "connDeliveryModeLocked p conn backendID sessionID =
     (case ep_modes p conn (projectionDeliveryKey backendID sessionID) of
        None \<Rightarrow> ProjectionDeliveryFull
      | Some mode \<Rightarrow> mode)"

definition recordConnWindowTurnsLocked :: "nat \<Rightarrow> string \<Rightarrow> string \<Rightarrow> string list \<Rightarrow> EventPublisher \<Rightarrow> EventPublisher" where
  "recordConnWindowTurnsLocked conn backendID sessionID turnIDs p =
     (let key = projectionDeliveryKey backendID sessionID
      in p\<lparr>ep_held := (ep_held p)(conn := (ep_held p conn)(key := ep_held p conn key \<union> (set turnIDs - {[]})))\<rparr>)"

definition clearConnWindowTurnsLocked :: "nat \<Rightarrow> string \<Rightarrow> string \<Rightarrow> EventPublisher \<Rightarrow> EventPublisher" where
  "clearConnWindowTurnsLocked conn backendID sessionID p =
     p\<lparr>ep_held := (ep_held p)(conn := (ep_held p conn)(projectionDeliveryKey backendID sessionID := {}))\<rparr>"

definition connHoldsAnyTurnLocked :: "EventPublisher \<Rightarrow> nat \<Rightarrow> string \<Rightarrow> string \<Rightarrow> string list \<Rightarrow> bool" where
  "connHoldsAnyTurnLocked p conn backendID sessionID turnIDs \<longleftrightarrow>
     (\<exists>turnID\<in>set turnIDs. turnID \<in> ep_held p conn (projectionDeliveryKey backendID sessionID))"

definition patchTurnIDs :: "(string \<Rightarrow> string) \<Rightarrow> ProjectionPatch \<Rightarrow> string list" where
  "patchTurnIDs idOf patch =
     foldl (\<lambda>ids turnID. if turnID = [] \<or> turnID \<in> set ids then ids else ids @ [turnID]) []
       (map idOf (pp_TurnStateOps patch) @ map po_TurnID (pp_PartOps patch) @ map idOf (pp_UpsertTurns patch))"

definition noOpPatch :: "int \<Rightarrow> int \<Rightarrow> ProjectionPatch" where
  "noOpPatch base syncRev =
     \<lparr>pp_BaseRev = base, pp_SyncRev = syncRev, pp_Execution = None, pp_UpsertTurns = [], pp_PartOps = [], pp_TurnStateOps = [],
      pp_ReplacesClientIDs = [], pp_RemovedTurnIDs = [], pp_PlanMode = None, pp_SessionMode = None,
      pp_CollaborationMode = None, pp_CodexGoal = None, pp_Goal = None\<rparr>"

section \<open>The fence of a pull\<close>

definition beginProjectionSnapshotLocked ::
  "nat \<Rightarrow> string \<Rightarrow> string \<Rightarrow> SessionProjection option \<Rightarrow> EventPublisher
   \<Rightarrow> (fenceError, SessionProjection \<times> ProjectionSnapshotAdmission) result \<times> EventPublisher" where
  "beginProjectionSnapshotLocked conn backendID sessionID snapshot p =
     (let key = (conn, backendID, sessionID)
      in if ep_fences p key \<noteq> None then (Inl AlreadyPending, p)
         else case snapshot of
                None \<Rightarrow> (Inl NotReady, p)
              | Some projection \<Rightarrow>
                  let (generation, p1) = registerConnectionLocked conn p;
                      p2 = sinkLocked conn p1;
                      fenceID = ep_nextProjectionFenceID p2 + 1
                  in (Inr (projection,
                        \<lparr>psa_BridgeEpoch = ep_bridgeEpoch p2, psa_ConnectionGeneration = generation, psa_BackendID = backendID,
                         psa_SessionID = sessionID, psa_CutRev = sp_SyncRev projection, psa_fenceID = fenceID\<rparr>),
                      p2\<lparr>ep_nextProjectionFenceID := fenceID,
                         ep_fences := (ep_fences p2)(key \<mapsto>
                           \<lparr>psf_id = fenceID, psf_generation = generation, psf_cutRev = sp_SyncRev projection,
                            psf_expectedRev = sp_SyncRev projection, psf_pending = [], psf_pendingBytes = 0, psf_invalidated = False\<rparr>),
                         ep_invalidated := ep_invalidated p2 - {key}\<rparr>))"

definition BeginProjectionSnapshot ::
  "nat \<Rightarrow> string \<Rightarrow> string \<Rightarrow> SessionProjection option \<Rightarrow> EventPublisher
   \<Rightarrow> (fenceError, SessionProjection \<times> ProjectionSnapshotAdmission) result \<times> EventPublisher" where
  "BeginProjectionSnapshot conn backendID sessionID snapshot p =
     (if backendID = [] \<or> sessionID = [] then (Inl IdentityRequired, p)
      else beginProjectionSnapshotLocked conn backendID sessionID snapshot p)"

text \<open>\<open>None\<close> if the loop of the journal did not end.\<close>

definition BeginProjectionSnapshotWithResume ::
  "instant \<Rightarrow> nat \<Rightarrow> string \<Rightarrow> string \<Rightarrow> int \<Rightarrow> SessionProjection option \<Rightarrow> EventPublisher
   \<Rightarrow> ((fenceError, SessionProjection \<times> ProjectionSnapshotAdmission \<times> ProjectionResumeSelection) result \<times> EventPublisher) option" where
  "BeginProjectionSnapshotWithResume now conn backendID sessionID sinceRev snapshot p =
     (if backendID = [] \<or> sessionID = [] then Some (Inl IdentityRequired, p)
      else case beginProjectionSnapshotLocked conn backendID sessionID snapshot p of
             (Inl e, p1) \<Rightarrow> Some (Inl e, p1)
           | (Inr (projection, admission), p1) \<Rightarrow>
               if conn \<in> ep_epochMismatch p1
               then Some (Inr (projection, admission,
                      \<lparr>prs_Patches = [], prs_Available = False, prs_FallbackReason = None, prs_EpochChanged = True\<rparr>), p1)
               else map_option (\<lambda>(selected, journal).
                      (Inr (projection, admission,
                         (case selected of
                            Inl reason \<Rightarrow> \<lparr>prs_Patches = [], prs_Available = False, prs_FallbackReason = Some reason, prs_EpochChanged = False\<rparr>
                          | Inr patches \<Rightarrow> \<lparr>prs_Patches = patches, prs_Available = True, prs_FallbackReason = None, prs_EpochChanged = False\<rparr>)),
                       p1\<lparr>ep_journal := journal\<rparr>))
                    (ContiguousRangeAt backendID sessionID sinceRev (psa_CutRev admission) now (ep_journal p1)))"

definition encodedLen :: "(ProjectionPatch \<Rightarrow> nat option) \<Rightarrow> ProjectionPatch \<Rightarrow> int" where
  "encodedLen enc patch = (case enc patch of None \<Rightarrow> 0 | Some n \<Rightarrow> int n)"

definition appendFencePatchLocked ::
  "(ProjectionPatch \<Rightarrow> nat option) \<Rightarrow> ProjectionPatch \<Rightarrow> bool \<Rightarrow> projectionSnapshotFence \<Rightarrow> projectionSnapshotFence" where
  "appendFencePatchLocked enc patch decide fence =
     (if pp_SyncRev patch \<le> psf_expectedRev fence \<or> psf_invalidated fence then fence
      else if pp_BaseRev patch \<noteq> psf_expectedRev fence
           \<or> length (psf_pending fence) + 1 > projectionFenceMaxPatches
           \<or> psf_pendingBytes fence + encodedLen enc patch > projectionFenceMaxBytes
      then fence\<lparr>psf_pending := [], psf_pendingBytes := 0, psf_invalidated := True\<rparr>
      else fence\<lparr>psf_pending := psf_pending fence @ [\<lparr>pfp_patch = patch, pfp_decide = decide\<rparr>],
                 psf_pendingBytes := psf_pendingBytes fence + encodedLen enc patch,
                 psf_expectedRev := pp_SyncRev patch\<rparr>)"

definition resolvePending ::
  "(string \<Rightarrow> string) \<Rightarrow> nat \<Rightarrow> string \<Rightarrow> string \<Rightarrow> EventPublisher \<Rightarrow> projectionFencePendingPatch \<Rightarrow> ProjectionPatch" where
  "resolvePending idOf conn backendID sessionID p frame =
     (let patch = pfp_patch frame
      in if \<not> pfp_decide frame then patch
         else if connHoldsAnyTurnLocked p conn backendID sessionID (patchTurnIDs idOf patch) then patch
         else patch\<lparr>pp_UpsertTurns := [], pp_PartOps := [], pp_TurnStateOps := [],
                    pp_Execution := (if conn \<in> ep_windowScalarV1 p then pp_Execution patch else None)\<rparr>)"

text \<open>The end of a completion: the answer and the pending patches go into the sink together, or the connection is closed.\<close>

definition deliverCompletion ::
  "(string \<Rightarrow> string) \<Rightarrow> nat \<Rightarrow> string \<Rightarrow> string \<Rightarrow> string \<Rightarrow> bool \<Rightarrow> projectionSnapshotFence \<Rightarrow> EventPublisher
   \<Rightarrow> (fenceError, unit) result \<times> EventPublisher" where
  "deliverCompletion idOf conn b s requestID failed fence p1 =
     (let key = (conn, b, s);
          pending = (if psf_invalidated fence then [] else psf_pending fence);
          p2 = sinkLocked conn p1;
          required = (if psf_invalidated fence then 2 else 1 + length pending)
      in if eventOutboundQueueCapacity - eos_slots (sinkOf p2 conn) < required
         then (Inl QueueFull,
               (clearConnWindowTurnsLocked conn b s (p2\<lparr>ep_fences := (ep_fences p2)(key := None)\<rparr>))
                 \<lparr>ep_closed := insert conn (ep_closed p2)\<rparr>)
         else
           let batch = ResultFrame key requestID (\<not> failed) (psf_cutRev fence) #
                 (if psf_invalidated fence then [InvalidateFrame key]
                  else map (\<lambda>frame. PatchFrame key (resolvePending idOf conn b s p1 frame)) pending);
               p3 = pushFrames conn batch p2
           in (Inr (),
               if psf_invalidated fence
               then p3\<lparr>ep_fences := (ep_fences p3)(key := None), ep_invalidated := insert key (ep_invalidated p3)\<rparr>
               else p3\<lparr>ep_fences := (ep_fences p3)(key := None),
                       ep_cuts := (ep_cuts p3)(key := psf_expectedRev fence),
                       ep_invalidated := ep_invalidated p3 - {key}\<rparr>))"

definition completeProjectionSnapshot ::
  "(string \<Rightarrow> string) \<Rightarrow> nat \<Rightarrow> ProjectionSnapshotAdmission \<Rightarrow> string \<Rightarrow> string list \<Rightarrow> bool \<Rightarrow> EventPublisher
   \<Rightarrow> (fenceError, unit) result \<times> EventPublisher" where
  "completeProjectionSnapshot idOf conn admission requestID heldTurnIDs failed p =
     (if requestID = [] then (Inl IdentityRequired, p)
      else
        let b = psa_BackendID admission; s = psa_SessionID admission;
            stale = (Inl GenerationChanged, p\<lparr>ep_closed := insert conn (ep_closed p)\<rparr>)
        in case ep_fences p (conn, b, s) of
             None \<Rightarrow> stale
           | Some fence \<Rightarrow>
               if psf_id fence \<noteq> psa_fenceID admission \<or> psf_generation fence \<noteq> psa_ConnectionGeneration admission
                  \<or> ep_connectionGenerations p conn \<noteq> psa_ConnectionGeneration admission
                  \<or> psa_BridgeEpoch admission \<noteq> ep_bridgeEpoch p
               then stale
               else deliverCompletion idOf conn b s requestID failed fence
                      (if heldTurnIDs \<noteq> [] \<and> \<not> psf_invalidated fence
                       then recordConnWindowTurnsLocked conn b s heldTurnIDs p else p))"

section \<open>Patches, prepends and details\<close>

definition enqueueProjectionInvalidateLocked :: "nat \<Rightarrow> string \<Rightarrow> string \<Rightarrow> EventPublisher \<Rightarrow> EventPublisher" where
  "enqueueProjectionInvalidateLocked conn backendID sessionID p =
     snd (tryEnqueue conn (InvalidateFrame (conn, backendID, sessionID)) (clearConnWindowTurnsLocked conn backendID sessionID p))"

definition deliverSingleConnPatchLocked ::
  "(ProjectionPatch \<Rightarrow> nat option) \<Rightarrow> nat \<Rightarrow> string \<Rightarrow> string \<Rightarrow> ProjectionPatch \<Rightarrow> EventPublisher \<Rightarrow> EventPublisher" where
  "deliverSingleConnPatchLocked enc conn backendID sessionID patch p =
     (let key = (conn, backendID, sessionID); cut = ep_cuts p key
      in case ep_fences p key of
           Some fence \<Rightarrow> p\<lparr>ep_fences := (ep_fences p)(key \<mapsto> appendFencePatchLocked enc patch False fence)\<rparr>
         | None \<Rightarrow>
             if key \<in> ep_invalidated p then p
             else if pp_SyncRev patch \<le> cut then p
             else if cut \<noteq> 0 \<and> pp_BaseRev patch \<noteq> cut
             then let p1 = enqueueProjectionInvalidateLocked conn backendID sessionID p
                  in p1\<lparr>ep_invalidated := insert key (ep_invalidated p1)\<rparr>
             else (case tryEnqueue conn (PatchFrame key patch) p of
                     (True, p1) \<Rightarrow> p1\<lparr>ep_cuts := (ep_cuts p1)(key := pp_SyncRev patch)\<rparr>
                   | (False, p1) \<Rightarrow> p1))"

text \<open>The body of the loop over the targets; unlike the single delivery it marks a sink that is full.\<close>

definition deliverToTarget ::
  "(ProjectionPatch \<Rightarrow> nat option) \<Rightarrow> (nat \<Rightarrow> bool) \<Rightarrow> string \<Rightarrow> string \<Rightarrow> ProjectionPatch \<Rightarrow> nat \<Rightarrow> EventPublisher \<Rightarrow> EventPublisher" where
  "deliverToTarget enc observed backendID sessionID patch conn p0 =
     (if conn \<notin> ep_syncV2 p0 \<or> \<not> observed conn then p0
      else
        let p = sinkLocked conn p0; key = (conn, backendID, sessionID); cut = ep_cuts p key
        in case ep_fences p key of
             Some fence \<Rightarrow> p\<lparr>ep_fences := (ep_fences p)(key \<mapsto> appendFencePatchLocked enc patch False fence)\<rparr>
           | None \<Rightarrow>
               if key \<in> ep_invalidated p then p
               else if pp_SyncRev patch \<le> cut then p
               else if cut \<noteq> 0 \<and> pp_BaseRev patch \<noteq> cut
               then let p1 = enqueueProjectionInvalidateLocked conn backendID sessionID p
                    in p1\<lparr>ep_invalidated := insert key (ep_invalidated p1)\<rparr>
               else (case tryEnqueue conn (PatchFrame key patch) p of
                       (True, p1) \<Rightarrow> p1\<lparr>ep_cuts := (ep_cuts p1)(key := pp_SyncRev patch)\<rparr>
                     | (False, p1) \<Rightarrow> p1\<lparr>ep_invalidated := insert key (ep_invalidated p1)\<rparr>))"

definition deliverProjectionPatchLocked ::
  "(ProjectionPatch \<Rightarrow> nat option) \<Rightarrow> (nat \<Rightarrow> bool) \<Rightarrow> nat list \<Rightarrow> string \<Rightarrow> string \<Rightarrow> ProjectionPatch \<Rightarrow> EventPublisher \<Rightarrow> EventPublisher" where
  "deliverProjectionPatchLocked enc observed targets backendID sessionID patch p =
     (if ep_syncV2 p = {} then p else fold (deliverToTarget enc observed backendID sessionID patch) targets p)"

definition recordProjectionPatchLocked ::
  "(ProjectionPatch \<Rightarrow> nat option) \<Rightarrow> instant \<Rightarrow> string \<Rightarrow> string \<Rightarrow> ProjectionPatch \<Rightarrow> EventPublisher \<Rightarrow> EventPublisher option" where
  "recordProjectionPatchLocked enc now backendID sessionID patch p =
     map_option (\<lambda>(recorded, journal). p\<lparr>ep_journal := journal\<rparr>) (Journal_Record enc now backendID sessionID patch (ep_journal p))"

definition PublishProjectionPatch ::
  "(ProjectionPatch \<Rightarrow> nat option) \<Rightarrow> (nat \<Rightarrow> bool) \<Rightarrow> nat list \<Rightarrow> instant \<Rightarrow> string \<Rightarrow> string \<Rightarrow> ProjectionPatch
   \<Rightarrow> EventPublisher \<Rightarrow> EventPublisher option" where
  "PublishProjectionPatch enc observed targets now backendID sessionID patch p =
     map_option (deliverProjectionPatchLocked enc observed targets backendID sessionID patch)
       (recordProjectionPatchLocked enc now backendID sessionID patch p)"

text \<open>The revision a connection is at: behind a fence that is not invalidated, the revision the fence expects.\<close>

definition chainBase :: "EventPublisher \<Rightarrow> projectionFenceKey \<Rightarrow> int" where
  "chainBase p key =
     (case ep_fences p key of
        Some fence \<Rightarrow> if psf_invalidated fence then ep_cuts p key else psf_expectedRev fence
      | None \<Rightarrow> ep_cuts p key)"

definition prependToTarget ::
  "(ProjectionPatch \<Rightarrow> nat option) \<Rightarrow> nat option \<Rightarrow> string \<Rightarrow> string \<Rightarrow> int \<Rightarrow> nat \<Rightarrow> EventPublisher \<Rightarrow> EventPublisher" where
  "prependToTarget enc requester backendID sessionID syncRev conn p =
     (if conn \<notin> ep_syncV2 p \<or> Some conn = requester then p
      else if connDeliveryModeLocked p conn backendID sessionID = ProjectionDeliveryWindow
      then (let base = chainBase p (conn, backendID, sessionID)
            in if base = 0 \<or> base \<ge> syncRev then p
               else deliverSingleConnPatchLocked enc conn backendID sessionID (noOpPatch base syncRev) p)
      else enqueueProjectionInvalidateLocked conn backendID sessionID p)"

definition PublishProjectionPrepend ::
  "(ProjectionPatch \<Rightarrow> nat option) \<Rightarrow> nat list \<Rightarrow> string \<Rightarrow> string \<Rightarrow> int \<Rightarrow> nat option \<Rightarrow> EventPublisher \<Rightarrow> EventPublisher" where
  "PublishProjectionPrepend enc targets backendID sessionID syncRev requester p =
     (if ep_syncV2 p = {} then p else fold (prependToTarget enc requester backendID sessionID syncRev) targets p)"

definition detailToTarget ::
  "(ProjectionPatch \<Rightarrow> nat option) \<Rightarrow> (string \<Rightarrow> string) \<Rightarrow> nat option \<Rightarrow> string \<Rightarrow> string \<Rightarrow> ProjectionPatch \<Rightarrow> nat
   \<Rightarrow> EventPublisher \<Rightarrow> EventPublisher" where
  "detailToTarget enc idOf requester backendID sessionID commit conn p =
     (if conn \<notin> ep_syncV2 p then p
      else if Some conn = requester \<or> connDeliveryModeLocked p conn backendID sessionID \<noteq> ProjectionDeliveryWindow
              \<or> connHoldsAnyTurnLocked p conn backendID sessionID (patchTurnIDs idOf commit)
      then deliverSingleConnPatchLocked enc conn backendID sessionID commit p
      else
        let key = (conn, backendID, sessionID); base = ep_cuts p key;
            noOp = (if base = 0 \<or> base \<ge> pp_SyncRev commit then p
                    else deliverSingleConnPatchLocked enc conn backendID sessionID (noOpPatch base (pp_SyncRev commit)) p)
        in case ep_fences p key of
             None \<Rightarrow> noOp
           | Some fence \<Rightarrow>
               if psf_invalidated fence then noOp
               else p\<lparr>ep_fences := (ep_fences p)(key \<mapsto> appendFencePatchLocked enc commit True fence)\<rparr>)"

fun recordAll ::
  "(ProjectionPatch \<Rightarrow> nat option) \<Rightarrow> instant \<Rightarrow> string \<Rightarrow> string \<Rightarrow> ProjectionPatch list \<Rightarrow> EventPublisher \<Rightarrow> EventPublisher option" where
  "recordAll enc now backendID sessionID [] p = Some p"
| "recordAll enc now backendID sessionID (patch # patches) p =
     Option.bind (if pp_SyncRev patch \<le> pp_BaseRev patch then Some p
                  else recordProjectionPatchLocked enc now backendID sessionID patch p)
       (recordAll enc now backendID sessionID patches)"

definition PublishProjectionDetail ::
  "(ProjectionPatch \<Rightarrow> nat option) \<Rightarrow> (string \<Rightarrow> string) \<Rightarrow> (nat \<Rightarrow> bool) \<Rightarrow> nat list \<Rightarrow> instant \<Rightarrow> string \<Rightarrow> string
   \<Rightarrow> ProjectionPatch list \<Rightarrow> nat option \<Rightarrow> EventPublisher \<Rightarrow> EventPublisher option" where
  "PublishProjectionDetail enc idOf observed targets now backendID sessionID patches requester p =
     (if ep_syncV2 p = {} \<or> patches = [] then Some p
      else let commit = last patches
           in if pp_SyncRev commit \<le> pp_BaseRev commit then Some p
              else map_option (\<lambda>p1.
                     fold (detailToTarget enc idOf requester backendID sessionID commit) targets
                       (fold (deliverProjectionPatchLocked enc observed targets backendID sessionID) (butlast patches) p1))
                   (recordAll enc now backendID sessionID patches p))"

definition UnregisterConnection :: "nat \<Rightarrow> EventPublisher \<Rightarrow> EventPublisher" where
  "UnregisterConnection conn p =
     p\<lparr>ep_sinks := (ep_sinks p)(conn := None), ep_syncV2 := ep_syncV2 p - {conn}, ep_windowScalarV1 := ep_windowScalarV1 p - {conn},
       ep_epochMismatch := ep_epochMismatch p - {conn},
       ep_connectionGenerations := (ep_connectionGenerations p)(conn := 0),
       ep_fences := (\<lambda>key. if fst key = conn then None else ep_fences p key),
       ep_cuts := (\<lambda>key. if fst key = conn then 0 else ep_cuts p key),
       ep_modes := (ep_modes p)(conn := \<lambda>_. None), ep_held := (ep_held p)(conn := \<lambda>_. {}),
       ep_invalidated := {key \<in> ep_invalidated p. fst key \<noteq> conn}\<rparr>"

text \<open>What a hello negotiates (\<^verbatim>\<open>SetConnSyncV2\<close>, \<^verbatim>\<open>SetConnProjectionWindowScalarV1\<close>, \<^verbatim>\<open>SetConnProjectionEpoch\<close>).\<close>

definition mark :: "nat \<Rightarrow> bool \<Rightarrow> nat set \<Rightarrow> nat set" where
  "mark conn enabled marked = (if enabled then insert conn marked else marked - {conn})"

definition SetConnCapabilities :: "nat \<Rightarrow> bool \<Rightarrow> bool \<Rightarrow> string \<Rightarrow> EventPublisher \<Rightarrow> EventPublisher" where
  "SetConnCapabilities conn syncV2 scalar lastBridgeEpoch p =
     p\<lparr>ep_syncV2 := mark conn syncV2 (ep_syncV2 p), ep_windowScalarV1 := mark conn scalar (ep_windowScalarV1 p),
       ep_epochMismatch := mark conn (lastBridgeEpoch \<noteq> [] \<and> lastBridgeEpoch \<noteq> ep_bridgeEpoch p) (ep_epochMismatch p)\<rparr>"

definition SetConnProjectionDeliveryMode :: "nat \<Rightarrow> string \<Rightarrow> string \<Rightarrow> ProjectionDeliveryMode \<Rightarrow> EventPublisher \<Rightarrow> EventPublisher" where
  "SetConnProjectionDeliveryMode conn backendID sessionID mode p =
     p\<lparr>ep_modes := (ep_modes p)(conn := (ep_modes p conn)(projectionDeliveryKey backendID sessionID \<mapsto> mode))\<rparr>"

text \<open>The goroutine of a sink is through with a frame.\<close>

definition sinkReleases :: "nat \<Rightarrow> EventPublisher \<Rightarrow> EventPublisher" where
  "sinkReleases conn p =
     (case ep_sinks p conn of
        None \<Rightarrow> p
      | Some sink \<Rightarrow> p\<lparr>ep_sinks := (ep_sinks p)(conn \<mapsto> sink\<lparr>eos_slots := eos_slots sink - 1\<rparr>)\<rparr>)"

section \<open>The publisher as a machine\<close>

datatype PublisherOp =
  PHello nat bool bool string
| PRegister nat
| PSetMode nat string string ProjectionDeliveryMode
| PBegin nat string string "SessionProjection option"
| PBeginResume instant nat string string int "SessionProjection option"
| PComplete nat ProjectionSnapshotAdmission string "string list" bool
| PPublish "nat \<Rightarrow> bool" "nat list" instant string string ProjectionPatch
| PPrepend "nat list" string string int "nat option"
| PDetail "nat \<Rightarrow> bool" "nat list" instant string string "ProjectionPatch list" "nat option"
| PRelease nat
| PDeliveryFailed nat string string
| PClose nat
| PUnregister nat

fun publisherStep ::
  "(ProjectionPatch \<Rightarrow> nat option) \<Rightarrow> (string \<Rightarrow> string) \<Rightarrow> EventPublisher \<Rightarrow> PublisherOp \<Rightarrow> EventPublisher option" where
  "publisherStep enc idOf p (PHello conn syncV2 scalar epoch) = Some (SetConnCapabilities conn syncV2 scalar epoch p)"
| "publisherStep enc idOf p (PRegister conn) = Some (sinkLocked conn (snd (registerConnectionLocked conn p)))"
| "publisherStep enc idOf p (PSetMode conn b s mode) = Some (SetConnProjectionDeliveryMode conn b s mode p)"
| "publisherStep enc idOf p (PBegin conn b s snapshot) = Some (snd (BeginProjectionSnapshot conn b s snapshot p))"
| "publisherStep enc idOf p (PBeginResume now conn b s sinceRev snapshot) =
     map_option snd (BeginProjectionSnapshotWithResume now conn b s sinceRev snapshot p)"
| "publisherStep enc idOf p (PComplete conn admission requestID held failed) =
     Some (snd (completeProjectionSnapshot idOf conn admission requestID held failed p))"
| "publisherStep enc idOf p (PPublish observed targets now b s patch) = PublishProjectionPatch enc observed targets now b s patch p"
| "publisherStep enc idOf p (PPrepend targets b s syncRev requester) = Some (PublishProjectionPrepend enc targets b s syncRev requester p)"
| "publisherStep enc idOf p (PDetail observed targets now b s patches requester) =
     PublishProjectionDetail enc idOf observed targets now b s patches requester p"
| "publisherStep enc idOf p (PRelease conn) = Some (sinkReleases conn p)"
| "publisherStep enc idOf p (PDeliveryFailed conn b s) = Some (clearConnWindowTurnsLocked conn b s p)"
| "publisherStep enc idOf p (PClose conn) = Some (p\<lparr>ep_closed := insert conn (ep_closed p)\<rparr>)"
| "publisherStep enc idOf p (PUnregister conn) = Some (UnregisterConnection conn p)"

section \<open>What a client sees\<close>

text \<open>
  A client follows one session: the answer of a pull puts it at the cut of its snapshot, an
  invalidation out of sync until its next pull, and a patch from its revision to the next.  A patch from
  another revision is a gap.
\<close>

datatype clientRev = Unsynced | At int | Broken

fun clientSees :: "projectionFenceKey \<Rightarrow> clientRev \<Rightarrow> deliveryFrame \<Rightarrow> clientRev" where
  "clientSees key Broken frame = Broken"
| "clientSees key v (ResultFrame k requestID ok c) = (if k = key \<and> ok then At c else v)"
| "clientSees key v (PatchFrame k patch) =
     (if k \<noteq> key then v
      else case v of
             At r \<Rightarrow> if pp_BaseRev patch = r then At (pp_SyncRev patch) else Broken
           | _ \<Rightarrow> v)"
| "clientSees key v (InvalidateFrame k) = (if k = key then Unsynced else v)"

definition clientView :: "EventPublisher \<Rightarrow> projectionFenceKey \<Rightarrow> clientRev" where
  "clientView p key = foldl (clientSees key) Unsynced (eos_log (sinkOf p (fst key)))"

fun frameKey :: "deliveryFrame \<Rightarrow> projectionFenceKey" where
  "frameKey (ResultFrame k requestID ok c) = k"
| "frameKey (PatchFrame k patch) = k"
| "frameKey (InvalidateFrame k) = k"

lemma clientSees_other: "frameKey frame \<noteq> key \<Longrightarrow> clientSees key v frame = v"
  by (cases frame; cases v) auto

lemma clientSees_others: "\<forall>frame\<in>set frames. frameKey frame \<noteq> key \<Longrightarrow> foldl (clientSees key) v frames = v"
  by (induction frames arbitrary: v) (auto simp: clientSees_other)

text \<open>The state the invariants speak of.\<close>

definition core :: "EventPublisher \<Rightarrow> (nat \<Rightarrow> eventOutboundSink) \<times> (projectionFenceKey \<Rightarrow> int) \<times> (projectionFenceKey \<Rightarrow> projectionSnapshotFence option)
    \<times> ProjectionRevisionJournal" where
  "core p = (sinkOf p, ep_cuts p, ep_fences p, ep_journal p)"

lemma sinkOf_sinkLocked [simp]: "sinkOf (sinkLocked conn p) = sinkOf p"
  by (auto simp: sinkOf_def sinkLocked_def fun_eq_iff)

lemma sinkOf_push [simp]:
  "sinkOf (pushFrames conn frames p) = (sinkOf p)(conn := \<lparr>eos_log = eos_log (sinkOf p conn) @ frames, eos_slots = eos_slots (sinkOf p conn) + length frames\<rparr>)"
  by (auto simp: sinkOf_def pushFrames_def fun_eq_iff)

lemma sinkLocked_fields [simp]:
  "ep_cuts (sinkLocked conn p) = ep_cuts p" "ep_fences (sinkLocked conn p) = ep_fences p" "ep_journal (sinkLocked conn p) = ep_journal p"
  "ep_invalidated (sinkLocked conn p) = ep_invalidated p" "ep_closed (sinkLocked conn p) = ep_closed p" "ep_syncV2 (sinkLocked conn p) = ep_syncV2 p"
  "ep_held (sinkLocked conn p) = ep_held p" "ep_modes (sinkLocked conn p) = ep_modes p" "ep_windowScalarV1 (sinkLocked conn p) = ep_windowScalarV1 p"
  by (simp_all add: sinkLocked_def)

lemma pushed_fields [simp]:
  "ep_cuts (pushFrames conn frames p) = ep_cuts p" "ep_fences (pushFrames conn frames p) = ep_fences p" "ep_journal (pushFrames conn frames p) = ep_journal p"
  "ep_invalidated (pushFrames conn frames p) = ep_invalidated p" "ep_closed (pushFrames conn frames p) = ep_closed p" "ep_syncV2 (pushFrames conn frames p) = ep_syncV2 p"
  "ep_held (pushFrames conn frames p) = ep_held p" "ep_modes (pushFrames conn frames p) = ep_modes p"
  by (simp_all add: pushFrames_def)

lemma clear_fields [simp]:
  "ep_cuts (clearConnWindowTurnsLocked conn b s p) = ep_cuts p" "ep_fences (clearConnWindowTurnsLocked conn b s p) = ep_fences p"
  "ep_journal (clearConnWindowTurnsLocked conn b s p) = ep_journal p" "ep_invalidated (clearConnWindowTurnsLocked conn b s p) = ep_invalidated p"
  "sinkOf (clearConnWindowTurnsLocked conn b s p) = sinkOf p" "ep_closed (clearConnWindowTurnsLocked conn b s p) = ep_closed p"
  by (auto simp: clearConnWindowTurnsLocked_def sinkOf_def fun_eq_iff)

lemma record_fields [simp]:
  "ep_cuts (recordConnWindowTurnsLocked conn b s ids p) = ep_cuts p" "ep_fences (recordConnWindowTurnsLocked conn b s ids p) = ep_fences p"
  "ep_journal (recordConnWindowTurnsLocked conn b s ids p) = ep_journal p" "ep_invalidated (recordConnWindowTurnsLocked conn b s ids p) = ep_invalidated p"
  "sinkOf (recordConnWindowTurnsLocked conn b s ids p) = sinkOf p" "ep_closed (recordConnWindowTurnsLocked conn b s ids p) = ep_closed p"
  by (auto simp: recordConnWindowTurnsLocked_def sinkOf_def fun_eq_iff Let_def)

lemma sinkOf_update [simp]:
  "sinkOf (p\<lparr>ep_cuts := a\<rparr>) = sinkOf p" "sinkOf (p\<lparr>ep_fences := g\<rparr>) = sinkOf p" "sinkOf (p\<lparr>ep_invalidated := x\<rparr>) = sinkOf p"
  "sinkOf (p\<lparr>ep_closed := y\<rparr>) = sinkOf p" "sinkOf (p\<lparr>ep_journal := j\<rparr>) = sinkOf p"
  by (auto simp: sinkOf_def fun_eq_iff)

lemma tryEnqueue_cases:
  obtains (sent) "tryEnqueue conn frame p = (True, pushFrames conn [frame] p)" "eos_slots (sinkOf p conn) < eventOutboundQueueCapacity"
  | (refused) "tryEnqueue conn frame p = (False, sinkLocked conn p)"
  by (cases "conn \<in> ep_closed p \<or> eos_slots (sinkOf p conn) \<ge> eventOutboundQueueCapacity") (auto simp: tryEnqueue_def)

lemma view_push:
  "clientView (pushFrames conn frames p) key = (if fst key = conn then foldl (clientSees key) (clientView p key) frames else clientView p key)"
  by (simp add: clientView_def)

text \<open>The possible effects of handing one patch to one connection.\<close>

lemma invalidate_core:
  obtains "core (enqueueProjectionInvalidateLocked conn b s p) = core p"
  | "core (enqueueProjectionInvalidateLocked conn b s p) = core (pushFrames conn [InvalidateFrame (conn, b, s)] p)"
    "eos_slots (sinkOf p conn) < eventOutboundQueueCapacity"
proof (cases rule: tryEnqueue_cases [where conn = conn and p = "clearConnWindowTurnsLocked conn b s p" and frame = "InvalidateFrame (conn, b, s)"])
  case sent
  then show ?thesis using that(2) by (simp add: enqueueProjectionInvalidateLocked_def core_def)
next
  case refused
  then show ?thesis using that(1) by (simp add: enqueueProjectionInvalidateLocked_def core_def)
qed

lemma single_core:
  fixes enc :: "ProjectionPatch \<Rightarrow> nat option" and patch :: ProjectionPatch and conn :: nat and b s :: string and p :: EventPublisher
  defines "q \<equiv> deliverSingleConnPatchLocked enc conn b s patch p"
  obtains (fenced) fence where "ep_fences p (conn, b, s) = Some fence"
      "core q = core (p\<lparr>ep_fences := (ep_fences p)((conn, b, s) \<mapsto> appendFencePatchLocked enc patch False fence)\<rparr>)"
  | (same) "core q = core p"
  | (invalidated) "core q = core (pushFrames conn [InvalidateFrame (conn, b, s)] p)" "eos_slots (sinkOf p conn) < eventOutboundQueueCapacity"
  | (patched) "core q = core ((pushFrames conn [PatchFrame (conn, b, s) patch] p)\<lparr>ep_cuts := (ep_cuts p)((conn, b, s) := pp_SyncRev patch)\<rparr>)"
      "eos_slots (sinkOf p conn) < eventOutboundQueueCapacity" "ep_fences p (conn, b, s) = None"
      "ep_cuts p (conn, b, s) < pp_SyncRev patch" "ep_cuts p (conn, b, s) = 0 \<or> pp_BaseRev patch = ep_cuts p (conn, b, s)"
proof (cases "ep_fences p (conn, b, s)")
  case (Some fence)
  then show ?thesis using that(1) by (simp add: q_def deliverSingleConnPatchLocked_def Let_def)
next
  case None
  let ?key = "(conn, b, s)"
  consider "?key \<in> ep_invalidated p \<or> pp_SyncRev patch \<le> ep_cuts p ?key"
    | "?key \<notin> ep_invalidated p" "ep_cuts p ?key < pp_SyncRev patch" "ep_cuts p ?key \<noteq> 0" "pp_BaseRev patch \<noteq> ep_cuts p ?key"
    | "?key \<notin> ep_invalidated p" "ep_cuts p ?key < pp_SyncRev patch" "ep_cuts p ?key = 0 \<or> pp_BaseRev patch = ep_cuts p ?key"
    by linarith
  then show ?thesis
  proof cases
    case 1
    then show ?thesis using that(2) None by (auto simp: q_def deliverSingleConnPatchLocked_def Let_def)
  next
    case 2
    have "core q = core (enqueueProjectionInvalidateLocked conn b s p)"
      using 2 None by (auto simp: q_def deliverSingleConnPatchLocked_def Let_def core_def)
    then show ?thesis using that(2,3) by (cases rule: invalidate_core [of conn b s p]) auto
  next
    case 3
    then have q: "q = (case tryEnqueue conn (PatchFrame ?key patch) p of
        (True, p1) \<Rightarrow> p1\<lparr>ep_cuts := (ep_cuts p1)(?key := pp_SyncRev patch)\<rparr> | (False, p1) \<Rightarrow> p1)"
      using None by (auto simp: q_def deliverSingleConnPatchLocked_def Let_def)
    show ?thesis
    proof (cases rule: tryEnqueue_cases [where conn = conn and p = p and frame = "PatchFrame ?key patch"])
      case sent
      then show ?thesis using that(4) 3 None q by simp
    next
      case refused
      then show ?thesis using that(2) q by (simp add: core_def)
    qed
  qed
qed

text \<open>The loop over the targets does the same to what the invariants speak of.\<close>

lemma target_core:
  "core (deliverToTarget enc observed b s patch conn p) \<in> {core p, core (deliverSingleConnPatchLocked enc conn b s patch p)}"
proof (cases "conn \<notin> ep_syncV2 p \<or> \<not> observed conn")
  case True
  then show ?thesis by (simp add: deliverToTarget_def)
next
  case False
  have inv: "core (enqueueProjectionInvalidateLocked conn b s (sinkLocked conn p)) = core (enqueueProjectionInvalidateLocked conn b s p)"
    by (auto simp: enqueueProjectionInvalidateLocked_def tryEnqueue_def core_def)
  have "core (deliverToTarget enc observed b s patch conn p) = core (deliverSingleConnPatchLocked enc conn b s patch p)"
  proof (cases rule: tryEnqueue_cases [where conn = conn and p = p and frame = "PatchFrame (conn, b, s) patch"])
    case sent
    then have "tryEnqueue conn (PatchFrame (conn, b, s) patch) (sinkLocked conn p) = (True, pushFrames conn [PatchFrame (conn, b, s) patch] (sinkLocked conn p))"
      by (auto simp: tryEnqueue_def split: if_splits)
    with sent inv False show ?thesis
      by (auto simp: deliverToTarget_def deliverSingleConnPatchLocked_def Let_def core_def split: option.split)
  next
    case refused
    then have "tryEnqueue conn (PatchFrame (conn, b, s) patch) (sinkLocked conn p) = (False, sinkLocked conn (sinkLocked conn p))"
      by (auto simp: tryEnqueue_def split: if_splits)
    with refused inv False show ?thesis
      by (auto simp: deliverToTarget_def deliverSingleConnPatchLocked_def Let_def core_def split: option.split)
  qed
  then show ?thesis by simp
qed

section \<open>What delivering keeps\<close>

text \<open>
  A predicate survives the delivery of patches if it survives the four effects of handing one patch to one
  connection, and what the journal records.
\<close>

lemma fold_keeps: "(\<And>x s. P s \<Longrightarrow> P (f x s)) \<Longrightarrow> P s \<Longrightarrow> P (fold f xs s)"
  by (induction xs arbitrary: s) auto

locale delivery_invariant =
  fixes enc :: "ProjectionPatch \<Rightarrow> nat option" and holds :: "EventPublisher \<Rightarrow> bool"
  assumes delivery_same: "core q = core p \<Longrightarrow> holds p \<Longrightarrow> holds q"
    and delivery_fenced: "holds p \<Longrightarrow> ep_fences p key = Some fence
      \<Longrightarrow> holds (p\<lparr>ep_fences := (ep_fences p)(key \<mapsto> appendFencePatchLocked enc patch decide fence)\<rparr>)"
    and delivery_invalidated: "holds p \<Longrightarrow> eos_slots (sinkOf p conn) < eventOutboundQueueCapacity
      \<Longrightarrow> holds (pushFrames conn [InvalidateFrame (conn, b, s)] p)"
    and delivery_patched: "holds p \<Longrightarrow> eos_slots (sinkOf p conn) < eventOutboundQueueCapacity \<Longrightarrow> ep_fences p (conn, b, s) = None
      \<Longrightarrow> ep_cuts p (conn, b, s) < pp_SyncRev patch \<Longrightarrow> ep_cuts p (conn, b, s) = 0 \<or> pp_BaseRev patch = ep_cuts p (conn, b, s)
      \<Longrightarrow> holds ((pushFrames conn [PatchFrame (conn, b, s) patch] p)\<lparr>ep_cuts := (ep_cuts p)((conn, b, s) := pp_SyncRev patch)\<rparr>)"
    and recorded: "holds p \<Longrightarrow> \<exists>q. recordProjectionPatchLocked enc now b s patch p = Some q \<and> holds q"
begin

lemma enqueueInvalidate:
  assumes "holds p"
  shows "holds (enqueueProjectionInvalidateLocked conn b s p)"
proof (cases rule: invalidate_core [of conn b s p])
  case 1
  then show ?thesis by (rule delivery_same) (rule assms)
next
  case 2
  show ?thesis by (rule delivery_same [OF 2(1)]) (rule delivery_invalidated [OF assms 2(2)])
qed

lemma single:
  assumes p: "holds p"
  shows "holds (deliverSingleConnPatchLocked enc conn b s patch p)"
proof (cases rule: single_core [of p conn b s enc patch])
  case (fenced fence)
  note facts = fenced
  show ?thesis by (rule delivery_same [OF facts(2)]) (rule delivery_fenced [OF p facts(1)])
next
  case same
  then show ?thesis by (rule delivery_same) (rule p)
next
  case invalidated
  note facts = invalidated
  show ?thesis by (rule delivery_same [OF facts(1)]) (rule delivery_invalidated [OF p facts(2)])
next
  case patched
  note facts = patched
  show ?thesis by (rule delivery_same [OF facts(1)]) (rule delivery_patched [OF p facts(2-5)])
qed

lemma target:
  assumes p: "holds p"
  shows "holds (deliverToTarget enc observed b s patch conn p)"
  using target_core [of enc observed b s patch conn p] delivery_same [OF _ p] delivery_same [OF _ single [OF p, of conn b s patch]] by blast

lemma deliver: "holds p \<Longrightarrow> holds (deliverProjectionPatchLocked enc observed targets b s patch p)"
  unfolding deliverProjectionPatchLocked_def
  using fold_keeps [of holds "deliverToTarget enc observed b s patch" p targets] target by (cases "ep_syncV2 p = {}") auto

lemma prependTo: "holds p \<Longrightarrow> holds (prependToTarget enc requester b s syncRev conn p)"
  unfolding prependToTarget_def Let_def by (simp only: single enqueueInvalidate split: if_splits) blast

lemma prepend: "holds p \<Longrightarrow> holds (PublishProjectionPrepend enc targets b s syncRev requester p)"
  unfolding PublishProjectionPrepend_def
  using fold_keeps [of holds "prependToTarget enc requester b s syncRev" p targets] prependTo by (cases "ep_syncV2 p = {}") auto

lemma detailTo:
  assumes p: "holds p"
  shows "holds (detailToTarget enc idOf requester b s commit conn p)"
proof (cases "ep_fences p (conn, b, s)")
  case None
  then show ?thesis unfolding detailToTarget_def Let_def using p single [OF p] by simp
next
  case (Some fence)
  then show ?thesis unfolding detailToTarget_def Let_def using p single [OF p] delivery_fenced [OF p Some] by simp
qed

lemma recordedAll: "holds p \<Longrightarrow> \<exists>q. recordAll enc now b s patches p = Some q \<and> holds q"
proof (induction patches arbitrary: p)
  case (Cons patch patches)
  obtain q where "(if pp_SyncRev patch \<le> pp_BaseRev patch then Some p
      else recordProjectionPatchLocked enc now b s patch p) = Some q" "holds q"
  proof (cases "pp_SyncRev patch \<le> pp_BaseRev patch")
    case True
    then show ?thesis using that [of p] Cons.prems by simp
  next
    case False
    then show ?thesis using that recorded [OF Cons.prems, of now b s patch] by auto
  qed
  then show ?case using Cons.IH by simp
qed simp

lemma publish:
  assumes "holds p"
  shows "\<exists>q. PublishProjectionPatch enc observed targets now b s patch p = Some q \<and> holds q"
proof -
  obtain q where "recordProjectionPatchLocked enc now b s patch p = Some q" "holds q" using recorded [OF assms] by blast
  then show ?thesis using deliver [of q] by (simp add: PublishProjectionPatch_def)
qed

lemma detail:
  assumes "holds p"
  shows "\<exists>q. PublishProjectionDetail enc idOf observed targets now b s patches requester p = Some q \<and> holds q"
proof -
  obtain q where q: "recordAll enc now b s patches p = Some q" "holds q" using recordedAll [OF assms] by blast
  let ?q1 = "fold (deliverProjectionPatchLocked enc observed targets b s) (butlast patches) q"
  have "holds ?q1" by (rule fold_keeps [where P = holds, OF _ q(2)]) (rule deliver)
  then have "holds (fold (detailToTarget enc idOf requester b s (last patches)) targets ?q1)"
    by (rule fold_keeps [where P = holds, rotated]) (rule detailTo)
  then show ?thesis using assms q(1) unfolding PublishProjectionDetail_def Let_def by simp
qed

end

section \<open>Invariants\<close>

definition fence_ok :: "(ProjectionPatch \<Rightarrow> nat option) \<Rightarrow> projectionSnapshotFence \<Rightarrow> bool" where
  "fence_ok enc fence \<longleftrightarrow>
     (if psf_invalidated fence then psf_pending fence = []
      else chain (psf_cutRev fence) (map pfp_patch (psf_pending fence)) (psf_expectedRev fence))
     \<and> psf_pendingBytes fence = (\<Sum>frame\<leftarrow>psf_pending fence. encodedLen enc (pfp_patch frame))
     \<and> psf_pendingBytes fence \<le> projectionFenceMaxBytes \<and> length (psf_pending fence) \<le> projectionFenceMaxPatches"

definition publisher_ok :: "(ProjectionPatch \<Rightarrow> nat option) \<Rightarrow> EventPublisher \<Rightarrow> bool" where
  "publisher_ok enc p \<longleftrightarrow>
     (\<forall>key fence. ep_fences p key = Some fence \<longrightarrow> fence_ok enc fence)
     \<and> (\<forall>conn. eos_slots (sinkOf p conn) \<le> eventOutboundQueueCapacity \<and> eos_slots (sinkOf p conn) \<le> length (eos_log (sinkOf p conn)))
     \<and> (\<exists>submitted. journal_ok (ep_journal p, submitted))"

text \<open>A client in sync is at the cut the publisher keeps for it, and its cut is not the initial one.\<close>

definition key_in_step :: "EventPublisher \<Rightarrow> projectionFenceKey \<Rightarrow> bool" where
  "key_in_step p key \<longleftrightarrow>
     clientView p key \<noteq> Broken \<and> (\<forall>r. clientView p key = At r \<longrightarrow> ep_cuts p key = r \<and> 0 < r)
     \<and> (\<forall>fence. ep_fences p key = Some fence \<longrightarrow> 0 < psf_cutRev fence)"

definition in_step :: "EventPublisher \<Rightarrow> bool" where
  "in_step p \<longleftrightarrow> (\<forall>key. key_in_step p key)"

lemma in_stepD: "in_step p \<Longrightarrow> key_in_step p key"
  unfolding in_step_def by blast

lemma in_stepI: "(\<And>key. key_in_step p key) \<Longrightarrow> in_step p"
  by (simp add: in_step_def)

definition sound :: "bool \<Rightarrow> (ProjectionPatch \<Rightarrow> nat option) \<Rightarrow> EventPublisher \<Rightarrow> bool" where
  "sound strict enc p \<longleftrightarrow> publisher_ok enc p \<and> (strict \<longrightarrow> in_step p)"

lemma sound_core: "core q = core p \<Longrightarrow> sound strict enc q \<longleftrightarrow> sound strict enc p"
  by (simp add: core_def sound_def publisher_ok_def in_step_def key_in_step_def clientView_def)

lemma fence_ok_append: "fence_ok enc fence \<Longrightarrow> fence_ok enc (appendFencePatchLocked enc patch decide fence)"
  by (auto simp: fence_ok_def appendFencePatchLocked_def chain_append projectionFenceMaxBytes_def)

lemma append_cut [simp]: "psf_cutRev (appendFencePatchLocked enc patch decide fence) = psf_cutRev fence"
  by (simp add: appendFencePatchLocked_def)

lemma publisher_ok_push:
  assumes "publisher_ok enc p" and "eos_slots (sinkOf p conn) + length frames \<le> eventOutboundQueueCapacity"
  shows "publisher_ok enc (pushFrames conn frames p)"
  using assms by (auto simp: publisher_ok_def)

lemma publisher_ok_fence:
  assumes "publisher_ok enc p" and "\<And>fence. entry = Some fence \<Longrightarrow> fence_ok enc fence"
  shows "publisher_ok enc (p\<lparr>ep_fences := (ep_fences p)(key := entry)\<rparr>)"
  using assms by (auto simp: publisher_ok_def)

lemma publisher_ok_cuts [simp]: "publisher_ok enc (p\<lparr>ep_cuts := c\<rparr>) \<longleftrightarrow> publisher_ok enc p"
  by (simp add: publisher_ok_def)

lemma in_step_invalidate:
  assumes p: "in_step p"
  shows "in_step (pushFrames conn [InvalidateFrame key] p)"
proof (rule in_stepI)
  fix k
  have "clientView (pushFrames conn [InvalidateFrame key] p) k \<in> {clientView p k, Unsynced}"
    using in_stepD [OF p, of k] unfolding key_in_step_def by (cases "clientView p k") (auto simp: view_push)
  then show "key_in_step (pushFrames conn [InvalidateFrame key] p) k"
    using in_stepD [OF p, of k] by (auto simp: key_in_step_def)
qed

lemma in_step_patch:
  assumes p: "in_step p" and cut: "ep_cuts p key < pp_SyncRev patch" "ep_cuts p key = 0 \<or> pp_BaseRev patch = ep_cuts p key"
    and key: "fst key = conn"
  shows "in_step ((pushFrames conn [PatchFrame key patch] p)\<lparr>ep_cuts := (ep_cuts p)(key := pp_SyncRev patch)\<rparr>)"
    (is "in_step ?q")
proof (rule in_stepI)
  fix k
  have view: "clientView ?q k = clientView (pushFrames conn [PatchFrame key patch] p) k" by (simp add: clientView_def)
  show "key_in_step ?q k"
  proof (cases "k = key")
    case True
    have "clientView ?q key = clientSees key (clientView p key) (PatchFrame key patch)"
      using view key unfolding True view_push by simp
    then show ?thesis using in_stepD [OF p, of key] cut unfolding True
      by (cases "clientView p key") (auto simp: key_in_step_def)
  next
    case False
    then have "clientView ?q k = clientView p k"
      unfolding view view_push using clientSees_other [of "PatchFrame key patch" k] by simp
    then show ?thesis using in_stepD [OF p, of k] False by (simp add: key_in_step_def)
  qed
qed

lemma in_step_fence:
  assumes "in_step p" and "\<And>fence. entry = Some fence \<Longrightarrow> 0 < psf_cutRev fence"
  shows "in_step (p\<lparr>ep_fences := (ep_fences p)(key := entry)\<rparr>)"
  using assms by (auto simp: in_step_def key_in_step_def clientView_def)

section \<open>Every operation keeps them\<close>

lemma sound_fence:
  assumes "sound strict enc p" and "\<And>fence. entry = Some fence \<Longrightarrow> fence_ok enc fence \<and> (strict \<longrightarrow> 0 < psf_cutRev fence)"
  shows "sound strict enc (p\<lparr>ep_fences := (ep_fences p)(key := entry)\<rparr>)"
  using assms publisher_ok_fence [of enc p entry key] in_step_fence [of p entry key] unfolding sound_def by blast

lemma sound_append:
  assumes "sound strict enc p" and "ep_fences p key = Some fence"
  shows "sound strict enc (p\<lparr>ep_fences := (ep_fences p)(key \<mapsto> appendFencePatchLocked enc patch decide fence)\<rparr>)"
proof (rule sound_fence [OF assms(1)])
  fix f assume "Some (appendFencePatchLocked enc patch decide fence) = Some f"
  moreover have "fence_ok enc fence" using assms unfolding sound_def publisher_ok_def by blast
  moreover have "strict \<longrightarrow> 0 < psf_cutRev fence" using assms in_stepD [of p key] by (auto simp: sound_def key_in_step_def)
  ultimately show "fence_ok enc f \<and> (strict \<longrightarrow> 0 < psf_cutRev f)" using fence_ok_append by auto
qed

lemma sound_invalidate:
  assumes "sound strict enc p" and "eos_slots (sinkOf p conn) < eventOutboundQueueCapacity"
  shows "sound strict enc (pushFrames conn [InvalidateFrame key] p)"
  using assms publisher_ok_push [of enc p conn "[InvalidateFrame key]"] in_step_invalidate by (auto simp: sound_def)

lemma sound_same: "core q = core p \<Longrightarrow> sound strict enc p \<Longrightarrow> sound strict enc q"
  by (rule sound_core [THEN iffD2])

lemma sound_patched:
  assumes p: "sound strict enc p" and slots: "eos_slots (sinkOf p conn) < eventOutboundQueueCapacity"
    and cut: "ep_cuts p (conn, b, s) < pp_SyncRev patch" "ep_cuts p (conn, b, s) = 0 \<or> pp_BaseRev patch = ep_cuts p (conn, b, s)"
  shows "sound strict enc ((pushFrames conn [PatchFrame (conn, b, s) patch] p)\<lparr>ep_cuts := (ep_cuts p)((conn, b, s) := pp_SyncRev patch)\<rparr>)"
proof -
  have "publisher_ok enc (pushFrames conn [PatchFrame (conn, b, s) patch] p)"
    using publisher_ok_push [of enc p conn "[PatchFrame (conn, b, s) patch]"] slots p by (simp add: sound_def)
  moreover have "strict \<longrightarrow> in_step ((pushFrames conn [PatchFrame (conn, b, s) patch] p)\<lparr>ep_cuts := (ep_cuts p)((conn, b, s) := pp_SyncRev patch)\<rparr>)"
    using p in_step_patch [of p "(conn, b, s)" patch conn] cut unfolding sound_def by simp
  ultimately show ?thesis unfolding sound_def publisher_ok_cuts by blast
qed

text \<open>The journal's loops end.\<close>

lemma sound_record:
  assumes "sound strict enc p"
  shows "\<exists>q. recordProjectionPatchLocked enc now b s patch p = Some q \<and> sound strict enc q"
proof -
  obtain submitted where "journal_ok (ep_journal p, submitted)" using assms by (auto simp: sound_def publisher_ok_def)
  from jm.step_returns [OF this, of enc "OpRecord now b s patch"]
  obtain ok j where j: "Journal_Record enc now b s patch (ep_journal p) = Some (ok, j)" "journal_ok (j, submitted @ [((b, s), patch)])"
    by (auto simp: journalPair_def)
  have "publisher_ok enc (p\<lparr>ep_journal := j\<rparr>)" using assms j(2) unfolding sound_def publisher_ok_def by auto
  moreover have "in_step (p\<lparr>ep_journal := j\<rparr>) = in_step p" by (simp add: in_step_def key_in_step_def clientView_def)
  ultimately have "sound strict enc (p\<lparr>ep_journal := j\<rparr>)" using assms unfolding sound_def by blast
  then show ?thesis using j(1) by (simp add: recordProjectionPatchLocked_def)
qed

interpretation kept: delivery_invariant enc "sound strict enc"
proof
  show "core q = core p \<Longrightarrow> sound strict enc p \<Longrightarrow> sound strict enc q" for p q by (rule sound_same)
qed (rule sound_append sound_invalidate sound_patched sound_record; assumption)+

text \<open>Operations that leave it all alone.\<close>

lemma core_same [simp]:
  "core (sinkLocked conn p) = core p" "core (snd (registerConnectionLocked conn p)) = core p"
  "core (SetConnCapabilities conn v2 scalar epoch p) = core p" "core (SetConnProjectionDeliveryMode conn b s mode p) = core p"
  "core (clearConnWindowTurnsLocked conn b s p) = core p" "core (recordConnWindowTurnsLocked conn b s ids p) = core p"
  "core (p\<lparr>ep_closed := y\<rparr>) = core p" "core (p\<lparr>ep_invalidated := x\<rparr>) = core p"
  by (auto simp: core_def registerConnectionLocked_def SetConnCapabilities_def SetConnProjectionDeliveryMode_def sinkOf_def fun_eq_iff Let_def)

lemma sinkOf_releases:
  "sinkOf (sinkReleases conn p) = (sinkOf p)(conn := (sinkOf p conn)\<lparr>eos_slots := eos_slots (sinkOf p conn) - 1\<rparr>)"
  by (auto simp: sinkReleases_def sinkOf_def newSink_def fun_eq_iff split: option.split)

lemma releases_fields [simp]:
  "ep_cuts (sinkReleases conn p) = ep_cuts p" "ep_fences (sinkReleases conn p) = ep_fences p" "ep_journal (sinkReleases conn p) = ep_journal p"
  by (simp_all add: sinkReleases_def split: option.split)

lemma sound_releases:
  assumes "sound strict enc p"
  shows "sound strict enc (sinkReleases conn p)"
proof -
  have "publisher_ok enc (sinkReleases conn p)" using assms
    unfolding sound_def publisher_ok_def releases_fields sinkOf_releases
    by (auto intro: le_trans [OF diff_le_self])
  moreover have "clientView (sinkReleases conn p) = clientView p" by (auto simp: clientView_def sinkOf_releases fun_eq_iff)
  then have "in_step (sinkReleases conn p) = in_step p" by (simp add: in_step_def key_in_step_def)
  ultimately show ?thesis using assms by (simp add: sound_def)
qed

lemma sinkOf_unregister: "sinkOf (UnregisterConnection conn p) = (sinkOf p)(conn := newSink)"
  by (auto simp: UnregisterConnection_def sinkOf_def fun_eq_iff)

lemma sound_unregister:
  assumes p: "sound strict enc p"
  shows "sound strict enc (UnregisterConnection conn p)"
proof -
  let ?q = "UnregisterConnection conn p"
  have f: "ep_fences ?q = (\<lambda>key. if fst key = conn then None else ep_fences p key)" "ep_journal ?q = ep_journal p"
      "ep_cuts ?q = (\<lambda>key. if fst key = conn then 0 else ep_cuts p key)"
    by (simp_all add: UnregisterConnection_def)
  have "publisher_ok enc ?q" using p unfolding sound_def publisher_ok_def f sinkOf_unregister
    by (auto simp: newSink_def split: if_splits)
  moreover have "key_in_step ?q key" if "in_step p" for key
  proof (cases "fst key = conn")
    case True
    then have "clientView ?q key = Unsynced" by (simp add: clientView_def sinkOf_unregister newSink_def)
    then show ?thesis using True by (simp add: key_in_step_def f)
  next
    case False
    then have "clientView ?q key = clientView p key" by (simp add: clientView_def sinkOf_unregister)
    then show ?thesis using False in_stepD [OF that, of key] by (simp add: key_in_step_def f)
  qed
  ultimately show ?thesis using p in_stepI [of ?q] unfolding sound_def by blast
qed

text \<open>Beginning a pull.\<close>

lemma sinkOf_next [simp]: "sinkOf (p\<lparr>ep_nextProjectionFenceID := n\<rparr>) = sinkOf p"
  by (simp add: sinkOf_def fun_eq_iff)

lemma begin_cases:
  obtains (refused) e where "beginProjectionSnapshotLocked conn b s snapshot p = (Inl e, p)"
  | (begun) projection admission q fence where "snapshot = Some projection"
      "beginProjectionSnapshotLocked conn b s snapshot p = (Inr (projection, admission), q)"
      "core q = core (p\<lparr>ep_fences := (ep_fences p)((conn, b, s) \<mapsto> fence)\<rparr>)"
      "psa_CutRev admission = sp_SyncRev projection" "psf_cutRev fence = sp_SyncRev projection" "\<And>enc. fence_ok enc fence"
      "psf_id fence = psa_fenceID admission" "psf_generation fence = psa_ConnectionGeneration admission"
      "psf_pending fence = []" "\<not> psf_invalidated fence" "psa_BackendID admission = b" "psa_SessionID admission = s"
proof (cases "ep_fences p (conn, b, s) \<noteq> None \<or> snapshot = None")
  case True
  then have "\<exists>e. beginProjectionSnapshotLocked conn b s snapshot p = (Inl e, p)"
    by (auto simp: beginProjectionSnapshotLocked_def Let_def)
  then show ?thesis using that(1) by blast
next
  case False
  then obtain projection where snapshot: "snapshot = Some projection" by blast
  let ?p = "sinkLocked conn (snd (registerConnectionLocked conn p))" and ?key = "(conn, b, s)" and ?c = "sp_SyncRev projection"
  let ?fence = "\<lparr>psf_id = ep_nextProjectionFenceID ?p + 1, psf_generation = fst (registerConnectionLocked conn p), psf_cutRev = ?c,
      psf_expectedRev = ?c, psf_pending = [], psf_pendingBytes = 0, psf_invalidated = False\<rparr>"
  let ?q = "?p\<lparr>ep_nextProjectionFenceID := ep_nextProjectionFenceID ?p + 1, ep_fences := (ep_fences ?p)(?key \<mapsto> ?fence),
      ep_invalidated := ep_invalidated ?p - {?key}\<rparr>"
  have core: "core ?p = core p" by simp
  show ?thesis
  proof (rule that(2) [where projection = projection and q = ?q and fence = ?fence])
    show "beginProjectionSnapshotLocked conn b s snapshot p = (Inr (projection, \<lparr>psa_BridgeEpoch = ep_bridgeEpoch ?p,
        psa_ConnectionGeneration = fst (registerConnectionLocked conn p), psa_BackendID = b, psa_SessionID = s, psa_CutRev = ?c,
        psa_fenceID = ep_nextProjectionFenceID ?p + 1\<rparr>), ?q)"
      using False by (simp add: snapshot beginProjectionSnapshotLocked_def Let_def prod.case_eq_if)
    show "core ?q = core (p\<lparr>ep_fences := (ep_fences p)(?key \<mapsto> ?fence)\<rparr>)"
      using core unfolding core_def by simp
    show "fence_ok enc ?fence" for enc by (simp add: fence_ok_def projectionFenceMaxBytes_def)
  qed (simp_all add: snapshot)
qed

lemma sound_begin:
  assumes p: "sound strict enc p" and rev: "\<And>projection. strict \<Longrightarrow> snapshot = Some projection \<Longrightarrow> 0 < sp_SyncRev projection"
  shows "sound strict enc (snd (beginProjectionSnapshotLocked conn b s snapshot p))"
proof (cases rule: begin_cases [of conn b s snapshot p])
  case refused
  then show ?thesis using p by simp
next
  case (begun projection admission q fence)
  then show ?thesis using sound_same [OF begun(3)] sound_fence [OF p, of "Some fence" "(conn, b, s)"] rev by simp
qed

text \<open>Completing one.\<close>

lemma resolve_revs [simp]:
  "pp_BaseRev (resolvePending idOf conn b s p frame) = pp_BaseRev (pfp_patch frame)"
  "pp_SyncRev (resolvePending idOf conn b s p frame) = pp_SyncRev (pfp_patch frame)"
  by (simp_all add: resolvePending_def Let_def)

lemma view_chain:
  "chain c (map pfp_patch frames) e \<Longrightarrow>
   foldl (clientSees key) (At c) (map (\<lambda>frame. PatchFrame key (resolvePending idOf conn b s p frame)) frames) = At e"
  by (induction frames arbitrary: c) auto

lemma deliver_cases:
  fixes conn :: nat and b s :: string
  defines "key \<equiv> (conn, b, s)"
  obtains (full) q where "deliverCompletion idOf conn b s requestID failed fence p = (Inl QueueFull, q)"
      "core q = core (p\<lparr>ep_fences := (ep_fences p)(key := None)\<rparr>)" "conn \<in> ep_closed q"
  | (invalidated) q where "deliverCompletion idOf conn b s requestID failed fence p = (Inr (), q)"
      "psf_invalidated fence" "eos_slots (sinkOf p conn) + 2 \<le> eventOutboundQueueCapacity"
      "core q = core ((pushFrames conn [ResultFrame key requestID (\<not> failed) (psf_cutRev fence), InvalidateFrame key] p)
          \<lparr>ep_fences := (ep_fences p)(key := None)\<rparr>)"
  | (completed) q where "deliverCompletion idOf conn b s requestID failed fence p = (Inr (), q)"
      "\<not> psf_invalidated fence" "eos_slots (sinkOf p conn) + Suc (length (psf_pending fence)) \<le> eventOutboundQueueCapacity"
      "core q = core ((pushFrames conn (ResultFrame key requestID (\<not> failed) (psf_cutRev fence) #
            map (\<lambda>frame. PatchFrame key (resolvePending idOf conn b s p frame)) (psf_pending fence)) p)
          \<lparr>ep_fences := (ep_fences p)(key := None), ep_cuts := (ep_cuts p)(key := psf_expectedRev fence)\<rparr>)"
proof (cases "eventOutboundQueueCapacity - eos_slots (sinkOf p conn) < (if psf_invalidated fence then 2 else Suc (length (psf_pending fence)))")
  case True
  show ?thesis
    by (rule that(1)) (use True in \<open>auto simp: deliverCompletion_def key_def core_def Let_def split: if_splits\<close>)
next
  case room: False
  show ?thesis
  proof (cases "psf_invalidated fence")
    case True
    show ?thesis
      by (rule that(2)) (use True room in \<open>auto simp: deliverCompletion_def key_def core_def Let_def split: if_splits\<close>)
  next
    case False
    show ?thesis
      by (rule that(3)) (use False room in \<open>auto simp: deliverCompletion_def key_def core_def Let_def split: if_splits\<close>)
  qed
qed

lemma completion_cases:
  obtains (refused) e q where "completeProjectionSnapshot idOf conn admission requestID held failed p = (Inl e, q)"
      "core q = core p" "requestID = [] \<or> conn \<in> ep_closed q"
  | (answered) fence p1 where
      "completeProjectionSnapshot idOf conn admission requestID held failed p =
         deliverCompletion idOf conn (psa_BackendID admission) (psa_SessionID admission) requestID failed fence p1"
      "ep_fences p (conn, psa_BackendID admission, psa_SessionID admission) = Some fence"
      "psf_id fence = psa_fenceID admission" "core p1 = core p"
proof (cases "requestID = []")
  case True
  then show ?thesis using that(1) [of IdentityRequired p] by (simp add: completeProjectionSnapshot_def)
next
  case request: False
  let ?key = "(conn, psa_BackendID admission, psa_SessionID admission)"
  let ?stale = "\<lambda>fence. psf_id fence \<noteq> psa_fenceID admission \<or> psf_generation fence \<noteq> psa_ConnectionGeneration admission
    \<or> ep_connectionGenerations p conn \<noteq> psa_ConnectionGeneration admission \<or> psa_BridgeEpoch admission \<noteq> ep_bridgeEpoch p"
  show ?thesis
  proof (cases "\<exists>fence. ep_fences p ?key = Some fence \<and> \<not> ?stale fence")
    case False
    then have "completeProjectionSnapshot idOf conn admission requestID held failed p
        = (Inl GenerationChanged, p\<lparr>ep_closed := insert conn (ep_closed p)\<rparr>)"
      using request unfolding completeProjectionSnapshot_def Let_def by (auto split: option.split)
    then show ?thesis by (rule that(1)) simp_all
  next
    case True
    then obtain fence where fence: "ep_fences p ?key = Some fence" "\<not> ?stale fence" by blast
    show ?thesis
    proof (rule that(2) [OF _ fence(1)])
      show "completeProjectionSnapshot idOf conn admission requestID held failed p =
          deliverCompletion idOf conn (psa_BackendID admission) (psa_SessionID admission) requestID failed fence
            (if held \<noteq> [] \<and> \<not> psf_invalidated fence
             then recordConnWindowTurnsLocked conn (psa_BackendID admission) (psa_SessionID admission) held p else p)"
        using request fence unfolding completeProjectionSnapshot_def Let_def by simp
    qed (use fence(2) in simp_all)
  qed
qed

lemma fence_in_step:
  "in_step p \<Longrightarrow> ep_fences p key = Some fence \<Longrightarrow> 0 < psf_cutRev fence"
  using in_stepD [of p key] by (simp add: key_in_step_def)

lemma sound_deliverCompletion:
  assumes p: "sound strict enc p" and fence: "ep_fences p (conn, b, s) = Some fence" and succeeded: "strict \<Longrightarrow> \<not> failed"
  shows "sound strict enc (snd (deliverCompletion idOf conn b s requestID failed fence p))"
proof (cases rule: deliver_cases [of idOf conn b s requestID failed fence p])
  case (full q)
  then show ?thesis using sound_same [OF full(2)] sound_fence [OF p, of None] by simp
next
  case (invalidated q)
  let ?key = "(conn, b, s)"
  let ?p = "pushFrames conn [ResultFrame ?key requestID (\<not> failed) (psf_cutRev fence), InvalidateFrame ?key] p"
  have view: "clientView ?p k = (if k = ?key \<and> clientView p k \<noteq> Broken then Unsynced else clientView p k)" for k
    by (cases "clientView p k") (auto simp: view_push)
  have "publisher_ok enc ?p" using publisher_ok_push [of enc p conn] p invalidated(3) by (simp add: sound_def)
  moreover have "strict \<longrightarrow> in_step ?p" unfolding in_step_def
    using p in_stepD [of p] by (auto simp: sound_def key_in_step_def view)
  ultimately have "sound strict enc ?p" by (simp add: sound_def)
  from sound_fence [OF this, of None ?key] show ?thesis using sound_same [OF invalidated(4)] by (simp add: invalidated(1))
next
  case (completed q)
  let ?key = "(conn, b, s)"
  let ?frames = "ResultFrame ?key requestID (\<not> failed) (psf_cutRev fence) #
    map (\<lambda>frame. PatchFrame ?key (resolvePending idOf conn b s p frame)) (psf_pending fence)"
  let ?p = "(pushFrames conn ?frames p)\<lparr>ep_fences := (ep_fences p)(?key := None), ep_cuts := (ep_cuts p)(?key := psf_expectedRev fence)\<rparr>"
  have ok: "publisher_ok enc p" using p by (simp add: sound_def)
  then have chain: "chain (psf_cutRev fence) (map pfp_patch (psf_pending fence)) (psf_expectedRev fence)"
    using fence completed(2) by (auto simp: publisher_ok_def fence_ok_def)
  have "publisher_ok enc (pushFrames conn ?frames p)" using publisher_ok_push [OF ok] completed(3) by simp
  from publisher_ok_fence [OF this, of None ?key] have "publisher_ok enc ?p" by simp
  moreover have "key_in_step ?p k" if strict and "in_step p" for k
  proof (cases "k = ?key")
    case True
    have "clientView p ?key \<noteq> Broken" using in_stepD [OF that(2), of ?key] by (simp add: key_in_step_def)
    then have "clientView ?p k = At (psf_expectedRev fence)"
      using succeeded [OF that(1)] view_chain [OF chain] unfolding True
      by (cases "clientView p ?key") (simp_all add: clientView_def)
    then show ?thesis using fence_in_step [OF that(2) fence] chain_mono [OF chain] True by (simp add: key_in_step_def)
  next
    case False
    then have "clientView ?p k = clientView p k"
      using clientSees_others [of ?frames k] by (simp add: clientView_def)
    then show ?thesis using False in_stepD [OF that(2), of k] by (simp add: key_in_step_def)
  qed
  then have "strict \<longrightarrow> in_step ?p" using p in_stepI [of ?p] unfolding sound_def by blast
  ultimately have "sound strict enc ?p" by (simp add: sound_def)
  then show ?thesis using sound_same [OF completed(4)] by (simp add: completed(1))
qed

lemma sound_complete:
  assumes p: "sound strict enc p" and "strict \<Longrightarrow> \<not> failed"
  shows "sound strict enc (snd (completeProjectionSnapshot idOf conn admission requestID held failed p))"
proof (cases rule: completion_cases [of idOf conn admission requestID held failed p])
  case (refused e q)
  then show ?thesis using sound_same [OF refused(2) p] by simp
next
  case (answered fence p1)
  have "ep_fences p1 = ep_fences p" using answered(4) by (simp add: core_def)
  then show ?thesis
    using sound_deliverCompletion [OF sound_same [OF answered(4) p]] answered(1,2) assms(2) by simp
qed

text \<open>
  The pulls that keep a client in step: the snapshot is not at revision 0, which the cut of a connection
  uses for "no snapshot yet", and the pull ends with data rather than an error.
\<close>

fun pullSucceeds :: "PublisherOp \<Rightarrow> bool" where
  "pullSucceeds (PBegin conn b s snapshot) = (case snapshot of None \<Rightarrow> True | Some projection \<Rightarrow> 0 < sp_SyncRev projection)"
| "pullSucceeds (PBeginResume now conn b s sinceRev snapshot) = (case snapshot of None \<Rightarrow> True | Some projection \<Rightarrow> 0 < sp_SyncRev projection)"
| "pullSucceeds (PComplete conn admission requestID held failed) = (\<not> failed)"
| "pullSucceeds _ = True"

lemma sound_journal:
  assumes p: "sound strict enc p" and j: "journal_ok (j, submitted)"
  shows "sound strict enc (p\<lparr>ep_journal := j\<rparr>)"
proof -
  have "publisher_ok enc (p\<lparr>ep_journal := j\<rparr>)" using p j unfolding sound_def publisher_ok_def by auto
  moreover have "in_step (p\<lparr>ep_journal := j\<rparr>) = in_step p" by (simp add: in_step_def key_in_step_def clientView_def)
  ultimately show ?thesis using p unfolding sound_def by blast
qed

text \<open>The range served with a pull leads from the client's revision to the cut of the pull's fence.\<close>

lemma resume_cases:
  assumes p: "publisher_ok enc p"
  obtains (refused) e where "BeginProjectionSnapshotWithResume now conn b s sinceRev snapshot p = Some (Inl e, p)"
  | (begun) projection admission selection q j submitted where
      "BeginProjectionSnapshotWithResume now conn b s sinceRev snapshot p = Some (Inr (projection, admission, selection), q\<lparr>ep_journal := j\<rparr>)"
      "beginProjectionSnapshotLocked conn b s snapshot p = (Inr (projection, admission), q)" "journal_ok (j, submitted)"
      "if prs_Available selection then chain sinceRev (prs_Patches selection) (psa_CutRev admission) \<and> prs_Patches selection \<noteq> []
       else prs_Patches selection = []"
      "\<not> (prs_Available selection \<and> prs_EpochChanged selection)"
proof (cases "b = [] \<or> s = []")
  case True
  then show ?thesis using that(1) [of IdentityRequired] by (simp add: BeginProjectionSnapshotWithResume_def)
next
  case identity: False
  show ?thesis
  proof (cases rule: begin_cases [of conn b s snapshot p])
    case (refused e)
    then show ?thesis using that(1) identity by (simp add: BeginProjectionSnapshotWithResume_def)
  next
    case (begun projection admission q fence)
    have journal: "ep_journal q = ep_journal p" using begun(3) by (simp add: core_def)
    obtain submitted where ok: "journal_ok (ep_journal p, submitted)" using p by (auto simp: publisher_ok_def)
    obtain r j where range: "ContiguousRangeAt b s sinceRev (psa_CutRev admission) now (ep_journal p) = Some (r, j)" "journal_ok (j, submitted)"
      using journal_range [OF ok] by blast
    show ?thesis
    proof (cases "conn \<in> ep_epochMismatch q")
      case True
      have "q\<lparr>ep_journal := ep_journal p\<rparr> = q" using journal by simp
      then show ?thesis using that(2) [OF _ begun(2) ok] True identity begun(2)
        by (simp add: BeginProjectionSnapshotWithResume_def)
    next
      case False
      have "chain sinceRev patches (psa_CutRev admission) \<and> patches \<noteq> []" if "r = Inr patches" for patches
        using range_sound [OF ok] range(1) that by blast
      then show ?thesis using that(2) [OF _ begun(2) range(2)] False identity begun(2) range(1) journal
        by (cases r) (simp_all add: BeginProjectionSnapshotWithResume_def)
    qed
  qed
qed

lemma sound_resume:
  assumes p: "sound strict enc p" and rev: "\<And>projection. strict \<Longrightarrow> snapshot = Some projection \<Longrightarrow> 0 < sp_SyncRev projection"
  shows "\<exists>q. map_option snd (BeginProjectionSnapshotWithResume now conn b s sinceRev snapshot p) = Some q \<and> sound strict enc q"
proof -
  have ok: "publisher_ok enc p" using p by (simp add: sound_def)
  show ?thesis
  proof (rule resume_cases [OF ok, of now conn b s sinceRev snapshot])
    fix e assume "BeginProjectionSnapshotWithResume now conn b s sinceRev snapshot p = Some (Inl e, p)"
    then show ?thesis using p by simp
  next
    fix projection admission selection q j submitted
    assume begun: "BeginProjectionSnapshotWithResume now conn b s sinceRev snapshot p = Some (Inr (projection, admission, selection), q\<lparr>ep_journal := j\<rparr>)"
        "beginProjectionSnapshotLocked conn b s snapshot p = (Inr (projection, admission), q)" "journal_ok (j, submitted)"
    have "sound strict enc q" using sound_begin [OF p, of snapshot conn b s] rev begun(2) by simp
    then show ?thesis using begun(1) sound_journal [OF _ begun(3)] by simp
  qed
qed

lemma sound_step:
  assumes p: "sound strict enc p" and ok: "strict \<Longrightarrow> pullSucceeds x"
  shows "\<exists>q. publisherStep enc idOf p x = Some q \<and> sound strict enc q"
proof (cases x)
  case (PHello conn syncV2 scalar epoch)
  then show ?thesis using sound_same [OF _ p] by simp
next
  case (PRegister conn)
  then show ?thesis using sound_same [OF _ p, of "sinkLocked conn (snd (registerConnectionLocked conn p))"] by simp
next
  case (PSetMode conn b s mode)
  then show ?thesis using sound_same [OF _ p] by simp
next
  case (PBegin conn b s snapshot)
  have "sound strict enc (snd (beginProjectionSnapshotLocked conn b s snapshot p))"
    by (rule sound_begin [OF p]) (use ok in \<open>simp add: PBegin\<close>)
  then show ?thesis using p unfolding PBegin by (simp add: BeginProjectionSnapshot_def)
next
  case (PBeginResume now conn b s sinceRev snapshot)
  have "\<exists>q. map_option snd (BeginProjectionSnapshotWithResume now conn b s sinceRev snapshot p) = Some q \<and> sound strict enc q"
    by (rule sound_resume [OF p]) (use ok in \<open>simp add: PBeginResume\<close>)
  then show ?thesis by (simp add: PBeginResume)
next
  case (PComplete conn admission requestID held failed)
  then show ?thesis using sound_complete [OF p] ok by simp
next
  case (PPublish observed targets now b s patch)
  then show ?thesis using kept.publish [OF p] by simp
next
  case (PPrepend targets b s syncRev requester)
  then show ?thesis using kept.prepend [OF p] by simp
next
  case (PDetail observed targets now b s patches requester)
  then show ?thesis using kept.detail [OF p] by simp
next
  case (PRelease conn)
  then show ?thesis using sound_releases [OF p] by simp
next
  case (PDeliveryFailed conn b s)
  then show ?thesis using sound_same [OF _ p] by simp
next
  case (PClose conn)
  then show ?thesis using sound_same [OF _ p] by simp
next
  case (PUnregister conn)
  then show ?thesis using sound_unregister [OF p] by simp
qed

interpretation pb: looping_machine "publisherStep enc idOf" "sound False enc"
  by unfold_locales (rule sound_step, simp_all)

lemma sound_new: "sound strict enc (NewEventPublisher epoch)"
  unfolding sound_def publisher_ok_def in_step_def key_in_step_def
  using journal_ok_new [of 0 0 None] by (auto simp: NewEventPublisher_def sinkOf_def newSink_def clientView_def)

lemma run_sound:
  "sound True enc p \<Longrightarrow> list_all pullSucceeds ops \<Longrightarrow> \<exists>q. runM (publisherStep enc idOf) p ops = Some q \<and> sound True enc q"
proof (induction ops arbitrary: p)
  case (Cons x ops)
  then obtain q where "publisherStep enc idOf p x = Some q" "sound True enc q" using sound_step [of True enc p x idOf] by auto
  then show ?case using Cons.IH Cons.prems(2) by simp
qed simp

section \<open>Concrete runs\<close>

definition snapAt :: "int \<Rightarrow> SessionProjection" where
  "snapAt r0 = \<lparr>sp_SyncRev = r0, sp_Turns = [], sp_Scalars = 0\<rparr>"

definition admissionAt :: "int \<Rightarrow> u64 \<Rightarrow> ProjectionSnapshotAdmission" where
  "admissionAt r0 fenceID = \<lparr>psa_BridgeEpoch = ''e'', psa_ConnectionGeneration = 1, psa_BackendID = ''codex'',
     psa_SessionID = ''s'', psa_CutRev = r0, psa_fenceID = fenceID\<rparr>"

abbreviation demoKey :: projectionFenceKey where
  "demoKey \<equiv> (7, ''codex'', ''s'')"

definition demoOpening :: "int \<Rightarrow> PublisherOp list" where
  "demoOpening r0 =
     [PHello 7 True False [], PSetMode 7 ''codex'' ''s'' ProjectionDeliveryWindow, PBegin 7 ''codex'' ''s'' (Some (snapAt r0)),
      PComplete 7 (admissionAt r0 1) ''r'' [] False]"

definition demoOpened :: "int \<Rightarrow> EventPublisher" where
  "demoOpened r0 = (NewEventPublisher ''e'')
     \<lparr>ep_sinks := [7 \<mapsto> \<lparr>eos_log = [ResultFrame demoKey ''r'' True r0], eos_slots = 1\<rparr>], ep_syncV2 := {7},
      ep_nextConnectionGeneration := 1, ep_connectionGenerations := (\<lambda>_. 0)(7 := 1), ep_nextProjectionFenceID := 1,
      ep_cuts := (\<lambda>_. 0)(demoKey := r0),
      ep_modes := (\<lambda>_ _. None)(7 := [''codex|s'' \<mapsto> ProjectionDeliveryWindow])\<rparr>"

lemmas publisher_defs = NewEventPublisher_def sinkOf_def sinkLocked_def pushFrames_def newSink_def tryEnqueue_def
  eventOutboundQueueCapacity_def BeginProjectionSnapshot_def beginProjectionSnapshotLocked_def registerConnectionLocked_def
  completeProjectionSnapshot_def deliverCompletion_def recordConnWindowTurnsLocked_def SetConnCapabilities_def mark_def
  SetConnProjectionDeliveryMode_def projectionDeliveryKey_def snapAt_def admissionAt_def

lemma demo_opening: "runM (publisherStep enc idOf) (NewEventPublisher ''e'') (demoOpening r0) = Some (demoOpened r0)"
  by (simp add: demoOpening_def demoOpened_def publisher_defs Let_def fun_eq_iff)

lemma demo_record:
  "Journal_Record demoPatchLen 50 ''codex'' ''s'' (demoPatch n) (NewProjectionRevisionJournal 0 0 None)
     = Some (True, demoJournal [demoEntry n] 300)"
  unfolding Journal_Record_def demo_clone Let_def
  by (simp add: recordSlot_def purgeExpired_def while_option_unfold over_limit_def Let_def demo_journal_defs)

lemma demo_journal: "ep_journal (demoOpened r0) = NewProjectionRevisionJournal 0 0 None"
  by (simp add: demoOpened_def NewEventPublisher_def)

lemmas delivery_defs = PublishProjectionPatch_def recordProjectionPatchLocked_def deliverProjectionPatchLocked_def deliverToTarget_def
  PublishProjectionPrepend_def prependToTarget_def deliverSingleConnPatchLocked_def connDeliveryModeLocked_def chainBase_def noOpPatch_def

text \<open>A patch published to the client of the opened session, then a prepend.\<close>

lemma demo_zero:
  "map_option (\<lambda>p. (clientView p demoKey, eos_log (sinkOf p 7)))
     (runM (publisherStep demoPatchLen idOf) (NewEventPublisher ''e'')
        (demoOpening 0 @ [PPrepend [7] ''codex'' ''s'' 1 None, PPublish (\<lambda>_. True) [7] 50 ''codex'' ''s'' (demoPatch 1)]))
   = Some (Broken, [ResultFrame demoKey ''r'' True 0, PatchFrame demoKey (demoPatch 1)])"
proof -
  have prepend: "PublishProjectionPrepend demoPatchLen [7] ''codex'' ''s'' 1 None (demoOpened 0) = demoOpened 0"
    by (simp add: delivery_defs demoOpened_def publisher_defs Let_def)
  show ?thesis
    unfolding runM_append demo_opening
    by (simp add: prepend PublishProjectionPatch_def recordProjectionPatchLocked_def demo_journal demo_record del: map_option_eq_Some)
      (simp add: delivery_defs demoOpened_def publisher_defs Let_def clientView_def demoPatch_def)
qed

lemma demo_revs: "pp_BaseRev (demoPatch n) = n" "pp_SyncRev (demoPatch n) = n + 1"
  by (simp_all add: demoPatch_def)

text \<open>A client that missed revision 6 and whose next pull fails.\<close>

lemma demo_failed:
  "map_option (\<lambda>p. (clientView p demoKey, eos_log (sinkOf p 7)))
     (runM (publisherStep demoPatchLen idOf) (NewEventPublisher ''e'')
        (demoOpening 5 @ [PPublish (\<lambda>_. False) [7] 50 ''codex'' ''s'' (demoPatch 5), PBegin 7 ''codex'' ''s'' (Some (snapAt 6)),
           PComplete 7 (admissionAt 6 2) ''q'' [] True, PPublish (\<lambda>_. True) [7] 50 ''codex'' ''s'' (demoPatch 6)]))
   = Some (Broken, [ResultFrame demoKey ''r'' True 5, ResultFrame demoKey ''q'' False 6, PatchFrame demoKey (demoPatch 6)])"
  unfolding runM_append demo_opening
  by (simp add: PublishProjectionPatch_def recordProjectionPatchLocked_def demo_journal demo_record demo_record_2 del: map_option_eq_Some)
    (simp add: delivery_defs demoOpened_def publisher_defs Let_def clientView_def demo_revs demo_record_2 del: map_option_eq_Some)

lemma demo_skipped:
  "map_option (\<lambda>p. (clientView p demoKey, eos_log (sinkOf p 7)))
     (runM (publisherStep demoPatchLen idOf) (NewEventPublisher ''e'')
        (demoOpening 5 @ [PPublish (\<lambda>_. False) [7] 50 ''codex'' ''s'' (demoPatch 5), PPrepend [7] ''codex'' ''s'' 7 None]))
   = Some (At 7, [ResultFrame demoKey ''r'' True 5, PatchFrame demoKey (noOpPatch 5 7)])"
  unfolding runM_append demo_opening
  by (simp add: PublishProjectionPatch_def recordProjectionPatchLocked_def demo_journal demo_record del: map_option_eq_Some)
    (simp add: delivery_defs demoOpened_def publisher_defs Let_def clientView_def demoPatch_def)

lemma demo_followed:
  "map_option (\<lambda>p. (clientView p demoKey, eos_log (sinkOf p 7)))
     (runM (publisherStep demoPatchLen idOf) (NewEventPublisher ''e'')
        (demoOpening 5 @ [PPublish (\<lambda>_. True) [7] 50 ''codex'' ''s'' (demoPatch 5)]))
   = Some (At 6, [ResultFrame demoKey ''r'' True 5, PatchFrame demoKey (demoPatch 5)])"
  unfolding runM_append demo_opening
  by (simp add: PublishProjectionPatch_def recordProjectionPatchLocked_def demo_journal demo_record del: map_option_eq_Some)
    (simp add: delivery_defs demoOpened_def publisher_defs Let_def clientView_def demoPatch_def)

lemma chain_revs:
  "map pp_BaseRev qs = map pp_BaseRev ps \<Longrightarrow> map pp_SyncRev qs = map pp_SyncRev ps \<Longrightarrow> chain a ps b \<Longrightarrow> chain a qs b"
  by (induction ps arbitrary: a qs) (auto simp: Cons_eq_map_conv map_eq_Cons_conv)

lemma completion_effect:
  assumes p: "publisher_ok enc p"
  shows "case completeProjectionSnapshot idOf conn admission requestID held failed p of
        (Inl e, q) \<Rightarrow> eos_log (sinkOf q conn) = eos_log (sinkOf p conn) \<and> (requestID = [] \<or> conn \<in> ep_closed q)
      | (Inr _, q) \<Rightarrow>
          (let key = (conn, psa_BackendID admission, psa_SessionID admission)
           in ep_fences q key = None
              \<and> (\<exists>c tail. eos_log (sinkOf q conn) = eos_log (sinkOf p conn) @ ResultFrame key requestID (\<not> failed) c # tail
                   \<and> (tail = [InvalidateFrame key] \<or> (\<exists>patches. tail = map (PatchFrame key) patches \<and> chain c patches (ep_cuts q key)))))"
proof (cases rule: completion_cases [of idOf conn admission requestID held failed p])
  case (refused e q)
  then show ?thesis by (simp add: core_def)
next
  case (answered fence p1)
  let ?b = "psa_BackendID admission" and ?s = "psa_SessionID admission"
  have p1: "sinkOf p1 = sinkOf p" "ep_fences p1 = ep_fences p" using answered(4) by (simp_all add: core_def)
  have ok: "fence_ok enc fence" using p answered(2) unfolding publisher_ok_def by blast
  show ?thesis
  proof (cases rule: deliver_cases [of idOf conn ?b ?s requestID failed fence p1])
    case (full q)
    then show ?thesis using answered(1) p1 by (simp add: core_def)
  next
    case (invalidated q)
    then show ?thesis using answered(1) p1 by (simp add: core_def Let_def)
  next
    case (completed q)
    let ?patches = "map (resolvePending idOf conn ?b ?s p1) (psf_pending fence)"
    have "chain (psf_cutRev fence) ?patches (psf_expectedRev fence)"
      using ok completed(2) chain_revs [of ?patches "map pfp_patch (psf_pending fence)"] by (simp add: fence_ok_def comp_def)
    then have "\<exists>patches. map (\<lambda>frame. PatchFrame (conn, ?b, ?s) (resolvePending idOf conn ?b ?s p1 frame)) (psf_pending fence)
        = map (PatchFrame (conn, ?b, ?s)) patches \<and> chain (psf_cutRev fence) patches (psf_expectedRev fence)"
      by (intro exI [of _ ?patches]) simp
    then show ?thesis using answered(1) p1 completed(1,4) by (simp add: core_def Let_def)
  qed
qed

section \<open>Properties\<close>

text \<open>
  C8: a client is never out of step unnoticed.  Take any run of the publisher, in which any number of
  connections pull, resume, receive patches, prepends and details, overflow, are invalidated, closed and
  registered again.  If its pulls end with data and no snapshot is at revision 0, then the run returns, and for
  every connection and session the frames in the sink never apply a patch to a revision it was not made
  for; a client that is in sync is exactly at the cut the publisher keeps for it.
\<close>

theorem client_never_sees_gap:
  assumes "list_all pullSucceeds ops"
  shows "case runM (publisherStep enc idOf) (NewEventPublisher epoch) ops of
      None \<Rightarrow> False
    | Some p \<Rightarrow> clientView p key \<noteq> Broken \<and> (case clientView p key of At r \<Rightarrow> ep_cuts p key = r | _ \<Rightarrow> True)"
proof -
  obtain p where "runM (publisherStep enc idOf) (NewEventPublisher epoch) ops = Some p" "sound True enc p"
    using run_sound [OF sound_new assms] by blast
  then show ?thesis using in_stepD [of p key]
    by (auto simp: sound_def key_in_step_def split: clientRev.split)
qed

theorem client_never_sees_gap_witness:
  "case runM (publisherStep demoPatchLen (\<lambda>t. t)) (NewEventPublisher ''e'')
      (demoOpening 5 @ [PPublish (\<lambda>_. True) [7] 50 ''codex'' ''s'' (demoPatch 5)]) of
      None \<Rightarrow> False
    | Some p \<Rightarrow> clientView p demoKey = At 6 \<and> ep_cuts p demoKey = 6"
proof -
  have "list_all pullSucceeds (demoOpening 5 @ [PPublish (\<lambda>_. True) [7] 50 ''codex'' ''s'' (demoPatch 5)])"
    by (simp add: demoOpening_def snapAt_def)
  from client_never_sees_gap [OF this, where enc = demoPatchLen and idOf = "\<lambda>t. t" and epoch = "''e''" and key = demoKey] show ?thesis
    using demo_followed [of "\<lambda>t. t"] by (auto split: option.splits)
qed

text \<open>
  C34: every operation of the publisher returns, whatever the order of the calls, and leaves it well formed:
  an invalidated fence holds no patch, the patches of any other fence lead from its cut to the revision it
  expects, a fence holds at most 128 patches and 2 MiB and its byte counter is the sum of their lengths,
  and no sink holds more than 2048 slots.
\<close>

theorem delivery_wellformed:
  "case runM (publisherStep enc idOf) (NewEventPublisher epoch) ops of
     None \<Rightarrow> False
   | Some p \<Rightarrow> (case ep_fences p key of None \<Rightarrow> True | Some fence \<Rightarrow>
         (if psf_invalidated fence then psf_pending fence = []
          else chain (psf_cutRev fence) (map pfp_patch (psf_pending fence)) (psf_expectedRev fence))
         \<and> psf_pendingBytes fence = (\<Sum>frame\<leftarrow>psf_pending fence. encodedLen enc (pfp_patch frame))
         \<and> psf_pendingBytes fence \<le> 2 * 1048576 \<and> length (psf_pending fence) \<le> 128)
       \<and> eos_slots (sinkOf p (fst key)) \<le> 2048"
proof -
  obtain p where p: "runM (publisherStep enc idOf) (NewEventPublisher epoch) ops = Some p" "sound False enc p"
    using pb.runM_returns [OF sound_new] by blast
  have "fence_ok enc fence" if "ep_fences p key = Some fence" for fence
    using that p(2) unfolding sound_def publisher_ok_def by blast
  then have "case ep_fences p key of None \<Rightarrow> True | Some fence \<Rightarrow> fence_ok enc fence" by (simp split: option.split)
  moreover have "eos_slots (sinkOf p (fst key)) \<le> eventOutboundQueueCapacity" using p(2) unfolding sound_def publisher_ok_def by blast
  ultimately show ?thesis
    unfolding p(1) option.case fence_ok_def projectionFenceMaxBytes_def projectionFenceMaxPatches_def eventOutboundQueueCapacity_def by blast
qed

text \<open>
  C11: a completed pull is answered exactly once, before everything committed after its snapshot.  After any
  run, completing a pull either puts the answer at its cut into the sink, directly followed by one
  invalidation or by patches that lead without a gap from that cut to the connection's new cut, and lifts the
  fence; or it puts nothing there and the connection is closed (or the request id was empty).
\<close>

theorem completion_atomic:
  "case runM (publisherStep enc idOf) (NewEventPublisher epoch) ops of
     None \<Rightarrow> False
   | Some p \<Rightarrow>
     (case completeProjectionSnapshot idOf conn admission requestID held failed p of
        (Inl e, q) \<Rightarrow> eos_log (sinkOf q conn) = eos_log (sinkOf p conn) \<and> (requestID = [] \<or> conn \<in> ep_closed q)
      | (Inr _, q) \<Rightarrow>
          (let key = (conn, psa_BackendID admission, psa_SessionID admission)
           in ep_fences q key = None
              \<and> (\<exists>c tail. eos_log (sinkOf q conn) = eos_log (sinkOf p conn) @ ResultFrame key requestID (\<not> failed) c # tail
                   \<and> (tail = [InvalidateFrame key] \<or> (\<exists>patches. tail = map (PatchFrame key) patches \<and> chain c patches (ep_cuts q key))))))"
proof -
  obtain p where p: "runM (publisherStep enc idOf) (NewEventPublisher epoch) ops = Some p" "sound False enc p"
    using pb.runM_returns [OF sound_new] by blast
  show ?thesis using completion_effect [where enc = enc and p = p] p by (simp add: sound_def)
qed


end
