(* ===== verification/Anchor_Newer.thy ===== *)
theory Anchor_Newer
  imports Projection_Window "HOL-Library.List_Lexorder" "HOL-Library.Char_ord"
begin

text \<open>
  Incremental reconciliation behind an anchor turn (\<^verbatim>\<open>go-bridge/projection_anchor_newer.go\<close>): the page
  of turns after the anchor, the refreshed anchor, the changed and the removed turns of the review set, the
  byte budget of a page and the cursor that continues it.

  The JSON text of a turn is the argument \<open>marshal\<close>, \<open>None\<close> when it cannot be encoded, and SHA-256 the
  argument \<open>sha\<close>.  A correction cursor is the value its text decodes to.  A Go map is an association list with
  distinct keys; the code sorts what it ranges over.
\<close>

section \<open>Data\<close>

definition anchorNewerTotalHardCapBytes :: int where "anchorNewerTotalHardCapBytes = 48 * 1048576"
definition anchorNewerMandatoryReserve :: int where "anchorNewerMandatoryReserve = 2 * 1048576"
definition anchorNewerNeverSplitQuota :: int where "anchorNewerNeverSplitQuota = 46 * 1048576"
definition anchorNewerPageBudget :: int where "anchorNewerPageBudget = 8 * 1048576"
definition anchorNewerDefaultTurns :: int where "anchorNewerDefaultTurns = 100"

lemmas anchor_budgets = anchorNewerTotalHardCapBytes_def anchorNewerMandatoryReserve_def
  anchorNewerNeverSplitQuota_def anchorNewerPageBudget_def

datatype anchorError = AnchorStale | AnchorOversized | AnchorCursor | AnchorEncode | AnchorHardCap

record anchorNewerCursorState =
  ans_V :: int
  ans_LastTurnID :: string
  ans_ChangedThrough :: string

datatype correctionCursor = NoCursor | BadCursor | Cursor anchorNewerCursorState

record AnchorNewerParams =
  anp_AnchorTurnID :: string
  anp_BaseDigests :: "(string \<times> string option) list"
  anp_Limit :: int
  anp_CorrectionCursor :: correctionCursor

record AnchorNewerResult =
  anr_Turns :: "TurnProjection list"
  anr_AnchorRefresh :: "TurnProjection option"
  anr_ChangedTurns :: "TurnProjection list"
  anr_RemovedTurnIDs :: "string list"
  anr_ScalarState :: nat
  anr_CorrectionsPending :: "(anchorNewerCursorState \<times> nat) option"
  anr_TurnTokens :: "(string \<times> string) list"
  anr_SyncRev :: int

section \<open>Cursors and tokens\<close>

definition decodeAnchorNewerCursor :: "correctionCursor \<Rightarrow> (anchorError, anchorNewerCursorState) result" where
  "decodeAnchorNewerCursor cursor =
     (case cursor of
        Cursor state \<Rightarrow> if ans_V state \<noteq> 1 then Inl AnchorCursor else Inr state
      | _ \<Rightarrow> Inl AnchorCursor)"

definition AnchorNewerTurnToken ::
  "(TurnProjection \<Rightarrow> string option) \<Rightarrow> (string \<Rightarrow> string) \<Rightarrow> TurnProjection \<Rightarrow> (anchorError, string) result" where
  "AnchorNewerTurnToken marshal sha turn =
     (case marshal turn of None \<Rightarrow> Inl AnchorEncode | Some raw \<Rightarrow> Inr (sha raw))"

text \<open>The tokens of a list of turns; in a Go map a later turn of the same id wins.\<close>

fun BuildAnchorNewerTurnTokens ::
  "(TurnProjection \<Rightarrow> string option) \<Rightarrow> (string \<Rightarrow> string) \<Rightarrow> TurnProjection list \<Rightarrow> (anchorError, (string \<times> string) list) result" where
  "BuildAnchorNewerTurnTokens marshal sha [] = Inr []"
| "BuildAnchorNewerTurnTokens marshal sha (turn # turns) =
     rbind (AnchorNewerTurnToken marshal sha turn) (\<lambda>token.
     rbind (BuildAnchorNewerTurnTokens marshal sha turns) (\<lambda>tokens. Inr ((tp_TurnID turn, token) # tokens)))"

definition tokenOf :: "(string \<times> string) list \<Rightarrow> string \<Rightarrow> string option" where
  "tokenOf tokens = map_of (rev tokens)"

section \<open>The review set\<close>

definition changedIDs ::
  "TurnProjection list \<Rightarrow> (string \<times> string) list \<Rightarrow> nat \<Rightarrow> bool \<Rightarrow> string \<Rightarrow> (string \<times> string option) list \<Rightarrow> string list" where
  "changedIDs turns tokens turnStart isFirstPage anchorID digests =
     sort (map fst (filter (\<lambda>(turnID, declared).
       case tokenOf tokens turnID of
         None \<Rightarrow> False
       | Some current \<Rightarrow>
           declared \<noteq> Some current
           \<and> \<not> (case indexOfTurn turns turnID of None \<Rightarrow> False | Some idx \<Rightarrow> idx \<ge> turnStart)
           \<and> \<not> (isFirstPage \<and> turnID = anchorID)) digests))"

definition removedIDs :: "(string \<times> string) list \<Rightarrow> (string \<times> string option) list \<Rightarrow> string list" where
  "removedIDs tokens digests = sort (map fst (filter (\<lambda>(turnID, declared). tokenOf tokens turnID = None) digests))"

section \<open>Filling a page\<close>

definition neverSplitFits :: "int \<Rightarrow> int \<Rightarrow> bool \<Rightarrow> bool" where
  "neverSplitFits anchorSize sz pageHasContent \<longleftrightarrow>
     \<not> pageHasContent \<and> sz \<le> anchorNewerNeverSplitQuota
     \<and> anchorSize + sz + anchorNewerMandatoryReserve \<le> anchorNewerTotalHardCapBytes"

fun fillTurns :: "int \<Rightarrow> int \<Rightarrow> int \<Rightarrow> nat \<Rightarrow> int \<Rightarrow> (TurnProjection \<times> nat) list \<Rightarrow> TurnProjection list \<times> int" where
  "fillTurns limit budget anchorSize onPage consumed [] = ([], consumed)"
| "fillTurns limit budget anchorSize onPage consumed ((turn, sz) # rest) =
     (if int onPage \<ge> limit then ([], consumed)
      else if consumed + int sz > budget \<and> \<not> neverSplitFits anchorSize (int sz) (onPage > 0) then ([], consumed)
      else let (turns, consumed') = fillTurns limit budget anchorSize (onPage + 1) (consumed + int sz) rest
           in (turn # turns, consumed'))"

fun fillChanged ::
  "TurnProjection list \<Rightarrow> nat list \<Rightarrow> int \<Rightarrow> int \<Rightarrow> bool \<Rightarrow> int \<Rightarrow> string list \<Rightarrow> (anchorError, TurnProjection list \<times> int) result" where
  "fillChanged turns sizes budget anchorSize hasContent consumed [] = Inr ([], consumed)"
| "fillChanged turns sizes budget anchorSize hasContent consumed (changedID # rest) =
     (case indexOfTurn turns changedID of
        None \<Rightarrow> fillChanged turns sizes budget anchorSize hasContent consumed rest
      | Some idx \<Rightarrow>
          let sz = int (sizes ! idx)
          in if sz > anchorNewerNeverSplitQuota then Inl AnchorOversized
             else if consumed + sz > budget \<and> \<not> neverSplitFits anchorSize sz hasContent then Inr ([], consumed)
             else rbind (fillChanged turns sizes budget anchorSize True (consumed + sz) rest)
                    (\<lambda>(changed, consumed'). Inr (turns ! idx # changed, consumed')))"

text \<open>The part of the page that is settled before the loops: the position, the tokens and the budget.\<close>

record anchorPage =
  ap_first :: bool
  ap_cursor :: anchorNewerCursorState
  ap_turnStart :: nat
  ap_anchorIdx :: nat
  ap_sizes :: "nat list"
  ap_tokens :: "(string \<times> string) list"
  ap_anchorSize :: int
  ap_budget :: int

definition openPage ::
  "(TurnProjection \<Rightarrow> string option) \<Rightarrow> (string \<Rightarrow> string) \<Rightarrow> TurnProjection list \<Rightarrow> AnchorNewerParams \<Rightarrow> (anchorError, anchorPage) result" where
  "openPage marshal sha turns params =
     (case indexOfTurn turns (anp_AnchorTurnID params) of
        None \<Rightarrow> Inl AnchorStale
      | Some anchorIdx \<Rightarrow>
          (case turnEncodedSizes (\<lambda>turn. map_option length (marshal turn)) turns of
             Inl e \<Rightarrow> Inl AnchorEncode
           | Inr sizes \<Rightarrow>
               let isFirstPage = (anp_CorrectionCursor params = NoCursor)
               in rbind (if isFirstPage then Inr \<lparr>ans_V = 1, ans_LastTurnID = anp_AnchorTurnID params, ans_ChangedThrough = []\<rparr>
                         else decodeAnchorNewerCursor (anp_CorrectionCursor params)) (\<lambda>state.
                  rbind (if ans_LastTurnID state = [] then Inr 0
                         else case indexOfTurn turns (ans_LastTurnID state) of
                                None \<Rightarrow> Inl AnchorCursor
                              | Some pos \<Rightarrow> Inr (pos + 1)) (\<lambda>turnStart.
                  rbind (BuildAnchorNewerTurnTokens marshal sha turns) (\<lambda>tokens.
                  let anchorSize = int (sizes ! anchorIdx)
                  in if isFirstPage \<and> anchorSize > anchorNewerNeverSplitQuota then Inl AnchorOversized
                     else Inr \<lparr>ap_first = isFirstPage, ap_cursor = state, ap_turnStart = turnStart, ap_anchorIdx = anchorIdx,
                        ap_sizes = sizes, ap_tokens = tokens,
                        ap_anchorSize = (if isFirstPage then anchorSize else 0),
                        ap_budget = (if isFirstPage
                                     then min anchorNewerPageBudget (anchorNewerTotalHardCapBytes - anchorNewerMandatoryReserve - anchorSize)
                                     else anchorNewerPageBudget)\<rparr>)))))"

definition closePage ::
  "SessionProjection \<Rightarrow> AnchorNewerParams \<Rightarrow> anchorPage \<Rightarrow> TurnProjection list \<Rightarrow> TurnProjection list \<Rightarrow> string list \<Rightarrow> AnchorNewerResult" where
  "closePage proj params page delivered changed changeList =
     (let turns = sp_Turns proj;
          sent = (if ap_first page then [turns ! ap_anchorIdx page] else []) @ delivered @ changed;
          remainingTurns = length turns - (ap_turnStart page + length delivered);
          remainingChanged = length (filter (\<lambda>c. c \<notin> tp_TurnID ` set changed \<and> tokenOf (ap_tokens page) c \<noteq> None) changeList);
          next = \<lparr>ans_V = 1,
                  ans_LastTurnID = (if delivered = [] then ans_LastTurnID (ap_cursor page) else tp_TurnID (last delivered)),
                  ans_ChangedThrough = (if changed = [] then ans_ChangedThrough (ap_cursor page) else tp_TurnID (last changed))\<rparr>
      in \<lparr>anr_Turns = delivered,
          anr_AnchorRefresh = (if ap_first page then Some (turns ! ap_anchorIdx page) else None),
          anr_ChangedTurns = changed,
          anr_RemovedTurnIDs = removedIDs (ap_tokens page) (anp_BaseDigests params),
          anr_ScalarState = sp_Scalars proj,
          anr_CorrectionsPending = (if remainingTurns > 0 \<or> remainingChanged > 0 then Some (next, remainingTurns + remainingChanged) else None),
          anr_TurnTokens = map (\<lambda>turn. (tp_TurnID turn, the (tokenOf (ap_tokens page) (tp_TurnID turn)))) sent,
          anr_SyncRev = sp_SyncRev proj\<rparr>)"

definition sliceAnchorNewerReconciliation ::
  "(TurnProjection \<Rightarrow> string option) \<Rightarrow> (string \<Rightarrow> string) \<Rightarrow> SessionProjection \<Rightarrow> AnchorNewerParams \<Rightarrow> (anchorError, AnchorNewerResult) result" where
  "sliceAnchorNewerReconciliation marshal sha proj params =
     (let turns = sp_Turns proj;
          limit = (if anp_Limit params \<le> 0 then anchorNewerDefaultTurns else anp_Limit params)
      in rbind (openPage marshal sha turns params) (\<lambda>page.
         let changeList = changedIDs turns (ap_tokens page) (ap_turnStart page) (ap_first page) (anp_AnchorTurnID params) (anp_BaseDigests params);
             (delivered, consumed) = fillTurns limit (ap_budget page) (ap_anchorSize page) 0 0
                                       (drop (ap_turnStart page) (zip turns (ap_sizes page)));
             reachedTail = (ap_turnStart page + length delivered \<ge> length turns)
         in rbind (if reachedTail
                   then fillChanged turns (ap_sizes page) (ap_budget page) (ap_anchorSize page) (delivered \<noteq> []) consumed changeList
                   else Inr ([], consumed)) (\<lambda>(changed, total).
            if ap_anchorSize page + total + anchorNewerMandatoryReserve > anchorNewerTotalHardCapBytes then Inl AnchorHardCap
            else Inr (closePage proj params page delivered changed changeList))))"

section \<open>What the loops keep\<close>

definition content_ok :: "int \<Rightarrow> int \<Rightarrow> nat \<Rightarrow> int \<Rightarrow> bool" where
  "content_ok budget anchorSize cnt consumed \<longleftrightarrow>
     consumed \<le> budget
     \<or> (cnt = 1 \<and> consumed \<le> anchorNewerNeverSplitQuota
         \<and> anchorSize + consumed + anchorNewerMandatoryReserve \<le> anchorNewerTotalHardCapBytes)"

lemma fillTurns_spec:
  "fillTurns limit budget anchorSize onPage consumed xs = (ts, consumed') \<Longrightarrow>
   ts = map fst (take (length ts) xs) \<and> length ts \<le> length xs
   \<and> consumed' = consumed + (\<Sum>x\<leftarrow>take (length ts) xs. int (snd x))"
proof (induction xs arbitrary: onPage consumed ts)
  case (Cons x xs)
  obtain turn sz where x: "x = (turn, sz)" by (cases x)
  show ?case
  proof (cases ts)
    case Nil
    then show ?thesis using Cons.prems x by (auto split: if_splits prod.splits)
  next
    case (Cons t ts')
    then have "fillTurns limit budget anchorSize (onPage + 1) (consumed + int sz) xs = (ts', consumed')" and t: "t = turn"
      using Cons.prems x by (auto split: if_splits prod.splits)
    from Cons.IH [OF this(1)] have "map fst (take (length ts') xs) = ts'" and "length ts' \<le> length xs"
      and "consumed' = consumed + int sz + (\<Sum>x\<leftarrow>take (length ts') xs. int (snd x))" by auto
    then show ?thesis using Cons x t by simp
  qed
qed auto

lemma fillTurns_content:
  assumes "fillTurns limit budget anchorSize onPage consumed xs = (ts, consumed')"
    and "content_ok budget anchorSize onPage consumed" and "onPage = 0 \<Longrightarrow> consumed = 0"
  shows "content_ok budget anchorSize (onPage + length ts) consumed' \<and> (onPage + length ts = 0 \<longrightarrow> consumed' = 0)"
  using assms
proof (induction xs arbitrary: onPage consumed ts)
  case (Cons x xs)
  obtain turn sz where x: "x = (turn, sz)" by (cases x)
  show ?case
  proof (cases ts)
    case Nil
    then show ?thesis using Cons.prems x by (auto split: if_splits prod.splits)
  next
    case (Cons t ts')
    then have rest: "fillTurns limit budget anchorSize (onPage + 1) (consumed + int sz) xs = (ts', consumed')"
      and fits: "consumed + int sz \<le> budget \<or> neverSplitFits anchorSize (int sz) (onPage > 0)"
      using Cons.prems(1) x by (auto split: if_splits prod.splits)
    have "content_ok budget anchorSize (onPage + 1) (consumed + int sz)"
      using fits Cons.prems(3) by (auto simp: content_ok_def neverSplitFits_def)
    from Cons.IH [OF rest this] Cons show ?thesis by simp
  qed
qed auto

lemma fillTurns_progress:
  assumes "fillTurns limit budget 0 0 0 ((turn, sz) # xs) = (ts, consumed')" and "limit \<ge> 1"
    and "int sz \<le> anchorNewerNeverSplitQuota"
  shows "ts \<noteq> []"
  using assms by (auto simp: neverSplitFits_def anchor_budgets split: if_splits prod.splits)

lemma fillChanged_content:
  assumes "fillChanged turns sizes budget anchorSize has consumed ids = Inr (ch, consumed')"
    and "content_ok budget anchorSize cnt consumed" and "has \<longleftrightarrow> cnt > 0" and "cnt = 0 \<Longrightarrow> consumed = 0"
  shows "content_ok budget anchorSize (cnt + length ch) consumed'"
  using assms
proof (induction ids arbitrary: has consumed ch cnt)
  case (Cons i ids)
  show ?case
  proof (cases "indexOfTurn turns i")
    case None
    then show ?thesis using Cons by auto
  next
    case (Some idx)
    let ?sz = "int (sizes ! idx)"
    consider "ch = []" "consumed' = consumed"
      | ch' where "ch = turns ! idx # ch'" "fillChanged turns sizes budget anchorSize True (consumed + ?sz) ids = Inr (ch', consumed')"
        "consumed + ?sz \<le> budget \<or> neverSplitFits anchorSize ?sz has"
      using Cons.prems(1) Some by (auto simp: Let_def rbind_Inr split: if_splits prod.splits)
    then show ?thesis
    proof cases
      case 1
      then show ?thesis using Cons.prems by simp
    next
      case (2 ch')
      have "content_ok budget anchorSize (cnt + 1) (consumed + ?sz)"
        using 2(3) Cons.prems(3,4) by (auto simp: content_ok_def neverSplitFits_def)
      from Cons.IH [OF 2(2) this] 2(1) show ?thesis by simp
    qed
  qed
qed auto

lemma fillChanged_spec:
  assumes "fillChanged turns sizes budget anchorSize has consumed ids = Inr (ch, consumed')"
    and "\<forall>i\<in>set ids. indexOfTurn turns i \<noteq> None"
  shows "map tp_TurnID ch = take (length ch) ids \<and> set ch \<subseteq> set turns"
  using assms
proof (induction ids arbitrary: has consumed ch)
  case (Cons i ids)
  then obtain idx where idx: "indexOfTurn turns i = Some idx" by auto
  show ?case
  proof (cases ch)
    case (Cons t ch')
    then have "t = turns ! idx" and "fillChanged turns sizes budget anchorSize True (consumed + int (sizes ! idx)) ids = Inr (ch', consumed')"
      using Cons.prems(1) idx by (auto simp: Let_def rbind_Inr split: if_splits prod.splits)
    then show ?thesis using Cons.IH Cons.prems(2) Cons indexOfTurn_Some [OF idx] by auto
  qed simp
qed auto

lemma fillChanged_returns:
  assumes "\<forall>idx<length turns. int (sizes ! idx) \<le> anchorNewerNeverSplitQuota"
  shows "\<exists>ch consumed'. fillChanged turns sizes budget anchorSize has consumed ids = Inr (ch, consumed')"
proof (induction ids arbitrary: has consumed)
  case (Cons i ids)
  show ?case
  proof (cases "indexOfTurn turns i")
    case None
    then show ?thesis using Cons by simp
  next
    case (Some idx)
    then have "int (sizes ! idx) \<le> anchorNewerNeverSplitQuota" using assms indexOfTurn_Some by blast
    moreover obtain ch c where "fillChanged turns sizes budget anchorSize True (consumed + int (sizes ! idx)) ids = Inr (ch, c)"
      using Cons by blast
    ultimately show ?thesis using Some by (simp add: Let_def)
  qed
qed simp

lemma fillChanged_progress:
  assumes "fillChanged turns sizes budget 0 False 0 (i # ids) = Inr (ch, consumed')" and "indexOfTurn turns i \<noteq> None"
    and "\<forall>idx<length turns. int (sizes ! idx) \<le> anchorNewerNeverSplitQuota"
  shows "ch \<noteq> []"
proof -
  obtain idx where idx: "indexOfTurn turns i = Some idx" using assms(2) by auto
  then have "int (sizes ! idx) \<le> anchorNewerNeverSplitQuota" using assms(3) indexOfTurn_Some by blast
  then show ?thesis using assms(1) idx
    by (auto simp: Let_def rbind_Inr neverSplitFits_def anchor_budgets split: if_splits prod.splits)
qed

section \<open>Tokens, digests and stale turns\<close>

abbreviation tokOf :: "(TurnProjection \<Rightarrow> string option) \<Rightarrow> (string \<Rightarrow> string) \<Rightarrow> TurnProjection \<Rightarrow> string" where
  "tokOf marshal sha turn \<equiv> sha (the (marshal turn))"

lemma tokens_built:
  "\<forall>turn\<in>set turns. marshal turn \<noteq> None \<Longrightarrow>
   BuildAnchorNewerTurnTokens marshal sha turns = Inr (map (\<lambda>turn. (tp_TurnID turn, tokOf marshal sha turn)) turns)"
  by (induction turns) (auto simp: AnchorNewerTurnToken_def)

lemma tokenOf_built:
  assumes "distinct (map tp_TurnID turns)"
  shows "tokenOf (map (\<lambda>turn. (tp_TurnID turn, f turn)) turns) i = Some v \<longleftrightarrow> (\<exists>turn\<in>set turns. tp_TurnID turn = i \<and> v = f turn)"
proof -
  have d: "distinct (map fst (map (\<lambda>turn. (tp_TurnID turn, f turn)) turns))" using assms by (simp add: comp_def)
  show ?thesis unfolding tokenOf_def map_of_rev_distinct [OF d] map_of_eq_Some_iff [OF d] by auto
qed

lemma turn_by_id:
  "distinct (map tp_TurnID turns) \<Longrightarrow> t \<in> set turns \<Longrightarrow> u \<in> set turns \<Longrightarrow> tp_TurnID t = tp_TurnID u \<Longrightarrow> t = u"
  by (auto simp: distinct_map inj_on_def)

text \<open>What a client makes of the tokens of a page: the review set with the delivered tokens in it.\<close>

definition mergeTokens :: "(string \<times> string) list \<Rightarrow> (string \<times> string option) list \<Rightarrow> (string \<times> string option) list" where
  "mergeTokens tokens digests = foldl (\<lambda>d (turnID, token). AList.update turnID (Some token) d) digests tokens"

lemma mergeTokens_distinct: "distinct (map fst digests) \<Longrightarrow> distinct (map fst (mergeTokens tokens digests))"
  unfolding mergeTokens_def by (induction tokens arbitrary: digests) (auto simp: distinct_update)

lemma mergeTokens_map:
  "map_of (mergeTokens tokens digests) i = (case tokenOf tokens i of None \<Rightarrow> map_of digests i | Some token \<Rightarrow> Some (Some token))"
proof (induction tokens arbitrary: digests rule: rev_induct)
  case Nil
  then show ?case by (simp add: mergeTokens_def tokenOf_def)
next
  case (snoc x tokens)
  then show ?case by (cases x) (simp add: mergeTokens_def tokenOf_def update_conv split: option.splits)
qed

definition staleTurns ::
  "(TurnProjection \<Rightarrow> string) \<Rightarrow> TurnProjection list \<Rightarrow> (string \<times> string option) list \<Rightarrow> TurnProjection set" where
  "staleTurns tok turns digests = {turn \<in> set turns. \<exists>d. map_of digests (tp_TurnID turn) = Some d \<and> d \<noteq> Some (tok turn)}"

lemma staleTurns_merge:
  assumes "distinct (map tp_TurnID turns)" and "set sent \<subseteq> set turns"
  shows "staleTurns tok turns (mergeTokens (map (\<lambda>turn. (tp_TurnID turn, tok turn)) sent) digests) =
           staleTurns tok turns digests - set sent"
proof -
  have "tokenOf (map (\<lambda>turn. (tp_TurnID turn, tok turn)) sent) (tp_TurnID t) = (if t \<in> set sent then Some (tok t) else None)"
    if "t \<in> set turns" for t
  proof (cases "tokenOf (map (\<lambda>turn. (tp_TurnID turn, tok turn)) sent) (tp_TurnID t)")
    case None
    then have "t \<notin> set sent" by (force simp: tokenOf_def map_of_eq_None_iff)
    with None show ?thesis by simp
  next
    case (Some v)
    then have "(tp_TurnID t, v) \<in> set (map (\<lambda>turn. (tp_TurnID turn, tok turn)) sent)"
      unfolding tokenOf_def by (auto dest: map_of_SomeD)
    then obtain u where "u \<in> set sent" "tp_TurnID u = tp_TurnID t" "v = tok u" by auto
    moreover have "u = t" using turn_by_id [OF assms(1)] assms(2) that calculation by blast
    ultimately show ?thesis using Some by simp
  qed
  then show ?thesis by (auto simp: staleTurns_def mergeTokens_map split: if_splits)
qed

lemma finite_stale: "finite (staleTurns tok turns digests)"
  by (simp add: staleTurns_def)

lemma changedIDs_set:
  assumes d: "distinct (map tp_TurnID turns)" and k: "distinct (map fst digests)"
  shows "set (changedIDs turns (map (\<lambda>turn. (tp_TurnID turn, tok turn)) turns) start first anchor digests) =
      tp_TurnID ` {turn \<in> staleTurns tok turns digests.
        (\<exists>idx. indexOfTurn turns (tp_TurnID turn) = Some idx \<and> idx < start) \<and> \<not> (first \<and> tp_TurnID turn = anchor)}"
    (is "?L = ?R")
proof
  have pair: "(i, v) \<in> set digests \<longleftrightarrow> map_of digests i = Some v" for i v using k by simp
  show "?L \<subseteq> ?R"
  proof
    fix i assume "i \<in> ?L"
    then obtain v current where v: "(i, v) \<in> set digests"
      and current: "tokenOf (map (\<lambda>turn. (tp_TurnID turn, tok turn)) turns) i = Some current" "v \<noteq> Some current"
      and place: "\<not> (case indexOfTurn turns i of None \<Rightarrow> False | Some idx \<Rightarrow> idx \<ge> start)" "\<not> (first \<and> i = anchor)"
      by (auto simp: changedIDs_def split: option.splits)
    from current(1) obtain turn where turn: "turn \<in> set turns" "tp_TurnID turn = i" "current = tok turn"
      by (auto simp: tokenOf_built [OF d])
    then obtain idx where "idx < length turns" "turn = turns ! idx" by (auto simp: in_set_conv_nth)
    then have idx: "indexOfTurn turns i = Some idx" using indexOfTurn_nth [OF d] turn(2) by blast
    then have "idx < start" using place(1) by simp
    then have "turn \<in> {turn \<in> staleTurns tok turns digests.
        (\<exists>idx. indexOfTurn turns (tp_TurnID turn) = Some idx \<and> idx < start) \<and> \<not> (first \<and> tp_TurnID turn = anchor)}"
      using turn v current(2) place(2) idx by (auto simp: staleTurns_def pair)
    then show "i \<in> ?R" using turn(2) by blast
  qed
  show "?R \<subseteq> ?L"
  proof
    fix i assume "i \<in> ?R"
    then obtain turn v idx where t: "turn \<in> set turns" "i = tp_TurnID turn" "map_of digests i = Some v" "v \<noteq> Some (tok turn)"
      "indexOfTurn turns i = Some idx" "idx < start" "\<not> (first \<and> i = anchor)"
      by (auto simp: staleTurns_def)
    then have "(i, v) \<in> set digests" by (simp add: pair)
    moreover have "tokenOf (map (\<lambda>turn. (tp_TurnID turn, tok turn)) turns) i = Some (tok turn)"
      using t(1,2) by (auto simp: tokenOf_built [OF d])
    ultimately show "i \<in> ?L" using t by (force simp: changedIDs_def)
  qed
qed

lemma changedIDs_distinct: "distinct (map fst digests) \<Longrightarrow> distinct (changedIDs turns tokens start first anchor digests)"
  by (simp add: changedIDs_def distinct_map_filter)

section \<open>One page\<close>

definition sliceable :: "(TurnProjection \<Rightarrow> string option) \<Rightarrow> TurnProjection list \<Rightarrow> bool" where
  "sliceable marshal turns \<longleftrightarrow>
     distinct (map tp_TurnID turns) \<and> (\<forall>turn\<in>set turns. tp_TurnID turn \<noteq> [])
     \<and> (\<forall>turn\<in>set turns. \<exists>raw. marshal turn = Some raw \<and> int (length raw) \<le> anchorNewerNeverSplitQuota)"

definition atPosition :: "TurnProjection list \<Rightarrow> AnchorNewerParams \<Rightarrow> nat \<Rightarrow> bool" where
  "atPosition turns params p \<longleftrightarrow>
     p < length turns \<and> indexOfTurn turns (anp_AnchorTurnID params) \<noteq> None
     \<and> (case anp_CorrectionCursor params of
          NoCursor \<Rightarrow> indexOfTurn turns (anp_AnchorTurnID params) = Some p
        | BadCursor \<Rightarrow> False
        | Cursor st \<Rightarrow> ans_V st = 1 \<and> ans_LastTurnID st = tp_TurnID (turns ! p))"

abbreviation turnSizes :: "(TurnProjection \<Rightarrow> string option) \<Rightarrow> TurnProjection list \<Rightarrow> nat list" where
  "turnSizes marshal turns \<equiv> map (\<lambda>turn. length (the (marshal turn))) turns"

lemma sliceable_sizes:
  assumes "sliceable marshal turns"
  shows "turnEncodedSizes (\<lambda>turn. map_option length (marshal turn)) turns = Inr (turnSizes marshal turns)"
    and "\<forall>idx<length turns. int (turnSizes marshal turns ! idx) \<le> anchorNewerNeverSplitQuota"
proof -
  have some: "\<forall>turn\<in>set turns. \<exists>raw. marshal turn = Some raw \<and> int (length raw) \<le> anchorNewerNeverSplitQuota"
    using assms by (simp add: sliceable_def)
  have "map (\<lambda>turn. the (map_option length (marshal turn))) turns = turnSizes marshal turns"
    using some by auto
  moreover have "\<forall>turn\<in>set turns. map_option length (marshal turn) \<noteq> None" using some by auto
  ultimately show "turnEncodedSizes (\<lambda>turn. map_option length (marshal turn)) turns = Inr (turnSizes marshal turns)"
    using sizes_ok by metis
  show "\<forall>idx<length turns. int (turnSizes marshal turns ! idx) \<le> anchorNewerNeverSplitQuota"
  proof (intro allI impI)
    fix idx assume "idx < length turns"
    then show "int (turnSizes marshal turns ! idx) \<le> anchorNewerNeverSplitQuota" using some nth_mem by fastforce
  qed
qed

text \<open>What is settled when a page is opened at position \<open>p\<close>.\<close>

definition opened ::
  "(TurnProjection \<Rightarrow> string option) \<Rightarrow> (string \<Rightarrow> string) \<Rightarrow> TurnProjection list \<Rightarrow> AnchorNewerParams \<Rightarrow> nat \<Rightarrow> anchorPage \<Rightarrow> bool" where
  "opened marshal sha turns params p page \<longleftrightarrow>
     openPage marshal sha turns params = Inr page
     \<and> (ap_first page \<longleftrightarrow> anp_CorrectionCursor params = NoCursor) \<and> ap_turnStart page = p + 1
     \<and> indexOfTurn turns (anp_AnchorTurnID params) = Some (ap_anchorIdx page)
     \<and> ap_sizes page = turnSizes marshal turns
     \<and> ap_tokens page = map (\<lambda>turn. (tp_TurnID turn, tokOf marshal sha turn)) turns
     \<and> ans_LastTurnID (ap_cursor page) = tp_TurnID (turns ! p)
     \<and> ap_anchorSize page = (if ap_first page then int (turnSizes marshal turns ! ap_anchorIdx page) else 0)
     \<and> ap_budget page = (if ap_first page
           then min anchorNewerPageBudget (anchorNewerTotalHardCapBytes - anchorNewerMandatoryReserve - ap_anchorSize page)
           else anchorNewerPageBudget)"

lemma openPage_ok:
  assumes s: "sliceable marshal turns" and at: "atPosition turns params p"
  shows "\<exists>page. opened marshal sha turns params p page"
proof -
  have d: "distinct (map tp_TurnID turns)" and ne: "\<forall>turn\<in>set turns. tp_TurnID turn \<noteq> []" using s by (auto simp: sliceable_def)
  have p: "p < length turns" using at by (simp add: atPosition_def)
  obtain a where a: "indexOfTurn turns (anp_AnchorTurnID params) = Some a" using at by (auto simp: atPosition_def)
  then have aid: "a < length turns" "tp_TurnID (turns ! a) = anp_AnchorTurnID params" using indexOfTurn_Some by auto
  have quota: "\<not> int (turnSizes marshal turns ! a) > anchorNewerNeverSplitQuota" using sliceable_sizes(2) [OF s] aid(1) by auto
  have pne: "tp_TurnID (turns ! p) \<noteq> []" using ne p by simp
  have idx: "indexOfTurn turns (tp_TurnID (turns ! p)) = Some p" by (rule indexOfTurn_nth [OF d p])
  have tokens: "BuildAnchorNewerTurnTokens marshal sha turns = Inr (map (\<lambda>turn. (tp_TurnID turn, tokOf marshal sha turn)) turns)"
    by (rule tokens_built) (use s in \<open>auto simp: sliceable_def\<close>)
  define st where "st = (case anp_CorrectionCursor params of
      Cursor st \<Rightarrow> st | _ \<Rightarrow> \<lparr>ans_V = 1, ans_LastTurnID = anp_AnchorTurnID params, ans_ChangedThrough = []\<rparr>)"
  have last: "ans_LastTurnID st = tp_TurnID (turns ! p)"
    using at a aid(2) by (auto simp: st_def atPosition_def split: correctionCursor.splits)
  have decoded: "(if anp_CorrectionCursor params = NoCursor
      then Inr \<lparr>ans_V = 1, ans_LastTurnID = anp_AnchorTurnID params, ans_ChangedThrough = []\<rparr>
      else decodeAnchorNewerCursor (anp_CorrectionCursor params)) = Inr st"
    using at by (auto simp: st_def atPosition_def decodeAnchorNewerCursor_def split: correctionCursor.splits)
  show ?thesis unfolding opened_def openPage_def a sliceable_sizes(1) [OF s] decoded tokens
    by (simp add: Let_def decoded last pne idx tokens quota a del: nth_map)
qed

abbreviation changeListOf :: "TurnProjection list \<Rightarrow> AnchorNewerParams \<Rightarrow> anchorPage \<Rightarrow> string list" where
  "changeListOf turns params page \<equiv>
     changedIDs turns (ap_tokens page) (ap_turnStart page) (ap_first page) (anp_AnchorTurnID params) (anp_BaseDigests params)"

lemma changeList_set:
  assumes "sliceable marshal turns" and "opened marshal sha turns params p page" and "distinct (map fst (anp_BaseDigests params))"
  shows "set (changeListOf turns params page) = tp_TurnID ` {turn \<in> staleTurns (tokOf marshal sha) turns (anp_BaseDigests params).
      (\<exists>idx. indexOfTurn turns (tp_TurnID turn) = Some idx \<and> idx < p + 1)
      \<and> \<not> (ap_first page \<and> tp_TurnID turn = anp_AnchorTurnID params)}"
proof -
  have d: "distinct (map tp_TurnID turns)" using assms(1) by (simp add: sliceable_def)
  have "ap_tokens page = map (\<lambda>turn. (tp_TurnID turn, tokOf marshal sha turn)) turns" "ap_turnStart page = p + 1"
    using assms(2) by (simp_all add: opened_def)
  then show ?thesis using changedIDs_set [OF d assms(3), of "tokOf marshal sha"] by simp
qed

lemma page_shape:
  assumes s: "sliceable marshal turns" and op: "opened marshal sha turns params p page" and p: "p < length turns"
    and keys: "distinct (map fst (anp_BaseDigests params))" and turns: "turns = sp_Turns proj"
  obtains delivered changed where
    "sliceAnchorNewerReconciliation marshal sha proj params =
       Inr (closePage proj params page delivered changed (changeListOf turns params page))"
    and "delivered = take (length delivered) (drop (p + 1) turns)" and "p + length delivered < length turns"
    and "map tp_TurnID changed = take (length changed) (changeListOf turns params page)" and "set changed \<subseteq> set turns"
    and "\<not> ap_first page \<Longrightarrow> delivered = [] \<Longrightarrow> p + 1 = length turns \<and> (changeListOf turns params page \<noteq> [] \<longrightarrow> changed \<noteq> [])"
proof -
  define sizes where "sizes = turnSizes marshal turns"
  define limit where "limit = (if anp_Limit params \<le> 0 then anchorNewerDefaultTurns else anp_Limit params)"
  define ids where "ids = changeListOf turns params page"
  have page: "openPage marshal sha turns params = Inr page" "ap_turnStart page = p + 1" "ap_sizes page = sizes"
    and anchor: "indexOfTurn turns (anp_AnchorTurnID params) = Some (ap_anchorIdx page)"
    and pa: "ap_anchorSize page = (if ap_first page then int (sizes ! ap_anchorIdx page) else 0)"
    and pb: "ap_budget page = (if ap_first page
           then min anchorNewerPageBudget (anchorNewerTotalHardCapBytes - anchorNewerMandatoryReserve - ap_anchorSize page)
           else anchorNewerPageBudget)"
    using op by (simp_all add: opened_def sizes_def)
  have quota: "\<forall>idx<length turns. int (sizes ! idx) \<le> anchorNewerNeverSplitQuota"
    using sliceable_sizes(2) [OF s] by (simp add: sizes_def)
  have limit: "limit \<ge> 1" by (simp add: limit_def anchorNewerDefaultTurns_def)
  have known: "\<forall>i\<in>set ids. indexOfTurn turns i \<noteq> None" unfolding ids_def changeList_set [OF s op keys] by auto
  obtain delivered consumed where fill: "fillTurns limit (ap_budget page) (ap_anchorSize page) 0 0 (drop (p + 1) (zip turns sizes)) = (delivered, consumed)"
    by (metis surj_pair)
  have "map fst (drop (p + 1) (zip turns sizes)) = drop (p + 1) turns" by (simp add: drop_map [symmetric] sizes_def)
  then have del: "delivered = take (length delivered) (drop (p + 1) turns)" and dlen: "length delivered \<le> length turns - (p + 1)"
    using fillTurns_spec [OF fill] by (simp_all add: take_map [symmetric] sizes_def)
  have "0 \<le> ap_budget page" using quota indexOfTurn_Some [OF anchor] by (auto simp: pb pa anchor_budgets)
  then have "content_ok (ap_budget page) (ap_anchorSize page) 0 0" by (simp add: content_ok_def)
  from fillTurns_content [OF fill this]
  have ok1: "content_ok (ap_budget page) (ap_anchorSize page) (length delivered) consumed" "delivered = [] \<Longrightarrow> consumed = 0" by auto
  define tail where "tail \<longleftrightarrow> p + 1 + length delivered \<ge> length turns"
  define corrections where "corrections = (if tail
      then fillChanged turns sizes (ap_budget page) (ap_anchorSize page) (delivered \<noteq> []) consumed ids else Inr ([], consumed))"
  obtain changed total where ch: "corrections = Inr (changed, total)"
    using fillChanged_returns [OF quota] unfolding corrections_def by metis
  have "content_ok (ap_budget page) (ap_anchorSize page) (length delivered + length changed) total"
  proof (cases tail)
    case True
    then have f: "fillChanged turns sizes (ap_budget page) (ap_anchorSize page) (delivered \<noteq> []) consumed ids = Inr (changed, total)"
      using ch by (simp add: corrections_def)
    show ?thesis by (rule fillChanged_content [OF f ok1(1)]) (use ok1(2) in auto)
  next
    case False
    then show ?thesis using ch ok1(1) by (simp add: corrections_def)
  qed
  then have cap: "\<not> ap_anchorSize page + total + anchorNewerMandatoryReserve > anchorNewerTotalHardCapBytes"
    by (auto simp: content_ok_def pb pa anchor_budgets split: if_splits)
  have slice: "sliceAnchorNewerReconciliation marshal sha proj params = rbind corrections (\<lambda>(changed, total).
      if ap_anchorSize page + total + anchorNewerMandatoryReserve > anchorNewerTotalHardCapBytes then Inl AnchorHardCap
      else Inr (closePage proj params page delivered changed ids))"
    unfolding sliceAnchorNewerReconciliation_def Let_def turns [symmetric] limit_def [symmetric] page(1) rbind.simps
      page(2,3) fill prod.case corrections_def tail_def ids_def ..
  show thesis
  proof (rule that)
    show "sliceAnchorNewerReconciliation marshal sha proj params =
        Inr (closePage proj params page delivered changed (changeListOf turns params page))"
      using cap by (simp add: slice ch ids_def)
    show "map tp_TurnID changed = take (length changed) (changeListOf turns params page)" "set changed \<subseteq> set turns"
      using ch fillChanged_spec [OF _ known] by (auto simp: corrections_def ids_def split: if_splits)
    show "p + 1 = length turns \<and> (changeListOf turns params page \<noteq> [] \<longrightarrow> changed \<noteq> [])"
      if cont: "\<not> ap_first page" and none: "delivered = []"
    proof -
      have atEnd: "\<not> p + 1 < length turns"
      proof
        assume q: "p + 1 < length turns"
        then have "drop (p + 1) (zip turns sizes) = (turns ! (p + 1), sizes ! (p + 1)) # drop (p + 2) (zip turns sizes)"
          by (simp add: Cons_nth_drop_Suc [symmetric] sizes_def)
        with fill cont none have "fillTurns limit (ap_budget page) 0 0 0
            ((turns ! (p + 1), sizes ! (p + 1)) # drop (p + 2) (zip turns sizes)) = ([], consumed)" by (simp only: pa if_False)
        from fillTurns_progress [OF this limit] show False using quota q by blast
      qed
      have "changed \<noteq> []" if "ids = x # xs" for x xs
        by (rule fillChanged_progress [of turns sizes "ap_budget page" x xs changed total])
          (use ch atEnd none cont ok1(2) that known quota in \<open>simp_all add: corrections_def tail_def pa\<close>)
      then show ?thesis using atEnd p by (cases ids) (auto simp: ids_def)
    qed
  qed (use del dlen p in auto)
qed

section \<open>What a page does for the review set\<close>

text \<open>The turns a page carries, and the page's parts in terms of them.\<close>

definition sentOn :: "TurnProjection list \<Rightarrow> anchorPage \<Rightarrow> TurnProjection list \<Rightarrow> TurnProjection list \<Rightarrow> TurnProjection list" where
  "sentOn turns page delivered changed = (if ap_first page then [turns ! ap_anchorIdx page] else []) @ delivered @ changed"

lemma closePage_tokens:
  assumes s: "sliceable marshal turns" and op: "opened marshal sha turns params p page" and turns: "turns = sp_Turns proj"
    and sent: "set (sentOn turns page delivered changed) \<subseteq> set turns"
  shows "anr_TurnTokens (closePage proj params page delivered changed ids) =
           map (\<lambda>turn. (tp_TurnID turn, tokOf marshal sha turn)) (sentOn turns page delivered changed)"
proof -
  have d: "distinct (map tp_TurnID turns)" using s by (simp add: sliceable_def)
  have t: "ap_tokens page = map (\<lambda>turn. (tp_TurnID turn, tokOf marshal sha turn)) turns" using op by (simp add: opened_def)
  have "the (tokenOf (ap_tokens page) (tp_TurnID u)) = tokOf marshal sha u" if "u \<in> set turns" for u
  proof -
    have "tokenOf (ap_tokens page) (tp_TurnID u) = Some (tokOf marshal sha u)" using that by (auto simp: t tokenOf_built [OF d])
    then show ?thesis by simp
  qed
  then show ?thesis using sent by (auto simp: closePage_def Let_def sentOn_def turns [symmetric] split: if_splits)
qed

text \<open>What is still pending: the turns behind the position, and the listed corrections that did not fit.\<close>

lemma closePage_pending:
  assumes s: "sliceable marshal turns" and op: "opened marshal sha turns params p page"
    and keys: "distinct (map fst (anp_BaseDigests params))" and turns: "turns = sp_Turns proj"
    and changed: "map tp_TurnID changed = take (length changed) (changeListOf turns params page)"
  shows "anr_CorrectionsPending (closePage proj params page delivered changed (changeListOf turns params page)) = None
         \<longleftrightarrow> p + 1 + length delivered \<ge> length turns \<and> set (changeListOf turns params page) \<subseteq> tp_TurnID ` set changed"
proof -
  define ids where "ids = changeListOf turns params page"
  have t: "ap_tokens page = map (\<lambda>turn. (tp_TurnID turn, tokOf marshal sha turn)) turns" and start: "ap_turnStart page = p + 1"
    using op by (simp_all add: opened_def)
  have known: "\<forall>i\<in>set ids. tokenOf (ap_tokens page) i \<noteq> None"
  proof
    fix i assume "i \<in> set ids"
    then have "i \<in> tp_TurnID ` set turns" unfolding ids_def changeList_set [OF s op keys] by (auto simp: staleTurns_def)
    then show "tokenOf (ap_tokens page) i \<noteq> None" by (auto simp: t tokenOf_def map_of_eq_None_iff image_iff)
  qed
  have "filter (\<lambda>c. c \<notin> tp_TurnID ` set changed \<and> tokenOf (ap_tokens page) c \<noteq> None) ids = [] \<longleftrightarrow> set ids \<subseteq> tp_TurnID ` set changed"
    using known by (auto simp: filter_empty_conv)
  then show ?thesis unfolding closePage_def Let_def turns [symmetric] ids_def [symmetric] unfolding start by auto
qed

lemma stale_position:
  assumes s: "sliceable marshal turns" and t: "t \<in> staleTurns tok turns digests"
  obtains i where "i < length turns" and "t = turns ! i" and "indexOfTurn turns (tp_TurnID t) = Some i"
proof -
  from t obtain i where "i < length turns" "t = turns ! i" by (auto simp: staleTurns_def in_set_conv_nth)
  moreover from this have "indexOfTurn turns (tp_TurnID t) = Some i" using indexOfTurn_nth s by (auto simp: sliceable_def)
  ultimately show thesis by (rule that)
qed

lemma page_complete:
  assumes s: "sliceable marshal turns" and op: "opened marshal sha turns params p page"
    and keys: "distinct (map fst (anp_BaseDigests params))"
    and delivered: "delivered = drop (p + 1) turns" and all: "set (changeListOf turns params page) \<subseteq> tp_TurnID ` set changed"
    and changed: "set changed \<subseteq> set turns"
  shows "staleTurns (tokOf marshal sha) turns (anp_BaseDigests params) \<subseteq> set (sentOn turns page delivered changed)"
proof
  fix t assume t: "t \<in> staleTurns (tokOf marshal sha) turns (anp_BaseDigests params)"
  from s t obtain i where i: "i < length turns" "t = turns ! i" "indexOfTurn turns (tp_TurnID t) = Some i" by (rule stale_position)
  consider "p < i" | "ap_first page" "tp_TurnID t = anp_AnchorTurnID params" | "tp_TurnID t \<in> set (changeListOf turns params page)"
    using t i(3) unfolding changeList_set [OF s op keys] by fastforce
  then show "t \<in> set (sentOn turns page delivered changed)"
  proof cases
    case 1
    then have "t \<in> set delivered" using i delivered by (auto simp: in_set_conv_nth intro!: exI [of _ "i - (p + 1)"])
    then show ?thesis by (simp add: sentOn_def)
  next
    case 2
    then have "i = ap_anchorIdx page" using op i(3) by (simp add: opened_def)
    then show ?thesis using 2 i(2) by (simp add: sentOn_def)
  next
    case 3
    then obtain u where u: "u \<in> set changed" "tp_TurnID u = tp_TurnID t" using all by force
    then have "u = t" using turn_by_id [of turns u t] s changed i by (auto simp: sliceable_def)
    then show ?thesis using u(1) by (simp add: sentOn_def)
  qed
qed

lemma page_progress:
  assumes s: "sliceable marshal turns" and op: "opened marshal sha turns params p page"
    and keys: "distinct (map fst (anp_BaseDigests params))"
    and changed: "map tp_TurnID changed = take (length changed) (changeListOf turns params page)" "set changed \<subseteq> set turns" "changed \<noteq> []"
  shows "card (staleTurns (tokOf marshal sha) turns (anp_BaseDigests params) - set (sentOn turns page delivered changed))
           < card (staleTurns (tokOf marshal sha) turns (anp_BaseDigests params))"
proof -
  let ?stale = "staleTurns (tokOf marshal sha) turns (anp_BaseDigests params)"
  obtain c cs where c: "changed = c # cs" using changed(3) by (cases changed) auto
  then have "tp_TurnID c \<in> set (changeListOf turns params page)" using changed(1) by (metis in_set_takeD list.set_intros(1) list.simps(9))
  then obtain u where u: "u \<in> ?stale" "tp_TurnID u = tp_TurnID c" unfolding changeList_set [OF s op keys] by auto
  then have "u = c" using turn_by_id [of turns u c] s changed(2) c by (auto simp: sliceable_def staleTurns_def)
  then have "?stale - set (sentOn turns page delivered changed) \<subset> ?stale" using u(1) c by (auto simp: sentOn_def)
  then show ?thesis by (rule psubset_card_mono [OF finite_stale])
qed

text \<open>
  A page as the client sees it.  A continued page that leaves something pending has delivered something:
  a turn behind the position, or a stale turn.
\<close>

lemma page_step:
  fixes marshal :: "TurnProjection \<Rightarrow> string option" and sha :: "string \<Rightarrow> string"
    and turns :: "TurnProjection list" and params :: AnchorNewerParams and p :: nat and proj :: SessionProjection
  assumes s: "sliceable marshal turns" and at: "atPosition turns params p"
    and keys: "distinct (map fst (anp_BaseDigests params))" and turns: "turns = sp_Turns proj"
  defines "stale \<equiv> staleTurns (tokOf marshal sha) turns"
  obtains r where "sliceAnchorNewerReconciliation marshal sha proj params = Inr r"
    and "anr_Turns r = take (length (anr_Turns r)) (drop (p + 1) turns)"
    and "stale (mergeTokens (anr_TurnTokens r) (anp_BaseDigests params)) \<subseteq> stale (anp_BaseDigests params)"
    and "anr_CorrectionsPending r = None \<Longrightarrow>
          anr_Turns r = drop (p + 1) turns \<and> stale (mergeTokens (anr_TurnTokens r) (anp_BaseDigests params)) = {}"
    and "\<And>c m. anr_CorrectionsPending r = Some (c, m) \<Longrightarrow>
          ans_V c = 1 \<and> p + length (anr_Turns r) < length turns \<and> ans_LastTurnID c = tp_TurnID (turns ! (p + length (anr_Turns r)))
          \<and> (anp_CorrectionCursor params \<noteq> NoCursor \<longrightarrow> anr_Turns r \<noteq> []
               \<or> card (stale (mergeTokens (anr_TurnTokens r) (anp_BaseDigests params))) < card (stale (anp_BaseDigests params)))"
proof -
  have d: "distinct (map tp_TurnID turns)" and p: "p < length turns" using s at by (auto simp: sliceable_def atPosition_def)
  obtain page where op: "opened marshal sha turns params p page" using openPage_ok [OF s at] by blast
  obtain delivered changed where
    slice: "sliceAnchorNewerReconciliation marshal sha proj params =
       Inr (closePage proj params page delivered changed (changeListOf turns params page))"
    and del: "delivered = take (length delivered) (drop (p + 1) turns)" "p + length delivered < length turns"
    and ch: "map tp_TurnID changed = take (length changed) (changeListOf turns params page)" "set changed \<subseteq> set turns"
    and prog: "\<not> ap_first page \<Longrightarrow> delivered = [] \<Longrightarrow> p + 1 = length turns \<and> (changeListOf turns params page \<noteq> [] \<longrightarrow> changed \<noteq> [])"
    using page_shape [OF s op p keys turns] by metis
  define r where "r = closePage proj params page delivered changed (changeListOf turns params page)"
  have anchor: "ap_anchorIdx page < length turns" using op indexOfTurn_Some by (auto simp: opened_def)
  have "set delivered \<subseteq> set turns" using del(1) by (metis set_drop_subset set_take_subset subset_trans)
  then have sent: "set (sentOn turns page delivered changed) \<subseteq> set turns" using ch(2) anchor by (auto simp: sentOn_def)
  have tokens: "stale (mergeTokens (anr_TurnTokens r) (anp_BaseDigests params)) =
      stale (anp_BaseDigests params) - set (sentOn turns page delivered changed)"
    unfolding r_def closePage_tokens [OF s op turns sent] stale_def by (rule staleTurns_merge [OF d sent])
  note pending = closePage_pending [OF s op keys turns ch(1), of delivered, folded r_def]
  have rTurns: "anr_Turns r = delivered" by (simp add: r_def closePage_def Let_def)
  show thesis
  proof (rule that)
    show "sliceAnchorNewerReconciliation marshal sha proj params = Inr r" using slice by (simp add: r_def)
    show "anr_Turns r = take (length (anr_Turns r)) (drop (p + 1) turns)" using del(1) by (simp add: rTurns)
    show "stale (mergeTokens (anr_TurnTokens r) (anp_BaseDigests params)) \<subseteq> stale (anp_BaseDigests params)" by (auto simp: tokens)
  next
    assume "anr_CorrectionsPending r = None"
    then have all: "p + 1 + length delivered \<ge> length turns" "set (changeListOf turns params page) \<subseteq> tp_TurnID ` set changed"
      using pending by auto
    have "delivered = drop (p + 1) turns" using del(1) all(1) by (metis (no_types) add.commute length_drop le_diff_conv take_all)
    with page_complete [OF s op keys _ all(2) ch(2)] tokens
    show "anr_Turns r = drop (p + 1) turns \<and> stale (mergeTokens (anr_TurnTokens r) (anp_BaseDigests params)) = {}"
      by (auto simp: rTurns stale_def)
  next
    fix c m assume pend: "anr_CorrectionsPending r = Some (c, m)"
    then have c: "ans_V c = 1" "ans_LastTurnID c = (if delivered = [] then ans_LastTurnID (ap_cursor page) else tp_TurnID (last delivered))"
      by (auto simp: r_def closePage_def Let_def split: if_splits)
    have "last delivered = turns ! (p + length delivered)" if "delivered \<noteq> []"
    proof -
      have "last delivered = delivered ! (length delivered - 1)" using that by (rule last_conv_nth)
      also have "\<dots> = drop (p + 1) turns ! (length delivered - 1)"
        by (subst del(1)) (use that in simp)
      also have "\<dots> = turns ! (p + 1 + (length delivered - 1))" using del(2) by (intro nth_drop) simp
      finally show ?thesis using that by (simp add: Suc_le_eq)
    qed
    then have last: "ans_LastTurnID c = tp_TurnID (turns ! (p + length delivered))" using c(2) op by (auto simp: opened_def)
    have "delivered \<noteq> [] \<or> card (stale (mergeTokens (anr_TurnTokens r) (anp_BaseDigests params))) < card (stale (anp_BaseDigests params))"
      if cont: "anp_CorrectionCursor params \<noteq> NoCursor"
    proof (cases "delivered = []")
      case True
      have "\<not> ap_first page" using cont op by (simp add: opened_def)
      from prog [OF this True] have n: "p + 1 = length turns" and "changeListOf turns params page \<noteq> [] \<longrightarrow> changed \<noteq> []" by auto
      moreover have "changeListOf turns params page \<noteq> []" using pend pending n True by auto
      ultimately have "changed \<noteq> []" by blast
      then show ?thesis using page_progress [OF s op keys ch, of delivered, folded stale_def] by (simp add: tokens)
    qed simp
    with c(1) last del(2) show "ans_V c = 1 \<and> p + length (anr_Turns r) < length turns
        \<and> ans_LastTurnID c = tp_TurnID (turns ! (p + length (anr_Turns r)))
        \<and> (anp_CorrectionCursor params \<noteq> NoCursor \<longrightarrow> anr_Turns r \<noteq> []
             \<or> card (stale (mergeTokens (anr_TurnTokens r) (anp_BaseDigests params))) < card (stale (anp_BaseDigests params)))"
      by (simp add: rTurns)
  qed
qed

section \<open>Bounds of a page\<close>

definition bytesOf :: "(TurnProjection \<Rightarrow> string option) \<Rightarrow> TurnProjection list \<Rightarrow> int" where
  "bytesOf marshal turns = (\<Sum>turn\<leftarrow>turns. int (length (the (marshal turn))))"

lemma fillTurns_count: "fillTurns limit budget anchorSize onPage consumed xs = (ts, consumed') \<Longrightarrow> int (length ts) \<le> max 0 (limit - int onPage)"
proof (induction xs arbitrary: onPage consumed ts)
  case (Cons x xs)
  obtain turn sz where x: "x = (turn, sz)" by (cases x)
  show ?case
  proof (cases ts)
    case (Cons t ts')
    then have "fillTurns limit budget anchorSize (onPage + 1) (consumed + int sz) xs = (ts', consumed')" "int onPage < limit"
      using Cons.prems x by (auto split: if_splits prod.splits)
    with Cons.IH [OF this(1)] Cons show ?thesis by simp
  qed simp
qed auto

lemma fillChanged_bytes:
  assumes "fillChanged turns (map sz turns) budget anchorSize has consumed ids = Inr (ch, consumed')"
  shows "consumed' = consumed + (\<Sum>t\<leftarrow>ch. int (sz t))"
  using assms
proof (induction ids arbitrary: has consumed ch)
  case (Cons i ids)
  show ?case
  proof (cases "indexOfTurn turns i")
    case None
    then show ?thesis using Cons by simp
  next
    case (Some idx)
    then have idx: "idx < length turns" using indexOfTurn_Some by blast
    show ?thesis
    proof (cases ch)
      case Nil
      then show ?thesis using Cons.prems Some by (auto simp: Let_def rbind_Inr split: if_splits)
    next
      case (Cons t ch')
      then have "t = turns ! idx" and "fillChanged turns (map sz turns) budget anchorSize True (consumed + int (sz (turns ! idx))) ids = Inr (ch', consumed')"
        using Cons.prems Some idx by (auto simp: Let_def rbind_Inr split: if_splits)
      with Cons.IH [OF this(2)] Cons show ?thesis by simp
    qed
  qed
qed simp

lemma sizes_encoded:
  "turnEncodedSizes (\<lambda>turn. map_option length (marshal turn)) turns = Inr sizes \<Longrightarrow> sizes = turnSizes marshal turns"
  by (induction turns arbitrary: sizes) (auto simp: rbind_Inr split: option.splits)

lemma openPage_Inr:
  assumes "openPage marshal sha turns params = Inr page"
  shows "ap_sizes page = turnSizes marshal turns"
    and "\<exists>a. indexOfTurn turns (anp_AnchorTurnID params) = Some a \<and> ap_anchorIdx page = a
          \<and> (ap_first page \<longrightarrow> int (turnSizes marshal turns ! a) \<le> anchorNewerNeverSplitQuota)
          \<and> ap_anchorSize page = (if ap_first page then int (turnSizes marshal turns ! a) else 0)"
    and "ap_budget page = (if ap_first page
          then min anchorNewerPageBudget (anchorNewerTotalHardCapBytes - anchorNewerMandatoryReserve - ap_anchorSize page)
          else anchorNewerPageBudget)"
proof -
  obtain a sizes where o: "indexOfTurn turns (anp_AnchorTurnID params) = Some a"
      "turnEncodedSizes (\<lambda>turn. map_option length (marshal turn)) turns = Inr sizes"
    using assms unfolding openPage_def by (auto split: option.splits sum.splits)
  define first where "first \<longleftrightarrow> anp_CorrectionCursor params = NoCursor"
  obtain st start tokens where settled:
    "(if first \<and> int (sizes ! a) > anchorNewerNeverSplitQuota then Inl AnchorOversized
      else Inr \<lparr>ap_first = first, ap_cursor = st, ap_turnStart = start, ap_anchorIdx = a,
        ap_sizes = sizes, ap_tokens = tokens, ap_anchorSize = (if first then int (sizes ! a) else 0),
        ap_budget = (if first then min anchorNewerPageBudget (anchorNewerTotalHardCapBytes - anchorNewerMandatoryReserve - int (sizes ! a))
          else anchorNewerPageBudget)\<rparr>) = Inr page"
    using assms unfolding openPage_def o option.case sum.case Let_def rbind_Inr first_def by blast
  then have quota: "\<not> (first \<and> int (sizes ! a) > anchorNewerNeverSplitQuota)" by (cases "first \<and> int (sizes ! a) > anchorNewerNeverSplitQuota") simp_all
  have page: "page = \<lparr>ap_first = first, ap_cursor = st, ap_turnStart = start, ap_anchorIdx = a,
        ap_sizes = sizes, ap_tokens = tokens, ap_anchorSize = (if first then int (sizes ! a) else 0),
        ap_budget = (if first then min anchorNewerPageBudget (anchorNewerTotalHardCapBytes - anchorNewerMandatoryReserve - int (sizes ! a))
          else anchorNewerPageBudget)\<rparr>"
    using settled unfolding if_not_P [OF quota] by simp
  have s: "sizes = turnSizes marshal turns" by (rule sizes_encoded [OF o(2)])
  show "ap_sizes page = turnSizes marshal turns" by (simp add: page s)
  show "\<exists>a. indexOfTurn turns (anp_AnchorTurnID params) = Some a \<and> ap_anchorIdx page = a
          \<and> (ap_first page \<longrightarrow> int (turnSizes marshal turns ! a) \<le> anchorNewerNeverSplitQuota)
          \<and> ap_anchorSize page = (if ap_first page then int (turnSizes marshal turns ! a) else 0)"
    using o quota by (auto simp: page s not_less simp del: nth_map)
  show "ap_budget page = (if ap_first page
          then min anchorNewerPageBudget (anchorNewerTotalHardCapBytes - anchorNewerMandatoryReserve - ap_anchorSize page)
          else anchorNewerPageBudget)"
    by (simp add: page)
qed

lemma fillChanged_error: "fillChanged turns sizes budget anchorSize has consumed ids = Inl e \<Longrightarrow> e = AnchorOversized"
proof (induction ids arbitrary: has consumed)
  case (Cons i ids)
  then show ?case by (cases "indexOfTurn turns i")
    (auto simp: Let_def rbind_Inl split: if_splits)
qed simp

text \<open>The loops of one page, from the page that was opened.\<close>

lemma page_filled:
  assumes op: "openPage marshal sha (sp_Turns proj) params = Inr page"
  obtains (page) delivered changed where
      "sliceAnchorNewerReconciliation marshal sha proj params =
         Inr (closePage proj params page delivered changed (changeListOf (sp_Turns proj) params page))"
    and "content_ok (ap_budget page) (ap_anchorSize page) (length (delivered @ changed)) (bytesOf marshal (delivered @ changed))"
    and "int (length delivered) \<le> (if anp_Limit params \<le> 0 then anchorNewerDefaultTurns else anp_Limit params)"
  | (oversized) "sliceAnchorNewerReconciliation marshal sha proj params = Inl AnchorOversized"
proof -
  define turns where "turns = sp_Turns proj"
  define limit where "limit = (if anp_Limit params \<le> 0 then anchorNewerDefaultTurns else anp_Limit params)"
  define start where "start = ap_turnStart page"
  note o = openPage_Inr [OF op, folded turns_def]
  have limit: "limit \<ge> 0" by (simp add: limit_def anchorNewerDefaultTurns_def)
  obtain delivered consumed where fill: "fillTurns limit (ap_budget page) (ap_anchorSize page) 0 0
      (drop start (zip turns (turnSizes marshal turns))) = (delivered, consumed)" by (metis surj_pair)
  have "0 \<le> ap_budget page" using o(2,3) by (auto simp: anchor_budgets)
  then have "content_ok (ap_budget page) (ap_anchorSize page) 0 0" by (simp add: content_ok_def)
  from fillTurns_content [OF fill this]
  have ok: "content_ok (ap_budget page) (ap_anchorSize page) (length delivered) consumed" "delivered = [] \<Longrightarrow> consumed = 0" by auto
  have pairs: "drop start (zip turns (turnSizes marshal turns)) = map (\<lambda>t. (t, length (the (marshal t)))) (drop start turns)"
    by (simp add: zip_map2 zip_same_conv_map drop_map)
  have del: "delivered = take (length delivered) (drop start turns)"
    using fillTurns_spec [OF fill] unfolding pairs take_map map_map comp_def fst_conv list.map_ident by blast
  have "(\<Sum>x\<leftarrow>take (length delivered) (drop start (zip turns (turnSizes marshal turns))). int (snd x))
      = bytesOf marshal (take (length delivered) (drop start turns))"
    unfolding pairs take_map map_map comp_def snd_conv bytesOf_def ..
  also have "\<dots> = bytesOf marshal delivered" by (rule arg_cong [OF del [symmetric]])
  finally have bytes: "consumed = bytesOf marshal delivered" using fillTurns_spec [OF fill] by linarith
  define corrections where "corrections = (if start + length delivered \<ge> length turns
      then fillChanged turns (turnSizes marshal turns) (ap_budget page) (ap_anchorSize page) (delivered \<noteq> []) consumed
             (changeListOf turns params page)
      else Inr ([], consumed))"
  have slice: "sliceAnchorNewerReconciliation marshal sha proj params = rbind corrections (\<lambda>(changed, total).
      if ap_anchorSize page + total + anchorNewerMandatoryReserve > anchorNewerTotalHardCapBytes then Inl AnchorHardCap
      else Inr (closePage proj params page delivered changed (changeListOf turns params page)))"
    unfolding sliceAnchorNewerReconciliation_def Let_def turns_def [symmetric] op [folded turns_def] rbind.simps
      limit_def [symmetric] start_def [symmetric] o(1) fill prod.case corrections_def ..
  show thesis
  proof (cases corrections)
    case (Inl e)
    then have "e = AnchorOversized" by (auto simp: corrections_def dest: fillChanged_error split: if_splits)
    then show thesis using Inl slice oversized by simp
  next
    case (Inr both)
    then obtain changed total where c: "corrections = Inr (changed, total)" by (cases both) auto
    have total: "total = bytesOf marshal (delivered @ changed)"
    proof (cases "start + length delivered \<ge> length turns")
      case True
      then have "fillChanged turns (turnSizes marshal turns) (ap_budget page) (ap_anchorSize page) (delivered \<noteq> []) consumed
             (changeListOf turns params page) = Inr (changed, total)" using c by (simp add: corrections_def)
      from fillChanged_bytes [OF this] show ?thesis by (simp add: bytes bytesOf_def)
    next
      case False
      then show ?thesis using c bytes by (simp add: corrections_def)
    qed
    have content: "content_ok (ap_budget page) (ap_anchorSize page) (length (delivered @ changed)) (bytesOf marshal (delivered @ changed))"
    proof (cases "start + length delivered \<ge> length turns")
      case True
      then have f: "fillChanged turns (turnSizes marshal turns) (ap_budget page) (ap_anchorSize page) (delivered \<noteq> []) consumed
             (changeListOf turns params page) = Inr (changed, total)" using c by (simp add: corrections_def)
      show ?thesis unfolding total [symmetric] length_append by (rule fillChanged_content [OF f ok(1)]) (use ok(2) in auto)
    next
      case False
      then show ?thesis using c ok(1) total [symmetric] by (auto simp: corrections_def)
    qed
    then have "\<not> ap_anchorSize page + total + anchorNewerMandatoryReserve > anchorNewerTotalHardCapBytes"
      using o(2,3) unfolding total by (auto simp: content_ok_def anchor_budgets split: if_splits)
    then have s: "sliceAnchorNewerReconciliation marshal sha proj params =
        Inr (closePage proj params page delivered changed (changeListOf turns params page))" using slice c by simp
    show thesis
      by (rule page [OF s [unfolded turns_def] content]) (use fillTurns_count [OF fill] limit in \<open>simp add: limit_def\<close>)
  qed
qed

lemma tokens_error: "BuildAnchorNewerTurnTokens marshal sha turns = Inl e \<Longrightarrow> e = AnchorEncode"
  by (induction turns) (auto simp: rbind_Inl AnchorNewerTurnToken_def split: option.splits)

lemma openPage_error: "openPage marshal sha turns params = Inl e \<Longrightarrow> e \<noteq> AnchorHardCap"
  by (auto simp: openPage_def Let_def rbind_Inl decodeAnchorNewerCursor_def dest: tokens_error
      split: option.splits sum.splits if_splits correctionCursor.splits)

text \<open>
  Whatever the kernel holds, a page that was filled is never refused by the final check of its size.
  A returned page carries at most 46 MiB of turns, which leaves the 2 MiB reserve below the cap of 48 MiB;
  without the anchor that is at most 8 MiB unless it is a single turn; and it has at most \<open>limit\<close> new turns.
\<close>

theorem anchor_page_bounds:
  "case sliceAnchorNewerReconciliation marshal sha proj params of
     Inl e \<Rightarrow> e \<noteq> AnchorHardCap
   | Inr r \<Rightarrow>
       bytesOf marshal (anr_Turns r @ anr_ChangedTurns r)
         + (case anr_AnchorRefresh r of None \<Rightarrow> 0 | Some anchor \<Rightarrow> bytesOf marshal [anchor])
         + anchorNewerMandatoryReserve \<le> anchorNewerTotalHardCapBytes
     \<and> (bytesOf marshal (anr_Turns r @ anr_ChangedTurns r) \<le> anchorNewerPageBudget
          \<or> length (anr_Turns r @ anr_ChangedTurns r) = 1)
     \<and> int (length (anr_Turns r)) \<le> (if anp_Limit params \<le> 0 then anchorNewerDefaultTurns else anp_Limit params)"
proof (cases "openPage marshal sha (sp_Turns proj) params")
  case (Inl e)
  then have "sliceAnchorNewerReconciliation marshal sha proj params = Inl e" by (simp add: sliceAnchorNewerReconciliation_def)
  then show ?thesis using openPage_error [OF Inl] by simp
next
  case (Inr page)
  note o = openPage_Inr [OF Inr]
  from o(2) obtain a where a: "ap_anchorIdx page = a" "a < length (sp_Turns proj)"
      "ap_first page \<Longrightarrow> int (turnSizes marshal (sp_Turns proj) ! a) \<le> anchorNewerNeverSplitQuota"
      "ap_anchorSize page = (if ap_first page then int (turnSizes marshal (sp_Turns proj) ! a) else 0)"
    using indexOfTurn_Some by blast
  from Inr show ?thesis
  proof (cases rule: page_filled)
    case (page delivered changed)
    have "bytesOf marshal [sp_Turns proj ! a] = int (turnSizes marshal (sp_Turns proj) ! a)" using a(2) by (simp add: bytesOf_def)
    then have anchor: "(case anr_AnchorRefresh (closePage proj params page delivered changed ids) of
        None \<Rightarrow> 0 | Some anchor \<Rightarrow> bytesOf marshal [anchor]) = ap_anchorSize page" for ids
      using a(1,4) by (simp add: closePage_def Let_def)
    have "anr_Turns (closePage proj params page delivered changed ids) = delivered"
      "anr_ChangedTurns (closePage proj params page delivered changed ids) = changed" for ids
      by (simp_all add: closePage_def Let_def)
    then show ?thesis using page(2,3) o(3) a(3,4) unfolding page(1) sum.case anchor
      by (auto simp: content_ok_def anchor_budgets split: if_splits)
  qed simp
qed

section \<open>The whole reconciliation\<close>

text \<open>
  The requests of one reconciliation against a committed projection: the first page, then a request per
  cursor, each with the tokens of the page before in its review set.  \<open>None\<close> when the fuel is used up.
\<close>

definition nextRequest :: "AnchorNewerParams \<Rightarrow> AnchorNewerResult \<Rightarrow> anchorNewerCursorState \<Rightarrow> AnchorNewerParams" where
  "nextRequest params r c = params\<lparr>anp_CorrectionCursor := Cursor c, anp_BaseDigests := mergeTokens (anr_TurnTokens r) (anp_BaseDigests params)\<rparr>"

fun reconcile ::
  "nat \<Rightarrow> (TurnProjection \<Rightarrow> string option) \<Rightarrow> (string \<Rightarrow> string) \<Rightarrow> SessionProjection \<Rightarrow> AnchorNewerParams \<Rightarrow>
     (anchorError, TurnProjection list \<times> (string \<times> string option) list) result option" where
  "reconcile 0 marshal sha proj params = None"
| "reconcile (Suc fuel) marshal sha proj params =
     (case sliceAnchorNewerReconciliation marshal sha proj params of
        Inl e \<Rightarrow> Some (Inl e)
      | Inr r \<Rightarrow>
          (case anr_CorrectionsPending r of
             None \<Rightarrow> Some (Inr (anr_Turns r, mergeTokens (anr_TurnTokens r) (anp_BaseDigests params)))
           | Some (c, remaining) \<Rightarrow>
               map_option (\<lambda>outcome. rbind outcome (\<lambda>(chain, digests). Inr (anr_Turns r @ chain, digests)))
                 (reconcile fuel marshal sha proj (nextRequest params r c))))"

lemma atPosition_next:
  assumes "atPosition turns params p" and "ans_V c = 1" and "q < length turns" and "ans_LastTurnID c = tp_TurnID (turns ! q)"
  shows "atPosition turns (nextRequest params r c) q"
  using assms by (auto simp: atPosition_def nextRequest_def)

lemma reconcile_pages:
  assumes s: "sliceable marshal turns" and turns: "turns = sp_Turns proj"
    and at: "atPosition turns params p" and keys: "distinct (map fst (anp_BaseDigests params))"
    and fuel: "length turns - 1 - p + card (staleTurns (tokOf marshal sha) turns (anp_BaseDigests params))
      + (if anp_CorrectionCursor params = NoCursor then 1 else 0) < fuel"
  shows "\<exists>digests. reconcile fuel marshal sha proj params = Some (Inr (drop (p + 1) turns, digests))
    \<and> staleTurns (tokOf marshal sha) turns digests = {}"
  using at keys fuel
proof (induction fuel arbitrary: params p)
  case (Suc fuel)
  let ?stale = "staleTurns (tokOf marshal sha) turns"
  obtain r where slice: "sliceAnchorNewerReconciliation marshal sha proj params = Inr r"
    and sent: "anr_Turns r = take (length (anr_Turns r)) (drop (p + 1) turns)"
    and fewer: "?stale (mergeTokens (anr_TurnTokens r) (anp_BaseDigests params)) \<subseteq> ?stale (anp_BaseDigests params)"
    and complete: "anr_CorrectionsPending r = None \<Longrightarrow>
          anr_Turns r = drop (p + 1) turns \<and> ?stale (mergeTokens (anr_TurnTokens r) (anp_BaseDigests params)) = {}"
    and pend: "\<And>c m. anr_CorrectionsPending r = Some (c, m) \<Longrightarrow>
          ans_V c = 1 \<and> p + length (anr_Turns r) < length turns \<and> ans_LastTurnID c = tp_TurnID (turns ! (p + length (anr_Turns r)))
          \<and> (anp_CorrectionCursor params \<noteq> NoCursor \<longrightarrow> anr_Turns r \<noteq> []
               \<or> card (?stale (mergeTokens (anr_TurnTokens r) (anp_BaseDigests params))) < card (?stale (anp_BaseDigests params)))"
    by (fact page_step [OF s Suc.prems(1,2) turns])
  show ?case
  proof (cases "anr_CorrectionsPending r")
    case None
    then show ?thesis using slice complete by simp
  next
    case (Some cm)
    then obtain c m where cm: "anr_CorrectionsPending r = Some (c, m)" by (cases cm) auto
    note c = pend [OF cm]
    let ?next = "nextRequest params r c" and ?q = "p + length (anr_Turns r)"
    have base: "anp_BaseDigests ?next = mergeTokens (anr_TurnTokens r) (anp_BaseDigests params)"
      and cont: "anp_CorrectionCursor ?next \<noteq> NoCursor" by (simp_all add: nextRequest_def)
    have at': "atPosition turns ?next ?q" by (rule atPosition_next [OF Suc.prems(1)]) (use c in auto)
    have keys': "distinct (map fst (anp_BaseDigests ?next))" unfolding base by (rule mergeTokens_distinct [OF Suc.prems(2)])
    have le: "card (?stale (anp_BaseDigests ?next)) \<le> card (?stale (anp_BaseDigests params))"
      unfolding base by (rule card_mono [OF finite_stale fewer])
    have "length turns - 1 - ?q + card (?stale (anp_BaseDigests ?next)) < fuel"
    proof (cases "anp_CorrectionCursor params = NoCursor")
      case True
      then show ?thesis using Suc.prems(3) le by simp
    next
      case False
      then have "anr_Turns r \<noteq> [] \<or> card (?stale (anp_BaseDigests ?next)) < card (?stale (anp_BaseDigests params))"
        using c unfolding base by blast
      moreover have "?q < length turns" using c by simp
      ultimately show ?thesis using Suc.prems(3) le False by (cases "anr_Turns r") auto
    qed
    then obtain digests where rest: "reconcile fuel marshal sha proj ?next = Some (Inr (drop (?q + 1) turns, digests))" "?stale digests = {}"
      using Suc.IH [OF at' keys'] cont by auto
    have "anr_Turns r @ drop (?q + 1) turns = drop (p + 1) turns"
    proof -
      have "anr_Turns r @ drop (length (anr_Turns r)) (drop (p + 1) turns) = drop (p + 1) turns"
        using append_take_drop_id [of "length (anr_Turns r)" "drop (p + 1) turns"] unfolding sent [symmetric] .
      then show ?thesis unfolding drop_drop by (simp add: add.commute)
    qed
    then show ?thesis using slice cm rest by simp
  qed
qed simp


section \<open>A turn over the quota\<close>

text \<open>
  Only the anchor and the changed turns are checked against the 46 MiB quota.  A new turn over it fits no
  page: the page comes back empty, with the cursor it was asked with.
\<close>

definition stuckAt :: "(TurnProjection \<Rightarrow> string option) \<Rightarrow> TurnProjection list \<Rightarrow> AnchorNewerParams \<Rightarrow> anchorNewerCursorState \<Rightarrow> nat \<Rightarrow> bool" where
  "stuckAt marshal turns params st p \<longleftrightarrow>
     (\<forall>turn\<in>set turns. tp_TurnID turn \<noteq> [] \<and> marshal turn \<noteq> None) \<and> indexOfTurn turns (anp_AnchorTurnID params) \<noteq> None
     \<and> anp_CorrectionCursor params = Cursor st \<and> ans_V st = 1 \<and> indexOfTurn turns (ans_LastTurnID st) = Some p
     \<and> p + 1 < length turns \<and> int (length (the (marshal (turns ! (p + 1))))) > anchorNewerNeverSplitQuota"

lemma stuck_page:
  assumes "stuckAt marshal (sp_Turns proj) params st p"
  obtains r m where "sliceAnchorNewerReconciliation marshal sha proj params = Inr r"
    and "anr_Turns r = []" and "anr_TurnTokens r = []" and "anr_CorrectionsPending r = Some (st, m)"
proof -
  define turns where "turns = sp_Turns proj"
  note stuck = assms [folded turns_def, unfolded stuckAt_def]
  obtain a where a: "indexOfTurn turns (anp_AnchorTurnID params) = Some a" using stuck by auto
  have enc: "turnEncodedSizes (\<lambda>turn. map_option length (marshal turn)) turns = Inr (turnSizes marshal turns)"
    using sizes_ok [of turns "\<lambda>turn. map_option length (marshal turn)"] stuck sizes_encoded by fastforce
  obtain i where i: "indexOfTurn turns (ans_LastTurnID st) = Some i" "i = p" using stuck by blast
  have ne: "ans_LastTurnID st \<noteq> []" using indexOfTurn_Some [OF i(1)] stuck by (metis nth_mem)
  obtain tokens where tok: "BuildAnchorNewerTurnTokens marshal sha turns = Inr tokens" using tokens_built stuck by blast
  let ?page = "\<lparr>ap_first = False, ap_cursor = st, ap_turnStart = p + 1, ap_anchorIdx = a, ap_sizes = turnSizes marshal turns,
      ap_tokens = tokens, ap_anchorSize = 0, ap_budget = anchorNewerPageBudget\<rparr>"
  have op: "openPage marshal sha turns params = Inr ?page"
    unfolding openPage_def a option.case enc sum.case Let_def
    using stuck i ne tok by (simp add: decodeAnchorNewerCursor_def)
  have "drop (p + 1) (zip turns (turnSizes marshal turns)) =
      (turns ! (p + 1), length (the (marshal (turns ! (p + 1))))) # drop (p + 2) (zip turns (turnSizes marshal turns))"
    using stuck by (simp add: Cons_nth_drop_Suc [symmetric])
  moreover have "fillTurns limit anchorNewerPageBudget 0 0 0
      ((turns ! (p + 1), length (the (marshal (turns ! (p + 1))))) # rest) = ([], 0)" for limit rest
    using stuck by (auto simp: neverSplitFits_def anchor_budgets)
  ultimately have fill: "fillTurns limit anchorNewerPageBudget 0 0 0 (drop (p + 1) (zip turns (turnSizes marshal turns))) = ([], 0)" for limit
    by simp
  let ?r = "closePage proj params ?page [] [] (changeListOf turns params ?page)"
  show thesis
  proof (rule that [of ?r])
    show "sliceAnchorNewerReconciliation marshal sha proj params = Inr ?r"
      using stuck unfolding sliceAnchorNewerReconciliation_def Let_def turns_def [symmetric] op rbind.simps anchorPage.simps fill prod.case
      by (simp add: anchor_budgets)
    show "anr_Turns ?r = []" "anr_TurnTokens ?r = []" by (simp_all add: closePage_def Let_def)
    show "anr_CorrectionsPending ?r = Some (st, length turns - (p + 1) +
        length (filter (\<lambda>c. c \<notin> tp_TurnID ` set [] \<and> tokenOf tokens c \<noteq> None) (changeListOf turns params ?page)))"
      using stuck by (simp add: closePage_def Let_def turns_def)
  qed
qed


section \<open>Witnesses\<close>

definition anchorDemo :: SessionProjection where
  "anchorDemo = \<lparr>sp_SyncRev = 3, sp_Turns = [\<lparr>tp_TurnID = ''a'', tp_Body = 0\<rparr>, \<lparr>tp_TurnID = ''b'', tp_Body = 1\<rparr>, \<lparr>tp_TurnID = ''c'', tp_Body = 2\<rparr>],
     sp_Scalars = 0\<rparr>"

definition firstRequest :: AnchorNewerParams where
  "firstRequest = \<lparr>anp_AnchorTurnID = ''b'', anp_BaseDigests = [(''a'', None), (''b'', Some ''old'')], anp_Limit = 1, anp_CorrectionCursor = NoCursor\<rparr>"

definition stuckRequest :: AnchorNewerParams where
  "stuckRequest = firstRequest\<lparr>anp_CorrectionCursor := Cursor \<lparr>ans_V = 1, ans_LastTurnID = ''b'', ans_ChangedThrough = []\<rparr>\<rparr>"



end
