(* ===== verification/Projection_Pull.thy ===== *)
theory Projection_Pull
  imports Projection_Delivery Anchor_Newer
begin

text \<open>
  The four requests that pull a session projection: the whole projection or the patches since a revision
  (\<^verbatim>\<open>handlers_projection.go\<close>), a window of it (\<^verbatim>\<open>projection_window_handler.go\<close>), a window of summaries
  (\<^verbatim>\<open>projection_window_v2_handler.go\<close>) and the turns behind an anchor (\<^verbatim>\<open>projection_anchor_newer_handler.go\<close>).

  A handler checks the request, waits until the projection is hydrated, begins a pull at the publisher,
  slices the snapshot and completes the pull.  It holds no lock in between, so that it is three pieces here:
  the checks, the admission and the answer; what other requests do to the publisher meanwhile is a run of it.
  Whether the parameters decode, what the hello negotiated, the outcome of the hydration, the snapshot and the
  transfer limit are the environment of a request.  The messages of errors are left out, and so are the
  subscription and the relays that a handler starts.
\<close>

section \<open>Requests\<close>

text \<open>The code of an error and whether it can be retried.\<close>

type_synonym wireError = "string \<times> bool option"

datatype hydrateError = Hydrating | BackendNotMigrated | SessionNotFound | HydrateFailed bool

datatype upstreamError = UpstreamCursorStale | UpstreamFailed

record projectionRequest =
  pq_RequestID :: string
  pq_BackendID :: string
  pq_SessionID :: string

record pullEnv =
  pv_paramsDecode :: bool
  pv_negotiated :: bool
  pv_hydrate :: "hydrateError option"
  pv_olderFact :: bool
  pv_upstream :: "(upstreamError, bool) result"
  pv_snapshot :: "SessionProjection option"
  pv_maxBytes :: int

definition hydrateRefusal :: "hydrateError \<Rightarrow> wireError" where
  "hydrateRefusal e =
     (case e of
        Hydrating \<Rightarrow> (''projection.hydrating'', Some True)
      | BackendNotMigrated \<Rightarrow> (''projection.not_migrated'', Some False)
      | SessionNotFound \<Rightarrow> (''projection.not_found'', Some False)
      | HydrateFailed retryable \<Rightarrow> (''projection.hydrate_failed'', Some False))"

text \<open>Only the pull of the whole projection asks the kernel whether a failure can be retried.\<close>

definition fullHydrateRefusal :: "hydrateError \<Rightarrow> wireError" where
  "fullHydrateRefusal e =
     (case e of HydrateFailed retryable \<Rightarrow> (''projection.hydrate_failed'', Some retryable) | _ \<Rightarrow> hydrateRefusal e)"

section \<open>Windows\<close>

definition isWindowDirection :: "string \<Rightarrow> bool" where
  "isWindowDirection direction \<longleftrightarrow> direction \<in> {''window_0'', ''older'', ''newer'', ''latest'', ''locate''}"

definition sliceRefusal :: "windowError \<Rightarrow> wireError" where
  "sliceRefusal e =
     (case e of
        ScopeMismatch \<Rightarrow> (''projection_window.cursor_scope_mismatch'', Some False)
      | CursorStale \<Rightarrow> (''cursor_stale'', Some True)
      | LocateOut \<Rightarrow> (''projection_window.locate_out_of_window'', Some False)
      | _ \<Rightarrow> (''rpc.error'', Some False))"

definition cursorRefusal :: "string \<Rightarrow> string \<Rightarrow> string \<Rightarrow> GetSessionProjectionWindowParams \<Rightarrow> wireError option" where
  "cursorRefusal backendID sessionID bridgeEpoch params =
     (if gwp_Direction params = ''older'' \<or> gwp_Direction params = ''newer''
      then case decodeProjectionWindowCursor (gwp_Cursor params) of
             Inl e \<Rightarrow> Some (''cursor_stale'', Some True)
           | Inr cursor \<Rightarrow>
               (case validateProjectionWindowCursorScope cursor backendID sessionID bridgeEpoch of
                  Inl CursorStale \<Rightarrow> Some (''cursor_stale'', Some True)
                | Inl e \<Rightarrow> Some (''projection_window.cursor_scope_mismatch'', Some False)
                | Inr ok \<Rightarrow> None)
      else None)"

definition windowChecks ::
  "pullEnv \<Rightarrow> string \<Rightarrow> projectionRequest \<Rightarrow> GetSessionProjectionWindowParams \<Rightarrow> wireError option" where
  "windowChecks env bridgeEpoch request params =
     (if \<not> pv_paramsDecode env then Some (''invalid_params'', None)
      else if \<not> pv_negotiated env then Some (''protocol.capability_required'', Some False)
      else if \<not> isWindowDirection (gwp_Direction params) then Some (''invalid_params'', None)
      else if gwp_Limit params > maxWindowTurns then Some (''projection_window.limit_exceeded'', Some False)
      else case cursorRefusal (pq_BackendID request) (pq_SessionID request) bridgeEpoch params of
             Some e \<Rightarrow> Some e
           | None \<Rightarrow> map_option hydrateRefusal (pv_hydrate env))"

definition isClaude :: "string \<Rightarrow> bool" where
  "isClaude backendID \<longleftrightarrow> backendID = ''claude'' \<or> backendID = ''claudecode''"

definition windowV2Checks ::
  "pullEnv \<Rightarrow> string \<Rightarrow> projectionRequest \<Rightarrow> string \<Rightarrow> GetSessionProjectionWindowParams \<Rightarrow> wireError option" where
  "windowV2Checks env bridgeEpoch request itemsView params =
     (if \<not> pv_paramsDecode env then Some (''invalid_params'', None)
      else if \<not> pv_negotiated env then Some (''protocol.capability_required'', Some False)
      else if \<not> isClaude (pq_BackendID request) then Some (''invalid_params'', Some False)
      else if itemsView \<noteq> ''summary'' \<and> itemsView \<noteq> ''full'' then Some (''invalid_params'', None)
      else if \<not> isWindowDirection (gwp_Direction params) then Some (''invalid_params'', None)
      else if gwp_Limit params > maxWindowTurns then Some (''projection_window.limit_exceeded'', Some False)
      else case cursorRefusal (pq_BackendID request) (pq_SessionID request) bridgeEpoch params of
             Some e \<Rightarrow> Some e
           | None \<Rightarrow> map_option hydrateRefusal (pv_hydrate env))"

text \<open>What is known of turns older than the projection; an older page hydrates them first.\<close>

definition olderUpstream :: "pullEnv \<Rightarrow> GetSessionProjectionWindowParams \<Rightarrow> (wireError, bool) result" where
  "olderUpstream env params =
     (if gwp_Direction params = ''older''
      then case pv_upstream env of
             Inl UpstreamCursorStale \<Rightarrow> Inl (''cursor_stale'', Some True)
           | Inl UpstreamFailed \<Rightarrow> Inl (''projection.hydrate_failed'', None)
           | Inr hydrated \<Rightarrow> Inr hydrated
      else Inr (pv_olderFact env))"

definition admitSnapshot ::
  "pullEnv \<Rightarrow> nat \<Rightarrow> projectionRequest \<Rightarrow> EventPublisher
   \<Rightarrow> (wireError, SessionProjection \<times> ProjectionSnapshotAdmission) result \<times> EventPublisher" where
  "admitSnapshot env conn request p =
     (case BeginProjectionSnapshot conn (pq_BackendID request) (pq_SessionID request) (pv_snapshot env) p of
        (Inl e, q) \<Rightarrow> (Inl (''projection.not_ready'', None), q)
      | (Inr admitted, q) \<Rightarrow> (Inr admitted, q))"

definition windowAdmit ::
  "pullEnv \<Rightarrow> nat \<Rightarrow> projectionRequest \<Rightarrow> GetSessionProjectionWindowParams \<Rightarrow> EventPublisher
   \<Rightarrow> (wireError, (SessionProjection \<times> ProjectionSnapshotAdmission) \<times> bool) result \<times> EventPublisher" where
  "windowAdmit env conn request params p =
     (case olderUpstream env params of
        Inl e \<Rightarrow> (Inl e, p)
      | Inr older \<Rightarrow>
          (case admitSnapshot env conn request p of
             (Inl e, q) \<Rightarrow> (Inl e, q)
           | (Inr admitted, q) \<Rightarrow> (Inr (admitted, older), q)))"

text \<open>Completing a pull: what was sent, a typed error or data with the turns the client then holds.\<close>

definition answerPull ::
  "(string \<Rightarrow> string) \<Rightarrow> nat \<Rightarrow> projectionRequest \<Rightarrow> ProjectionSnapshotAdmission \<Rightarrow> (wireError, string list) result
   \<Rightarrow> EventPublisher \<Rightarrow> (fenceError, unit) result \<times> EventPublisher" where
  "answerPull idOf conn request admission answer p =
     (case answer of
        Inl e \<Rightarrow> completeProjectionSnapshot idOf conn admission (pq_RequestID request) [] True p
      | Inr held \<Rightarrow> completeProjectionSnapshot idOf conn admission (pq_RequestID request) held False p)"

definition windowAnswer ::
  "(TurnProjection \<Rightarrow> nat option) \<Rightarrow> string \<Rightarrow> projectionRequest \<Rightarrow> GetSessionProjectionWindowParams
   \<Rightarrow> SessionProjection \<Rightarrow> bool \<Rightarrow> u64 \<Rightarrow> (wireError, string list) result \<times> u64" where
  "windowAnswer enc bridgeEpoch request params projection older generation =
     (case sliceProjectionWindowWithUpstream enc (pq_BackendID request) (pq_SessionID request) bridgeEpoch projection params older generation of
        (Inl e, g) \<Rightarrow> (Inl (sliceRefusal e), g)
      | (Inr response, g) \<Rightarrow> (Inr (map tp_TurnID (pwr_Turns response)), g))"

text \<open>The summaries of turns are an argument: \<open>None\<close>, or why they could not be made.\<close>

datatype summaryError = SummaryOversized | SummaryEncode

definition summaryRefusal :: "summaryError \<Rightarrow> wireError" where
  "summaryRefusal e = (case e of SummaryOversized \<Rightarrow> (''summary.oversized'', Some False) | SummaryEncode \<Rightarrow> (''rpc.error'', Some False))"

definition windowV2Answer ::
  "(TurnProjection \<Rightarrow> nat option) \<Rightarrow> (TurnProjection list \<Rightarrow> int \<Rightarrow> summaryError option) \<Rightarrow> pullEnv \<Rightarrow> string \<Rightarrow> projectionRequest \<Rightarrow> string
   \<Rightarrow> GetSessionProjectionWindowParams \<Rightarrow> SessionProjection \<Rightarrow> bool \<Rightarrow> u64 \<Rightarrow> (wireError, string list) result \<times> u64" where
  "windowV2Answer enc summarize env bridgeEpoch request itemsView params projection older generation =
     (let summarySizes = (if itemsView = ''summary'' then Some (map (\<lambda>_. 10 * 1024) (sp_Turns projection)) else None)
      in case sliceProjectionWindowWithBudget enc (pq_BackendID request) (pq_SessionID request) bridgeEpoch projection params older
                summarySizes generation of
           (Inl e, g) \<Rightarrow> (Inl (sliceRefusal e), g)
         | (Inr response, g) \<Rightarrow>
             let held = map tp_TurnID (pwr_Turns response)
             in if itemsView = ''full'' then (Inr held, g)
                else (case summarize (pwr_Turns response) (pv_maxBytes env) of
                        Some e \<Rightarrow> (Inl (summaryRefusal e), g)
                      | None \<Rightarrow> (Inr held, g)))"

section \<open>Behind an anchor\<close>

definition anchorNewerMaxDigestEntries :: nat where "anchorNewerMaxDigestEntries = 256"

definition anchorChecks :: "pullEnv \<Rightarrow> AnchorNewerParams \<Rightarrow> wireError option" where
  "anchorChecks env params =
     (if \<not> pv_paramsDecode env then Some (''invalid_params'', None)
      else if \<not> pv_negotiated env then Some (''protocol.capability_required'', Some False)
      else if anp_AnchorTurnID params = [] then Some (''invalid_params'', None)
      else if length (anp_BaseDigests params) > anchorNewerMaxDigestEntries then Some (''invalid_params'', Some False)
      else if anp_Limit params > maxWindowTurns then Some (''projection_window.limit_exceeded'', Some False)
      else map_option hydrateRefusal (pv_hydrate env))"

text \<open>The form of the items is checked when the pull has begun.\<close>

definition anchorAdmit ::
  "pullEnv \<Rightarrow> nat \<Rightarrow> projectionRequest \<Rightarrow> string \<Rightarrow> EventPublisher
   \<Rightarrow> (wireError, SessionProjection \<times> ProjectionSnapshotAdmission) result \<times> EventPublisher" where
  "anchorAdmit env conn request itemsView p =
     (case admitSnapshot env conn request p of
        (Inl e, q) \<Rightarrow> (Inl e, q)
      | (Inr admitted, q) \<Rightarrow>
          if itemsView = ''summary'' \<and> \<not> isClaude (pq_BackendID request) then (Inl (''invalid_params'', Some False), q)
          else if itemsView \<noteq> [] \<and> itemsView \<noteq> ''summary'' then (Inl (''invalid_params'', None), q)
          else (Inr admitted, q))"

definition anchorRefusal :: "anchorError \<Rightarrow> wireError" where
  "anchorRefusal e =
     (case e of
        AnchorStale \<Rightarrow> (''cursor_stale'', Some True)
      | AnchorOversized \<Rightarrow> (''reconciliation.oversized'', Some False)
      | AnchorCursor \<Rightarrow> (''cursor_stale'', Some True)
      | _ \<Rightarrow> (''rpc.error'', Some False))"

definition anchorSummaries ::
  "(TurnProjection list \<Rightarrow> int \<Rightarrow> summaryError option) \<Rightarrow> int \<Rightarrow> AnchorNewerResult \<Rightarrow> summaryError option" where
  "anchorSummaries summarize maxBytes page =
     (case summarize (anr_Turns page) maxBytes of
        Some e \<Rightarrow> Some e
      | None \<Rightarrow>
          (case summarize (anr_ChangedTurns page) maxBytes of
             Some e \<Rightarrow> Some e
           | None \<Rightarrow> (case anr_AnchorRefresh page of None \<Rightarrow> None | Some turn \<Rightarrow> summarize [turn] maxBytes)))"

definition anchorAnswer ::
  "(TurnProjection \<Rightarrow> string option) \<Rightarrow> (string \<Rightarrow> string) \<Rightarrow> (TurnProjection list \<Rightarrow> int \<Rightarrow> summaryError option) \<Rightarrow> pullEnv \<Rightarrow> string
   \<Rightarrow> AnchorNewerParams \<Rightarrow> SessionProjection \<Rightarrow> (wireError, string list) result" where
  "anchorAnswer marshal sha summarize env itemsView params projection =
     (case sliceAnchorNewerReconciliation marshal sha projection params of
        Inl e \<Rightarrow> Inl (anchorRefusal e)
      | Inr page \<Rightarrow>
          (case (if itemsView = ''summary'' then anchorSummaries summarize (pv_maxBytes env) page else None) of
             Some e \<Rightarrow> Inl (summaryRefusal e)
           | None \<Rightarrow> Inr (map tp_TurnID (anr_Turns page) @ map tp_TurnID (anr_ChangedTurns page)
                        @ (case anr_AnchorRefresh page of None \<Rightarrow> [] | Some turn \<Rightarrow> [tp_TurnID turn]))))"

section \<open>The whole projection\<close>

datatype fullAnswer =
  DeltaAtHead
| Delta "ProjectionPatch list"
| FullOversized
| FullSnapshot string

definition fullReason :: "int \<Rightarrow> ProjectionResumeSelection \<Rightarrow> string" where
  "fullReason sinceRev selection =
     (if sinceRev > 0
      then if prs_EpochChanged selection then ''epoch_change''
           else if prs_FallbackReason selection = Some ProjectionResumeLimit then ''limit''
           else ''journal_gap''
      else ''cold'')"

definition selectFullAnswer ::
  "(TurnProjection \<Rightarrow> nat option) \<Rightarrow> int \<Rightarrow> int \<Rightarrow> SessionProjection \<Rightarrow> ProjectionResumeSelection \<Rightarrow> fullAnswer" where
  "selectFullAnswer enc maxBytes sinceRev projection selection =
     (if sinceRev \<noteq> 0 \<and> sinceRev = sp_SyncRev projection \<and> \<not> prs_EpochChanged selection then DeltaAtHead
      else if sinceRev \<noteq> 0 \<and> prs_Available selection \<and> prs_Patches selection \<noteq> [] then Delta (prs_Patches selection)
      else case turnEncodedSizes enc (sp_Turns projection) of
             Inr sizes \<Rightarrow> if 1048576 + int (sum_list sizes) > maxBytes then FullOversized else FullSnapshot (fullReason sinceRev selection)
           | Inl e \<Rightarrow> FullSnapshot (fullReason sinceRev selection))"

definition fullAdmit ::
  "instant \<Rightarrow> pullEnv \<Rightarrow> nat \<Rightarrow> projectionRequest \<Rightarrow> int \<Rightarrow> EventPublisher
   \<Rightarrow> ((wireError, SessionProjection \<times> ProjectionSnapshotAdmission \<times> ProjectionResumeSelection) result \<times> EventPublisher) option" where
  "fullAdmit now env conn request sinceRev p =
     map_option (\<lambda>r. case r of (Inl e, q) \<Rightarrow> (Inl (''projection.not_ready'', None), q) | (Inr admitted, q) \<Rightarrow> (Inr admitted, q))
       (BeginProjectionSnapshotWithResume now conn (pq_BackendID request) (pq_SessionID request) sinceRev (pv_snapshot env) p)"

definition fullWireAnswer :: "fullAnswer \<Rightarrow> (wireError, string list) result" where
  "fullWireAnswer answer = (case answer of FullOversized \<Rightarrow> Inl (''full.oversized'', Some False) | _ \<Rightarrow> Inr [])"

section \<open>The handlers\<close>

datatype pullOutcome = Refused wireError | Answered "(fenceError, unit) result"

text \<open>From the admission on; \<open>meanwhile\<close> is what happens to the publisher before the answer.\<close>

definition servePull ::
  "(EventPublisher \<Rightarrow> ((wireError, 'a) result \<times> EventPublisher) option) \<Rightarrow> ('a \<Rightarrow> EventPublisher \<Rightarrow> (fenceError, unit) result \<times> EventPublisher)
   \<Rightarrow> (EventPublisher \<Rightarrow> EventPublisher option) \<Rightarrow> EventPublisher \<Rightarrow> (pullOutcome \<times> EventPublisher) option" where
  "servePull admit answer meanwhile p =
     Option.bind (admit p) (\<lambda>(r, q).
       case r of
         Inl e \<Rightarrow> Some (Refused e, q)
       | Inr pending \<Rightarrow> map_option (\<lambda>q1. let (a, q2) = answer pending q1 in (Answered a, q2)) (meanwhile q))"

definition serveWindow ::
  "(TurnProjection \<Rightarrow> nat option) \<Rightarrow> (string \<Rightarrow> string) \<Rightarrow> pullEnv \<Rightarrow> nat \<Rightarrow> projectionRequest \<Rightarrow> GetSessionProjectionWindowParams \<Rightarrow> u64
   \<Rightarrow> (EventPublisher \<Rightarrow> EventPublisher option) \<Rightarrow> EventPublisher \<Rightarrow> (pullOutcome \<times> EventPublisher) option" where
  "serveWindow enc idOf env conn request params generation meanwhile p =
     servePull (\<lambda>q. Some (windowAdmit env conn request params q))
       (\<lambda>((projection, admission), older). answerPull idOf conn request admission
          (fst (windowAnswer enc (ep_bridgeEpoch p) request params projection older generation))) meanwhile p"

definition serveWindowV2 ::
  "(TurnProjection \<Rightarrow> nat option) \<Rightarrow> (TurnProjection list \<Rightarrow> int \<Rightarrow> summaryError option) \<Rightarrow> (string \<Rightarrow> string) \<Rightarrow> pullEnv \<Rightarrow> nat
   \<Rightarrow> projectionRequest \<Rightarrow> string \<Rightarrow> GetSessionProjectionWindowParams \<Rightarrow> u64
   \<Rightarrow> (EventPublisher \<Rightarrow> EventPublisher option) \<Rightarrow> EventPublisher \<Rightarrow> (pullOutcome \<times> EventPublisher) option" where
  "serveWindowV2 enc summarize idOf env conn request itemsView params generation meanwhile p =
     servePull (\<lambda>q. Some (windowAdmit env conn request params q))
       (\<lambda>((projection, admission), older). answerPull idOf conn request admission
          (fst (windowV2Answer enc summarize env (ep_bridgeEpoch p) request itemsView params projection older generation))) meanwhile p"

definition serveAnchor ::
  "(TurnProjection \<Rightarrow> string option) \<Rightarrow> (string \<Rightarrow> string) \<Rightarrow> (TurnProjection list \<Rightarrow> int \<Rightarrow> summaryError option) \<Rightarrow> (string \<Rightarrow> string) \<Rightarrow> pullEnv \<Rightarrow> nat
   \<Rightarrow> projectionRequest \<Rightarrow> string \<Rightarrow> AnchorNewerParams
   \<Rightarrow> (EventPublisher \<Rightarrow> EventPublisher option) \<Rightarrow> EventPublisher \<Rightarrow> (pullOutcome \<times> EventPublisher) option" where
  "serveAnchor marshal sha summarize idOf env conn request itemsView params meanwhile p =
     servePull (\<lambda>q. Some (anchorAdmit env conn request itemsView q))
       (\<lambda>(projection, admission). answerPull idOf conn request admission
          (anchorAnswer marshal sha summarize env itemsView params projection)) meanwhile p"

definition serveFull ::
  "(TurnProjection \<Rightarrow> nat option) \<Rightarrow> (string \<Rightarrow> string) \<Rightarrow> instant \<Rightarrow> pullEnv \<Rightarrow> nat \<Rightarrow> projectionRequest \<Rightarrow> int
   \<Rightarrow> (EventPublisher \<Rightarrow> EventPublisher option) \<Rightarrow> EventPublisher \<Rightarrow> (pullOutcome \<times> EventPublisher) option" where
  "serveFull enc idOf now env conn request sinceRev meanwhile p =
     servePull (fullAdmit now env conn request sinceRev)
       (\<lambda>(projection, admission, selection). answerPull idOf conn request admission
          (fullWireAnswer (selectFullAnswer enc (pv_maxBytes env) sinceRev projection selection))) meanwhile p"

text \<open>The handlers as a whole: the checks, the delivery mode, what happens \<open>before\<close> the admission, and the pull.\<close>

definition pullAfterChecks ::
  "wireError option \<Rightarrow> nat \<Rightarrow> projectionRequest \<Rightarrow> (EventPublisher \<Rightarrow> EventPublisher option)
   \<Rightarrow> (EventPublisher \<Rightarrow> (pullOutcome \<times> EventPublisher) option) \<Rightarrow> EventPublisher \<Rightarrow> (pullOutcome \<times> EventPublisher) option" where
  "pullAfterChecks checked conn request before serve p =
     (case checked of
        Some e \<Rightarrow> Some (Refused e, p)
      | None \<Rightarrow> Option.bind (before (SetConnProjectionDeliveryMode conn (pq_BackendID request) (pq_SessionID request) ProjectionDeliveryWindow p)) serve)"

definition handleGetSessionProjectionWindow where
  "handleGetSessionProjectionWindow enc idOf env conn request params generation before meanwhile p =
     pullAfterChecks (windowChecks env (ep_bridgeEpoch p) request params) conn request before
       (serveWindow enc idOf env conn request params generation meanwhile) p"

definition handleGetSessionProjectionWindowV2 where
  "handleGetSessionProjectionWindowV2 enc summarize idOf env conn request itemsView params generation before meanwhile p =
     pullAfterChecks (windowV2Checks env (ep_bridgeEpoch p) request itemsView params) conn request before
       (serveWindowV2 enc summarize idOf env conn request itemsView params generation meanwhile) p"

definition handleGetSessionProjectionAnchorNewer where
  "handleGetSessionProjectionAnchorNewer marshal sha summarize idOf env conn request itemsView params before meanwhile p =
     pullAfterChecks (anchorChecks env params) conn request before
       (serveAnchor marshal sha summarize idOf env conn request itemsView params meanwhile) p"

definition handleGetSessionProjection where
  "handleGetSessionProjection enc idOf now env conn request sinceRev meanwhile p =
     (case map_option fullHydrateRefusal (pv_hydrate env) of
        Some e \<Rightarrow> Some (Refused e, p)
      | None \<Rightarrow> serveFull enc idOf now env conn request sinceRev meanwhile p)"

section \<open>A pull lifts its fence\<close>

lemma completion_releases:
  "case completeProjectionSnapshot idOf conn admission requestID held failed p of
     (r, q) \<Rightarrow> requestID = [] \<or> ep_fences q (conn, psa_BackendID admission, psa_SessionID admission) = None \<or> conn \<in> ep_closed q"
proof (cases rule: completion_cases [of idOf conn admission requestID held failed p])
  case (refused e q)
  then show ?thesis by auto
next
  case (answered fence p1)
  show ?thesis
    by (cases rule: deliver_cases [of idOf conn "psa_BackendID admission" "psa_SessionID admission" requestID failed fence p1])
      (simp_all add: answered(1) core_def)
qed

lemma answer_releases:
  "case answerPull idOf conn request admission answer p of
     (r, q) \<Rightarrow> pq_RequestID request = [] \<or> ep_fences q (conn, psa_BackendID admission, psa_SessionID admission) = None \<or> conn \<in> ep_closed q"
  using completion_releases [where idOf = idOf and conn = conn and admission = admission and requestID = "pq_RequestID request"] by (simp add: answerPull_def split: sum.split)

text \<open>An admission either changes nothing or hands out the admission of a fence of this connection and session.\<close>

definition admits :: "(ProjectionPatch \<Rightarrow> nat option) \<Rightarrow> projectionFenceKey \<Rightarrow> ('a \<Rightarrow> ProjectionSnapshotAdmission)
    \<Rightarrow> ((wireError, 'a) result \<times> EventPublisher) option \<Rightarrow> EventPublisher \<Rightarrow> bool" where
  "admits enc key admissionOf outcome p =
     (case outcome of
        None \<Rightarrow> False
      | Some (Inl e, q) \<Rightarrow> q = p
      | Some (Inr pending, q) \<Rightarrow>
          (fst key, psa_BackendID (admissionOf pending), psa_SessionID (admissionOf pending)) = key \<and> sound False enc q)"

lemma admit_snapshot:
  assumes p: "sound False enc p"
  shows "admits enc (conn, pq_BackendID request, pq_SessionID request) snd (Some (admitSnapshot env conn request p)) p"
proof (cases rule: begin_cases [of conn "pq_BackendID request" "pq_SessionID request" "pv_snapshot env" p])
  case (refused e)
  then show ?thesis by (auto simp: admits_def admitSnapshot_def BeginProjectionSnapshot_def)
next
  case (begun projection admission q fence)
  have "sound False enc q" using sound_begin [OF p, of "pv_snapshot env" conn "pq_BackendID request" "pq_SessionID request"] begun(2) by simp
  then show ?thesis using begun(2,11,12) by (auto simp: admits_def admitSnapshot_def BeginProjectionSnapshot_def)
qed

lemma admit_window:
  assumes p: "sound False enc p"
  shows "admits enc (conn, pq_BackendID request, pq_SessionID request) (snd \<circ> fst) (Some (windowAdmit env conn request params p)) p"
  using admit_snapshot [OF p, of conn request env]
  by (auto simp: admits_def windowAdmit_def split: sum.splits prod.splits)

lemma admit_full:
  assumes p: "sound False enc p"
  shows "admits enc (conn, pq_BackendID request, pq_SessionID request) (fst \<circ> snd) (fullAdmit now env conn request sinceRev p) p"
proof -
  have ok: "publisher_ok enc p" using p by (simp add: sound_def)
  show ?thesis
  proof (rule resume_cases [OF ok, of now conn "pq_BackendID request" "pq_SessionID request" sinceRev "pv_snapshot env"])
    fix e assume "BeginProjectionSnapshotWithResume now conn (pq_BackendID request) (pq_SessionID request) sinceRev (pv_snapshot env) p = Some (Inl e, p)"
    then show ?thesis by (simp add: admits_def fullAdmit_def)
  next
    fix projection admission selection q j submitted
    assume begun: "BeginProjectionSnapshotWithResume now conn (pq_BackendID request) (pq_SessionID request) sinceRev (pv_snapshot env) p
        = Some (Inr (projection, admission, selection), q\<lparr>ep_journal := j\<rparr>)"
        "beginProjectionSnapshotLocked conn (pq_BackendID request) (pq_SessionID request) (pv_snapshot env) p = (Inr (projection, admission), q)"
        "journal_ok (j, submitted)"
    have "sound False enc q" using sound_begin [OF p, of "pv_snapshot env" conn "pq_BackendID request" "pq_SessionID request"] begun(2) by simp
    then have "sound False enc (q\<lparr>ep_journal := j\<rparr>)" by (rule sound_journal [OF _ begun(3)])
    moreover have "psa_BackendID admission = pq_BackendID request" "psa_SessionID admission = pq_SessionID request"
      using begun(2) by (cases rule: begin_cases [of conn "pq_BackendID request" "pq_SessionID request" "pv_snapshot env" p]; simp)+
    ultimately show ?thesis using begun(1) by (simp add: admits_def fullAdmit_def)
  qed
qed

lemma serve_releases:
  assumes admit: "admits enc key admissionOf (admit p) p"
    and answer: "\<And>pending q. case answer pending q of (r, q1) \<Rightarrow> requestID = []
        \<or> ep_fences q1 (fst key, psa_BackendID (admissionOf pending), psa_SessionID (admissionOf pending)) = None \<or> fst key \<in> ep_closed q1"
  shows "case servePull admit answer (\<lambda>q. runM (publisherStep enc idOf) q ops) p of
      None \<Rightarrow> False
    | Some (Refused e, q) \<Rightarrow> q = p
    | Some (Answered a, q) \<Rightarrow> requestID = [] \<or> ep_fences q key = None \<or> fst key \<in> ep_closed q"
proof (cases "admit p")
  case None
  then show ?thesis using admit by (simp add: admits_def)
next
  case (Some rq)
  obtain r q where rq: "rq = (r, q)" by fastforce
  show ?thesis
  proof (cases r)
    case (Inl e)
    then show ?thesis using admit Some rq by (simp add: admits_def servePull_def)
  next
    case (Inr pending)
    then have key: "(fst key, psa_BackendID (admissionOf pending), psa_SessionID (admissionOf pending)) = key" and q: "sound False enc q"
      using admit Some rq by (simp_all add: admits_def)
    obtain q1 where "runM (publisherStep enc idOf) q ops = Some q1" using pb.runM_returns [OF q] by blast
    then show ?thesis using answer [of pending q1] key Some rq Inr by (auto simp: servePull_def split: prod.splits)
  qed
qed

section \<open>A fence that stays\<close>

fun patchFor :: "projectionFenceKey \<Rightarrow> deliveryFrame \<Rightarrow> bool" where
  "patchFor key (PatchFrame k patch) \<longleftrightarrow> k = key"
| "patchFor key frame \<longleftrightarrow> False"

definition patchesSent :: "projectionFenceKey \<Rightarrow> EventPublisher \<Rightarrow> deliveryFrame list" where
  "patchesSent key p = filter (patchFor key) (eos_log (sinkOf p (fst key)))"

text \<open>Whatever does not complete this pull and does not end the connection.\<close>

fun leavesFence :: "projectionFenceKey \<Rightarrow> PublisherOp \<Rightarrow> bool" where
  "leavesFence key (PComplete conn admission requestID held failed) \<longleftrightarrow> (conn, psa_BackendID admission, psa_SessionID admission) \<noteq> key"
| "leavesFence key (PUnregister conn) \<longleftrightarrow> conn \<noteq> fst key"
| "leavesFence key x \<longleftrightarrow> True"

definition muted :: "(ProjectionPatch \<Rightarrow> nat option) \<Rightarrow> projectionFenceKey \<Rightarrow> deliveryFrame list \<Rightarrow> EventPublisher \<Rightarrow> bool" where
  "muted enc key sent p \<longleftrightarrow> sound False enc p \<and> ep_fences p key \<noteq> None \<and> patchesSent key p = sent"

lemma mutedI: "sound False enc q \<Longrightarrow> ep_fences q key \<noteq> None \<Longrightarrow> patchesSent key q = sent \<Longrightarrow> muted enc key sent q"
  by (simp add: muted_def)

lemma mutedD:
  assumes "muted enc key sent p"
  shows "sound False enc p" "ep_fences p key \<noteq> None" "patchesSent key p = sent"
  using assms by (simp_all add: muted_def)

lemma muted_same: "core q = core p \<Longrightarrow> muted enc key sent p \<Longrightarrow> muted enc key sent q"
  using sound_core [of q p False enc] by (simp add: muted_def patchesSent_def core_def)

lemma sent_push: "patchesSent key (pushFrames conn frames p)
    = patchesSent key p @ (if conn = fst key then filter (patchFor key) frames else [])"
  by (simp add: patchesSent_def)

lemma sent_update [simp]:
  "patchesSent key (p\<lparr>ep_cuts := c\<rparr>) = patchesSent key p" "patchesSent key (p\<lparr>ep_fences := g\<rparr>) = patchesSent key p"
  "patchesSent key (p\<lparr>ep_journal := j\<rparr>) = patchesSent key p"
  by (simp_all add: patchesSent_def)

lemma muted_fence:
  assumes "muted enc key sent p" and "sound False enc (p\<lparr>ep_fences := (ep_fences p)(k := entry)\<rparr>)" and "k = key \<Longrightarrow> entry \<noteq> None"
  shows "muted enc key sent (p\<lparr>ep_fences := (ep_fences p)(k := entry)\<rparr>)"
  using assms by (auto simp: muted_def)

lemma muted_append:
  assumes p: "muted enc key sent p" and k: "ep_fences p k = Some fence"
  shows "muted enc key sent (p\<lparr>ep_fences := (ep_fences p)(k \<mapsto> appendFencePatchLocked enc patch decide fence)\<rparr>)"
  by (rule muted_fence [OF p sound_append [OF mutedD(1) [OF p] k]]) simp

lemma muted_invalidate:
  assumes p: "muted enc key sent p" and slots: "eos_slots (sinkOf p conn) < eventOutboundQueueCapacity"
  shows "muted enc key sent (pushFrames conn [InvalidateFrame (conn, b, s)] p)"
  using sound_invalidate [OF mutedD(1) [OF p] slots] mutedD(2,3) [OF p] by (auto simp: muted_def sent_push)

lemma muted_patched:
  assumes p: "muted enc key sent p" and "eos_slots (sinkOf p conn) < eventOutboundQueueCapacity" and k: "ep_fences p (conn, b, s) = None"
    and "ep_cuts p (conn, b, s) < pp_SyncRev patch" "ep_cuts p (conn, b, s) = 0 \<or> pp_BaseRev patch = ep_cuts p (conn, b, s)"
  shows "muted enc key sent ((pushFrames conn [PatchFrame (conn, b, s) patch] p)\<lparr>ep_cuts := (ep_cuts p)((conn, b, s) := pp_SyncRev patch)\<rparr>)"
proof -
  have "(conn, b, s) \<noteq> key" using k mutedD(2) [OF p] by blast
  then show ?thesis using sound_patched [OF mutedD(1) [OF p] assms(2,4,5)] mutedD(2,3) [OF p]
    by (auto simp: muted_def sent_push)
qed

lemma muted_record:
  assumes p: "muted enc key sent p"
  shows "\<exists>q. recordProjectionPatchLocked enc now b s patch p = Some q \<and> muted enc key sent q"
proof -
  obtain q where q: "recordProjectionPatchLocked enc now b s patch p = Some q" "sound False enc q"
    using sound_record [OF mutedD(1) [OF p]] by blast
  then obtain j where "q = p\<lparr>ep_journal := j\<rparr>" by (auto simp: recordProjectionPatchLocked_def)
  then show ?thesis using q mutedD(2,3) [OF p] by (auto simp: muted_def)
qed

interpretation mute: delivery_invariant enc "muted enc key sent"
proof
  show "core q = core p \<Longrightarrow> muted enc key sent p \<Longrightarrow> muted enc key sent q" for p q by (rule muted_same)
qed (rule muted_append muted_invalidate muted_patched muted_record; assumption)+

lemma muted_begin:
  assumes p: "muted enc key sent p"
  shows "muted enc key sent (snd (beginProjectionSnapshotLocked conn b s snapshot p))"
proof (cases rule: begin_cases [of conn b s snapshot p])
  case refused
  then show ?thesis using p by simp
next
  case (begun projection admission q fence)
  have "muted enc key sent (p\<lparr>ep_fences := (ep_fences p)((conn, b, s) \<mapsto> fence)\<rparr>)"
    by (rule muted_fence [OF p sound_fence [OF mutedD(1) [OF p]]]) (use begun(6) in auto)
  from muted_same [OF begun(3) this] show ?thesis using begun(2) by simp
qed

lemma muted_resume:
  assumes p: "muted enc key sent p"
  shows "\<exists>q. map_option snd (BeginProjectionSnapshotWithResume now conn b s sinceRev snapshot p) = Some q \<and> muted enc key sent q"
proof -
  have ok: "publisher_ok enc p" using mutedD(1) [OF p] by (simp add: sound_def)
  show ?thesis
  proof (rule resume_cases [OF ok, of now conn b s sinceRev snapshot])
    fix e assume "BeginProjectionSnapshotWithResume now conn b s sinceRev snapshot p = Some (Inl e, p)"
    then show ?thesis using p by simp
  next
    fix projection admission selection q j submitted
    assume begun: "BeginProjectionSnapshotWithResume now conn b s sinceRev snapshot p = Some (Inr (projection, admission, selection), q\<lparr>ep_journal := j\<rparr>)"
        "beginProjectionSnapshotLocked conn b s snapshot p = (Inr (projection, admission), q)" "journal_ok (j, submitted)"
    have q: "muted enc key sent q" using muted_begin [OF p, of conn b s snapshot] begun(2) by simp
    have "muted enc key sent (q\<lparr>ep_journal := j\<rparr>)"
      using sound_journal [OF mutedD(1) [OF q] begun(3)] mutedD(2,3) [OF q] by (auto simp: muted_def)
    then show ?thesis using begun(1) by simp
  qed
qed

lemma muted_complete:
  assumes p: "muted enc key sent p" and other: "(conn, psa_BackendID admission, psa_SessionID admission) \<noteq> key"
  shows "muted enc key sent (snd (completeProjectionSnapshot idOf conn admission requestID held failed p))"
proof (rule mutedI)
  let ?b = "psa_BackendID admission" and ?s = "psa_SessionID admission"
  show "sound False enc (snd (completeProjectionSnapshot idOf conn admission requestID held failed p))"
    by (rule sound_complete [OF mutedD(1) [OF p]]) simp
  have "ep_fences (snd (completeProjectionSnapshot idOf conn admission requestID held failed p)) key \<noteq> None
    \<and> patchesSent key (snd (completeProjectionSnapshot idOf conn admission requestID held failed p)) = sent"
  proof (cases rule: completion_cases [of idOf conn admission requestID held failed p])
    case (refused e q)
    then show ?thesis using mutedD [OF muted_same [OF refused(2) p]] by simp
  next
    case (answered fence p1)
    have p1: "ep_fences p1 key \<noteq> None" "patchesSent key p1 = sent" using mutedD [OF muted_same [OF answered(4) p]] by auto
    have eq: "ep_fences q key = ep_fences q' key" "patchesSent key q = patchesSent key q'" if "core q = core q'" for q q'
      using that by (simp_all add: core_def patchesSent_def)
    show ?thesis
    proof (cases rule: deliver_cases [of idOf conn ?b ?s requestID failed fence p1])
      case (full q)
      then show ?thesis using answered(1) p1 other eq [OF full(2)] by simp
    next
      case (invalidated q)
      then show ?thesis using answered(1) p1 other eq [OF invalidated(4)] by (auto simp: sent_push)
    next
      case (completed q)
      then show ?thesis using answered(1) p1 other eq [OF completed(4)] by (auto simp: sent_push filter_empty_conv)
    qed
  qed
  then show "ep_fences (snd (completeProjectionSnapshot idOf conn admission requestID held failed p)) key \<noteq> None"
    "patchesSent key (snd (completeProjectionSnapshot idOf conn admission requestID held failed p)) = sent" by simp_all
qed

lemma muted_releases:
  assumes p: "muted enc key sent p"
  shows "muted enc key sent (sinkReleases conn p)"
  using sound_releases [OF mutedD(1) [OF p]] mutedD(2,3) [OF p] by (auto simp: muted_def patchesSent_def sinkOf_releases)

lemma muted_unregister:
  assumes p: "muted enc key sent p" and "conn \<noteq> fst key"
  shows "muted enc key sent (UnregisterConnection conn p)"
proof (rule mutedI)
  show "sound False enc (UnregisterConnection conn p)" by (rule sound_unregister [OF mutedD(1) [OF p]])
  show "ep_fences (UnregisterConnection conn p) key \<noteq> None"
    using mutedD(2) [OF p] assms(2) by (simp add: UnregisterConnection_def)
  show "patchesSent key (UnregisterConnection conn p) = sent"
    using mutedD(3) [OF p] assms(2) by (simp add: patchesSent_def sinkOf_unregister)
qed

lemma muted_step:
  assumes p: "muted enc key sent p" and ok: "leavesFence key x"
  shows "\<exists>q. publisherStep enc idOf p x = Some q \<and> muted enc key sent q"
proof (cases x)
  case (PHello conn syncV2 scalar epoch)
  then show ?thesis using muted_same [OF _ p] by simp
next
  case (PRegister conn)
  then show ?thesis using muted_same [OF _ p, of "sinkLocked conn (snd (registerConnectionLocked conn p))"] by simp
next
  case (PSetMode conn b s mode)
  then show ?thesis using muted_same [OF _ p] by simp
next
  case (PBegin conn b s snapshot)
  then show ?thesis using muted_begin [OF p] p by (simp add: BeginProjectionSnapshot_def)
next
  case (PBeginResume now conn b s sinceRev snapshot)
  then show ?thesis using muted_resume [OF p] by simp
next
  case (PComplete conn admission requestID held failed)
  then show ?thesis using muted_complete [OF p] ok by simp
next
  case (PPublish observed targets now b s patch)
  then show ?thesis using mute.publish [OF p] by simp
next
  case (PPrepend targets b s syncRev requester)
  then show ?thesis using mute.prepend [OF p] by simp
next
  case (PDetail observed targets now b s patches requester)
  then show ?thesis using mute.detail [OF p] by simp
next
  case (PRelease conn)
  then show ?thesis using muted_releases [OF p] by simp
next
  case (PDeliveryFailed conn b s)
  then show ?thesis using muted_same [OF _ p] by simp
next
  case (PClose conn)
  then show ?thesis using muted_same [OF _ p] by simp
next
  case (PUnregister conn)
  then show ?thesis using muted_unregister [OF p] ok by simp
qed

lemma muted_run:
  "muted enc key sent p \<Longrightarrow> list_all (leavesFence key) ops \<Longrightarrow> \<exists>q. runM (publisherStep enc idOf) p ops = Some q \<and> muted enc key sent q"
proof (induction ops arbitrary: p)
  case (Cons x ops)
  then obtain q where "publisherStep enc idOf p x = Some q" "muted enc key sent q"
    using muted_step [of enc key sent p x idOf] by auto
  then show ?case using Cons.IH Cons.prems(2) by simp
qed simp

text \<open>A request for the turns behind an anchor with items of an unknown form.\<close>

lemma anchor_refused:
  assumes p: "sound False enc p" and none: "ep_fences p (conn, pq_BackendID request, pq_SessionID request) = None"
    and snapshot: "pv_snapshot env = Some projection" and ids: "pq_BackendID request \<noteq> []" "pq_SessionID request \<noteq> []"
    and view: "itemsView \<noteq> []" "itemsView \<noteq> ''summary''" and checks: "anchorChecks env params = None"
  shows "\<exists>q. handleGetSessionProjectionAnchorNewer marshal sha summarize idOf env conn request itemsView params Some meanwhile p
        = Some (Refused (''invalid_params'', None), q)
      \<and> muted enc (conn, pq_BackendID request, pq_SessionID request) (patchesSent (conn, pq_BackendID request, pq_SessionID request) p) q"
proof -
  let ?key = "(conn, pq_BackendID request, pq_SessionID request)"
  let ?p = "SetConnProjectionDeliveryMode conn (pq_BackendID request) (pq_SessionID request) ProjectionDeliveryWindow p"
  have core: "core ?p = core p" by simp
  then have fences: "ep_fences ?p ?key = None" and sent: "patchesSent ?key ?p = patchesSent ?key p"
    using none by (simp_all only: core_def patchesSent_def prod.inject)
  show ?thesis
  proof (cases rule: begin_cases [of conn "pq_BackendID request" "pq_SessionID request" "pv_snapshot env" ?p])
    case (refused e)
    then show ?thesis using fences snapshot by (simp add: beginProjectionSnapshotLocked_def Let_def prod.case_eq_if)
  next
    case (begun projection admission q fence)
    have "sound False enc q"
      using sound_begin [OF sound_same [OF core p], of "pv_snapshot env" conn "pq_BackendID request" "pq_SessionID request"] begun(2) by simp
    moreover have "ep_fences q ?key \<noteq> None" "patchesSent ?key q = patchesSent ?key p"
      using begun(3) sent by (simp_all add: core_def patchesSent_def)
    ultimately have "muted enc ?key (patchesSent ?key p) q" by (rule mutedI)
    moreover have "handleGetSessionProjectionAnchorNewer marshal sha summarize idOf env conn request itemsView params Some meanwhile p
        = Some (Refused (''invalid_params'', None), q)"
      using begun(2) ids view checks
      by (simp add: handleGetSessionProjectionAnchorNewer_def pullAfterChecks_def serveAnchor_def servePull_def anchorAdmit_def admitSnapshot_def
          BeginProjectionSnapshot_def)
    ultimately show ?thesis by blast
  qed
qed

section \<open>Properties\<close>


text \<open>
  C36: the request behind an anchor does leave it.  If its items are of a form the handler does not know, the
  refusal is sent after the pull has begun, and nothing completes the pull: whatever happens until
  the connection ends, every further pull of this session on this connection is refused as already
  pending, and no patch of the session is ever sent to it again.
\<close>

theorem anchor_leaks_fence:
  assumes "runM (publisherStep enc idOf) (NewEventPublisher epoch) before = Some p"
    and "ep_fences p (conn, pq_BackendID request, pq_SessionID request) = None"
    and "pv_snapshot env = Some projection" and "pq_BackendID request \<noteq> []" "pq_SessionID request \<noteq> []"
    and "itemsView \<noteq> []" "itemsView \<noteq> ''summary''" and "anchorChecks env params = None"
    and "list_all (leavesFence (conn, pq_BackendID request, pq_SessionID request)) later"
  shows "case handleGetSessionProjectionAnchorNewer marshal sha summarize idOf env conn request itemsView params Some meanwhile p of
      Some (Refused e, q) \<Rightarrow> e = (''invalid_params'', None)
        \<and> (case runM (publisherStep enc idOf) q later of
             None \<Rightarrow> False
           | Some r \<Rightarrow>
               BeginProjectionSnapshot conn (pq_BackendID request) (pq_SessionID request) snapshot r = (Inl AlreadyPending, r)
               \<and> patchesSent (conn, pq_BackendID request, pq_SessionID request) r
                   = patchesSent (conn, pq_BackendID request, pq_SessionID request) p)
    | _ \<Rightarrow> False"
proof -
  let ?key = "(conn, pq_BackendID request, pq_SessionID request)"
  have p: "sound False enc p" using pb.runM_good [OF sound_new assms(1)] .
  from anchor_refused [OF p assms(2-8)] obtain q where
    q: "handleGetSessionProjectionAnchorNewer marshal sha summarize idOf env conn request itemsView params Some meanwhile p
        = Some (Refused (''invalid_params'', None), q)" "muted enc ?key (patchesSent ?key p) q" by blast
  obtain r where r: "runM (publisherStep enc idOf) q later = Some r" "muted enc ?key (patchesSent ?key p) r"
    using muted_run [OF q(2) assms(9)] by blast
  have "BeginProjectionSnapshot conn (pq_BackendID request) (pq_SessionID request) snapshot r = (Inl AlreadyPending, r)"
    using mutedD(2) [OF r(2)] assms(4,5) by (auto simp: BeginProjectionSnapshot_def beginProjectionSnapshotLocked_def Let_def)
  then show ?thesis using q(1) r(1) mutedD(3) [OF r(2)] by simp
qed


definition demoRequest :: projectionRequest where
  "demoRequest = \<lparr>pq_RequestID = ''r'', pq_BackendID = ''codex'', pq_SessionID = ''s''\<rparr>"

definition demoPullEnv :: pullEnv where
  "demoPullEnv = \<lparr>pv_paramsDecode = True, pv_negotiated = True, pv_hydrate = None, pv_olderFact = False, pv_upstream = Inr False,
     pv_snapshot = Some (snapAt 5), pv_maxBytes = 1000\<rparr>"

definition demoAnchorParams :: AnchorNewerParams where
  "demoAnchorParams = \<lparr>anp_AnchorTurnID = ''t'', anp_BaseDigests = [], anp_Limit = 0, anp_CorrectionCursor = NoCursor\<rparr>"

text \<open>The client of the opened session asks for compact items; the patch that is then published stays behind the fence.\<close>

theorem anchor_leaks_fence_witness:
  "case handleGetSessionProjectionAnchorNewer (\<lambda>_. None) (\<lambda>t. t) (\<lambda>_ _. None) (\<lambda>t. t) demoPullEnv 7 demoRequest ''compact'' demoAnchorParams Some Some (demoOpened 5) of
      Some (Refused e, q) \<Rightarrow> e = (''invalid_params'', None)
        \<and> (case runM (publisherStep demoPatchLen (\<lambda>t. t)) q [PPublish (\<lambda>_. True) [7] 50 ''codex'' ''s'' (demoPatch 5)] of
             None \<Rightarrow> False
           | Some r \<Rightarrow>
               BeginProjectionSnapshot 7 ''codex'' ''s'' (Some (snapAt 6)) r = (Inl AlreadyPending, r)
               \<and> patchesSent demoKey r = [])
    | _ \<Rightarrow> False"
proof -
  have run: "runM (publisherStep demoPatchLen (\<lambda>t. t)) (NewEventPublisher ''e'') (demoOpening 5) = Some (demoOpened 5)"
    by (rule demo_opening)
  have none: "ep_fences (demoOpened 5) (7, pq_BackendID demoRequest, pq_SessionID demoRequest) = None"
    by (simp add: demoOpened_def demoRequest_def NewEventPublisher_def)
  have env: "pv_snapshot demoPullEnv = Some (snapAt 5)" "pq_BackendID demoRequest \<noteq> []" "pq_SessionID demoRequest \<noteq> []"
      "''compact'' \<noteq> []" "''compact'' \<noteq> ''summary''" "anchorChecks demoPullEnv demoAnchorParams = None"
    by (simp_all add: demoPullEnv_def demoRequest_def demoAnchorParams_def anchorChecks_def maxWindowTurns_def)
  have later: "list_all (leavesFence (7, pq_BackendID demoRequest, pq_SessionID demoRequest)) [PPublish (\<lambda>_. True) [7] 50 ''codex'' ''s'' (demoPatch 5)]"
    by simp
  have sent: "patchesSent demoKey (demoOpened 5) = []" by (simp add: patchesSent_def demoOpened_def sinkOf_def)
  have ids: "pq_BackendID demoRequest = ''codex''" "pq_SessionID demoRequest = ''s''" by (simp_all add: demoRequest_def)
  show ?thesis
    by (rule anchor_leaks_fence [OF run none env later, where marshal = "\<lambda>_. None" and sha = "\<lambda>t. t" and summarize = "\<lambda>_ _. None" and meanwhile = Some
        and snapshot = "Some (snapAt 6)", unfolded ids sent])
qed

end
