(* ===== verification/Pairing.thy ===== *)
theory Pairing
  imports Admission Device_Trust
begin

text \<open>
  Pairing a new device: the session and its states (\<^verbatim>\<open>pairing_session.go\<close>), the gate against guessing
  (\<^verbatim>\<open>pairing_hardening.go\<close>), the handler of a claiming device (\<^verbatim>\<open>pairing_handler.go\<close>) and the approval
  by the management interface (\<^verbatim>\<open>management_api.go\<close>).

  Sessions are shared by reference: the store maps an id to a reference, and a handler that holds one goes on
  with it when the store has forgotten it.  A claiming device and an approval go through several critical
  sections, which are steps of their own.  The QR payloads, the WebSocket, the relay's sealed claims and the
  generation of random values are left out; ids, codes and tokens are arguments.
\<close>

section \<open>Sessions\<close>

datatype PairingState = PairingCreated | PairingClaimed | PairingApproved | PairingCompleted | PairingRejected | PairingExpired

datatype pairingError = SessionExpired | AlreadyClaimed | InvalidState PairingState | TokenFailed

record PairingSession =
  ps_ID :: string
  ps_ManualCode :: string
  ps_State :: PairingState
  ps_ClaimingDeviceID :: string
  ps_ClaimingDeviceName :: string
  ps_ClaimingPlatform :: string
  ps_CreatedAt :: instant
  ps_ExpiresAt :: instant
  ps_DeviceToken :: string
  ps_DeviceTokenHash :: string
  ps_DeviceID :: string

definition NewPairingSession :: "string \<Rightarrow> string \<Rightarrow> instant \<Rightarrow> duration \<Rightarrow> PairingSession" where
  "NewPairingSession pairID manualCode now ttl =
     \<lparr>ps_ID = pairID, ps_ManualCode = manualCode, ps_State = PairingCreated, ps_ClaimingDeviceID = [], ps_ClaimingDeviceName = [],
      ps_ClaimingPlatform = [], ps_CreatedAt = now, ps_ExpiresAt = now + ttl, ps_DeviceToken = [], ps_DeviceTokenHash = [], ps_DeviceID = []\<rparr>"

definition IsExpired :: "instant \<Rightarrow> PairingSession \<Rightarrow> bool" where
  "IsExpired now s \<longleftrightarrow> now > ps_ExpiresAt s"

definition Session_Claim :: "instant \<Rightarrow> string \<Rightarrow> string \<Rightarrow> string \<Rightarrow> PairingSession \<Rightarrow> (pairingError, PairingSession) result" where
  "Session_Claim now deviceID deviceName platform s =
     (if IsExpired now s then Inl SessionExpired
      else if ps_State s \<noteq> PairingCreated
      then (if ps_State s = PairingClaimed then Inl AlreadyClaimed else Inl (InvalidState (ps_State s)))
      else Inr (s\<lparr>ps_State := PairingClaimed, ps_ClaimingDeviceID := deviceID, ps_ClaimingDeviceName := deviceName,
                 ps_ClaimingPlatform := platform\<rparr>))"

text \<open>The token with its hash, or \<open>None\<close> if it could not be generated, and the random part of a generated id.\<close>

definition Session_Approve :: "(string \<times> string) option \<Rightarrow> string \<Rightarrow> PairingSession \<Rightarrow> (pairingError, PairingSession) result" where
  "Session_Approve generated random s =
     (if ps_State s \<noteq> PairingClaimed then Inl (InvalidState (ps_State s))
      else case generated of
             None \<Rightarrow> Inl TokenFailed
           | Some (plain, hash) \<Rightarrow>
               Inr (s\<lparr>ps_DeviceToken := plain, ps_DeviceTokenHash := hash,
                      ps_DeviceID := (if ps_ClaimingDeviceID s = [] then ''dev_'' @ random else ps_ClaimingDeviceID s),
                      ps_State := PairingApproved\<rparr>))"

definition Session_Reject :: "PairingSession \<Rightarrow> (pairingError, PairingSession) result" where
  "Session_Reject s =
     (if ps_State s \<noteq> PairingClaimed then Inl (InvalidState (ps_State s)) else Inr (s\<lparr>ps_State := PairingRejected\<rparr>))"

definition Session_Complete :: "PairingSession \<Rightarrow> (pairingError, PairingSession) result" where
  "Session_Complete s =
     (if ps_State s \<noteq> PairingApproved then Inl (InvalidState (ps_State s))
      else Inr (s\<lparr>ps_State := PairingCompleted, ps_DeviceToken := []\<rparr>))"

section \<open>The store\<close>

record MemoryPairingStore =
  mps_byID :: "string \<Rightarrow> nat option"
  mps_byManualCode :: "string \<Rightarrow> nat option"

definition NewMemoryPairingStore :: MemoryPairingStore where
  "NewMemoryPairingStore = \<lparr>mps_byID = Map.empty, mps_byManualCode = Map.empty\<rparr>"

definition Store_put :: "PairingSession \<Rightarrow> nat \<Rightarrow> MemoryPairingStore \<Rightarrow> MemoryPairingStore" where
  "Store_put s ref store =
     store\<lparr>mps_byID := (mps_byID store)(ps_ID s \<mapsto> ref), mps_byManualCode := (mps_byManualCode store)(ps_ManualCode s \<mapsto> ref)\<rparr>"

definition Store_Create :: "PairingSession \<Rightarrow> nat \<Rightarrow> MemoryPairingStore \<Rightarrow> bool \<times> MemoryPairingStore" where
  "Store_Create s ref store = (if mps_byID store (ps_ID s) \<noteq> None then (False, store) else (True, Store_put s ref store))"

definition Store_Get :: "string \<Rightarrow> MemoryPairingStore \<Rightarrow> nat option" where
  "Store_Get pairID store = mps_byID store pairID"

definition Store_GetByManualCode :: "string \<Rightarrow> MemoryPairingStore \<Rightarrow> nat option" where
  "Store_GetByManualCode code store = mps_byManualCode store code"

definition Store_Update :: "PairingSession \<Rightarrow> nat \<Rightarrow> MemoryPairingStore \<Rightarrow> bool \<times> MemoryPairingStore" where
  "Store_Update s ref store = (if mps_byID store (ps_ID s) = None then (False, store) else (True, Store_put s ref store))"

definition Store_Delete :: "(nat \<Rightarrow> PairingSession) \<Rightarrow> string \<Rightarrow> MemoryPairingStore \<Rightarrow> MemoryPairingStore" where
  "Store_Delete heap pairID store =
     (case mps_byID store pairID of
        None \<Rightarrow> store
      | Some ref \<Rightarrow> store\<lparr>mps_byManualCode := (mps_byManualCode store)(ps_ManualCode (heap ref) := None),
                          mps_byID := (mps_byID store)(pairID := None)\<rparr>)"

section \<open>The gate\<close>

definition sourceIPLimit :: nat where "sourceIPLimit = 10"
definition sourceIPWindow :: duration where "sourceIPWindow = 60 * nanosPerSecond"
definition perPairingFailLimit :: nat where "perPairingFailLimit = 5"
definition perPairingFailWindow :: duration where "perPairingFailWindow = 300 * nanosPerSecond"
definition globalConcurrentClaims :: int where "globalConcurrentClaims = 16"
definition maxPairingBuckets :: nat where "maxPairingBuckets = 4096"

record slidingBucket =
  sb_window :: duration
  sb_limit :: nat
  sb_counts :: "instant list"

record pairingAttemptGate =
  pg_sourceBuckets :: "(string \<times> slidingBucket) list"
  pg_pairFails :: "(string \<times> slidingBucket) list"
  pg_activeClaims :: int

definition newPairingAttemptGate :: pairingAttemptGate where
  "newPairingAttemptGate = \<lparr>pg_sourceBuckets = [], pg_pairFails = [], pg_activeClaims = 0\<rparr>"

definition freshCounts :: "instant \<Rightarrow> slidingBucket \<Rightarrow> instant list" where
  "freshCounts now b = filter (\<lambda>at. at > now - sb_window b) (sb_counts b)"

definition bucketAllow :: "instant \<Rightarrow> slidingBucket \<Rightarrow> bool \<times> slidingBucket" where
  "bucketAllow now b =
     (let fresh = freshCounts now b
      in if length fresh \<ge> sb_limit b then (False, b\<lparr>sb_counts := fresh\<rparr>) else (True, b\<lparr>sb_counts := fresh @ [now]\<rparr>))"

definition sweepBuckets :: "instant \<Rightarrow> (string \<times> slidingBucket) list \<Rightarrow> (string \<times> slidingBucket) list" where
  "sweepBuckets now buckets =
     filter (\<lambda>(k, b). sb_counts b \<noteq> []) (map (\<lambda>(k, b). (k, b\<lparr>sb_counts := freshCounts now b\<rparr>)) buckets)"

definition sweepStale :: "instant \<Rightarrow> pairingAttemptGate \<Rightarrow> pairingAttemptGate" where
  "sweepStale now g =
     g\<lparr>pg_sourceBuckets := sweepBuckets now (pg_sourceBuckets g), pg_pairFails := sweepBuckets now (pg_pairFails g)\<rparr>"

definition bucketOf :: "duration \<Rightarrow> nat \<Rightarrow> string \<Rightarrow> (string \<times> slidingBucket) list \<Rightarrow> slidingBucket" where
  "bucketOf window limit k buckets =
     (case map_of buckets k of None \<Rightarrow> \<lparr>sb_window = window, sb_limit = limit, sb_counts = []\<rparr> | Some b \<Rightarrow> b)"

definition isFull :: "string \<Rightarrow> (string \<times> slidingBucket) list \<Rightarrow> bool" where
  "isFull k buckets \<longleftrightarrow> map_of buckets k = None \<and> length buckets \<ge> maxPairingBuckets"

definition gateAcquire :: "instant \<Rightarrow> string \<Rightarrow> pairingAttemptGate \<Rightarrow> bool \<times> pairingAttemptGate" where
  "gateAcquire now ip g0 =
     (let g = sweepStale now g0
      in if isFull ip (pg_sourceBuckets g) then (False, g)
         else let (ok, b) = bucketAllow now (bucketOf sourceIPWindow sourceIPLimit ip (pg_sourceBuckets g));
                  g1 = g\<lparr>pg_sourceBuckets := AList.update ip b (pg_sourceBuckets g)\<rparr>
              in if \<not> ok then (False, g1)
                 else if pg_activeClaims g1 \<ge> globalConcurrentClaims then (False, g1)
                 else (True, g1\<lparr>pg_activeClaims := pg_activeClaims g1 + 1\<rparr>))"

definition gateRelease :: "pairingAttemptGate \<Rightarrow> pairingAttemptGate" where
  "gateRelease g = g\<lparr>pg_activeClaims := (if pg_activeClaims g - 1 < 0 then 0 else pg_activeClaims g - 1)\<rparr>"

definition recordPairingFailure :: "string \<Rightarrow> instant \<Rightarrow> pairingAttemptGate \<Rightarrow> bool \<times> pairingAttemptGate" where
  "recordPairingFailure pairingID now g0 =
     (let g = sweepStale now g0
      in if isFull pairingID (pg_pairFails g) then (False, g)
         else let b = snd (bucketAllow now (bucketOf perPairingFailWindow perPairingFailLimit pairingID (pg_pairFails g)))
              in (length (sb_counts b) \<ge> perPairingFailLimit, g\<lparr>pg_pairFails := AList.update pairingID b (pg_pairFails g)\<rparr>))"

definition resetPairingFailures :: "string \<Rightarrow> pairingAttemptGate \<Rightarrow> pairingAttemptGate" where
  "resetPairingFailures pairingID g = g\<lparr>pg_pairFails := AList.delete pairingID (pg_pairFails g)\<rparr>"

definition hmacEqualString :: "string \<Rightarrow> string \<Rightarrow> bool" where
  "hmacEqualString a b \<longleftrightarrow> length a = length b \<and> xorAccumulate (map of_char a) (map of_char b) 0 = 0"

section \<open>Claiming and approving\<close>

datatype claimPhase =
  Arrived
| Admitted
| Unknown
| Missed nat
| Exhausted nat
| Matched nat
| HasClaimed nat
| Counted nat
| Waiting nat
| Leaving
| Gone

record claimHandler =
  ch_IP :: string
  ch_PairingID :: string
  ch_ManualCode :: string
  ch_DeviceID :: string
  ch_DeviceName :: string
  ch_Platform :: string
  ch_phase :: claimPhase

datatype approvalPhase = ApFetched | ApApproved | ApUpdated | ApTrusted | ApNotified | ApCompleted | ApRejected | ApDone

record approval =
  ap_ref :: nat
  ap_reject :: bool
  ap_phase :: approvalPhase

text \<open>
  Beside the state run the lists of the claims that succeeded (session and handler), of the devices that were
  trusted, and of the tokens that were pushed to a waiting handler.
\<close>

record PairingSys =
  py_now :: instant
  py_heap :: "nat \<Rightarrow> PairingSession"
  py_next :: nat
  py_store :: MemoryPairingStore
  py_gate :: pairingAttemptGate
  py_handlers :: "claimHandler list"
  py_registry :: "string \<Rightarrow> nat option"
  py_approvals :: "approval list"
  py_claims :: "(nat \<times> nat) list"
  py_trusted :: "(nat \<times> TrustedDeviceRecord) list"
  py_delivered :: "(nat \<times> nat) list"

definition newPairingSys :: PairingSys where
  "newPairingSys =
     \<lparr>py_now = 0, py_heap = (\<lambda>_. NewPairingSession [] [] 0 0), py_next = 0, py_store = NewMemoryPairingStore,
      py_gate = newPairingAttemptGate, py_handlers = [], py_registry = Map.empty, py_approvals = [], py_claims = [], py_trusted = [],
      py_delivered = []\<rparr>"

definition handlePairingCreate :: "string \<Rightarrow> string \<Rightarrow> PairingSys \<Rightarrow> PairingSys" where
  "handlePairingCreate pairID code s =
     (let session = NewPairingSession pairID code (py_now s) (300 * nanosPerSecond);
          (ok, store) = Store_Create session (py_next s) (py_store s)
      in if ok then s\<lparr>py_heap := (py_heap s)(py_next s := session), py_next := py_next s + 1, py_store := store\<rparr> else s)"

definition setPhase :: "nat \<Rightarrow> claimPhase \<Rightarrow> PairingSys \<Rightarrow> PairingSys" where
  "setPhase i phase s = s\<lparr>py_handlers := (py_handlers s)[i := (py_handlers s ! i)\<lparr>ch_phase := phase\<rparr>]\<rparr>"

text \<open>One critical section of the handler of a claiming device.\<close>

definition claimStep :: "nat \<Rightarrow> claimHandler \<Rightarrow> PairingSys \<Rightarrow> PairingSys" where
  "claimStep i h s =
     (case ch_phase h of
        Arrived \<Rightarrow>
          if ch_PairingID h = [] \<or> ch_ManualCode h = [] then setPhase i Gone s
          else let (ok, gate) = gateAcquire (py_now s) (ch_IP h) (py_gate s)
               in setPhase i (if ok then Admitted else Gone) (s\<lparr>py_gate := gate\<rparr>)
      | Admitted \<Rightarrow>
          (case Store_Get (ch_PairingID h) (py_store s) of
             None \<Rightarrow> setPhase i Unknown s
           | Some ref \<Rightarrow>
               setPhase i (if hmacEqualString (ps_ManualCode (py_heap s ref)) (ch_ManualCode h) then Matched ref else Missed ref) s)
      | Unknown \<Rightarrow>
          setPhase i Leaving (s\<lparr>py_gate := snd (recordPairingFailure (ch_PairingID h) (py_now s) (py_gate s))\<rparr>)
      | Missed ref \<Rightarrow>
          let (exhausted, gate) = recordPairingFailure (ps_ID (py_heap s ref)) (py_now s) (py_gate s)
          in setPhase i (if exhausted then Exhausted ref else Leaving) (s\<lparr>py_gate := gate\<rparr>)
      | Exhausted ref \<Rightarrow>
          setPhase i Leaving (s\<lparr>py_store := Store_Delete (py_heap s) (ps_ID (py_heap s ref)) (py_store s)\<rparr>)
      | Matched ref \<Rightarrow>
          (case Session_Claim (py_now s) (ch_DeviceID h) (ch_DeviceName h) (ch_Platform h) (py_heap s ref) of
             Inl e \<Rightarrow> setPhase i Leaving s
           | Inr session \<Rightarrow>
               setPhase i (HasClaimed ref) (s\<lparr>py_heap := (py_heap s)(ref := session), py_claims := py_claims s @ [(ref, i)]\<rparr>))
      | HasClaimed ref \<Rightarrow>
          setPhase i (Counted ref) (s\<lparr>py_gate := resetPairingFailures (ps_ID (py_heap s ref)) (py_gate s)\<rparr>)
      | Counted ref \<Rightarrow>
          if py_registry s (ps_ID (py_heap s ref)) \<noteq> None then setPhase i Leaving s
          else setPhase i (Waiting ref) (s\<lparr>py_registry := (py_registry s)(ps_ID (py_heap s ref) \<mapsto> i)\<rparr>)
      | Waiting ref \<Rightarrow>
          setPhase i Leaving (s\<lparr>py_registry := (py_registry s)(ps_ID (py_heap s ref) := None)\<rparr>)
      | Leaving \<Rightarrow> setPhase i Gone (s\<lparr>py_gate := gateRelease (py_gate s)\<rparr>)
      | Gone \<Rightarrow> s)"

definition deviceOf :: "instant \<Rightarrow> PairingSession \<Rightarrow> TrustedDeviceRecord" where
  "deviceOf now session =
     \<lparr>td_DeviceID = ps_DeviceID session, td_DisplayName = ps_ClaimingDeviceName session, td_Platform = ps_ClaimingPlatform session,
      td_TokenHash = ps_DeviceTokenHash session, td_IdentityPublicKey = [], td_RelayEnabled = False, td_RelayChannelGeneration = 0,
      td_GrantedScopes = [], td_CreatedAt = now, td_LastSeenAt = now, td_LastRemoteAddress = [], td_RevokedAt = None\<rparr>"

definition setApproval :: "nat \<Rightarrow> approvalPhase \<Rightarrow> PairingSys \<Rightarrow> PairingSys" where
  "setApproval j phase s = s\<lparr>py_approvals := (py_approvals s)[j := (py_approvals s ! j)\<lparr>ap_phase := phase\<rparr>]\<rparr>"

text \<open>
  One critical section of an approval or a rejection; \<open>written\<close> is whether the device store, or the
  connection that waits for the token, could be written.
\<close>

definition approvalStep :: "nat \<Rightarrow> approval \<Rightarrow> (string \<times> string) option \<Rightarrow> string \<Rightarrow> bool \<Rightarrow> PairingSys \<Rightarrow> PairingSys" where
  "approvalStep j a generated random written s =
     (let ref = ap_ref a; session = py_heap s ref
      in case ap_phase a of
           ApFetched \<Rightarrow>
             (case (if ap_reject a then Session_Reject session else Session_Approve generated random session) of
                Inl e \<Rightarrow> setApproval j ApDone s
              | Inr session' \<Rightarrow>
                  setApproval j (if ap_reject a then ApRejected else ApApproved) (s\<lparr>py_heap := (py_heap s)(ref := session')\<rparr>))
         | ApApproved \<Rightarrow>
             let (ok, store) = Store_Update session ref (py_store s)
             in setApproval j (if ok then ApUpdated else ApDone) (s\<lparr>py_store := store\<rparr>)
         | ApUpdated \<Rightarrow>
             if written then setApproval j ApTrusted (s\<lparr>py_trusted := py_trusted s @ [(ref, deviceOf (py_now s) session)]\<rparr>)
             else setApproval j ApDone s
         | ApTrusted \<Rightarrow>
             setApproval j ApNotified
               (s\<lparr>py_registry := (py_registry s)(ps_ID session := None),
                  py_delivered := py_delivered s @
                    (case py_registry s (ps_ID session) of None \<Rightarrow> [] | Some i \<Rightarrow> if written then [(ref, i)] else [])\<rparr>)
         | ApNotified \<Rightarrow>
             setApproval j ApCompleted
               (case Session_Complete session of Inl e \<Rightarrow> s | Inr session' \<Rightarrow> s\<lparr>py_heap := (py_heap s)(ref := session')\<rparr>)
         | ApCompleted \<Rightarrow> setApproval j ApDone (s\<lparr>py_store := snd (Store_Update session ref (py_store s))\<rparr>)
         | ApRejected \<Rightarrow> setApproval j ApDone (s\<lparr>py_store := snd (Store_Update session ref (py_store s))\<rparr>)
         | ApDone \<Rightarrow> s)"

datatype PairingOp =
  Elapse nat
| PCreate string string
| PConnect string string string string string string
| PHandler nat
| PApproval string bool
| PApprovalStep nat "(string \<times> string) option" string bool
| PCleanup

fun pairingStep :: "PairingSys \<Rightarrow> PairingOp \<Rightarrow> PairingSys" where
  "pairingStep s (Elapse d) = s\<lparr>py_now := py_now s + int d\<rparr>"
| "pairingStep s (PCreate pairID code) = handlePairingCreate pairID code s"
| "pairingStep s (PConnect ip pairID code device name platform) =
     s\<lparr>py_handlers := py_handlers s @ [\<lparr>ch_IP = ip, ch_PairingID = pairID, ch_ManualCode = code, ch_DeviceID = device,
         ch_DeviceName = name, ch_Platform = platform, ch_phase = Arrived\<rparr>]\<rparr>"
| "pairingStep s (PHandler i) = (if i < length (py_handlers s) then claimStep i (py_handlers s ! i) s else s)"
| "pairingStep s (PApproval pairID reject) =
     (case Store_Get pairID (py_store s) of
        None \<Rightarrow> s
      | Some ref \<Rightarrow> s\<lparr>py_approvals := py_approvals s @ [\<lparr>ap_ref = ref, ap_reject = reject, ap_phase = ApFetched\<rparr>]\<rparr>)"
| "pairingStep s (PApprovalStep j generated random written) =
     (if j < length (py_approvals s) then approvalStep j (py_approvals s ! j) generated random written s else s)"
| "pairingStep s PCleanup = s\<lparr>py_store := NewMemoryPairingStore\<rparr>"

section \<open>The code is compared exactly\<close>

lemma of_char_byte [simp]: "(of_char c :: byte) = of_char d \<longleftrightarrow> c = d"
proof
  assume eq: "(of_char c :: byte) = of_char d"
  have nat: "unat (of_char x :: byte) = of_char x" for x
  proof -
    have "(of_char x :: byte) = of_nat (of_char x)" by (rule of_nat_of_char [symmetric])
    moreover have "(of_char x :: nat) < 256" by simp
    ultimately show ?thesis by (simp add: unat_of_nat)
  qed
  from eq have "unat (of_char c :: byte) = unat (of_char d :: byte)" by simp
  then show "c = d" by (simp add: nat)
qed simp

lemma hmacEqualString_iff [simp]: "hmacEqualString a b \<longleftrightarrow> a = b"
proof -
  have "map (of_char :: char \<Rightarrow> byte) a = map of_char b \<longleftrightarrow> a = b"
    by (rule inj_map_eq_map) (simp add: inj_def)
  then show ?thesis by (auto simp: hmacEqualString_def xorAccumulate_zero)
qed


section \<open>The bounds of the gate\<close>

definition bucketsOk :: "duration \<Rightarrow> nat \<Rightarrow> (string \<times> slidingBucket) list \<Rightarrow> bool" where
  "bucketsOk window limit bs \<longleftrightarrow>
     distinct (map fst bs) \<and> length bs \<le> maxPairingBuckets \<and>
     (\<forall>(k, b)\<in>set bs. sb_window b = window \<and> sb_limit b = limit \<and> length (sb_counts b) \<le> limit)"

lemma freshCounts_le: "length (freshCounts now b) \<le> length (sb_counts b)"
  by (simp add: freshCounts_def)

lemma sweepBuckets_ok:
  assumes "bucketsOk w l bs"
  shows "bucketsOk w l (sweepBuckets now bs)"
proof -
  have keys: "map fst (map (\<lambda>(k, b). (k, b\<lparr>sb_counts := freshCounts now b\<rparr>)) bs) = map fst bs"
    by (simp add: case_prod_beta comp_def)
  have "distinct (map fst (sweepBuckets now bs))"
    unfolding sweepBuckets_def by (rule distinct_map_filter) (use assms in \<open>simp only: keys bucketsOk_def\<close>)
  moreover have "length (sweepBuckets now bs) \<le> length bs"
    unfolding sweepBuckets_def by (rule le_trans [OF length_filter_le]) simp
  moreover have "sb_window b = w \<and> sb_limit b = l \<and> length (sb_counts b) \<le> l" if "(k, b) \<in> set (sweepBuckets now bs)" for k b
  proof -
    from that obtain c where "(k, c) \<in> set bs" and b: "b = c\<lparr>sb_counts := freshCounts now c\<rparr>"
      by (auto simp: sweepBuckets_def)
    with assms have "sb_window c = w \<and> sb_limit c = l \<and> length (sb_counts c) \<le> l" by (auto simp: bucketsOk_def)
    with b freshCounts_le [of now c] show ?thesis by simp
  qed
  ultimately show ?thesis using assms by (auto simp: bucketsOk_def)
qed

lemma bucketOf_ok:
  assumes "bucketsOk w l bs"
  shows "sb_window (bucketOf w l k bs) = w \<and> sb_limit (bucketOf w l k bs) = l \<and> length (sb_counts (bucketOf w l k bs)) \<le> l"
proof (cases "map_of bs k")
  case (Some b)
  then have "(k, b) \<in> set bs" by (rule map_of_SomeD)
  with assms Some show ?thesis by (auto simp: bucketOf_def bucketsOk_def)
qed (simp add: bucketOf_def)

lemma bucketAllow_ok:
  "length (sb_counts b) \<le> sb_limit b \<Longrightarrow>
   sb_window (snd (bucketAllow now b)) = sb_window b \<and> sb_limit (snd (bucketAllow now b)) = sb_limit b \<and>
   length (sb_counts (snd (bucketAllow now b))) \<le> sb_limit b"
  using freshCounts_le [of now b] by (auto simp: bucketAllow_def Let_def)

lemma length_AList_update: "length (AList.update k v bs) = (if map_of bs k = None then Suc (length bs) else length bs)"
  by (induction bs) auto

lemma update_ok:
  assumes "bucketsOk w l bs" and "\<not> isFull k bs"
    and "sb_window b = w \<and> sb_limit b = l \<and> length (sb_counts b) \<le> l"
  shows "bucketsOk w l (AList.update k b bs)"
proof -
  have "distinct (map fst (AList.update k b bs))" using assms(1) by (simp add: bucketsOk_def distinct_update)
  moreover have "length (AList.update k b bs) \<le> maxPairingBuckets"
    using assms(1,2) by (auto simp: length_AList_update isFull_def bucketsOk_def)
  ultimately show ?thesis using assms(1,3) by (auto simp: bucketsOk_def dest!: set_AList_update)
qed

lemma delete_ok: "bucketsOk w l bs \<Longrightarrow> bucketsOk w l (AList.delete k bs)"
  unfolding bucketsOk_def
  using distinct_delete [of bs k] by (auto simp: AList.delete_eq le_trans [OF length_filter_le])

definition gateOk :: "pairingAttemptGate \<Rightarrow> bool" where
  "gateOk g \<longleftrightarrow>
     bucketsOk sourceIPWindow sourceIPLimit (pg_sourceBuckets g) \<and>
     bucketsOk perPairingFailWindow perPairingFailLimit (pg_pairFails g) \<and>
     0 \<le> pg_activeClaims g \<and> pg_activeClaims g \<le> globalConcurrentClaims"

lemma sweepStale_ok: "gateOk g \<Longrightarrow> gateOk (sweepStale now g)"
  by (simp add: gateOk_def sweepStale_def sweepBuckets_ok)

lemma gateAcquire_ok:
  assumes "gateOk g" and "gateAcquire now ip g = (ok, g')"
  shows "gateOk g' \<and> pg_activeClaims g' = pg_activeClaims g + (if ok then 1 else 0)"
proof -
  let ?g = "sweepStale now g"
  let ?b = "bucketAllow now (bucketOf sourceIPWindow sourceIPLimit ip (pg_sourceBuckets ?g))"
  have g: "gateOk ?g" and act: "pg_activeClaims ?g = pg_activeClaims g"
    using assms(1) by (auto simp: sweepStale_ok) (simp add: sweepStale_def)
  have src: "bucketsOk sourceIPWindow sourceIPLimit (pg_sourceBuckets ?g)" using g by (simp add: gateOk_def)
  have "sb_window (snd ?b) = sourceIPWindow \<and> sb_limit (snd ?b) = sourceIPLimit \<and> length (sb_counts (snd ?b)) \<le> sourceIPLimit"
    using bucketAllow_ok bucketOf_ok [OF src, of ip] by metis
  then have "\<not> isFull ip (pg_sourceBuckets ?g) \<Longrightarrow> bucketsOk sourceIPWindow sourceIPLimit (AList.update ip (snd ?b) (pg_sourceBuckets ?g))"
    using update_ok [OF src] by blast
  with g act assms(2) show ?thesis
    by (auto simp: gateAcquire_def Let_def gateOk_def split: if_splits prod.splits)
qed

lemma gateRelease_ok:
  "gateOk g \<Longrightarrow> 0 < pg_activeClaims g \<Longrightarrow> gateOk (gateRelease g) \<and> pg_activeClaims (gateRelease g) = pg_activeClaims g - 1"
  by (auto simp: gateOk_def gateRelease_def)

lemma recordPairingFailure_ok:
  assumes "gateOk g"
  shows "gateOk (snd (recordPairingFailure k now g)) \<and> pg_activeClaims (snd (recordPairingFailure k now g)) = pg_activeClaims g"
proof -
  let ?g = "sweepStale now g"
  let ?b = "bucketAllow now (bucketOf perPairingFailWindow perPairingFailLimit k (pg_pairFails ?g))"
  have g: "gateOk ?g" and act: "pg_activeClaims ?g = pg_activeClaims g"
    using assms by (auto simp: sweepStale_ok) (simp add: sweepStale_def)
  have fails: "bucketsOk perPairingFailWindow perPairingFailLimit (pg_pairFails ?g)" using g by (simp add: gateOk_def)
  have "sb_window (snd ?b) = perPairingFailWindow \<and> sb_limit (snd ?b) = perPairingFailLimit \<and> length (sb_counts (snd ?b)) \<le> perPairingFailLimit"
    using bucketAllow_ok bucketOf_ok [OF fails, of k] by metis
  then have "\<not> isFull k (pg_pairFails ?g) \<Longrightarrow> bucketsOk perPairingFailWindow perPairingFailLimit (AList.update k (snd ?b) (pg_pairFails ?g))"
    using update_ok [OF fails] by blast
  with g act show ?thesis
    by (auto simp: recordPairingFailure_def Let_def gateOk_def)
qed

lemma resetPairingFailures_ok:
  "gateOk g \<Longrightarrow> gateOk (resetPairingFailures k g) \<and> pg_activeClaims (resetPairingFailures k g) = pg_activeClaims g"
  by (simp add: gateOk_def resetPairingFailures_def delete_ok)


section \<open>Counting failures\<close>

text \<open>The gate after a list of failures, given as pairing ids with their instants.\<close>

definition gateAfter :: "pairingAttemptGate \<Rightarrow> (string \<times> instant) list \<Rightarrow> pairingAttemptGate" where
  "gateAfter g fs = foldl (\<lambda>g (k, t). snd (recordPairingFailure k t g)) g fs"

definition recentFailures :: "string \<Rightarrow> instant \<Rightarrow> (string \<times> instant) list \<Rightarrow> instant list" where
  "recentFailures k now fs = filter (\<lambda>t. now - perPairingFailWindow < t) (map snd (filter (\<lambda>f. fst f = k) fs))"

definition exhausts :: "string \<Rightarrow> instant \<Rightarrow> (string \<times> instant) list \<Rightarrow> bool" where
  "exhausts k t fs \<longleftrightarrow> fst (recordPairingFailure k t (gateAfter newPairingAttemptGate fs))"

lemma gateAfter_snoc: "gateAfter g (fs @ [(k, t)]) = snd (recordPairingFailure k t (gateAfter g fs))"
  by (simp add: gateAfter_def)

lemma gateAfter_ok: "gateOk (gateAfter newPairingAttemptGate fs)"
proof (induction fs rule: rev_induct)
  case Nil
  show ?case by (simp add: gateAfter_def gateOk_def newPairingAttemptGate_def bucketsOk_def globalConcurrentClaims_def)
next
  case (snoc f fs)
  then show ?case using recordPairingFailure_ok by (cases f) (simp add: gateAfter_snoc)
qed

lemma set_keys_sweep: "fst ` set (sweepBuckets now bs) \<subseteq> fst ` set bs"
  by (force simp: sweepBuckets_def)

lemma keys_gateAfter: "fst ` set (pg_pairFails (gateAfter newPairingAttemptGate fs)) \<subseteq> fst ` set fs"
proof (induction fs rule: rev_induct)
  case Nil
  show ?case by (simp add: gateAfter_def newPairingAttemptGate_def)
next
  case (snoc f fs)
  let ?g = "gateAfter newPairingAttemptGate fs"
  obtain k t where f: "f = (k, t)" by fastforce
  have sw: "fst ` set (pg_pairFails (sweepStale t ?g)) \<subseteq> fst ` set fs"
    using set_keys_sweep [of t "pg_pairFails ?g"] snoc by (auto simp: sweepStale_def)
  then have "fst ` set (pg_pairFails (snd (recordPairingFailure k t ?g))) \<subseteq> insert k (fst ` set fs)"
    by (auto simp: recordPairingFailure_def Let_def dest!: set_AList_update)
  then show ?case by (simp add: f gateAfter_snoc)
qed

lemma recordPairingFailure_room:
  assumes "length (remdups (map fst (fs @ [(k, t)]))) \<le> maxPairingBuckets"
  shows "\<not> isFull k (pg_pairFails (sweepStale t (gateAfter newPairingAttemptGate fs)))"
proof
  let ?bs = "pg_pairFails (sweepStale t (gateAfter newPairingAttemptGate fs))"
  assume full: "isFull k ?bs"
  have sub: "fst ` set ?bs \<subseteq> fst ` set fs"
    using subset_trans [OF set_keys_sweep keys_gateAfter] by (simp add: sweepStale_def)
  have "distinct (map fst ?bs)"
    using sweepStale_ok [OF gateAfter_ok] by (simp add: gateOk_def bucketsOk_def)
  then have "length ?bs = card (fst ` set ?bs)" by (metis distinct_card length_map set_map)
  moreover have "k \<notin> fst ` set ?bs" using full by (simp add: isFull_def map_of_eq_None_iff)
  then have "Suc (card (fst ` set ?bs)) = card (insert k (fst ` set ?bs))" by simp
  moreover have "card (insert k (fst ` set ?bs)) \<le> card (insert k (fst ` set fs))"
    by (rule card_mono) (use sub in auto)
  moreover have "card (insert k (fst ` set fs)) = length (remdups (map fst (fs @ [(k, t)])))"
    by (simp add: length_remdups_card_conv)
  ultimately show False using assms full by (simp del: map_append add: isFull_def)
qed

text \<open>Sweeping forgets nothing that still counts.\<close>

lemma bucketOf_sweep:
  assumes "bucketsOk w l bs"
  shows "sb_counts (bucketOf w l k (sweepBuckets now bs)) = freshCounts now (bucketOf w l k bs)"
proof -
  have "distinct (map fst bs)" and all: "\<forall>(k, b)\<in>set bs. sb_window b = w" using assms by (auto simp: bucketsOk_def)
  have "map_of (sweepBuckets now bs) k =
    (case map_of bs k of None \<Rightarrow> None
     | Some b \<Rightarrow> if freshCounts now b = [] then None else Some (b\<lparr>sb_counts := freshCounts now b\<rparr>))"
    using \<open>distinct (map fst bs)\<close>
  proof (induction bs)
    case (Cons kb bs)
    have "map_of (sweepBuckets now bs) (fst kb) = None"
      using Cons.prems set_keys_sweep [of now bs] by (auto simp: map_of_eq_None_iff)
    with Cons show ?case by (cases kb) (auto simp: sweepBuckets_def)
  qed (simp add: sweepBuckets_def)
  then show ?thesis by (auto simp: bucketOf_def freshCounts_def split: option.splits)
qed

abbreviation failureBucket :: "string \<Rightarrow> pairingAttemptGate \<Rightarrow> slidingBucket" where
  "failureBucket k g \<equiv> bucketOf perPairingFailWindow perPairingFailLimit k (pg_pairFails g)"

lemma failureBucket_sweep:
  assumes "gateOk g"
  shows "sb_counts (failureBucket k (sweepStale t g)) = freshCounts t (failureBucket k g)"
    and "freshCounts t (failureBucket k (sweepStale t g)) = freshCounts t (failureBucket k g)"
    and "sb_window (failureBucket k g) = perPairingFailWindow" and "sb_limit (failureBucket k g) = perPairingFailLimit"
proof -
  have ok: "bucketsOk perPairingFailWindow perPairingFailLimit (pg_pairFails g)"
    and ok': "bucketsOk perPairingFailWindow perPairingFailLimit (sweepBuckets t (pg_pairFails g))"
    using assms by (simp_all add: gateOk_def sweepBuckets_ok)
  show w: "sb_window (failureBucket k g) = perPairingFailWindow" and "sb_limit (failureBucket k g) = perPairingFailLimit"
    using bucketOf_ok [OF ok, of k] by simp_all
  show c: "sb_counts (failureBucket k (sweepStale t g)) = freshCounts t (failureBucket k g)"
    by (simp add: sweepStale_def bucketOf_sweep [OF ok])
  have "sb_window (failureBucket k (sweepStale t g)) = perPairingFailWindow"
    using bucketOf_ok [OF ok', of k] by (simp add: sweepStale_def)
  with c w show "freshCounts t (failureBucket k (sweepStale t g)) = freshCounts t (failureBucket k g)"
    by (simp add: freshCounts_def)
qed

lemma bucketOf_update: "bucketOf w l k (AList.update k' b bs) = (if k = k' then b else bucketOf w l k bs)"
  by (simp add: bucketOf_def update_conv')

lemma recordPairingFailure_counts:
  assumes "gateOk g" and "\<not> isFull k (pg_pairFails (sweepStale t g))"
  defines "c \<equiv> freshCounts t (failureBucket k g)"
  shows "fst (recordPairingFailure k t g) \<longleftrightarrow> perPairingFailLimit \<le> Suc (length c)"
    and "sb_counts (failureBucket k (snd (recordPairingFailure k t g))) = (if perPairingFailLimit \<le> length c then c else c @ [t])"
proof -
  have lim: "sb_limit (failureBucket k (sweepStale t g)) = perPairingFailLimit"
    using failureBucket_sweep(4) [OF sweepStale_ok [OF assms(1)]] .
  have "sb_counts (snd (bucketAllow t (failureBucket k (sweepStale t g)))) = (if perPairingFailLimit \<le> length c then c else c @ [t])"
    by (simp add: bucketAllow_def Let_def lim failureBucket_sweep(2) [OF assms(1)] c_def)
  then show "fst (recordPairingFailure k t g) \<longleftrightarrow> perPairingFailLimit \<le> Suc (length c)"
    and "sb_counts (failureBucket k (snd (recordPairingFailure k t g))) = (if perPairingFailLimit \<le> length c then c else c @ [t])"
    using assms(2) by (simp_all add: recordPairingFailure_def Let_def bucketOf_update)
qed

lemma recordPairingFailure_other:
  assumes "gateOk g" and "k \<noteq> k'"
  shows "sb_counts (failureBucket k (snd (recordPairingFailure k' t g))) = freshCounts t (failureBucket k g)"
  using failureBucket_sweep(1) [OF assms(1), of k t] assms(2)
  by (simp add: recordPairingFailure_def Let_def bucketOf_update)

lemma early_failure:
  assumes "Suc (length (filter (\<lambda>f. fst f = k) fs)) < perPairingFailLimit"
  shows "\<not> fst (recordPairingFailure k t (gateAfter newPairingAttemptGate fs))"
proof -
  have "length (sb_counts (failureBucket k (gateAfter newPairingAttemptGate fs))) \<le> length (filter (\<lambda>f. fst f = k) fs)"
  proof (induction fs rule: rev_induct)
    case Nil
    show ?case by (simp add: gateAfter_def newPairingAttemptGate_def bucketOf_def)
  next
    case (snoc f fs)
    obtain k' u where f: "f = (k', u)" by fastforce
    let ?g = "gateAfter newPairingAttemptGate fs"
    have fresh: "length (freshCounts u (failureBucket k ?g)) \<le> length (filter (\<lambda>f. fst f = k) fs)"
      using snoc freshCounts_le [of u "failureBucket k ?g"] by simp
    show ?case
    proof (cases "k' = k \<and> \<not> isFull k (pg_pairFails (sweepStale u ?g))")
      case True
      then show ?thesis
        using fresh recordPairingFailure_counts(2) [OF gateAfter_ok, where k = k and t = u] by (simp add: f gateAfter_snoc)
    next
      case False
      then have "sb_counts (failureBucket k (gateAfter newPairingAttemptGate (fs @ [f]))) = freshCounts u (failureBucket k ?g)"
        using recordPairingFailure_other [OF gateAfter_ok, where k = k and k' = k' and t = u]
          failureBucket_sweep(1) [OF gateAfter_ok, where k = k and t = u]
        by (cases "k' = k") (auto simp: f gateAfter_snoc recordPairingFailure_def Let_def)
      with fresh show ?thesis by simp
    qed
  qed
  with assms freshCounts_le [of t "failureBucket k (gateAfter newPairingAttemptGate fs)"]
    recordPairingFailure_counts(1) [OF gateAfter_ok, where k = k and t = t]
  show ?thesis
    by (cases "isFull k (pg_pairFails (sweepStale t (gateAfter newPairingAttemptGate fs)))")
      (auto simp: recordPairingFailure_def Let_def)
qed

lemma freshCounts_later:
  "t \<le> now \<Longrightarrow> freshCounts now b = filter (\<lambda>at. now - sb_window b < at) (freshCounts t b)"
  by (auto simp: freshCounts_def intro!: filter_cong)

lemma recentFailures_later:
  "t \<le> now \<Longrightarrow> recentFailures k now fs = filter (\<lambda>at. now - perPairingFailWindow < at) (recentFailures k t fs)"
  by (auto simp: recentFailures_def intro!: filter_cong)

text \<open>Until a session is exhausted, its bucket holds exactly its failures that still count.\<close>

lemma counts_gateAfter:
  assumes "sorted (map snd fs)" and "\<forall>f\<in>set fs. snd f \<le> now"
    and "length (remdups (map fst fs)) \<le> maxPairingBuckets"
    and "\<And>pre u post. fs = pre @ (k, u) # post \<Longrightarrow> \<not> exhausts k u pre"
  shows "freshCounts now (failureBucket k (gateAfter newPairingAttemptGate fs)) = recentFailures k now fs"
  using assms
proof (induction fs arbitrary: now rule: rev_induct)
  case Nil
  show ?case by (simp add: gateAfter_def newPairingAttemptGate_def bucketOf_def freshCounts_def recentFailures_def)
next
  case (snoc f fs)
  obtain k' t where f: "f = (k', t)" by fastforce
  let ?g = "gateAfter newPairingAttemptGate fs"
  have t: "t \<le> now" using snoc.prems(2) f by simp
  have "length (remdups (map fst fs)) \<le> length (remdups (map fst (fs @ [f])))"
    by (simp add: length_remdups_card_conv card_insert_le)
  then have IH: "freshCounts t (failureBucket k ?g) = recentFailures k t fs"
    using snoc.IH [of t] snoc.prems f by (simp add: sorted_append)
  have now: "freshCounts now (failureBucket k (gateAfter newPairingAttemptGate (fs @ [f]))) =
    filter (\<lambda>at. now - perPairingFailWindow < at) (sb_counts (failureBucket k (gateAfter newPairingAttemptGate (fs @ [f]))))"
    using failureBucket_sweep(3) [OF gateAfter_ok] by (simp add: freshCounts_def)
  show ?case
  proof (cases "k' = k")
    case False
    then have "sb_counts (failureBucket k (gateAfter newPairingAttemptGate (fs @ [f]))) = recentFailures k t fs"
      using recordPairingFailure_other [OF gateAfter_ok, where k = k and k' = k' and t = t] IH by (simp add: f gateAfter_snoc)
    with False show ?thesis
      unfolding now using recentFailures_later [OF t, of k fs] by (simp add: f recentFailures_def)
  next
    case True
    have room: "\<not> isFull k (pg_pairFails (sweepStale t ?g))"
      using snoc.prems(3) f True by (intro recordPairingFailure_room) simp
    note counted = recordPairingFailure_counts [OF gateAfter_ok room, unfolded IH]
    have "\<not> exhausts k t fs" using snoc.prems(4) [of fs t "[]"] f True by simp
    with counted have "sb_counts (failureBucket k (gateAfter newPairingAttemptGate (fs @ [f]))) = recentFailures k t fs @ [t]"
      by (simp add: exhausts_def f True gateAfter_snoc)
    then show ?thesis
      unfolding now using recentFailures_later [OF t, of k fs] by (simp add: f True recentFailures_def)
  qed
qed

section \<open>Slots of the gate\<close>

fun holdsSlot :: "claimPhase \<Rightarrow> bool" where
  "holdsSlot Arrived = False"
| "holdsSlot Gone = False"
| "holdsSlot _ = True"

definition slotsHeld :: "PairingSys \<Rightarrow> nat" where
  "slotsHeld s = length (filter (\<lambda>h. holdsSlot (ch_phase h)) (py_handlers s))"

definition slotsOk :: "PairingSys \<Rightarrow> bool" where
  "slotsOk s \<longleftrightarrow> gateOk (py_gate s) \<and> pg_activeClaims (py_gate s) = int (slotsHeld s)"

lemma slotsHeld_setPhase:
  "i < length (py_handlers s) \<Longrightarrow>
   int (slotsHeld (setPhase i ph s)) =
     int (slotsHeld s) + (if holdsSlot ph then 1 else 0) - (if holdsSlot (ch_phase (py_handlers s ! i)) then 1 else 0)"
  using length_filter_update [of i "py_handlers s" "\<lambda>h. holdsSlot (ch_phase h)" "(py_handlers s ! i)\<lparr>ch_phase := ph\<rparr>"]
  by (simp add: slotsHeld_def setPhase_def split: if_splits)

lemma setPhase_simps [simp]:
  "py_gate (setPhase i ph s) = py_gate s"
  "py_heap (setPhase i ph s) = py_heap s"
  "py_next (setPhase i ph s) = py_next s"
  "py_store (setPhase i ph s) = py_store s"
  "py_registry (setPhase i ph s) = py_registry s"
  "py_approvals (setPhase i ph s) = py_approvals s"
  "py_claims (setPhase i ph s) = py_claims s"
  "py_trusted (setPhase i ph s) = py_trusted s"
  "py_delivered (setPhase i ph s) = py_delivered s"
  "length (py_handlers (setPhase i ph s)) = length (py_handlers s)"
  by (simp_all add: setPhase_def)

lemma setApproval_simps [simp]:
  "py_gate (setApproval j ph s) = py_gate s"
  "py_heap (setApproval j ph s) = py_heap s"
  "py_next (setApproval j ph s) = py_next s"
  "py_store (setApproval j ph s) = py_store s"
  "py_registry (setApproval j ph s) = py_registry s"
  "py_handlers (setApproval j ph s) = py_handlers s"
  "py_claims (setApproval j ph s) = py_claims s"
  "py_trusted (setApproval j ph s) = py_trusted s"
  "py_delivered (setApproval j ph s) = py_delivered s"
  "length (py_approvals (setApproval j ph s)) = length (py_approvals s)"
  by (simp_all add: setApproval_def)

lemma slotsOk_same:
  "slotsOk s \<Longrightarrow> i < length (py_handlers s) \<Longrightarrow> ch_phase (py_handlers s ! i) = old \<Longrightarrow> holdsSlot old = holdsSlot ph \<Longrightarrow>
   py_handlers t = py_handlers s \<Longrightarrow> gateOk (py_gate t) \<Longrightarrow> pg_activeClaims (py_gate t) = pg_activeClaims (py_gate s) \<Longrightarrow>
   slotsOk (setPhase i ph t)"
  using slotsHeld_setPhase [of i t ph] by (auto simp: slotsOk_def slotsHeld_def)

lemma slotsOk_claimStep:
  assumes s: "slotsOk s" and i: "i < length (py_handlers s)"
  shows "slotsOk (claimStep i (py_handlers s ! i) s)"
proof -
  let ?h = "py_handlers s ! i"
  have g: "gateOk (py_gate s)" and n: "pg_activeClaims (py_gate s) = int (slotsHeld s)" using s by (simp_all add: slotsOk_def)
  note same = slotsOk_same [OF s i refl]
  show ?thesis
  proof (cases "ch_phase ?h")
    case Arrived
    obtain ok g' where acq: "gateAcquire (py_now s) (ch_IP ?h) (py_gate s) = (ok, g')" by fastforce
    show ?thesis
      using gateAcquire_ok [OF g acq] n Arrived slotsHeld_setPhase [of i "s\<lparr>py_gate := g'\<rparr>" "if ok then Admitted else Gone"]
        slotsHeld_setPhase [of i s Gone] i acq g
      by (auto simp: claimStep_def slotsOk_def slotsHeld_def)
  next
    case Leaving
    have "0 < pg_activeClaims (py_gate s)"
      using i Leaving n by (auto simp: slotsHeld_def length_filter_conv_card intro!: card_gt_0_iff [THEN iffD2])
    with gateRelease_ok [OF g] n Leaving i slotsHeld_setPhase [of i "s\<lparr>py_gate := gateRelease (py_gate s)\<rparr>" Gone] show ?thesis
      by (simp add: claimStep_def slotsOk_def slotsHeld_def)
  next
    case Gone
    with s show ?thesis by (simp add: claimStep_def)
  next
    case Admitted
    with g show ?thesis by (auto simp: claimStep_def split: option.splits intro!: same)
  next
    case Unknown
    with g show ?thesis by (auto simp: claimStep_def recordPairingFailure_ok intro!: same)
  next
    case (Missed ref)
    with g recordPairingFailure_ok [OF g, of "ps_ID (py_heap s ref)" "py_now s"] show ?thesis
      by (auto simp: claimStep_def split: prod.splits intro!: same)
  next
    case (Exhausted ref)
    with g show ?thesis by (auto simp: claimStep_def intro!: same)
  next
    case (Matched ref)
    with g show ?thesis by (auto simp: claimStep_def split: sum.splits intro!: same)
  next
    case (HasClaimed ref)
    with g show ?thesis by (auto simp: claimStep_def resetPairingFailures_ok intro!: same)
  next
    case (Counted ref)
    with g show ?thesis by (auto simp: claimStep_def intro!: same)
  next
    case (Waiting ref)
    with g show ?thesis by (auto simp: claimStep_def intro!: same)
  qed
qed

lemma approvalStep_keeps [simp]:
  "py_gate (approvalStep j a generated random written s) = py_gate s"
  "py_handlers (approvalStep j a generated random written s) = py_handlers s"
  "py_claims (approvalStep j a generated random written s) = py_claims s"
  "py_next (approvalStep j a generated random written s) = py_next s"
  by (auto simp: approvalStep_def Let_def split: approvalPhase.splits sum.splits prod.splits)

lemma slotsOk_step: "slotsOk s \<Longrightarrow> slotsOk (pairingStep s x)"
proof (cases x)
  case (PCreate pairID code)
  assume "slotsOk s"
  with PCreate show ?thesis by (auto simp: handlePairingCreate_def Let_def slotsOk_def slotsHeld_def split: prod.splits)
next
  case (PHandler i)
  assume "slotsOk s"
  with PHandler show ?thesis using slotsOk_claimStep [of s i] by simp
qed (auto simp: slotsOk_def slotsHeld_def split: option.splits)

interpretation slots: guarded_machine pairingStep slotsOk
  by unfold_locales (rule slotsOk_step)

end
