(* ===== verification/Pairing_Safety.thy ===== *)
theory Pairing_Safety
  imports Pairing
begin

text \<open>
  What pairing guarantees: a device becomes trusted through one claim with the session's id and code and one
  approval, and its token goes to the handler of a claim.
\<close>

section \<open>One claim and one device for a session\<close>

definition who :: "claimHandler \<Rightarrow> string \<times> string \<times> string \<times> string \<times> string" where
  "who h = (ch_PairingID h, ch_ManualCode h, ch_DeviceID h, ch_DeviceName h, ch_Platform h)"

definition claimsOf :: "nat \<Rightarrow> PairingSys \<Rightarrow> (nat \<times> nat) list" where
  "claimsOf r s = filter (\<lambda>c. fst c = r) (py_claims s)"

definition trustedBy :: "nat \<Rightarrow> PairingSys \<Rightarrow> (nat \<times> TrustedDeviceRecord) list" where
  "trustedBy r s = filter (\<lambda>p. fst p = r) (py_trusted s)"

definition inFlight :: "nat \<Rightarrow> PairingSys \<Rightarrow> nat" where
  "inFlight r s = length (filter (\<lambda>a. ap_ref a = r \<and> ap_phase a \<in> {ApApproved, ApUpdated}) (py_approvals s))"

definition claimedBy :: "PairingSession \<Rightarrow> claimHandler \<Rightarrow> bool" where
  "claimedBy p h \<longleftrightarrow>
     who h = (ps_ID p, ps_ManualCode p, ps_ClaimingDeviceID p, ps_ClaimingDeviceName p, ps_ClaimingPlatform p)"

definition identified :: "PairingSession \<Rightarrow> bool" where
  "identified p \<longleftrightarrow>
     (if ps_ClaimingDeviceID p = [] then hasPrefix (ps_DeviceID p) ''dev_'' else ps_DeviceID p = ps_ClaimingDeviceID p)"

definition deviceMatches :: "PairingSession \<Rightarrow> TrustedDeviceRecord \<Rightarrow> bool" where
  "deviceMatches p d \<longleftrightarrow>
     td_DeviceID d = ps_DeviceID p \<and> td_DisplayName d = ps_ClaimingDeviceName p \<and>
     td_Platform d = ps_ClaimingPlatform p \<and> td_TokenHash d = ps_DeviceTokenHash p"

definition settled :: "PairingSession \<Rightarrow> bool" where
  "settled p \<longleftrightarrow> ps_State p = PairingApproved \<or> ps_State p = PairingCompleted"

definition sessionOk :: "nat \<Rightarrow> PairingSys \<Rightarrow> bool" where
  "sessionOk r s \<longleftrightarrow>
     (if ps_State (py_heap s r) = PairingCreated then claimsOf r s = []
      else \<exists>i. claimsOf r s = [(r, i)] \<and> i < length (py_handlers s) \<and> claimedBy (py_heap s r) (py_handlers s ! i)) \<and>
     (if settled (py_heap s r)
      then inFlight r s + length (trustedBy r s) \<le> 1 \<and> identified (py_heap s r) \<and>
           (\<forall>d. (r, d) \<in> set (trustedBy r s) \<longrightarrow> deviceMatches (py_heap s r) d)
      else inFlight r s = 0 \<and> trustedBy r s = [])"

definition handlerOk :: "nat \<Rightarrow> PairingSys \<Rightarrow> bool" where
  "handlerOk i s \<longleftrightarrow>
     (case ch_phase (py_handlers s ! i) of
        Matched r \<Rightarrow> r < py_next s \<and> ps_ID (py_heap s r) = ch_PairingID (py_handlers s ! i) \<and>
                     ps_ManualCode (py_heap s r) = ch_ManualCode (py_handlers s ! i)
      | HasClaimed r \<Rightarrow> (r, i) \<in> set (py_claims s)
      | Counted r \<Rightarrow> (r, i) \<in> set (py_claims s)
      | _ \<Rightarrow> True)"

definition referencesOk :: "PairingSys \<Rightarrow> bool" where
  "referencesOk s \<longleftrightarrow>
     (\<forall>r. py_next s \<le> r \<longrightarrow> ps_State (py_heap s r) = PairingCreated) \<and>
     (\<forall>k r. mps_byID (py_store s) k = Some r \<longrightarrow> r < py_next s \<and> ps_ID (py_heap s r) = k) \<and>
     (\<forall>a\<in>set (py_approvals s). ap_ref a < py_next s)"

definition claimant :: "nat \<Rightarrow> string \<Rightarrow> PairingSys \<Rightarrow> bool" where
  "claimant i k s \<longleftrightarrow> (\<exists>r. (r, i) \<in> set (py_claims s) \<and> ps_ID (py_heap s r) = k)"

definition deliveriesOk :: "PairingSys \<Rightarrow> bool" where
  "deliveriesOk s \<longleftrightarrow>
     (\<forall>k i. py_registry s k = Some i \<longrightarrow> claimant i k s) \<and>
     (\<forall>(r, i)\<in>set (py_delivered s). r < py_next s \<and> claimant i (ps_ID (py_heap s r)) s)"

definition pairingOk :: "PairingSys \<Rightarrow> bool" where
  "pairingOk s \<longleftrightarrow>
     (\<forall>r. sessionOk r s) \<and> (\<forall>i<length (py_handlers s). handlerOk i s) \<and> referencesOk s \<and> deliveriesOk s"

text \<open>What a step leaves of a session: nothing changed but the phases of handlers.\<close>

definition sameHandlers :: "PairingSys \<Rightarrow> PairingSys \<Rightarrow> bool" where
  "sameHandlers s t \<longleftrightarrow>
     (\<forall>i<length (py_handlers s). i < length (py_handlers t) \<and> who (py_handlers t ! i) = who (py_handlers s ! i))"

lemma claimedBy_who: "who h = who h' \<Longrightarrow> claimedBy p h = claimedBy p h'"
  by (simp add: claimedBy_def)

lemma sessionOk_frame:
  assumes "sessionOk r s" and "py_heap t r = py_heap s r" and "claimsOf r t = claimsOf r s"
    and "trustedBy r t = trustedBy r s" and "inFlight r t \<le> inFlight r s" and "sameHandlers s t"
  shows "sessionOk r t"
proof -
  have "i < length (py_handlers t) \<and> claimedBy (py_heap s r) (py_handlers t ! i)"
    if "i < length (py_handlers s)" "claimedBy (py_heap s r) (py_handlers s ! i)" for i
    using that assms(6) claimedBy_who by (metis sameHandlers_def)
  then have claimed: "(\<exists>i. claimsOf r s = [(r, i)] \<and> i < length (py_handlers s) \<and> claimedBy (py_heap s r) (py_handlers s ! i)) \<Longrightarrow>
    (\<exists>i. claimsOf r s = [(r, i)] \<and> i < length (py_handlers t) \<and> claimedBy (py_heap s r) (py_handlers t ! i))"
    by blast
  have "inFlight r s + length (trustedBy r s) \<le> 1 \<Longrightarrow> inFlight r t + length (trustedBy r s) \<le> 1"
    and "inFlight r s = 0 \<Longrightarrow> inFlight r t = 0"
    using assms(5) by linarith+
  with assms(1) claimed show ?thesis
    unfolding sessionOk_def assms(2-4) by meson
qed

lemma sameHandlers_refl [simp]: "py_handlers t = py_handlers s \<Longrightarrow> sameHandlers s t"
  by (simp add: sameHandlers_def)

lemma sameHandlers_setPhase [simp]:
  "py_handlers t = py_handlers s \<Longrightarrow> sameHandlers s (setPhase i ph t)"
  by (cases "i < length (py_handlers s)")
    (auto simp: sameHandlers_def setPhase_def who_def nth_list_update)

lemma new_session_unclaimed: "pairingOk s \<Longrightarrow> (r, i) \<in> set (py_claims s) \<Longrightarrow> r < py_next s"
proof (rule ccontr)
  assume s: "pairingOk s" and c: "(r, i) \<in> set (py_claims s)" and "\<not> r < py_next s"
  then have "ps_State (py_heap s r) = PairingCreated" by (simp add: pairingOk_def referencesOk_def)
  moreover have "sessionOk r s" using s by (simp add: pairingOk_def)
  ultimately have "claimsOf r s = []" by (simp add: sessionOk_def)
  with c show False by (auto simp: claimsOf_def filter_empty_conv)
qed


subsection \<open>The steps of a claiming device\<close>

lemma nth_setPhase: "i < length (py_handlers s) \<Longrightarrow>
   py_handlers (setPhase i ph s) ! j = (if j = i then (py_handlers s ! i)\<lparr>ch_phase := ph\<rparr> else py_handlers s ! j)"
  by (simp add: setPhase_def)

lemma claimStep_keeps [simp]:
  "py_next (claimStep i h s) = py_next s"
  "py_trusted (claimStep i h s) = py_trusted s"
  "py_approvals (claimStep i h s) = py_approvals s"
  "py_delivered (claimStep i h s) = py_delivered s"
  "length (py_handlers (claimStep i h s)) = length (py_handlers s)"
  by (cases "ch_phase h"; auto simp: claimStep_def split: option.splits sum.splits prod.splits)+

lemma claimStep_others:
  "i < length (py_handlers s) \<Longrightarrow> j \<noteq> i \<Longrightarrow> py_handlers (claimStep i h s) ! j = py_handlers s ! j"
  by (cases "ch_phase h") (auto simp: claimStep_def nth_setPhase split: option.splits sum.splits prod.splits)

lemma sameHandlers_claimStep: "sameHandlers s (claimStep i h s)"
  by (cases "ch_phase h") (auto simp: claimStep_def split: option.splits sum.splits prod.splits)

lemma claimStep_store:
  "mps_byID (py_store (claimStep i h s)) k = Some r \<Longrightarrow> mps_byID (py_store s) k = Some r"
  by (cases "ch_phase h") (auto simp: claimStep_def Store_Delete_def split: option.splits sum.splits prod.splits if_splits)

text \<open>Every step but a successful claim leaves the sessions alone.\<close>

definition claims :: "nat \<Rightarrow> claimHandler \<Rightarrow> PairingSys \<Rightarrow> nat \<Rightarrow> PairingSession \<Rightarrow> bool" where
  "claims i h s ref session \<longleftrightarrow>
     ch_phase h = Matched ref \<and>
     Session_Claim (py_now s) (ch_DeviceID h) (ch_DeviceName h) (ch_Platform h) (py_heap s ref) = Inr session"

lemma claimStep_quiet:
  "\<nexists>ref session. claims i h s ref session \<Longrightarrow> py_heap (claimStep i h s) = py_heap s \<and> py_claims (claimStep i h s) = py_claims s"
  by (cases "ch_phase h") (auto simp: claims_def claimStep_def split: option.splits sum.splits prod.splits)

lemma claimStep_claims:
  "claims i h s ref session \<Longrightarrow>
   claimStep i h s = setPhase i (HasClaimed ref) (s\<lparr>py_heap := (py_heap s)(ref := session), py_claims := py_claims s @ [(ref, i)]\<rparr>)"
  by (simp add: claims_def claimStep_def)

lemma Session_Claim_Inr:
  "Session_Claim now dev name plat p = Inr q \<longleftrightarrow>
   now \<le> ps_ExpiresAt p \<and> ps_State p = PairingCreated \<and>
   q = p\<lparr>ps_State := PairingClaimed, ps_ClaimingDeviceID := dev, ps_ClaimingDeviceName := name, ps_ClaimingPlatform := plat\<rparr>"
  by (auto simp: Session_Claim_def IsExpired_def)

lemma handlerOk_claimStep:
  assumes s: "pairingOk s" and i: "i < length (py_handlers s)"
    and quiet: "py_heap t = py_heap s" "py_claims t = py_claims s"
    and t: "t = claimStep i (py_handlers s ! i) s"
  shows "handlerOk i t"
proof -
  have ok: "handlerOk i s" and refs: "referencesOk s" using s i by (auto simp: pairingOk_def)
  show ?thesis
  proof (cases "ch_phase (py_handlers s ! i)")
    case Admitted
    show ?thesis
    proof (cases "Store_Get (ch_PairingID (py_handlers s ! i)) (py_store s)")
      case (Some ref)
      with refs have "ref < py_next s \<and> ps_ID (py_heap s ref) = ch_PairingID (py_handlers s ! i)"
        by (simp add: referencesOk_def Store_Get_def)
      with Some Admitted i show ?thesis by (simp add: t claimStep_def handlerOk_def nth_setPhase)
    qed (use Admitted i in \<open>simp add: t claimStep_def handlerOk_def nth_setPhase\<close>)
  next
    case (Matched ref)
    with quiet(2) show ?thesis using i
      by (auto simp: t claimStep_def handlerOk_def nth_setPhase split: sum.splits)
  qed (use ok i in \<open>auto simp: t claimStep_def handlerOk_def nth_setPhase Let_def split: prod.splits option.splits\<close>)
qed


lemma handlerOk_others:
  assumes "py_handlers t ! j = py_handlers s ! j" and "set (py_claims s) \<subseteq> set (py_claims t)" and "py_next s \<le> py_next t"
    and "\<And>r. r < py_next s \<Longrightarrow> ps_ID (py_heap t r) = ps_ID (py_heap s r) \<and> ps_ManualCode (py_heap t r) = ps_ManualCode (py_heap s r)"
    and "handlerOk j s"
  shows "handlerOk j t"
  using assms by (cases "ch_phase (py_handlers s ! j)") (auto simp: handlerOk_def)

lemma claimant_mono:
  assumes "claimant i k s" and "pairingOk s" and "set (py_claims s) \<subseteq> set (py_claims t)"
    and "\<And>r. r < py_next s \<Longrightarrow> ps_ID (py_heap t r) = ps_ID (py_heap s r)"
  shows "claimant i k t"
  using assms new_session_unclaimed unfolding claimant_def by (metis subsetD)

lemma sessionOk_claimed:
  assumes s: "pairingOk s" and i: "i < length (py_handlers s)" and c: "claims i (py_handlers s ! i) s ref session"
    and t: "t = claimStep i (py_handlers s ! i) s"
  shows "sessionOk r t"
proof (cases "r = ref")
  case False
  have "sessionOk r s" using s by (simp add: pairingOk_def)
  then show ?thesis
  proof (rule sessionOk_frame)
    show "sameHandlers s t" by (simp add: t sameHandlers_claimStep)
  qed (use False in \<open>simp_all add: t claimStep_claims [OF c] claimsOf_def trustedBy_def inFlight_def\<close>)
next
  case True
  let ?h = "py_handlers s ! i"
  have ref: "sessionOk ref s" "handlerOk i s" using s i by (simp_all add: pairingOk_def)
  have p: "ps_State (py_heap s ref) = PairingCreated"
    "session = (py_heap s ref)\<lparr>ps_State := PairingClaimed, ps_ClaimingDeviceID := ch_DeviceID ?h,
       ps_ClaimingDeviceName := ch_DeviceName ?h, ps_ClaimingPlatform := ch_Platform ?h\<rparr>"
    using c by (simp_all add: claims_def Session_Claim_Inr)
  have code: "ps_ID (py_heap s ref) = ch_PairingID ?h" "ps_ManualCode (py_heap s ref) = ch_ManualCode ?h"
    using ref(2) c by (simp_all add: handlerOk_def claims_def)
  have before: "claimsOf ref s = []" "inFlight ref s = 0" "trustedBy ref s = []"
    using ref(1) p(1) by (simp_all add: sessionOk_def settled_def)
  have after: "py_heap t ref = session" "claimsOf ref t = [(ref, i)]" "inFlight ref t = 0" "trustedBy ref t = []"
    using before by (simp_all add: t claimStep_claims [OF c] claimsOf_def inFlight_def trustedBy_def)
  have "claimedBy session (py_handlers t ! i)"
    using code i by (simp add: t claimStep_claims [OF c] nth_setPhase claimedBy_def who_def p(2))
  with after i p(2) show ?thesis by (simp add: True sessionOk_def settled_def t)
qed

lemma pairingOk_claimStep:
  assumes s: "pairingOk s" and i: "i < length (py_handlers s)"
  shows "pairingOk (claimStep i (py_handlers s ! i) s)"
proof -
  let ?h = "py_handlers s ! i"
  define t where "t = claimStep i ?h s"
  have refs: "referencesOk s" and del: "deliveriesOk s" using s by (simp_all add: pairingOk_def)
  have heap: "ps_ID (py_heap t r) = ps_ID (py_heap s r) \<and> ps_ManualCode (py_heap t r) = ps_ManualCode (py_heap s r) \<and>
      (py_next s \<le> r \<longrightarrow> py_heap t r = py_heap s r)" for r
  proof (cases "\<exists>ref session. claims i ?h s ref session")
    case True
    then obtain ref session where c: "claims i ?h s ref session" by blast
    have "handlerOk i s" using s i by (simp add: pairingOk_def)
    then have "ref < py_next s" using c by (simp add: handlerOk_def claims_def)
    moreover have "ps_ID session = ps_ID (py_heap s ref) \<and> ps_ManualCode session = ps_ManualCode (py_heap s ref)"
      using c by (simp add: claims_def Session_Claim_Inr)
    ultimately show ?thesis by (auto simp: t_def claimStep_claims [OF c])
  qed (simp add: t_def claimStep_quiet)
  have sub: "set (py_claims s) \<subseteq> set (py_claims t)"
    using claimStep_quiet [of i ?h s] claimStep_claims [of i ?h s] unfolding t_def by fastforce
  have sess: "sessionOk r t" for r
  proof (cases "\<exists>ref session. claims i ?h s ref session")
    case True
    then show ?thesis using sessionOk_claimed [OF s i _ t_def] by blast
  next
    case False
    have "sessionOk r s" using s by (simp add: pairingOk_def)
    then show ?thesis
      by (rule sessionOk_frame)
        (use claimStep_quiet [OF False] in \<open>simp_all add: t_def claimsOf_def trustedBy_def inFlight_def sameHandlers_claimStep\<close>)
  qed
  have hand: "handlerOk j t" if "j < length (py_handlers t)" for j
  proof (cases "j = i")
    case True
    show ?thesis
    proof (cases "\<exists>ref session. claims i ?h s ref session")
      case True
      then obtain ref session where c: "claims i ?h s ref session" by blast
      show ?thesis using i by (simp add: \<open>j = i\<close> t_def claimStep_claims [OF c] handlerOk_def nth_setPhase)
    next
      case False
      show ?thesis
        using handlerOk_claimStep [OF s i _ _ t_def] claimStep_quiet [OF False] by (simp add: \<open>j = i\<close> t_def)
    qed
  next
    case False
    have "handlerOk j s" using s that by (simp add: pairingOk_def t_def)
    then show ?thesis
      by (rule handlerOk_others [rotated 4]) (use False i sub heap in \<open>simp_all add: t_def claimStep_others\<close>)
  qed
  have "r < py_next s \<and> ps_ID (py_heap t r) = k" if "mps_byID (py_store t) k = Some r" for k r
    using refs heap [of r] claimStep_store [OF that [unfolded t_def]] by (simp add: referencesOk_def)
  then have "referencesOk t" using refs heap by (simp add: referencesOk_def t_def)
  moreover have "deliveriesOk t"
  proof -
    have mono: "claimant a k t" if "claimant a k s" for a k
      using claimant_mono [OF that s sub] heap by blast
    have "claimant a k t" if "py_registry t k = Some a" for a k
    proof (cases "py_registry s k = Some a")
      case True
      then show ?thesis using del mono by (simp add: deliveriesOk_def)
    next
      case False
      with that have "a = i \<and> (\<exists>ref. ch_phase ?h = Counted ref \<and> k = ps_ID (py_heap s ref))"
        by (cases "ch_phase ?h") (auto simp: t_def claimStep_def split: option.splits sum.splits prod.splits if_splits)
      then obtain ref where a: "a = i" "ch_phase ?h = Counted ref" "k = ps_ID (py_heap s ref)" by blast
      have "handlerOk i s" using s i by (simp add: pairingOk_def)
      with a have "claimant a k s" by (auto simp: handlerOk_def claimant_def)
      then show ?thesis by (rule mono)
    qed
    with del mono heap show ?thesis by (auto simp: deliveriesOk_def t_def)
  qed
  ultimately show ?thesis using sess hand by (simp add: pairingOk_def t_def)
qed


subsection \<open>The steps of an approval\<close>

lemma Session_Approve_Inr:
  "Session_Approve gen random p = Inr q \<Longrightarrow>
   ps_State p = PairingClaimed \<and> settled q \<and> ps_State q = PairingApproved \<and> identified q \<and> claimedBy q = claimedBy p \<and>
   ps_ID q = ps_ID p \<and> ps_ManualCode q = ps_ManualCode p"
  by (auto simp: Session_Approve_def settled_def identified_def hasPrefix_def claimedBy_def fun_eq_iff split: if_splits option.splits)

lemma Session_Reject_Inr:
  "Session_Reject p = Inr q \<Longrightarrow> ps_State p = PairingClaimed \<and> q = p\<lparr>ps_State := PairingRejected\<rparr>"
  by (auto simp: Session_Reject_def split: if_splits)

lemma Session_Complete_Inr:
  "Session_Complete p = Inr q \<Longrightarrow>
   ps_State p = PairingApproved \<and> q = p\<lparr>ps_State := PairingCompleted, ps_DeviceToken := []\<rparr>"
  by (auto simp: Session_Complete_def split: if_splits)

definition writing :: "approvalPhase \<Rightarrow> nat" where
  "writing ph = (if ph = ApApproved \<or> ph = ApUpdated then 1 else 0)"

lemma inFlight_setApproval:
  "j < length (py_approvals s) \<Longrightarrow>
   inFlight r (setApproval j ph s) + (if ap_ref (py_approvals s ! j) = r then writing (ap_phase (py_approvals s ! j)) else 0) =
   inFlight r s + (if ap_ref (py_approvals s ! j) = r then writing ph else 0)"
  using length_filter_update [of j "py_approvals s" "\<lambda>a. ap_ref a = r \<and> ap_phase a \<in> {ApApproved, ApUpdated}"
      "(py_approvals s ! j)\<lparr>ap_phase := ph\<rparr>"]
  by (auto simp: inFlight_def setApproval_def writing_def split: if_splits)

lemma sessionOk_approved:
  assumes s: "sessionOk r s" and j: "j < length (py_approvals s)"
    and a: "py_approvals s ! j = a" "ap_ref a = r" "ap_phase a = ApFetched"
    and p: "Session_Approve gen random (py_heap s r) = Inr q"
  shows "sessionOk r (setApproval j ApApproved (s\<lparr>py_heap := (py_heap s)(r := q)\<rparr>))"
proof -
  let ?t = "setApproval j ApApproved (s\<lparr>py_heap := (py_heap s)(r := q)\<rparr>)"
  note q = Session_Approve_Inr [OF p]
  have "inFlight r s = 0" "trustedBy r s = []" using s q by (auto simp: sessionOk_def settled_def)
  moreover have "inFlight r ?t = Suc (inFlight r s)"
    using inFlight_setApproval [of j "s\<lparr>py_heap := (py_heap s)(r := q)\<rparr>" r ApApproved] j a
    by (simp add: writing_def inFlight_def)
  moreover have "claimsOf r ?t = claimsOf r s" "trustedBy r ?t = trustedBy r s" by (simp_all add: claimsOf_def trustedBy_def)
  ultimately show ?thesis using s q by (simp add: sessionOk_def settled_def)
qed

lemma sessionOk_final:
  assumes s: "sessionOk r s" and n: "inFlight r t \<le> inFlight r s"
    and t: "py_heap t r = q" "py_claims t = py_claims s" "py_trusted t = py_trusted s" "py_handlers t = py_handlers s"
    and q: "Session_Reject (py_heap s r) = Inr q \<or> Session_Complete (py_heap s r) = Inr q"
  shows "sessionOk r t"
proof -
  have same: "claimsOf r t = claimsOf r s" "trustedBy r t = trustedBy r s" using t by (simp_all add: claimsOf_def trustedBy_def)
  from q show ?thesis
  proof
    assume "Session_Reject (py_heap s r) = Inr q"
    from Session_Reject_Inr [OF this] show ?thesis
      using s n unfolding sessionOk_def t(1,4) same by (auto simp: settled_def claimedBy_def)
  next
    assume "Session_Complete (py_heap s r) = Inr q"
    from Session_Complete_Inr [OF this] show ?thesis
      using s n unfolding sessionOk_def t(1,4) same
      by (auto simp: settled_def claimedBy_def identified_def deviceMatches_def)
  qed
qed

lemma sessionOk_trusted:
  assumes s: "sessionOk r s" and j: "j < length (py_approvals s)"
    and a: "py_approvals s ! j = a" "ap_ref a = r" "ap_phase a = ApUpdated"
  shows "sessionOk r (setApproval j ApTrusted (s\<lparr>py_trusted := py_trusted s @ [(r, deviceOf now (py_heap s r))]\<rparr>))"
proof -
  let ?d = "deviceOf now (py_heap s r)"
  let ?t = "setApproval j ApTrusted (s\<lparr>py_trusted := py_trusted s @ [(r, ?d)]\<rparr>)"
  have n: "inFlight r ?t + 1 = inFlight r s"
    using inFlight_setApproval [of j "s\<lparr>py_trusted := py_trusted s @ [(r, ?d)]\<rparr>" r ApTrusted] j a
    by (simp add: writing_def inFlight_def)
  then have st: "settled (py_heap s r)" using s by (auto simp: sessionOk_def split: if_splits)
  moreover have "claimsOf r ?t = claimsOf r s" "trustedBy r ?t = trustedBy r s @ [(r, ?d)]"
    by (simp_all add: claimsOf_def trustedBy_def)
  moreover have "deviceMatches (py_heap s r) ?d" by (simp add: deviceMatches_def deviceOf_def)
  moreover have "trustedBy r s = []"
    using s st n by (cases "trustedBy r s") (simp_all add: sessionOk_def)
  ultimately show ?thesis using s n by (auto simp: sessionOk_def)
qed


lemma sessionOk_setApproval:
  assumes s: "sessionOk r s" and j: "j < length (py_approvals s)"
    and less: "writing ph \<le> writing (ap_phase (py_approvals s ! j))"
    and t: "py_heap t = py_heap s" "py_claims t = py_claims s" "py_trusted t = py_trusted s"
      "py_handlers t = py_handlers s" "py_approvals t = py_approvals s"
  shows "sessionOk r (setApproval j ph t)"
  using s
proof (rule sessionOk_frame)
  have "inFlight r t = inFlight r s" using t by (simp add: inFlight_def)
  then show "inFlight r (setApproval j ph t) \<le> inFlight r s"
    using inFlight_setApproval [of j t r ph] j less t(5) by (auto split: if_splits)
qed (simp_all add: t claimsOf_def trustedBy_def)

lemma approvalStep_elsewhere:
  "r \<noteq> ap_ref a \<Longrightarrow> py_heap (approvalStep j a gen random written s) r = py_heap s r"
  by (cases "ap_phase a") (auto simp: approvalStep_def Let_def split: sum.splits prod.splits if_splits)

lemma sessionOk_elsewhere:
  assumes "pairingOk s" and j: "j < length (py_approvals s)" and r: "r \<noteq> ap_ref (py_approvals s ! j)"
  shows "sessionOk r (approvalStep j (py_approvals s ! j) gen random written s)"
proof (rule sessionOk_frame)
  show "sessionOk r s" using assms(1) by (simp add: pairingOk_def)
  have "inFlight r (setApproval j ph t) = inFlight r s" if "py_approvals t = py_approvals s" for ph t
    using inFlight_setApproval [of j t r ph] j r that by (simp add: inFlight_def)
  then show "inFlight r (approvalStep j (py_approvals s ! j) gen random written s) \<le> inFlight r s"
    by (cases "ap_phase (py_approvals s ! j)") (auto simp: approvalStep_def Let_def split: sum.splits prod.splits)
  show "py_heap (approvalStep j (py_approvals s ! j) gen random written s) r = py_heap s r"
    using r by (rule approvalStep_elsewhere)
  show "trustedBy r (approvalStep j (py_approvals s ! j) gen random written s) = trustedBy r s"
    using r by (cases "ap_phase (py_approvals s ! j)") (auto simp: trustedBy_def approvalStep_def Let_def split: sum.splits prod.splits)
qed (simp_all add: claimsOf_def)

lemma sessionOk_here:
  assumes s: "pairingOk s" and j: "j < length (py_approvals s)"
    and a: "py_approvals s ! j = a" and r: "ap_ref a = r"
  shows "sessionOk r (approvalStep j a gen random written s)"
proof -
  have ok: "sessionOk r s" using s by (simp add: pairingOk_def)
  note keep = sessionOk_setApproval [OF ok j]
  have final: "sessionOk r (setApproval j ph (s\<lparr>py_heap := (py_heap s)(r := q)\<rparr>))"
    if "Session_Reject (py_heap s r) = Inr q \<or> Session_Complete (py_heap s r) = Inr q" and "writing ph = 0" for q ph
  proof (rule sessionOk_final [OF ok])
    show "inFlight r (setApproval j ph (s\<lparr>py_heap := (py_heap s)(r := q)\<rparr>)) \<le> inFlight r s"
      using inFlight_setApproval [of j "s\<lparr>py_heap := (py_heap s)(r := q)\<rparr>" r ph] j that(2)
      by (simp add: inFlight_def split: if_splits)
    show "Session_Reject (py_heap s r) = Inr q \<or> Session_Complete (py_heap s r) = Inr q" by (rule that(1))
  qed simp_all
  show ?thesis
  proof (cases "ap_phase a")
    case ApFetched
    show ?thesis
    proof (cases "ap_reject a")
      case True
      then show ?thesis using ApFetched
        by (auto simp: approvalStep_def Let_def writing_def a r intro!: final keep split: sum.splits)
    next
      case False
      then show ?thesis using ApFetched sessionOk_approved [OF ok j a r ApFetched]
        by (auto simp: approvalStep_def Let_def writing_def a r intro!: keep split: sum.splits)
    qed
  next
    case ApUpdated
    then show ?thesis using sessionOk_trusted [OF ok j a r ApUpdated]
      by (auto simp: approvalStep_def Let_def writing_def a r intro!: keep)
  next
    case ApNotified
    then show ?thesis
      by (auto simp: approvalStep_def Let_def writing_def a r intro!: keep final split: sum.splits)
  qed (use ok in \<open>auto simp: approvalStep_def Let_def writing_def a r intro!: keep split: prod.splits\<close>)
qed

lemma approvalStep_heap:
  "ps_ID (py_heap (approvalStep j a gen random written s) r) = ps_ID (py_heap s r)"
  "ps_ManualCode (py_heap (approvalStep j a gen random written s) r) = ps_ManualCode (py_heap s r)"
  by (cases "ap_phase a"; auto simp: approvalStep_def Let_def split: sum.splits prod.splits if_splits
      dest: Session_Approve_Inr Session_Reject_Inr Session_Complete_Inr)+


lemma approvalStep_store:
  "mps_byID (py_store (approvalStep j a gen random written s)) k = Some r \<Longrightarrow>
   mps_byID (py_store s) k = Some r \<or> r = ap_ref a \<and> k = ps_ID (py_heap s r)"
  by (cases "ap_phase a")
    (auto simp: approvalStep_def Let_def Store_Update_def Store_put_def split: sum.splits prod.splits if_splits)

lemma approvalStep_refs:
  "j < length (py_approvals s) \<Longrightarrow> b \<in> set (py_approvals (approvalStep j (py_approvals s ! j) gen random written s)) \<Longrightarrow>
   ap_ref b \<in> ap_ref ` set (py_approvals s)"
  by (cases "ap_phase (py_approvals s ! j)")
    (auto simp: approvalStep_def Let_def setApproval_def split: sum.splits prod.splits if_splits
      dest!: set_update_subset_insert [THEN subsetD])

lemma approvalStep_deliveries:
  assumes "(r, i) \<in> set (py_delivered (approvalStep j a gen random written s))"
  shows "(r, i) \<in> set (py_delivered s) \<or> r = ap_ref a \<and> py_registry s (ps_ID (py_heap s r)) = Some i"
  using assms by (cases "ap_phase a")
    (auto simp: approvalStep_def Let_def split: sum.splits prod.splits if_splits option.splits)

lemma approvalStep_registry:
  "py_registry (approvalStep j a gen random written s) k = Some i \<Longrightarrow> py_registry s k = Some i"
  by (cases "ap_phase a") (auto simp: approvalStep_def Let_def split: sum.splits prod.splits if_splits)

lemma pairingOk_approvalStep:
  assumes s: "pairingOk s" and j: "j < length (py_approvals s)"
  shows "pairingOk (approvalStep j (py_approvals s ! j) gen random written s)"
proof -
  let ?a = "py_approvals s ! j"
  define t where "t = approvalStep j ?a gen random written s"
  have refs: "referencesOk s" and del: "deliveriesOk s" using s by (simp_all add: pairingOk_def)
  have a: "ap_ref ?a < py_next s" using refs j by (simp add: referencesOk_def)
  have "sessionOk r t" for r
    using sessionOk_here [OF s j refl refl] sessionOk_elsewhere [OF s j] unfolding t_def by metis
  moreover have "handlerOk i t" if "i < length (py_handlers s)" for i
  proof (rule handlerOk_others)
    show "handlerOk i s" using s that by (simp add: pairingOk_def)
  qed (simp_all add: t_def approvalStep_heap)
  moreover have "referencesOk t"
  proof -
    have "ps_State (py_heap t r) = PairingCreated" if "py_next s \<le> r" for r
      using refs a that approvalStep_elsewhere [of r ?a] by (simp add: referencesOk_def t_def)
    moreover have "r < py_next s \<and> ps_ID (py_heap t r) = k" if "mps_byID (py_store t) k = Some r" for k r
      using approvalStep_store [OF that [unfolded t_def]] refs a by (auto simp: referencesOk_def t_def approvalStep_heap)
    moreover have "ap_ref b < py_next s" if "b \<in> set (py_approvals t)" for b
      using approvalStep_refs [OF j that [unfolded t_def]] refs by (auto simp: referencesOk_def)
    ultimately show ?thesis by (simp add: referencesOk_def t_def)
  qed
  moreover have "deliveriesOk t"
  proof -
    have mono: "claimant i k t \<longleftrightarrow> claimant i k s" for i k by (simp add: claimant_def t_def approvalStep_heap)
    have same: "py_next t = py_next s" "ps_ID (py_heap t r) = ps_ID (py_heap s r)" for r by (simp_all add: t_def approvalStep_heap)
    have "r < py_next s \<and> claimant i (ps_ID (py_heap s r)) s" if "(r, i) \<in> set (py_delivered t)" for r i
      using approvalStep_deliveries [OF that [unfolded t_def]] del a by (auto simp: deliveriesOk_def)
    moreover have "claimant i k s" if "py_registry t k = Some i" for i k
      using approvalStep_registry [OF that [unfolded t_def]] del by (simp add: deliveriesOk_def)
    ultimately show ?thesis by (auto simp: deliveriesOk_def mono same)
  qed
  ultimately show ?thesis by (simp add: pairingOk_def t_def)
qed


subsection \<open>Every step\<close>

lemma pairingOk_frame:
  assumes s: "pairingOk s" and t: "py_heap t = py_heap s" "py_next t = py_next s" "py_claims t = py_claims s"
      "py_trusted t = py_trusted s" "py_delivered t = py_delivered s" "py_registry t = py_registry s"
    and store: "\<And>k r. mps_byID (py_store t) k = Some r \<Longrightarrow> mps_byID (py_store s) k = Some r"
    and hand: "py_handlers t = py_handlers s @ hs" "\<forall>h\<in>set hs. ch_phase h = Arrived"
    and appr: "py_approvals t = py_approvals s @ as" "\<forall>a\<in>set as. ap_phase a = ApFetched \<and> ap_ref a < py_next s"
  shows "pairingOk t"
proof -
  have "inFlight r t = inFlight r s" for r using appr by (auto simp: inFlight_def filter_empty_conv)
  moreover have "sameHandlers s t" by (simp add: sameHandlers_def hand(1) nth_append)
  ultimately have "sessionOk r t" for r
    using s by (intro sessionOk_frame [of r s t]) (simp_all add: pairingOk_def t claimsOf_def trustedBy_def)
  moreover have "handlerOk i t" if "i < length (py_handlers t)" for i
  proof (cases "i < length (py_handlers s)")
    case True
    with s show ?thesis by (intro handlerOk_others [of t i s]) (simp_all add: pairingOk_def t hand(1) nth_append)
  next
    case False
    with that have "py_handlers t ! i \<in> set hs" by (simp add: hand(1) nth_append)
    with hand(2) show ?thesis by (simp add: handlerOk_def)
  qed
  moreover have "referencesOk t"
  proof -
    have refs: "referencesOk s" using s by (simp add: pairingOk_def)
    then have "r < py_next s \<and> ps_ID (py_heap s r) = k" if "mps_byID (py_store t) k = Some r" for k r
      using store [OF that] by (simp add: referencesOk_def)
    with refs appr show ?thesis by (auto simp: referencesOk_def t)
  qed
  moreover have "deliveriesOk t"
    using s by (simp add: pairingOk_def deliveriesOk_def claimant_def t)
  ultimately show ?thesis by (simp add: pairingOk_def)
qed

lemma pairingOk_create:
  assumes s: "pairingOk s"
  shows "pairingOk (handlePairingCreate k code s)"
proof (cases "mps_byID (py_store s) k = None")
  case False
  with s show ?thesis by (simp add: handlePairingCreate_def Store_Create_def NewPairingSession_def)
next
  case True
  let ?p = "NewPairingSession k code (py_now s) (300 * nanosPerSecond)"
  define t where "t = s\<lparr>py_heap := (py_heap s)(py_next s := ?p), py_next := py_next s + 1, py_store := Store_put ?p (py_next s) (py_store s)\<rparr>"
  have refs: "referencesOk s" and del: "deliveriesOk s" using s by (simp_all add: pairingOk_def)
  have id: "ps_ID ?p = k" "ps_State ?p = PairingCreated" by (simp_all add: NewPairingSession_def)
  have "sessionOk r t" for r
  proof (cases "r = py_next s")
    case True
    have "sessionOk r s" "ps_State (py_heap s r) = PairingCreated"
      using s True by (simp_all add: pairingOk_def referencesOk_def)
    then show ?thesis using id(2)
      by (simp add: True sessionOk_def t_def claimsOf_def trustedBy_def inFlight_def settled_def)
  next
    case False
    with s show ?thesis
      by (intro sessionOk_frame [of r s t]) (simp_all add: pairingOk_def t_def claimsOf_def trustedBy_def inFlight_def)
  qed
  moreover have "handlerOk i t" if "i < length (py_handlers s)" for i
    using s that by (intro handlerOk_others [of t i s]) (simp_all add: pairingOk_def t_def)
  moreover have "referencesOk t"
    using refs id by (auto simp: referencesOk_def t_def Store_put_def less_Suc_eq)
  moreover have "deliveriesOk t"
  proof -
    have "claimant i q t" if "claimant i q s" for i q
      using claimant_mono [OF that s, of t] by (simp add: t_def)
    with del show ?thesis by (auto simp: deliveriesOk_def t_def less_Suc_eq)
  qed
  ultimately have "pairingOk t" by (simp add: pairingOk_def t_def)
  moreover have "handlePairingCreate k code s = t"
    using True id by (simp add: handlePairingCreate_def Store_Create_def t_def Let_def)
  ultimately show ?thesis by simp
qed

lemma pairingOk_step: "pairingOk s \<Longrightarrow> pairingOk (pairingStep s x)"
proof (cases x)
  case (PApproval k reject)
  assume s: "pairingOk s"
  show ?thesis
  proof (cases "Store_Get k (py_store s)")
    case (Some ref)
    have "ref < py_next s" using s Some by (simp add: pairingOk_def referencesOk_def Store_Get_def)
    then show ?thesis using Some PApproval
      by (auto intro!: pairingOk_frame [OF s, where hs = "[]"])
  qed (use s PApproval in simp)
next
  case (PConnect ip k code device name platform)
  assume s: "pairingOk s"
  show ?thesis using PConnect by (auto intro!: pairingOk_frame [OF s, where as = "[]"])
next
  case (PHandler i)
  assume "pairingOk s"
  with PHandler show ?thesis using pairingOk_claimStep [of s i] by simp
next
  case (PApprovalStep j gen random written)
  assume "pairingOk s"
  with PApprovalStep show ?thesis using pairingOk_approvalStep [of s j] by simp
next
  case (Elapse d)
  assume s: "pairingOk s"
  show ?thesis using Elapse by (auto intro!: pairingOk_frame [OF s, where hs = "[]" and as = "[]"])
next
  case PCleanup
  assume s: "pairingOk s"
  show ?thesis using PCleanup
    by (auto intro!: pairingOk_frame [OF s, where hs = "[]" and as = "[]"] simp: NewMemoryPairingStore_def)
qed (simp add: pairingOk_create)

interpretation pairings: guarded_machine pairingStep pairingOk
  by unfold_locales (rule pairingOk_step)

lemma pairingOk_new: "pairingOk newPairingSys"
  by (simp add: pairingOk_def sessionOk_def newPairingSys_def NewPairingSession_def claimsOf_def trustedBy_def inFlight_def
      settled_def referencesOk_def deliveriesOk_def NewMemoryPairingStore_def)

lemma slotsOk_new: "slotsOk newPairingSys"
  by (simp add: slotsOk_def newPairingSys_def newPairingAttemptGate_def gateOk_def bucketsOk_def slotsHeld_def globalConcurrentClaims_def)


section \<open>What pairing guarantees\<close>

definition pairedRun :: "PairingOp list" where
  "pairedRun =
     [PCreate ''pair_a'' ''123456'', PConnect ''10.0.0.7'' ''pair_a'' ''123456'' ''phone'' ''My phone'' ''ios'',
      PHandler 0, PHandler 0, PHandler 0, PHandler 0, PHandler 0, PApproval ''pair_a'' False,
      PApprovalStep 0 (Some (''token'', ''hash'')) [] True, PApprovalStep 0 None [] True, PApprovalStep 0 None [] True,
      PApprovalStep 0 None [] True]"

lemmas pairing_eval =
  pairedRun_def newPairingSys_def NewPairingSession_def NewMemoryPairingStore_def newPairingAttemptGate_def handlePairingCreate_def
  Store_Create_def Store_put_def Store_Get_def Store_Update_def claimStep_def setPhase_def gateAcquire_def sweepStale_def
  sweepBuckets_def isFull_def maxPairingBuckets_def bucketAllow_def bucketOf_def freshCounts_def sourceIPLimit_def
  globalConcurrentClaims_def Session_Claim_def IsExpired_def resetPairingFailures_def approvalStep_def setApproval_def
  Session_Approve_def deviceOf_def

lemma pairedRun_effects:
  "py_trusted (run pairingStep newPairingSys pairedRun) =
     [(0, \<lparr>td_DeviceID = ''phone'', td_DisplayName = ''My phone'', td_Platform = ''ios'', td_TokenHash = ''hash'',
           td_IdentityPublicKey = [], td_RelayEnabled = False, td_RelayChannelGeneration = 0, td_GrantedScopes = [],
           td_CreatedAt = 0, td_LastSeenAt = 0, td_LastRemoteAddress = [], td_RevokedAt = None\<rparr>)]"
  "py_delivered (run pairingStep newPairingSys pairedRun) = [(0, 0)]"
  "py_claims (run pairingStep newPairingSys pairedRun) = [(0, 0)]"
  "py_next (run pairingStep newPairingSys pairedRun) = 1"
  by (simp_all add: pairing_eval Let_def)



text \<open>
  C38: As long as no two sessions were created with the same random id, the token of an approved session is pushed
  only to the connection whose claim took that session.
\<close>

theorem token_to_claimer:
  assumes "run pairingStep newPairingSys ops = s" and "inj_on (\<lambda>r. ps_ID (py_heap s r)) {..<py_next s}"
    and "(ref, i) \<in> set (py_delivered s)"
  shows "filter (\<lambda>c. fst c = ref) (py_claims s) = [(ref, i)]"
proof -
  have s: "pairingOk s" using pairings.run_good [OF pairingOk_new] assms(1) by blast
  with assms(3) have "ref < py_next s" "claimant i (ps_ID (py_heap s ref)) s" by (auto simp: pairingOk_def deliveriesOk_def)
  then obtain r where r: "(r, i) \<in> set (py_claims s)" "ps_ID (py_heap s r) = ps_ID (py_heap s ref)" by (auto simp: claimant_def)
  have "r = ref"
    using inj_onD [OF assms(2) r(2)] new_session_unclaimed [OF s r(1)] \<open>ref < py_next s\<close> by simp
  with r(1) have mem: "(ref, i) \<in> set (claimsOf ref s)" by (simp add: claimsOf_def)
  moreover have "sessionOk ref s" using s by (simp add: pairingOk_def)
  ultimately have "claimsOf ref s = [(ref, i)]" by (auto simp: sessionOk_def split: if_splits)
  then show ?thesis by (simp add: claimsOf_def)
qed

theorem token_to_claimer_witness:
  "filter (\<lambda>c. fst c = 0) (py_claims (run pairingStep newPairingSys pairedRun)) = [(0, 0)]"
  by (rule token_to_claimer [OF refl]) (simp_all add: pairedRun_effects lessThan_Suc)

text \<open>
  C39: The count of the gate is the number of claiming connections between their admission and their end, never more
  than 16; both tables of the gate hold at most 4096 buckets, and no bucket holds more instants than its limit.
\<close>

theorem claim_slots_bounded:
  "let s = run pairingStep newPairingSys ops; g = py_gate s
   in pg_activeClaims g = int (length (filter (\<lambda>h. ch_phase h \<noteq> Arrived \<and> ch_phase h \<noteq> Gone) (py_handlers s)))
      \<and> pg_activeClaims g \<le> 16
      \<and> length (pg_sourceBuckets g) \<le> 4096 \<and> list_all (\<lambda>(ip, b). length (sb_counts b) \<le> 10) (pg_sourceBuckets g)
      \<and> length (pg_pairFails g) \<le> 4096 \<and> list_all (\<lambda>(k, b). length (sb_counts b) \<le> 5) (pg_pairFails g)"
proof -
  define s where "s = run pairingStep newPairingSys ops"
  have "slotsOk s" unfolding s_def by (rule slots.run_good [OF slotsOk_new])
  moreover have "holdsSlot ph \<longleftrightarrow> ph \<noteq> Arrived \<and> ph \<noteq> Gone" for ph by (cases ph) simp_all
  ultimately have "let g = py_gate s
    in pg_activeClaims g = int (length (filter (\<lambda>h. ch_phase h \<noteq> Arrived \<and> ch_phase h \<noteq> Gone) (py_handlers s)))
      \<and> pg_activeClaims g \<le> 16
      \<and> length (pg_sourceBuckets g) \<le> 4096 \<and> list_all (\<lambda>(ip, b). length (sb_counts b) \<le> 10) (pg_sourceBuckets g)
      \<and> length (pg_pairFails g) \<le> 4096 \<and> list_all (\<lambda>(k, b). length (sb_counts b) \<le> 5) (pg_pairFails g)"
    by (auto simp: slotsOk_def gateOk_def bucketsOk_def slotsHeld_def globalConcurrentClaims_def maxPairingBuckets_def
        sourceIPLimit_def perPairingFailLimit_def list_all_iff Let_def)
  then show ?thesis by (simp add: s_def Let_def)
qed


section \<open>Guessing the code\<close>



text \<open>
  When 4096 other ids have failures that still count, no failure of a session without a bucket is counted, and no
  number of wrong codes exhausts it.
\<close>

definition crowded :: "string \<Rightarrow> instant \<Rightarrow> pairingAttemptGate \<Rightarrow> bool" where
  "crowded k until g \<longleftrightarrow>
     length (pg_pairFails g) \<ge> maxPairingBuckets \<and> k \<notin> fst ` set (pg_pairFails g) \<and>
     (\<forall>(k', b)\<in>set (pg_pairFails g). \<exists>at\<in>set (sb_counts b). until - sb_window b < at)"

lemma sweep_crowded:
  assumes "crowded k until g" and "now \<le> until"
  shows "crowded k until (sweepStale now g)"
proof -
  have keep: "freshCounts now b \<noteq> []" if "(k', b) \<in> set (pg_pairFails g)" for k' b
    using assms that by (fastforce simp: crowded_def freshCounts_def filter_empty_conv)
  have sweep: "sweepBuckets now (pg_pairFails g) = map (\<lambda>(k, b). (k, b\<lparr>sb_counts := freshCounts now b\<rparr>)) (pg_pairFails g)"
    unfolding sweepBuckets_def using keep by (intro filter_True) auto
  have fresh: "\<exists>at\<in>set (freshCounts now b). until - sb_window b < at" if "(k', b) \<in> set (pg_pairFails g)" for k' b
    using assms that by (fastforce simp: crowded_def freshCounts_def)
  show ?thesis using assms(1) fresh by (auto simp: crowded_def sweepStale_def sweep image_iff split: prod.splits)
qed

theorem crowded_gate_counts_nothing:
  assumes "crowded k until g" and "list_all (\<lambda>t. t \<le> until) (ts @ [t])"
  shows "\<not> fst (recordPairingFailure k t (gateAfter g (map (\<lambda>u. (k, u)) ts)))"
proof -
  have step: "\<not> fst (recordPairingFailure k u h) \<and> crowded k until (snd (recordPairingFailure k u h))"
    if "crowded k until h" "u \<le> until" for u h
  proof -
    have c: "crowded k until (sweepStale u h)" by (rule sweep_crowded [OF that])
    then have "isFull k (pg_pairFails (sweepStale u h))" by (simp add: crowded_def isFull_def map_of_eq_None_iff)
    with c show ?thesis by (simp add: recordPairingFailure_def Let_def)
  qed
  have "list_all (\<lambda>t. t \<le> until) ts \<Longrightarrow> crowded k until (gateAfter g (map (\<lambda>u. (k, u)) ts))"
  proof (induction ts rule: rev_induct)
    case (snoc u us)
    then show ?case using step [of "gateAfter g (map (\<lambda>u. (k, u)) us)" u] by (simp add: gateAfter_snoc)
  qed (use assms(1) in \<open>simp add: gateAfter_def\<close>)
  with step [of "gateAfter g (map (\<lambda>u. (k, u)) ts)" t] assms(2) show ?thesis by simp
qed

theorem crowded_gate_counts_nothing_witness:
  "let g = \<lparr>pg_sourceBuckets = [],
      pg_pairFails = map (\<lambda>n. (replicate n CHR ''a'', \<lparr>sb_window = 300 * nanosPerSecond, sb_limit = 5, sb_counts = [100]\<rparr>)) [0..<4096],
      pg_activeClaims = 0\<rparr>
   in \<not> fst (recordPairingFailure ''pair_b'' 160 (gateAfter g (map (\<lambda>u. (''pair_b'', u)) [110, 120, 130, 140, 150])))"
proof -
  have ne: "replicate n CHR ''a'' \<noteq> ''pair_b''" for n by (cases n) auto
  show ?thesis unfolding Let_def using ne ne [symmetric]
    by (intro crowded_gate_counts_nothing [where until = 200]) (simp_all add: crowded_def maxPairingBuckets_def image_iff)
qed


text \<open>Approval does not look at the clock: a session claimed in time is approved hours after it expired.\<close>

lemma approved_after_expiry:
  "map fst (py_trusted (run pairingStep newPairingSys (take 7 pairedRun @ Elapse (7200 * 1000000000) # drop 7 pairedRun))) = [0]"
  by (simp add: pairing_eval Let_def)


end
